(* ===== verification/Pami_Prelude.thy ===== *)
theory Pami_Prelude
  imports Main "HOL-Library.Word" "HOL-Library.Monad_Syntax"
begin

text \<open>
  Shared vocabulary of the development: the machine types of the C++ sources, the result
  codes of \<^verbatim>\<open>sys/pami.h\<close>, the named collections the component proofs
  use, and the generic facts on lists, options and words they share.

  \<^item> \<open>size_t\<close> is the 64-bit unsigned integer of the LP64 platforms the library is built for,
    \<open>pami_task_t\<close> and \<open>uint_t\<close> are 32-bit, as \<^verbatim>\<open>sys/pami.h\<close> line 65 declares.
  \<^item> A pointer is \<open>addr option\<close>: \<open>None\<close> is \<^verbatim>\<open>NULL\<close>. An operation that
    dereferences a pointer the source does not check returns \<open>None\<close> when that pointer is
    \<^verbatim>\<open>NULL\<close>, so a crash is a value of the model.
\<close>

type_synonym size_t = "64 word"
type_synonym uint_t = "32 word"
type_synonym pami_task_t = "32 word"
type_synonym addr = nat
type_synonym ptr = "addr option"

text \<open>The collection of unfolding rules of the model's straight-line operations.\<close>

named_theorems pami_ops

text \<open>Result codes (\<^verbatim>\<open>pami_result_t\<close>) that the modelled operations return.\<close>

datatype pami_result = PAMI_SUCCESS | PAMI_ERROR | PAMI_UNIMPL | PAMI_EAGAIN | PAMI_INVAL | PAMI_ENOMEM

section \<open>Lists\<close>

definition head_ptr :: "addr list \<Rightarrow> ptr" where
  "head_ptr xs = (case xs of [] \<Rightarrow> None | x # _ \<Rightarrow> Some x)"

definition last_ptr :: "addr list \<Rightarrow> ptr" where
  "last_ptr xs = (if xs = [] then None else Some (last xs))"

lemma head_ptr_simps [simp]:
  "head_ptr [] = None" "head_ptr (x # xs) = Some x"
  by (simp_all add: head_ptr_def)

lemma last_ptr_simps [simp]:
  "last_ptr [] = None" "last_ptr (xs @ [x]) = Some x" "last_ptr [y] = Some y"
  "last_ptr (y # z # zs) = last_ptr (z # zs)"
  by (simp_all add: last_ptr_def)

lemma head_ptr_None [simp]: "head_ptr xs = None \<longleftrightarrow> xs = []"
  by (cases xs) simp_all

lemma last_ptr_None [simp]: "last_ptr xs = None \<longleftrightarrow> xs = []"
  by (simp add: last_ptr_def)

lemma head_ptr_Some: "head_ptr xs = Some x \<longleftrightarrow> (\<exists>ys. xs = x # ys)"
  by (cases xs) auto

lemma last_ptr_Some: "last_ptr xs = Some x \<longleftrightarrow> (\<exists>ys. xs = ys @ [x])"
  by (cases xs rule: rev_cases) auto

lemma head_ptr_append [simp]:
  "head_ptr (xs @ ys) = (if xs = [] then head_ptr ys else head_ptr xs)"
  by (cases xs) simp_all

lemma last_ptr_append [simp]:
  "last_ptr (xs @ ys) = (if ys = [] then last_ptr xs else last_ptr ys)"
  by (simp add: last_ptr_def)

lemma head_ptr_rev [simp]: "head_ptr (rev xs) = last_ptr xs"
  by (cases xs rule: rev_cases) simp_all

lemma hd_neq [simp]: "xs \<noteq> [] \<Longrightarrow> a \<notin> set xs \<Longrightarrow> hd xs \<noteq> a"
  by (cases xs) auto

lemma last_neq [simp]: "xs \<noteq> [] \<Longrightarrow> a \<notin> set xs \<Longrightarrow> last xs \<noteq> a"
  by (cases xs rule: rev_cases) auto

lemma hd_neq2 [simp]: "xs \<noteq> [] \<Longrightarrow> a \<notin> set xs \<Longrightarrow> a \<noteq> hd xs"
  by (cases xs) auto

lemma last_neq2 [simp]: "xs \<noteq> [] \<Longrightarrow> a \<notin> set xs \<Longrightarrow> a \<noteq> last xs"
  by (cases xs rule: rev_cases) auto

lemma last_notin_butlast [simp]: "distinct xs \<Longrightarrow> xs \<noteq> [] \<Longrightarrow> last xs \<notin> set (butlast xs)"
  by (cases xs rule: rev_cases) auto

lemma last_notin_disjoint:
  "set xs \<inter> set ys = {} \<Longrightarrow> ys \<noteq> [] \<Longrightarrow> last ys \<notin> set xs"
  "set xs \<inter> set ys = {} \<Longrightarrow> xs \<noteq> [] \<Longrightarrow> last xs \<notin> set ys"
  by (auto dest: last_in_set)

lemma notin_butlast [simp]: "a \<notin> set xs \<Longrightarrow> a \<notin> set (butlast xs)"
  by (auto dest: in_set_butlastD)

lemma notin_tl [simp]: "a \<notin> set xs \<Longrightarrow> a \<notin> set (tl xs)"
  by (cases xs) simp_all

lemma upt_add_split: "[0..<m + n] = [0..<m] @ map (\<lambda>j. m + j) [0..<n]"
  by (induction n) simp_all

lemma upt_split: "i \<le> j \<Longrightarrow> j \<le> k \<Longrightarrow> [i..<k] = [i..<j] @ [j..<k]"
  using upt_add_eq_append [of i j "k - j"] by simp

section \<open>Words\<close>

text \<open>A counter that follows the length of a list is \<open>of_nat\<close> of that length.\<close>

lemma of_nat_length_snoc [simp]:
  "(of_nat (length (xs @ [x])) :: 'a::len word) = of_nat (length xs) + 1"
  by simp

lemma unat_of_nat_small: "n < 2 ^ LENGTH('a::len) \<Longrightarrow> unat (of_nat n :: 'a word) = n"
  by (simp add: unat_of_nat take_bit_nat_eq_self)

lemma word_le_unat: "(x::'a::len word) \<le> y \<longleftrightarrow> unat x \<le> unat y"
  by (rule word_le_nat_alt)

lemma word_less_unat: "(x::'a::len word) < y \<longleftrightarrow> unat x < unat y"
  by (rule word_less_nat_alt)

lemma unat_of_nat64: "n < 2 ^ 64 \<Longrightarrow> unat (of_nat n :: size_t) = n"
  by (simp add: unat_of_nat)

lemma unat64_less: "unat (x::size_t) < 2 ^ 64"
proof -
  have "(unsigned x :: nat) < 2 ^ LENGTH(64)" by (rule unsigned_less)
  then show ?thesis by simp
qed

lemma unat_diff_le: "(y::size_t) \<le> x \<Longrightarrow> unat (x - y) = unat x - unat y"
  by (rule unat_sub)

lemma unat32_less: "unat (x::uint_t) < 2 ^ 32"
proof -
  have "(unsigned x :: nat) < 2 ^ LENGTH(32)" by (rule unsigned_less)
  then show ?thesis by simp
qed

lemma unat_ucast_uint: "unat (ucast (i::uint_t) :: size_t) = unat i"
proof -
  have "unat i < 2 ^ 64" by (rule less_trans [OF unat32_less]) simp
  then show ?thesis by (simp add: unsigned_ucast_eq take_bit_nat_eq_self)
qed

end
