(* ===== verification/Pami_QueueInterface.thy ===== *)
theory Pami_QueueInterface
  imports Pami_Prelude
begin

text \<open>
  The contract of \<^verbatim>\<open>util/queue/QueueInterface.h\<close>, the class template every
  queue of the library derives from: \<open>enqueue\<close> adds at the back, \<open>push\<close> at the front,
  \<open>dequeue\<close> removes from the front, \<open>peek\<close> and \<open>isEmpty\<close> observe. The locale
  \<open>queue_interface\<close> fixes the operations of an implementation and the relation to the list
  of elements it holds; its client lemma runs any program of queue calls against the list.
\<close>

section \<open>Operations and programs of queue calls\<close>

text \<open>The operations of an implementation over its state \<open>'s\<close>. \<open>None\<close> is the
  dereference of a \<^verbatim>\<open>NULL\<close> pointer.\<close>

record 's queue_ops =
  op_enqueue :: "'s \<Rightarrow> addr \<Rightarrow> 's option"
  op_dequeue :: "'s \<Rightarrow> (ptr \<times> 's) option"
  op_push :: "'s \<Rightarrow> addr \<Rightarrow> 's option"
  op_peek :: "'s \<Rightarrow> ptr"
  op_isEmpty :: "'s \<Rightarrow> bool"

datatype qcmd = Enqueue addr | Push addr | Dequeue | Peek | IsEmpty

datatype qout = Done | Elem ptr | Flag bool

fun run_cmd :: "'s queue_ops \<Rightarrow> 's \<Rightarrow> qcmd \<Rightarrow> (qout \<times> 's) option" where
  "run_cmd ops s (Enqueue e) = map_option (Pair Done) (op_enqueue ops s e)"
| "run_cmd ops s (Push e) = map_option (Pair Done) (op_push ops s e)"
| "run_cmd ops s Dequeue = map_option (map_prod Elem id) (op_dequeue ops s)"
| "run_cmd ops s Peek = Some (Elem (op_peek ops s), s)"
| "run_cmd ops s IsEmpty = Some (Flag (op_isEmpty ops s), s)"

fun run_cmds :: "'s queue_ops \<Rightarrow> 's \<Rightarrow> qcmd list \<Rightarrow> (qout list \<times> 's) option" where
  "run_cmds ops s [] = Some ([], s)"
| "run_cmds ops s (c # cs) =
     (case run_cmd ops s c of
        None \<Rightarrow> None
      | Some (out, s') \<Rightarrow> map_option (map_prod ((#) out) id) (run_cmds ops s' cs))"

section \<open>The abstract queue\<close>

fun spec_cmd :: "addr list \<Rightarrow> qcmd \<Rightarrow> qout \<times> addr list" where
  "spec_cmd xs (Enqueue e) = (Done, xs @ [e])"
| "spec_cmd xs (Push e) = (Done, e # xs)"
| "spec_cmd xs Dequeue = (Elem (head_ptr xs), tl xs)"
| "spec_cmd xs Peek = (Elem (head_ptr xs), xs)"
| "spec_cmd xs IsEmpty = (Flag (xs = []), xs)"

fun spec_cmds :: "addr list \<Rightarrow> qcmd list \<Rightarrow> qout list \<times> addr list" where
  "spec_cmds xs [] = ([], xs)"
| "spec_cmds xs (c # cs) =
     (let (out, xs') = spec_cmd xs c; (outs, ys) = spec_cmds xs' cs in (out # outs, ys))"

text \<open>An intrusive element is in at most one place, so a program may only insert an element
  that is not in the queue already.\<close>

fun cmd_ok :: "addr list \<Rightarrow> qcmd \<Rightarrow> bool" where
  "cmd_ok xs (Enqueue e) \<longleftrightarrow> e \<notin> set xs"
| "cmd_ok xs (Push e) \<longleftrightarrow> e \<notin> set xs"
| "cmd_ok xs _ \<longleftrightarrow> True"

fun cmds_ok :: "addr list \<Rightarrow> qcmd list \<Rightarrow> bool" where
  "cmds_ok xs [] \<longleftrightarrow> True"
| "cmds_ok xs (c # cs) \<longleftrightarrow> cmd_ok xs c \<and> cmds_ok (snd (spec_cmd xs c)) cs"

section \<open>The contract\<close>

locale queue_interface =
  fixes ops :: "'s queue_ops"
    and rep :: "'s \<Rightarrow> addr list \<Rightarrow> bool"
  assumes enqueue_law: "rep s xs \<Longrightarrow> e \<notin> set xs \<Longrightarrow> \<exists>s'. op_enqueue ops s e = Some s' \<and> rep s' (xs @ [e])"
    and push_law: "rep s xs \<Longrightarrow> e \<notin> set xs \<Longrightarrow> \<exists>s'. op_push ops s e = Some s' \<and> rep s' (e # xs)"
    and dequeue_Nil_law: "rep s [] \<Longrightarrow> op_dequeue ops s = Some (None, s)"
    and dequeue_Cons_law: "rep s (x # xs) \<Longrightarrow> \<exists>s'. op_dequeue ops s = Some (Some x, s') \<and> rep s' xs"
    and peek_law: "rep s xs \<Longrightarrow> op_peek ops s = head_ptr xs"
    and isEmpty_law: "rep s xs \<Longrightarrow> op_isEmpty ops s \<longleftrightarrow> xs = []"
begin

lemma cmd_refines:
  assumes "rep s xs" and "cmd_ok xs c"
  shows "\<exists>s'. run_cmd ops s c = Some (fst (spec_cmd xs c), s') \<and> rep s' (snd (spec_cmd xs c))"
proof (cases c)
  case (Enqueue e)
  then show ?thesis using assms enqueue_law [of s xs e] by auto
next
  case (Push e)
  then show ?thesis using assms push_law [of s xs e] by auto
next
  case Dequeue
  then show ?thesis
    using assms dequeue_Nil_law [of s] dequeue_Cons_law [of s "hd xs" "tl xs"]
    by (cases xs) auto
next
  case Peek
  then show ?thesis using assms peek_law by simp
next
  case IsEmpty
  then show ?thesis using assms isEmpty_law by simp
qed

text \<open>Every program of calls returns what the abstract queue returns, never dereferences
  \<^verbatim>\<open>NULL\<close>, and leaves the implementation holding the abstract result.\<close>

lemma cmds_refine:
  assumes "rep s xs" and "cmds_ok xs cs"
  shows "\<exists>s'. run_cmds ops s cs = Some (fst (spec_cmds xs cs), s') \<and> rep s' (snd (spec_cmds xs cs))"
  using assms
proof (induction cs arbitrary: s xs)
  case Nil
  then show ?case by simp
next
  case (Cons c cs)
  obtain s1 where s1: "run_cmd ops s c = Some (fst (spec_cmd xs c), s1)"
    and r1: "rep s1 (snd (spec_cmd xs c))"
    using cmd_refines [of s xs c] Cons.prems by auto
  obtain s2 where "run_cmds ops s1 cs = Some (fst (spec_cmds (snd (spec_cmd xs c)) cs), s2)"
    and "rep s2 (snd (spec_cmds (snd (spec_cmd xs c)) cs))"
    using Cons.IH [OF r1] Cons.prems by auto
  then show ?case using s1 by (simp add: case_prod_beta Let_def)
qed

end

text \<open>The double-ended queue of the same file adds the operations that take a reference
  element. \<open>insert\<close> and \<open>append\<close> are only required to work between two neighbours.\<close>

locale deque_interface = queue_interface ops rep
  for ops :: "'s queue_ops" and rep :: "'s \<Rightarrow> addr list \<Rightarrow> bool" +
  fixes tail_op :: "'s \<Rightarrow> ptr"
    and before_op :: "'s \<Rightarrow> addr \<Rightarrow> ptr"
    and remove_op :: "'s \<Rightarrow> addr \<Rightarrow> 's"
    and insert_op append_op :: "'s \<Rightarrow> addr \<Rightarrow> addr \<Rightarrow> 's option"
  assumes tail_law: "rep s xs \<Longrightarrow> tail_op s = last_ptr xs"
    and before_law: "rep s (xs @ x # ys) \<Longrightarrow> before_op s x = last_ptr xs"
    and remove_law: "rep s (xs @ x # ys) \<Longrightarrow> rep (remove_op s x) (xs @ ys)"
    and insert_law: "rep s (xs @ p # r # ys) \<Longrightarrow> e \<notin> set (xs @ p # r # ys) \<Longrightarrow>
          \<exists>s'. insert_op s r e = Some s' \<and> rep s' (xs @ p # e # r # ys)"
    and append_law: "rep s (xs @ p # r # ys) \<Longrightarrow> e \<notin> set (xs @ p # r # ys) \<Longrightarrow>
          \<exists>s'. append_op s p e = Some s' \<and> rep s' (xs @ p # e # r # ys)"
    and distinct_law: "rep s xs \<Longrightarrow> distinct xs"
begin

lemma remove_in:
  assumes "rep s xs" and "x \<in> set xs"
  shows "rep (remove_op s x) (filter (\<lambda>y. y \<noteq> x) xs)"
proof -
  obtain ys zs where xs: "xs = ys @ x # zs" using assms(2) by (meson split_list)
  with distinct_law [OF assms(1)] have "x \<notin> set ys" and "x \<notin> set zs" by auto
  then have "filter (\<lambda>y. y \<noteq> x) ys = ys" and "filter (\<lambda>y. y \<noteq> x) zs = zs"
    by (auto simp: filter_id_conv)
  then have "filter (\<lambda>y. y \<noteq> x) xs = ys @ zs" using xs by simp
  then show ?thesis using remove_law assms(1) xs by simp
qed

text \<open>Removing a set of elements one by one, in any order, leaves the others in place.\<close>

lemma remove_many:
  assumes "rep s xs" and "distinct es" and "set es \<subseteq> set xs"
  shows "rep (foldl remove_op s es) (filter (\<lambda>y. y \<notin> set es) xs)"
  using assms
proof (induction es arbitrary: s xs)
  case Nil
  then show ?case by simp
next
  case (Cons e es)
  have "rep (remove_op s e) (filter (\<lambda>y. y \<noteq> e) xs)"
    using remove_in Cons.prems by simp
  from Cons.IH [OF this] Cons.prems
  have "rep (foldl remove_op (remove_op s e) es) (filter (\<lambda>y. y \<notin> set es) (filter (\<lambda>y. y \<noteq> e) xs))"
    by auto
  then show ?case by (simp add: conj_commute)
qed

end

text \<open>What the abstract queue itself guarantees: elements enqueued into an empty queue come
  out in the order they went in.\<close>

lemma spec_cmds_append:
  "spec_cmds xs (cs @ ds) =
     (fst (spec_cmds xs cs) @ fst (spec_cmds (snd (spec_cmds xs cs)) ds),
      snd (spec_cmds (snd (spec_cmds xs cs)) ds))"
  by (induction cs arbitrary: xs) (simp_all add: case_prod_beta Let_def)

lemma spec_enqueue_all:
  "spec_cmds xs (map Enqueue es) = (map (\<lambda>_. Done) es, xs @ es)"
  by (induction es arbitrary: xs) simp_all

lemma spec_dequeue_all:
  "spec_cmds xs (replicate (length xs) Dequeue) = (map (Elem \<circ> Some) xs, [])"
  by (induction xs) simp_all

lemma cmds_ok_append:
  "cmds_ok xs (cs @ ds) \<longleftrightarrow> cmds_ok xs cs \<and> cmds_ok (snd (spec_cmds xs cs)) ds"
  by (induction cs arbitrary: xs) (simp_all add: case_prod_beta Let_def)

lemma cmds_ok_enqueue_all:
  "cmds_ok xs (map Enqueue es) \<longleftrightarrow> distinct es \<and> set xs \<inter> set es = {}"
  by (induction es arbitrary: xs) auto

lemma cmds_ok_dequeue: "cmds_ok xs (replicate n Dequeue)"
  by (induction n arbitrary: xs) simp_all

end
