(* ===== verification/Pami_Queue.thy ===== *)
theory Pami_Queue
  imports Pami_QueueInterface
begin

text \<open>
  \<^verbatim>\<open>util/queue/Queue.h\<close>: the doubly linked queue, its iterator, and the queue
  interface of \<^verbatim>\<open>util/queue/QueueInterface.h\<close> as a locale.

  The elements are intrusive, so the store \<open>links\<close> keeps the two pointers of every
  element and a queue object keeps \<^verbatim>\<open>_head\<close>, \<^verbatim>\<open>_tail\<close> and
  \<^verbatim>\<open>_size\<close>. The abstraction relations say which list of elements a queue
  holds: \<open>fwd_rep\<close> through the \<^verbatim>\<open>next\<close> pointers only, \<open>dll_rep\<close> through
  both.
\<close>

section \<open>Elements and queue objects\<close>

record links =
  e_prev :: "addr \<Rightarrow> ptr"
  e_next :: "addr \<Rightarrow> ptr"

definition setPrev :: "addr \<Rightarrow> ptr \<Rightarrow> links \<Rightarrow> links" where
  "setPrev a p h = h\<lparr>e_prev := (e_prev h)(a := p)\<rparr>"

definition setNext :: "addr \<Rightarrow> ptr \<Rightarrow> links \<Rightarrow> links" where
  "setNext a n h = h\<lparr>e_next := (e_next h)(a := n)\<rparr>"

definition set_elem :: "addr \<Rightarrow> ptr \<Rightarrow> ptr \<Rightarrow> links \<Rightarrow> links" where
  "set_elem a p n h = setNext a n (setPrev a p h)"

record queue =
  q_head :: ptr
  q_tail :: ptr
  q_size :: size_t

type_synonym qstate = "links \<times> queue"

definition queue_init :: queue where
  "queue_init = \<lparr>q_head = None, q_tail = None, q_size = 0\<rparr>"

section \<open>Operations\<close>

definition enqueue_impl :: "qstate \<Rightarrow> addr \<Rightarrow> qstate" where
  "enqueue_impl s element =
     (let h = set_elem element (q_tail (snd s)) None (fst s); q = snd s in
      case q_tail q of
        None \<Rightarrow> (h, q\<lparr>q_head := Some element, q_tail := Some element, q_size := q_size q + 1\<rparr>)
      | Some t \<Rightarrow>
          (setNext t (Some element) h,
           q\<lparr>q_tail := Some element, q_size := q_size q + 1\<rparr>))"

definition dequeue_impl :: "qstate \<Rightarrow> ptr \<times> qstate" where
  "dequeue_impl s =
     (let h = fst s; q = snd s in
      case q_head q of
        None \<Rightarrow> (None, s)
      | Some element \<Rightarrow>
          (let hd' = e_next h element;
               q1 = q\<lparr>q_head := hd'\<rparr> in
           case hd' of
             None \<Rightarrow> (Some element, setNext element None h,
                      q1\<lparr>q_tail := None, q_size := q_size q - 1\<rparr>)
           | Some x \<Rightarrow> (Some element, setNext element None (setPrev x None h),
                      q1\<lparr>q_size := q_size q - 1\<rparr>)))"

definition push_impl :: "qstate \<Rightarrow> addr \<Rightarrow> qstate" where
  "push_impl s element =
     (let h = set_elem element None (q_head (snd s)) (fst s); q = snd s in
      case q_head q of
        None \<Rightarrow> (h, q\<lparr>q_tail := Some element, q_head := Some element, q_size := q_size q + 1\<rparr>)
      | Some x \<Rightarrow>
          (setPrev x (Some element) h,
           q\<lparr>q_head := Some element, q_size := q_size q + 1\<rparr>))"

definition peek_impl :: "qstate \<Rightarrow> ptr" where
  "peek_impl s = q_head (snd s)"

definition isEmpty_impl :: "qstate \<Rightarrow> bool" where
  "isEmpty_impl s \<longleftrightarrow> q_head (snd s) = None"

definition next_impl :: "qstate \<Rightarrow> addr \<Rightarrow> ptr" where
  "next_impl s reference = e_next (fst s) reference"

definition removeAll_impl :: "qstate \<Rightarrow> (ptr \<times> ptr \<times> size_t) \<times> qstate" where
  "removeAll_impl s =
     (let q = snd s; out = (q_head q, q_tail q, q_size q) in
      if q_head q \<noteq> None
      then (out, fst s, q\<lparr>q_head := None, q_tail := None, q_size := 0\<rparr>)
      else (out, s))"

definition appendAll_impl :: "qstate \<Rightarrow> ptr \<Rightarrow> ptr \<Rightarrow> size_t \<Rightarrow> qstate" where
  "appendAll_impl s first final n =
     (let h = fst s; q = snd s in
      case q_tail q of
        Some t \<Rightarrow> (setNext t first h, q\<lparr>q_tail := final, q_size := q_size q + n\<rparr>)
      | None \<Rightarrow> (h, q\<lparr>q_head := first, q_tail := final, q_size := q_size q + n\<rparr>))"

definition popTail_impl :: "qstate \<Rightarrow> ptr \<times> qstate" where
  "popTail_impl s =
     (let h = fst s; q = snd s in
      case q_tail q of
        None \<Rightarrow> (None, s)
      | Some element \<Rightarrow>
          (let tl' = e_prev h element;
               q1 = q\<lparr>q_tail := tl'\<rparr> in
           case tl' of
             None \<Rightarrow> (Some element, setPrev element None h,
                      q1\<lparr>q_head := None, q_size := q_size q - 1\<rparr>)
           | Some x \<Rightarrow> (Some element, setPrev element None (setNext x None h),
                      q1\<lparr>q_size := q_size q - 1\<rparr>)))"

definition tail_impl :: "qstate \<Rightarrow> ptr" where
  "tail_impl s = q_tail (snd s)"

definition before_impl :: "qstate \<Rightarrow> addr \<Rightarrow> ptr" where
  "before_impl s reference = e_prev (fst s) reference"

text \<open>\<open>insert_impl\<close> and \<open>append_impl\<close> write through a neighbour they do not test for
  \<^verbatim>\<open>NULL\<close>; the model returns \<open>None\<close> there.\<close>

definition insert_impl :: "qstate \<Rightarrow> addr \<Rightarrow> addr \<Rightarrow> qstate option" where
  "insert_impl s reference element =
     (let h = fst s; q = snd s; rprev = e_prev h reference;
          h1 = set_elem element rprev (Some reference) h in
      case rprev of
        None \<Rightarrow> None
      | Some rp \<Rightarrow>
          Some (setPrev reference (Some element) (setNext rp (Some element) h1),
                q\<lparr>q_size := q_size q + 1\<rparr>))"

definition append_impl :: "qstate \<Rightarrow> addr \<Rightarrow> addr \<Rightarrow> qstate option" where
  "append_impl s reference element =
     (let h = fst s; q = snd s; rnext = e_next h reference;
          h1 = setNext reference (Some element) (set_elem element (Some reference) rnext h) in
      case rnext of
        None \<Rightarrow> None
      | Some rn \<Rightarrow> Some (setPrev rn (Some element) h1, q\<lparr>q_size := q_size q + 1\<rparr>))"

definition remove_impl :: "qstate \<Rightarrow> addr \<Rightarrow> qstate" where
  "remove_impl s element =
     (let h = fst s; q = snd s; p = e_prev h element; n = e_next h element;
          (h1, q1) = (case p of Some a \<Rightarrow> (setNext a n h, q) | None \<Rightarrow> (h, q\<lparr>q_head := n\<rparr>));
          (h2, q2) = (case n of Some b \<Rightarrow> (setPrev b p h1, q1) | None \<Rightarrow> (h1, q1\<lparr>q_tail := p\<rparr>))
      in (h2, q2\<lparr>q_size := q_size q2 - 1\<rparr>))"

definition safe_remove :: "qstate \<Rightarrow> ptr \<Rightarrow> ptr \<Rightarrow> qstate" where
  "safe_remove s par nxt =
     (let h = fst s; q = snd s;
          (h1, q1) = (case par of None \<Rightarrow> (h, q\<lparr>q_head := nxt\<rparr>) | Some a \<Rightarrow> (setNext a nxt h, q));
          (h2, q2) = (case nxt of None \<Rightarrow> (h1, q1\<lparr>q_tail := par\<rparr>) | Some b \<Rightarrow> (setPrev b par h1, q1))
      in (h2, q2\<lparr>q_size := q_size q2 - 1\<rparr>))"

definition size_impl :: "qstate \<Rightarrow> size_t" where
  "size_impl s = q_size (snd s)"

text \<open>The walk of \<open>insertElem_impl\<close>: \<open>insert = insert->next()\<close>, \<open>k\<close> times.\<close>

fun walk_next :: "links \<Rightarrow> nat \<Rightarrow> ptr \<Rightarrow> ptr" where
  "walk_next h 0 p = p"
| "walk_next h (Suc k) p = (case p of None \<Rightarrow> None | Some a \<Rightarrow> walk_next h k (e_next h a))"

definition insertElem_impl :: "qstate \<Rightarrow> addr \<Rightarrow> nat \<Rightarrow> qstate option" where
  "insertElem_impl s element position =
     (if position = 0
      then (let s1 = push_impl s element in
            Some (fst s1, (snd s1)\<lparr>q_size := q_size (snd s1) + 1\<rparr>))
      else (case walk_next (fst s) (position - 1) (q_head (snd s)) of
              None \<Rightarrow> None
            | Some ins \<Rightarrow>
                Some (setNext ins (Some element)
                        (set_elem element (Some ins) (e_next (fst s) ins) (fst s)),
                      (snd s)\<lparr>q_size := q_size (snd s) + 1\<rparr>)))"

section \<open>The iterator\<close>

record queue_iter =
  it_parent :: ptr
  it_curr :: ptr
  it_next :: ptr

definition iter_init_impl :: "queue_iter" where
  "iter_init_impl = \<lparr>it_parent = None, it_curr = None, it_next = None\<rparr>"

definition iter_begin_impl :: "qstate \<Rightarrow> queue_iter \<Rightarrow> bool \<times> queue_iter" where
  "iter_begin_impl s it = (False, it\<lparr>it_parent := None, it_curr := peek_impl s\<rparr>)"

definition iter_check_impl :: "qstate \<Rightarrow> queue_iter \<Rightarrow> bool \<times> queue_iter" where
  "iter_check_impl s it =
     (case it_curr it of
        None \<Rightarrow> (False, it)
      | Some c \<Rightarrow> (True, it\<lparr>it_next := next_impl s c\<rparr>))"

definition iter_end_impl :: "queue_iter \<Rightarrow> queue_iter" where
  "iter_end_impl it = it\<lparr>it_parent := it_curr it, it_curr := it_next it\<rparr>"

definition iter_current_impl :: "queue_iter \<Rightarrow> ptr" where
  "iter_current_impl it = it_curr it"

definition iter_remove_impl :: "qstate \<Rightarrow> queue_iter \<Rightarrow> pami_result \<times> qstate \<times> queue_iter" where
  "iter_remove_impl s it =
     (PAMI_SUCCESS, safe_remove s (it_parent it) (it_next it), it\<lparr>it_curr := it_parent it\<rparr>)"

text \<open>A pass over the queue as \<^verbatim>\<open>QueueIteratorInterface.h\<close> documents it:
  \<open>begin\<close>, then while \<open>check\<close> succeeds visit \<open>current\<close>, remove it when the client's
  predicate says so, and \<open>end\<close>. The pass visits at most one element per unit of fuel.\<close>

fun iter_pass :: "nat \<Rightarrow> (addr \<Rightarrow> bool) \<Rightarrow> qstate \<Rightarrow> queue_iter \<Rightarrow> qstate option" where
  "iter_pass 0 P s it = None"
| "iter_pass (Suc fuel) P s it =
     (case iter_check_impl s it of
        (False, _) \<Rightarrow> Some s
      | (True, it1) \<Rightarrow>
          (case iter_current_impl it1 of
             None \<Rightarrow> None
           | Some e \<Rightarrow>
               if P e
               then (let (_, s2, it2) = iter_remove_impl s it1
                     in iter_pass fuel P s2 (iter_end_impl it2))
               else iter_pass fuel P s (iter_end_impl it1)))"

section \<open>Which list a queue holds\<close>

text \<open>\<open>nxt_chain h xs\<close>: each element of \<open>xs\<close> points to the one after it;
  \<open>prv_chain h xs\<close>: each points back to the one before it. What lies at the two ends is
  left open, so that the linear and the circular queue share the lemmas.\<close>

fun nxt_chain :: "links \<Rightarrow> addr list \<Rightarrow> bool" where
  "nxt_chain h (x # y # zs) \<longleftrightarrow> e_next h x = Some y \<and> nxt_chain h (y # zs)"
| "nxt_chain h _ \<longleftrightarrow> True"

fun prv_chain :: "links \<Rightarrow> addr list \<Rightarrow> bool" where
  "prv_chain h (x # y # zs) \<longleftrightarrow> e_prev h y = Some x \<and> prv_chain h (y # zs)"
| "prv_chain h _ \<longleftrightarrow> True"

definition fwd_rep :: "qstate \<Rightarrow> addr list \<Rightarrow> bool" where
  "fwd_rep s xs \<longleftrightarrow>
     distinct xs \<and> q_head (snd s) = head_ptr xs \<and> q_tail (snd s) = last_ptr xs \<and>
     q_size (snd s) = of_nat (length xs) \<and> nxt_chain (fst s) xs \<and>
     (xs \<noteq> [] \<longrightarrow> e_next (fst s) (last xs) = None)"

definition dll_rep :: "qstate \<Rightarrow> addr list \<Rightarrow> bool" where
  "dll_rep s xs \<longleftrightarrow>
     fwd_rep s xs \<and> prv_chain (fst s) xs \<and> (xs \<noteq> [] \<longrightarrow> e_prev (fst s) (hd xs) = None)"

lemma links_set_simps [simp]:
  "e_prev (setPrev a p h) = (e_prev h)(a := p)"
  "e_next (setPrev a p h) = e_next h"
  "e_next (setNext a p h) = (e_next h)(a := p)"
  "e_prev (setNext a p h) = e_prev h"
  by (simp_all add: setPrev_def setNext_def)

lemma set_elem_simps [simp]:
  "e_prev (set_elem a p n h) = (e_prev h)(a := p)"
  "e_next (set_elem a p n h) = (e_next h)(a := n)"
  by (simp_all add: set_elem_def)

text \<open>A chain depends only on the pointers inside it.\<close>

lemma nxt_chain_cong:
  "(\<And>a. a \<in> set (butlast xs) \<Longrightarrow> e_next h a = e_next h' a) \<Longrightarrow> nxt_chain h xs = nxt_chain h' xs"
  by (induction h xs rule: nxt_chain.induct) auto

lemma prv_chain_cong:
  "(\<And>a. a \<in> set (tl xs) \<Longrightarrow> e_prev h a = e_prev h' a) \<Longrightarrow> prv_chain h xs = prv_chain h' xs"
proof (induction h xs rule: prv_chain.induct)
  case (1 h x y zs)
  have "prv_chain h (y # zs) = prv_chain h' (y # zs)"
    by (rule "1.IH") (use "1.prems" in auto)
  then show ?case using "1.prems" [of y] by simp
qed auto

lemma nxt_chain_setPrev [simp]: "nxt_chain (setPrev a p h) xs = nxt_chain h xs"
  by (rule nxt_chain_cong) simp

lemma prv_chain_setNext [simp]: "prv_chain (setNext a p h) xs = prv_chain h xs"
  by (rule prv_chain_cong) simp

lemma nxt_chain_setNext [simp]:
  "a \<notin> set (butlast xs) \<Longrightarrow> nxt_chain (setNext a p h) xs = nxt_chain h xs"
  by (rule nxt_chain_cong) auto

lemma prv_chain_setPrev [simp]:
  "a \<notin> set (tl xs) \<Longrightarrow> prv_chain (setPrev a p h) xs = prv_chain h xs"
  by (rule prv_chain_cong) auto

lemma nxt_chain_set_elem [simp]:
  "a \<notin> set (butlast xs) \<Longrightarrow> nxt_chain (set_elem a p n h) xs = nxt_chain h xs"
  by (rule nxt_chain_cong) auto

lemma prv_chain_set_elem [simp]:
  "a \<notin> set (tl xs) \<Longrightarrow> prv_chain (set_elem a p n h) xs = prv_chain h xs"
  by (rule prv_chain_cong) auto

lemma nxt_chain_append:
  "nxt_chain h (xs @ y # ys) \<longleftrightarrow> nxt_chain h (xs @ [y]) \<and> nxt_chain h (y # ys)"
  by (induction h xs rule: nxt_chain.induct) auto

lemma prv_chain_append:
  "prv_chain h (xs @ y # ys) \<longleftrightarrow> prv_chain h (xs @ [y]) \<and> prv_chain h (y # ys)"
  by (induction h xs rule: prv_chain.induct) auto

text \<open>The same split at a point with a successor, oriented for the simplifier.\<close>

lemma nxt_chain_split:
  "nxt_chain h (xs @ y # z # zs) \<longleftrightarrow>
     nxt_chain h (xs @ [y]) \<and> e_next h y = Some z \<and> nxt_chain h (z # zs)"
  using nxt_chain_append [of h xs y "z # zs"] by auto

lemma prv_chain_split:
  "prv_chain h (xs @ y # z # zs) \<longleftrightarrow>
     prv_chain h (xs @ [y]) \<and> e_prev h z = Some y \<and> prv_chain h (z # zs)"
  using prv_chain_append [of h xs y "z # zs"] by auto

lemma nxt_chain_join:
  "xs \<noteq> [] \<Longrightarrow> ys \<noteq> [] \<Longrightarrow> nxt_chain h (xs @ ys) \<longleftrightarrow>
     nxt_chain h xs \<and> e_next h (last xs) = Some (hd ys) \<and> nxt_chain h ys"
  by (cases xs rule: rev_cases; cases ys) (simp_all add: nxt_chain_split)

lemma prv_chain_join:
  "xs \<noteq> [] \<Longrightarrow> ys \<noteq> [] \<Longrightarrow> prv_chain h (xs @ ys) \<longleftrightarrow>
     prv_chain h xs \<and> e_prev h (hd ys) = Some (last xs) \<and> prv_chain h ys"
  by (cases xs rule: rev_cases; cases ys) (simp_all add: prv_chain_split)

lemmas chain_join = nxt_chain_join prv_chain_join
  nxt_chain_join [of "x # xs" for x xs, simplified] prv_chain_join [of "x # xs" for x xs, simplified]

lemmas chain_split = nxt_chain_split prv_chain_split

lemma nxt_chain_Cons:
  "nxt_chain h (x # xs) \<longleftrightarrow> (xs \<noteq> [] \<longrightarrow> e_next h x = head_ptr xs) \<and> nxt_chain h xs"
  by (cases xs) auto

lemma prv_chain_Cons:
  "prv_chain h (x # xs) \<longleftrightarrow> (xs \<noteq> [] \<longrightarrow> e_prev h (hd xs) = Some x) \<and> prv_chain h xs"
  by (cases xs) auto

lemma fwd_rep_distinct: "fwd_rep s xs \<Longrightarrow> distinct xs"
  by (simp add: fwd_rep_def)

lemma dll_rep_fwd: "dll_rep s xs \<Longrightarrow> fwd_rep s xs"
  by (simp add: dll_rep_def)

lemma fwd_rep_size: "fwd_rep s xs \<Longrightarrow> size_impl s = of_nat (length xs)"
  by (simp add: fwd_rep_def size_impl_def)

text \<open>In a chain that ends in \<^verbatim>\<open>NULL\<close>, the successor of an element is the head
  of what follows it.\<close>

lemma fwd_rep_next:
  "fwd_rep s (xs @ x # ys) \<Longrightarrow> e_next (fst s) x = head_ptr ys"
  by (cases ys) (auto simp: fwd_rep_def nxt_chain_split)

lemma dll_rep_prev:
  "dll_rep s (xs @ x # ys) \<Longrightarrow> e_prev (fst s) x = last_ptr xs"
  by (cases xs rule: rev_cases) (auto simp: dll_rep_def prv_chain_split)

lemma queue_init_rep [simp]: "dll_rep (h, queue_init) []"
  by (simp add: dll_rep_def fwd_rep_def queue_init_def)

section \<open>The operations on the abstract list\<close>

text \<open>\<open>enqueue\<close>, \<open>dequeue\<close>, \<open>push\<close>, the iterator's \<open>safe_remove\<close> and \<open>appendAll\<close> need
  the forward chain only; \<open>popTail\<close>, \<open>insert\<close>, \<open>append\<close> and \<open>remove\<close> need both.\<close>

lemma enqueue_fwd:
  "fwd_rep s xs \<Longrightarrow> e \<notin> set xs \<Longrightarrow> fwd_rep (enqueue_impl s e) (xs @ [e])"
  by (cases xs rule: rev_cases)
    (auto simp: fwd_rep_def enqueue_impl_def nxt_chain_split)

lemma enqueue_dll:
  "dll_rep s xs \<Longrightarrow> e \<notin> set xs \<Longrightarrow> dll_rep (enqueue_impl s e) (xs @ [e])"
  using enqueue_fwd [of s xs e]
  by (cases xs rule: rev_cases)
    (auto simp: dll_rep_def enqueue_impl_def fwd_rep_def prv_chain_split hd_append)

lemma dequeue_empty: "fwd_rep s [] \<Longrightarrow> dequeue_impl s = (None, s)"
  by (simp add: fwd_rep_def dequeue_impl_def)

lemma dequeue_fst: "fwd_rep s (x # xs) \<Longrightarrow> fst (dequeue_impl s) = Some x"
  by (cases xs) (simp_all add: fwd_rep_def dequeue_impl_def Let_def)

lemma dequeue_fwd: "fwd_rep s (x # xs) \<Longrightarrow> fwd_rep (snd (dequeue_impl s)) xs"
  by (cases xs) (simp_all add: fwd_rep_def dequeue_impl_def Let_def)

lemma dequeue_dll: "dll_rep s (x # xs) \<Longrightarrow> dll_rep (snd (dequeue_impl s)) xs"
  by (cases xs) (simp_all add: dll_rep_def fwd_rep_def dequeue_impl_def Let_def)

lemma push_fwd:
  "fwd_rep s xs \<Longrightarrow> e \<notin> set xs \<Longrightarrow> fwd_rep (push_impl s e) (e # xs)"
  by (cases xs) (auto simp: fwd_rep_def push_impl_def)


lemma push_dll:
  "dll_rep s xs \<Longrightarrow> e \<notin> set xs \<Longrightarrow> dll_rep (push_impl s e) (e # xs)"
  using push_fwd [of s xs e]
  by (cases xs) (auto simp: dll_rep_def fwd_rep_def push_impl_def)

lemma peek_fwd: "fwd_rep s xs \<Longrightarrow> peek_impl s = head_ptr xs"
  by (simp add: fwd_rep_def peek_impl_def)

lemma isEmpty_fwd: "fwd_rep s xs \<Longrightarrow> isEmpty_impl s \<longleftrightarrow> xs = []"
  by (simp add: fwd_rep_def isEmpty_impl_def)

lemma popTail_fst: "dll_rep s (xs @ [x]) \<Longrightarrow> fst (popTail_impl s) = Some x"
  by (cases xs rule: rev_cases)
    (simp_all add: dll_rep_def fwd_rep_def popTail_impl_def chain_split Let_def)

lemma popTail_dll: "dll_rep s (xs @ [x]) \<Longrightarrow> dll_rep (snd (popTail_impl s)) xs"
  by (cases xs rule: rev_cases)
    (simp_all add: dll_rep_def fwd_rep_def popTail_impl_def chain_split Let_def hd_append
       split: if_splits)

lemma insert_dll:
  assumes "dll_rep s (xs @ p # r # ys)" and "e \<notin> set (xs @ p # r # ys)"
  shows "\<exists>s'. insert_impl s r e = Some s' \<and> dll_rep s' (xs @ p # e # r # ys)"
  using assms
  by (cases ys)
    (simp_all add: dll_rep_def fwd_rep_def insert_impl_def chain_split Let_def hd_append
       split: if_splits)

lemma append_dll:
  assumes "dll_rep s (xs @ r # n # ys)" and "e \<notin> set (xs @ r # n # ys)"
  shows "\<exists>s'. append_impl s r e = Some s' \<and> dll_rep s' (xs @ r # e # n # ys)"
  using assms
  by (cases ys)
    (simp_all add: dll_rep_def fwd_rep_def append_impl_def chain_split Let_def hd_append
       split: if_splits)


lemma remove_dll: "dll_rep s (xs @ x # ys) \<Longrightarrow> dll_rep (remove_impl s x) (xs @ ys)"
  by (cases xs rule: rev_cases; cases ys)
    (simp_all add: dll_rep_def fwd_rep_def remove_impl_def chain_split Let_def hd_append
       split: if_splits)

lemma safe_remove_fwd:
  "fwd_rep s (xs @ x # ys) \<Longrightarrow> fwd_rep (safe_remove s (last_ptr xs) (head_ptr ys)) (xs @ ys)"
  by (cases xs rule: rev_cases; cases ys)
    (simp_all add: fwd_rep_def safe_remove_def chain_split Let_def)

lemma safe_remove_dll:
  "dll_rep s (xs @ x # ys) \<Longrightarrow> dll_rep (safe_remove s (last_ptr xs) (head_ptr ys)) (xs @ ys)"
  by (cases xs rule: rev_cases; cases ys)
    (simp_all add: dll_rep_def fwd_rep_def safe_remove_def chain_split Let_def hd_append
       split: if_splits)

lemma removeAll_fwd:
  assumes "fwd_rep (h, q) xs"
  shows "removeAll_impl (h, q) = ((head_ptr xs, last_ptr xs, of_nat (length xs)), (h, queue_init))"
  using assms by (cases xs) (simp_all add: fwd_rep_def removeAll_impl_def queue_init_def Let_def)

lemma appendAll_fwd:
  assumes "fwd_rep (h, q) xs" and "fwd_rep (h, q') ys" and "ys \<noteq> []" and "set xs \<inter> set ys = {}"
  shows "fwd_rep (appendAll_impl (h, q) (head_ptr ys) (last_ptr ys) (of_nat (length ys))) (xs @ ys)"
  using assms
  by (cases xs rule: rev_cases; cases ys)
    (simp_all add: fwd_rep_def appendAll_impl_def chain_split Let_def)

lemma iter_pass_filter:
  assumes "fwd_rep s (xs @ ys)" and "it_parent it = last_ptr xs" and "it_curr it = head_ptr ys"
    and "length ys < fuel"
  shows "\<exists>s'. iter_pass fuel P s it = Some s' \<and> fwd_rep s' (xs @ filter (\<lambda>e. \<not> P e) ys)"
  using assms
proof (induction ys arbitrary: s xs it fuel)
  case Nil
  then obtain f where "fuel = Suc f" by (cases fuel) auto
  with Nil show ?case by (simp add: iter_check_impl_def)
next
  case (Cons y ys)
  then obtain f where f: "fuel = Suc f" "length ys < f" by (cases fuel) auto
  have nx: "e_next (fst s) y = head_ptr ys"
    using Cons.prems(1) by (rule fwd_rep_next)
  show ?case
  proof (cases "P y")
    case True
    have "fwd_rep (safe_remove s (last_ptr xs) (head_ptr ys)) (xs @ ys)"
      using Cons.prems(1) by (rule safe_remove_fwd)
    from Cons.IH [OF this _ _ f(2)] show ?thesis
      using True Cons.prems f nx
      by (simp add: iter_check_impl_def iter_current_impl_def iter_remove_impl_def
          iter_end_impl_def next_impl_def)
  next
    case False
    have "fwd_rep s ((xs @ [y]) @ ys)" using Cons.prems(1) by simp
    from Cons.IH [OF this _ _ f(2)] show ?thesis
      using False Cons.prems f nx
      by (simp add: iter_check_impl_def iter_current_impl_def iter_end_impl_def next_impl_def)
  qed
qed


section \<open>The queue interface\<close>

definition Queue_ops :: "qstate queue_ops" where
  "Queue_ops = \<lparr>op_enqueue = (\<lambda>s e. Some (enqueue_impl s e)),
     op_dequeue = (\<lambda>s. Some (dequeue_impl s)),
     op_push = (\<lambda>s e. Some (push_impl s e)),
     op_peek = peek_impl, op_isEmpty = isEmpty_impl\<rparr>"

lemma Queue_ops_simps [simp]:
  "op_enqueue Queue_ops s e = Some (enqueue_impl s e)"
  "op_dequeue Queue_ops s = Some (dequeue_impl s)"
  "op_push Queue_ops s e = Some (push_impl s e)"
  "op_peek Queue_ops = peek_impl" "op_isEmpty Queue_ops = isEmpty_impl"
  by (simp_all add: Queue_ops_def)

interpretation fwd: queue_interface Queue_ops fwd_rep
proof unfold_locales
  fix s x xs
  assume "fwd_rep s (x # xs)"
  then show "\<exists>s'. op_dequeue Queue_ops s = Some (Some x, s') \<and> fwd_rep s' xs"
    using dequeue_fwd [of s x xs] dequeue_fst [of s x xs]
    by (intro exI [of _ "snd (dequeue_impl s)"]) (simp add: prod_eq_iff)
qed (simp_all add: enqueue_fwd push_fwd dequeue_empty peek_fwd isEmpty_fwd)


interpretation dll: deque_interface Queue_ops dll_rep tail_impl before_impl remove_impl
    insert_impl append_impl
proof unfold_locales
  fix s x xs
  assume "dll_rep s (x # xs)"
  then show "\<exists>s'. op_dequeue Queue_ops s = Some (Some x, s') \<and> dll_rep s' xs"
    using dequeue_dll [of s x xs] dequeue_fst [of s x xs] dll_rep_fwd
    by (intro exI [of _ "snd (dequeue_impl s)"]) (simp add: prod_eq_iff)
next
  fix s xs
  assume "dll_rep s xs"
  then show "tail_impl s = last_ptr xs" and "distinct xs"
    by (simp_all add: dll_rep_def fwd_rep_def tail_impl_def)
next
  fix s xs x ys
  assume "dll_rep s (xs @ x # ys)"
  then show "before_impl s x = last_ptr xs" and "dll_rep (remove_impl s x) (xs @ ys)"
    by (simp_all add: before_impl_def dll_rep_prev remove_dll)
qed (simp_all only: enqueue_dll push_dll dequeue_empty peek_fwd isEmpty_fwd dll_rep_fwd
    Queue_ops_simps option.inject ex_simps simp_thms insert_dll append_dll)

section \<open>Where the code departs from its documentation\<close>

text \<open>\<^verbatim>\<open>QueueInterface.h\<close> documents \<open>push(e) == insert(head(),e)\<close> and
  \<open>enqueue(e) == append(tail(),e)\<close>. In this class both right-hand sides write through the
  missing neighbour of the end element.\<close>

lemma insert_head_null:
  "dll_rep s (x # xs) \<Longrightarrow> insert_impl s x e = None"
  using dll_rep_prev [of s "[]" x xs] by (simp add: insert_impl_def Let_def)

lemma append_tail_null:
  "dll_rep s (xs @ [x]) \<Longrightarrow> append_impl s x e = None"
  using fwd_rep_next [of s xs x "[]"] by (simp add: append_impl_def dll_rep_def Let_def)


text \<open>After \<open>appendAll\<close> the first appended element still has no \<^verbatim>\<open>prev\<close>
  pointer, so \<open>remove\<close> takes it for the head.\<close>

lemma remove_after_appendAll:
  assumes "dll_rep (h, q) xs" and "dll_rep (h, q') (y # ys)" and "xs \<noteq> []"
    and "set xs \<inter> set (y # ys) = {}"
  shows "q_head (snd (remove_impl
           (appendAll_impl (h, q) (Some y) (last_ptr (y # ys)) (of_nat (length (y # ys)))) y)) = head_ptr ys"
proof -
  let ?s = "appendAll_impl (h, q) (Some y) (last_ptr (y # ys)) (of_nat (length (y # ys)))"
  have "e_prev (fst ?s) y = None"
    using assms(2) by (simp add: dll_rep_def appendAll_impl_def Let_def split: option.split)
  moreover have "e_next (fst ?s) y = head_ptr ys"
    using appendAll_fwd [of h q xs q' "y # ys"] assms fwd_rep_next [of ?s xs y ys]
    by (simp add: dll_rep_def)
  ultimately show ?thesis
    by (simp add: remove_impl_def Let_def split: option.split)
qed

section \<open>Properties\<close>

text \<open>C1: any program of \<open>enqueue\<close>, \<open>push\<close>, \<open>dequeue\<close>, \<open>peek\<close> and \<open>isEmpty\<close> calls on
  the linked queue returns, call by call, what the abstract list queue returns, never
  dereferences \<^verbatim>\<open>NULL\<close>, and ends in a queue that holds the abstract result
  with all \<^verbatim>\<open>next\<close> and \<^verbatim>\<open>prev\<close> pointers, \<^verbatim>\<open>_head\<close>,
  \<^verbatim>\<open>_tail\<close> and \<^verbatim>\<open>_size\<close> right.\<close>

theorem queue_refines_list:
  assumes "dll_rep s xs" and "cmds_ok xs cs"
  shows "\<exists>s'. run_cmds Queue_ops s cs = Some (fst (spec_cmds xs cs), s') \<and>
           dll_rep s' (snd (spec_cmds xs cs))"
  using assms by (rule dll.cmds_refine)

theorem queue_refines_list_witness:
  "dll_rep (\<lparr>e_prev = (\<lambda>_. None), e_next = (\<lambda>_. None)\<rparr>, queue_init) [] \<and>
   cmds_ok [] [Enqueue 1, Enqueue 2, Push 3, Dequeue, Dequeue] \<and>
   (\<exists>s'. run_cmds Queue_ops (\<lparr>e_prev = (\<lambda>_. None), e_next = (\<lambda>_. None)\<rparr>, queue_init)
           [Enqueue 1, Enqueue 2, Push 3, Dequeue, Dequeue] =
         Some ([Done, Done, Done, Elem (Some 3), Elem (Some 1)], s') \<and> dll_rep s' [2])"
  using queue_refines_list [of "(\<lparr>e_prev = (\<lambda>_. None), e_next = (\<lambda>_. None)\<rparr>, queue_init)" "[]"
      "[Enqueue 1, Enqueue 2, Push 3, Dequeue, Dequeue]"]
  by simp

text \<open>C5: a complete iterator pass over the queue, with the client's predicate deciding
  which elements to remove, visits every element, terminates, and leaves exactly the
  elements the client kept, in order. The pass relies on the forward chain alone, so it is
  also right after \<open>appendAll\<close>.\<close>

theorem iterator_pass_filters:
  assumes "fwd_rep s xs"
  shows "\<exists>s'. iter_pass (Suc (length xs)) P s (snd (iter_begin_impl s it)) = Some s' \<and>
           fwd_rep s' (filter (\<lambda>e. \<not> P e) xs)"
  using iter_pass_filter [of s "[]" xs "snd (iter_begin_impl s it)" "Suc (length xs)" P] assms
  by (simp add: iter_begin_impl_def peek_fwd)

theorem iterator_pass_filters_witness:
  "fwd_rep (enqueue_impl (enqueue_impl (\<lparr>e_prev = Map.empty, e_next = Map.empty\<rparr>, queue_init) 1) 2) [1, 2] \<and>
   (\<exists>s'. iter_pass 3 (\<lambda>e. e = 1)
           (enqueue_impl (enqueue_impl (\<lparr>e_prev = Map.empty, e_next = Map.empty\<rparr>, queue_init) 1) 2)
           (snd (iter_begin_impl
             (enqueue_impl (enqueue_impl (\<lparr>e_prev = Map.empty, e_next = Map.empty\<rparr>, queue_init) 1) 2)
             iter_init_impl)) = Some s' \<and> fwd_rep s' [2])"
proof -
  let ?s = "enqueue_impl (enqueue_impl (\<lparr>e_prev = Map.empty, e_next = Map.empty\<rparr>, queue_init) 1) 2"
  have h: "fwd_rep ?s [1, 2]"
    by (simp add: fwd_rep_def enqueue_impl_def queue_init_def)
  show ?thesis
    using h iterator_pass_filters [OF h, of "\<lambda>e. e = 1" iter_init_impl]
    by (simp add: numeral_3_eq_3)
qed

text \<open>C6: removing any set of elements from the doubly linked queue by \<open>remove_impl\<close>, one
  by one and in any order, leaves the other elements in place and in order.\<close>

theorem queue_remove_many:
  assumes "dll_rep s xs" and "distinct es" and "set es \<subseteq> set xs"
  shows "dll_rep (foldl remove_impl s es) (filter (\<lambda>y. y \<notin> set es) xs)"
  using assms by (rule dll.remove_many)

theorem queue_remove_many_witness:
  "dll_rep (push_impl (push_impl (\<lparr>e_prev = Map.empty, e_next = Map.empty\<rparr>, queue_init) 7) 8) [8, 7] \<and>
   dll_rep (foldl remove_impl (push_impl (push_impl (\<lparr>e_prev = Map.empty, e_next = Map.empty\<rparr>, queue_init) 7) 8) [7]) [8]"
proof -
  let ?s = "push_impl (push_impl (\<lparr>e_prev = Map.empty, e_next = Map.empty\<rparr>, queue_init) 7) 8"
  have h: "dll_rep ?s [8, 7]"
    by (simp add: dll_rep_def fwd_rep_def push_impl_def queue_init_def)
  show ?thesis using h queue_remove_many [OF h, of "[7]"] by simp
qed



end
