(* ===== verification/Pami_CircularQueue.thy ===== *)
theory Pami_CircularQueue
  imports Pami_Queue
begin

text \<open>
  \<^verbatim>\<open>util/queue/CircularQueue.h\<close>: a queue that keeps a single
  \<^verbatim>\<open>_head\<close> pointer; the tail is the element before the head. The elements are
  those of \<open>Pami_Queue\<close>, and the class satisfies the same interface.
\<close>

section \<open>Operations\<close>

type_synonym cqstate = "links \<times> ptr"

definition cq_init :: ptr where
  "cq_init = None"

text \<open>\<^verbatim>\<open>enqueue_impl (CircularQueue *)\<close> splices another queue of the same store
  onto the end; the result is the store, this head and the other head.\<close>

definition cq_enqueue_queue_impl :: "links \<Rightarrow> ptr \<Rightarrow> ptr \<Rightarrow> (links \<times> ptr \<times> ptr) option" where
  "cq_enqueue_queue_impl h this other =
     (case other of
        None \<Rightarrow> Some (h, this, other)
      | Some o1 \<Rightarrow>
          (case this of
             None \<Rightarrow> Some (h, other, None)
           | Some t1 \<Rightarrow>
               (case (e_prev h t1, e_prev h o1) of
                  (Some t0, Some t2) \<Rightarrow>
                    Some (setPrev t1 (Some t2) (setPrev o1 (Some t0)
                           (setNext t2 (Some t1) (setNext t0 (Some o1) h))), this, None)
                | _ \<Rightarrow> None)))"

definition cq_enqueue_impl :: "cqstate \<Rightarrow> addr \<Rightarrow> cqstate option" where
  "cq_enqueue_impl s element =
     (let h = fst s in
      case snd s of
        None \<Rightarrow> Some (set_elem element (Some element) (Some element) h, Some element)
      | Some x \<Rightarrow>
          if e_next h x = Some x
          then Some (set_elem x (Some element) (Some element)
                       (set_elem element (Some x) (Some x) h), Some x)
          else (let h1 = set_elem element (e_prev h x) (Some x) h in
                case e_prev h1 x of
                  None \<Rightarrow> None
                | Some t \<Rightarrow> Some (setPrev x (Some element) (setNext t (Some element) h1), Some x)))"

definition cq_dequeue_impl :: "cqstate \<Rightarrow> (ptr \<times> cqstate) option" where
  "cq_dequeue_impl s =
     (let h = fst s in
      case snd s of
        None \<Rightarrow> Some (None, s)
      | Some element \<Rightarrow>
          if e_next h element = Some element
          then Some (Some element, h, None)
          else (case e_next h element of
                  None \<Rightarrow> None
                | Some n \<Rightarrow>
                    (let h1 = setPrev n (e_prev h element) h in
                     case e_prev h1 element of
                       None \<Rightarrow> None
                     | Some p \<Rightarrow> Some (Some element, setNext p (Some n) h1, Some n))))"

definition cq_push_impl :: "cqstate \<Rightarrow> addr \<Rightarrow> cqstate option" where
  "cq_push_impl s element =
     (let h = fst s in
      case snd s of
        None \<Rightarrow> Some (set_elem element (Some element) (Some element) h, Some element)
      | Some x \<Rightarrow>
          (let h1 = set_elem element (e_prev h x) (Some x) h in
           case e_prev h1 x of
             None \<Rightarrow> None
           | Some t \<Rightarrow> Some (setPrev x (Some element) (setNext t (Some element) h1),
                             Some element)))"

definition cq_peek_impl :: "cqstate \<Rightarrow> ptr" where
  "cq_peek_impl s = snd s"

definition cq_isEmpty_impl :: "cqstate \<Rightarrow> bool" where
  "cq_isEmpty_impl s \<longleftrightarrow> snd s = None"

definition cq_next_impl :: "cqstate \<Rightarrow> addr \<Rightarrow> ptr" where
  "cq_next_impl s reference =
     (let n = e_next (fst s) reference in if n = snd s then None else n)"

section \<open>Which list a circular queue holds\<close>

definition circ_rep :: "cqstate \<Rightarrow> addr list \<Rightarrow> bool" where
  "circ_rep s xs \<longleftrightarrow>
     distinct xs \<and> snd s = head_ptr xs \<and>
     (xs \<noteq> [] \<longrightarrow> nxt_chain (fst s) (xs @ [hd xs]) \<and> prv_chain (fst s) (xs @ [hd xs]))"

text \<open>The two ends of a non-empty circular queue are neighbours.\<close>

lemma circ_rep_iff:
  "circ_rep s xs \<longleftrightarrow>
     distinct xs \<and> snd s = head_ptr xs \<and>
     (xs \<noteq> [] \<longrightarrow> nxt_chain (fst s) xs \<and> prv_chain (fst s) xs \<and>
        e_next (fst s) (last xs) = Some (hd xs) \<and> e_prev (fst s) (hd xs) = Some (last xs))"
  by (auto simp: circ_rep_def chain_join)

lemma circ_rep_Nil: "circ_rep s [] \<longleftrightarrow> snd s = None"
  by (simp add: circ_rep_def)

lemma cq_enqueue_rep:
  assumes "circ_rep s xs" and "e \<notin> set xs"
  shows "\<exists>s'. cq_enqueue_impl s e = Some s' \<and> circ_rep s' (xs @ [e])"
proof (cases xs)
  case Nil
  then show ?thesis using assms by (simp add: cq_enqueue_impl_def circ_rep_iff)
next
  case (Cons x ys)
  have "e_next (fst s) x = Some x \<longleftrightarrow> ys = []"
    using assms Cons by (cases ys) (auto simp: circ_rep_iff)
  then show ?thesis using assms Cons
    by (cases ys) (simp_all add: cq_enqueue_impl_def circ_rep_iff chain_join Let_def)
qed

lemma cq_push_rep:
  assumes "circ_rep s xs" and "e \<notin> set xs"
  shows "\<exists>s'. cq_push_impl s e = Some s' \<and> circ_rep s' (e # xs)"
  using assms
  by (cases xs) (simp_all add: cq_push_impl_def circ_rep_iff nxt_chain_Cons prv_chain_Cons Let_def)

lemma cq_dequeue_rep:
  assumes "circ_rep s (x # xs)"
  shows "\<exists>s'. cq_dequeue_impl s = Some (Some x, s') \<and> circ_rep s' xs"
  using assms
  by (cases xs) (auto simp: cq_dequeue_impl_def circ_rep_iff Let_def)

text \<open>Splicing: the other queue's elements follow, in order, and the other queue is empty.\<close>

lemma cq_enqueue_queue_rep:
  assumes "circ_rep (h, p) xs" and "circ_rep (h, r) ys" and "set xs \<inter> set ys = {}"
  shows "\<exists>h' p'. cq_enqueue_queue_impl h p r = Some (h', p', None) \<and> circ_rep (h', p') (xs @ ys)"
  using assms
  by (cases xs; cases ys)
    (simp_all add: cq_enqueue_queue_impl_def circ_rep_iff chain_join last_notin_disjoint)

lemma cq_next_rep:
  assumes "circ_rep s (xs @ x # ys)"
  shows "cq_next_impl s x = head_ptr ys"
proof (cases ys)
  case Nil
  then show ?thesis using assms by (cases xs) (simp_all add: circ_rep_iff cq_next_impl_def)
next
  case (Cons y zs)
  then have "e_next (fst s) x = Some y" and "snd s \<noteq> Some y"
    using assms by (auto simp: circ_rep_iff nxt_chain_split head_ptr_Some split: if_splits)
  then show ?thesis using Cons by (auto simp: cq_next_impl_def)
qed

section \<open>The queue interface\<close>

definition CircularQueue_ops :: "cqstate queue_ops" where
  "CircularQueue_ops = \<lparr>op_enqueue = cq_enqueue_impl, op_dequeue = cq_dequeue_impl,
     op_push = cq_push_impl, op_peek = cq_peek_impl, op_isEmpty = cq_isEmpty_impl\<rparr>"

lemma CircularQueue_ops_simps [simp]:
  "op_enqueue CircularQueue_ops = cq_enqueue_impl"
  "op_dequeue CircularQueue_ops = cq_dequeue_impl"
  "op_push CircularQueue_ops = cq_push_impl"
  "op_peek CircularQueue_ops = cq_peek_impl" "op_isEmpty CircularQueue_ops = cq_isEmpty_impl"
  by (simp_all add: CircularQueue_ops_def)

interpretation circ: queue_interface CircularQueue_ops circ_rep
proof unfold_locales
  show "circ_rep s [] \<Longrightarrow> op_dequeue CircularQueue_ops s = Some (None, s)" for s
    by (simp add: circ_rep_Nil cq_dequeue_impl_def)
  show "circ_rep s xs \<Longrightarrow> op_peek CircularQueue_ops s = head_ptr xs" for s xs
    by (simp add: circ_rep_def cq_peek_impl_def)
  show "circ_rep s xs \<Longrightarrow> op_isEmpty CircularQueue_ops s = (xs = [])" for s xs
    by (simp add: circ_rep_def cq_isEmpty_impl_def)
qed (unfold CircularQueue_ops_simps,
    (erule (1) cq_enqueue_rep | erule (1) cq_push_rep | erule cq_dequeue_rep)+)

end
