(* ===== verification/Pami_TypeCode.thy ===== *)
theory Pami_TypeCode
  imports Pami_Prelude
begin

text \<open>
  \<^verbatim>\<open>common/type/TypeCode.h\<close>: the builder of non-contiguous data types. A type is
  a byte code: a \<open>BEGIN\<close> header, then \<open>COPY\<close>, \<open>CALL\<close> and \<open>SHIFT\<close> instructions, \<open>END\<close>, and the
  codes of the called sub-types. The builder merges instructions while they are added;
  \<open>Complete\<close> computes the properties of the layout and appends the sub-type codes.

  The code buffer is the list of its instructions. Every instruction carries the
  \<^verbatim>\<open>prev_opcode\<close> stored in front of it, and \<open>tc_next_prev\<close> is the one stored at the
  cursor, because \<open>Top\<close> and \<open>Pop\<close> rely on it: when the buffer grows, the bytes at the cursor are
  not copied and \<open>tc_next_prev\<close> becomes \<open>tc_fresh\<close>, whatever new memory holds. Reading an
  instruction of another kind than the one stored is \<open>None\<close>.
\<close>

section \<open>Instructions\<close>

datatype primitive_type =
    PRIMITIVE_TYPE_BYTE
  | PRIMITIVE_TYPE_SIGNED_CHAR | PRIMITIVE_TYPE_SIGNED_SHORT | PRIMITIVE_TYPE_SIGNED_INT
  | PRIMITIVE_TYPE_SIGNED_LONG | PRIMITIVE_TYPE_SIGNED_LONG_LONG
  | PRIMITIVE_TYPE_UNSIGNED_CHAR | PRIMITIVE_TYPE_UNSIGNED_SHORT | PRIMITIVE_TYPE_UNSIGNED_INT
  | PRIMITIVE_TYPE_UNSIGNED_LONG | PRIMITIVE_TYPE_UNSIGNED_LONG_LONG
  | PRIMITIVE_TYPE_FLOAT | PRIMITIVE_TYPE_DOUBLE | PRIMITIVE_TYPE_LONG_DOUBLE
  | PRIMITIVE_TYPE_LOGICAL1 | PRIMITIVE_TYPE_LOGICAL2 | PRIMITIVE_TYPE_LOGICAL4
  | PRIMITIVE_TYPE_LOGICAL8
  | PRIMITIVE_TYPE_SINGLE_COMPLEX | PRIMITIVE_TYPE_DOUBLE_COMPLEX
  | PRIMITIVE_TYPE_LOC_2INT | PRIMITIVE_TYPE_LOC_2FLOAT | PRIMITIVE_TYPE_LOC_2DOUBLE
  | PRIMITIVE_TYPE_LOC_SHORT_INT | PRIMITIVE_TYPE_LOC_FLOAT_INT | PRIMITIVE_TYPE_LOC_DOUBLE_INT
  | PRIMITIVE_TYPE_LOC_LONG_INT | PRIMITIVE_TYPE_LOC_LONGDOUBLE_INT
  | PRIMITIVE_TYPE_COUNT | PRIMITIVE_TYPE_UNDEFINED

record begin_t =
  bg_contiguous :: bool
  bg_simple :: bool
  bg_primitive :: primitive_type
  bg_depth :: uint_t
  bg_code_size :: size_t
  bg_data_size :: size_t
  bg_extent :: size_t
  bg_num_blocks :: size_t
  bg_unit :: size_t
  bg_atom_size :: size_t

datatype op =
    BEGIN begin_t
  | COPY size_t size_t size_t   \<comment> \<open>bytes, stride, reps\<close>
  | CALL addr size_t size_t     \<comment> \<open>sub-type (pointer, then offset), stride, reps\<close>
  | SHIFT size_t
  | END

text \<open>\<open>OP_JUNK\<close> stands for every value of the field that is no opcode.\<close>

datatype opcode = OP_BEGIN | OP_COPY | OP_CALL | OP_SHIFT | OP_END | OP_JUNK

fun opcode_of :: "op \<Rightarrow> opcode" where
  "opcode_of (BEGIN _) = OP_BEGIN"
| "opcode_of (COPY _ _ _) = OP_COPY"
| "opcode_of (CALL _ _ _) = OP_CALL"
| "opcode_of (SHIFT _) = OP_SHIFT"
| "opcode_of END = OP_END"

text \<open>\<^verbatim>\<open>sizeof\<close> of the instruction structures under LP64.\<close>

definition sz_Op :: nat where "sz_Op = 8"

fun op_size :: "op \<Rightarrow> nat" where
  "op_size (BEGIN _) = 64"
| "op_size (COPY _ _ _) = 32"
| "op_size (CALL _ _ _) = 32"
| "op_size (SHIFT _) = 16"
| "op_size END = 8"

definition sz_Begin :: nat where "sz_Begin = 64"

type_synonym cell = "opcode \<times> op"

definition code_bytes :: "cell list \<Rightarrow> nat" where
  "code_bytes cs = (\<Sum>c\<leftarrow>cs. op_size (snd c))"

record typecode =
  tc_begin :: begin_t
  tc_ops :: "cell list"
  tc_next_prev :: opcode
  tc_buf_size :: nat
  tc_completed :: bool
  tc_fresh :: opcode

definition code_cursor :: "typecode \<Rightarrow> nat" where
  "code_cursor tc = sz_Begin + code_bytes (tc_ops tc)"

section \<open>The code buffer\<close>

definition ResizeCodeBuffer :: "nat \<Rightarrow> typecode \<Rightarrow> typecode" where
  "ResizeCodeBuffer new_size tc =
     (if new_size \<le> tc_buf_size tc then tc
      else tc\<lparr>tc_buf_size := new_size, tc_next_prev := tc_fresh tc\<rparr>)"

definition CheckCodeBuffer :: "nat \<Rightarrow> typecode \<Rightarrow> typecode" where
  "CheckCodeBuffer inc tc =
     (if tc_buf_size tc < code_cursor tc + inc then ResizeCodeBuffer (tc_buf_size tc * 2) tc else tc)"

definition AddCodeSize :: "size_t \<Rightarrow> typecode \<Rightarrow> typecode" where
  "AddCodeSize inc tc =
     tc\<lparr>tc_begin := (tc_begin tc)\<lparr>bg_code_size := bg_code_size (tc_begin tc) + inc\<rparr>\<rparr>"

definition Push :: "op \<Rightarrow> typecode \<Rightarrow> typecode" where
  "Push c tc =
     (let tc1 = CheckCodeBuffer (op_size c + sz_Op) tc in
      AddCodeSize (of_nat (op_size c))
        (tc1\<lparr>tc_ops := tc_ops tc1 @ [(tc_next_prev tc1, c)], tc_next_prev := opcode_of c\<rparr>))"

text \<open>\<open>Top oc tc\<close>: \<open>Some None\<close> when the stored previous opcode differs, \<open>Some (Some c)\<close>
  when it agrees and the last instruction is of that kind.\<close>

definition Top :: "opcode \<Rightarrow> typecode \<Rightarrow> op option option" where
  "Top oc tc =
     (if tc_next_prev tc \<noteq> oc then Some None
      else if tc_ops tc \<noteq> [] \<and> opcode_of (snd (last (tc_ops tc))) = oc
           then Some (Some (snd (last (tc_ops tc)))) else None)"

definition Pop :: "typecode \<Rightarrow> typecode" where
  "Pop tc =
     (if tc_ops tc = [] then tc
      else AddCodeSize (0 - of_nat (op_size (snd (last (tc_ops tc)))))
             (tc\<lparr>tc_ops := butlast (tc_ops tc), tc_next_prev := fst (last (tc_ops tc))\<rparr>))"

section \<open>Header accessors\<close>

definition GetCodeSize :: "typecode \<Rightarrow> size_t" where "GetCodeSize tc = bg_code_size (tc_begin tc)"
definition GetDataSize :: "typecode \<Rightarrow> size_t" where "GetDataSize tc = bg_data_size (tc_begin tc)"
definition GetExtent :: "typecode \<Rightarrow> size_t" where "GetExtent tc = bg_extent (tc_begin tc)"
definition GetDepth :: "typecode \<Rightarrow> uint_t" where "GetDepth tc = bg_depth (tc_begin tc)"
definition GetNumBlocks :: "typecode \<Rightarrow> size_t" where "GetNumBlocks tc = bg_num_blocks (tc_begin tc)"
definition GetUnit :: "typecode \<Rightarrow> size_t" where "GetUnit tc = bg_unit (tc_begin tc)"
definition GetAtomSize :: "typecode \<Rightarrow> size_t" where "GetAtomSize tc = bg_atom_size (tc_begin tc)"
definition GetPrimitive :: "typecode \<Rightarrow> primitive_type" where "GetPrimitive tc = bg_primitive (tc_begin tc)"
definition IsCompleted :: "typecode \<Rightarrow> bool" where "IsCompleted tc = tc_completed tc"
definition IsSimple :: "typecode \<Rightarrow> bool" where "IsSimple tc = bg_simple (tc_begin tc)"
definition IsContiguous :: "typecode \<Rightarrow> bool" where "IsContiguous tc = bg_contiguous (tc_begin tc)"

definition IsPrimitive :: "typecode \<Rightarrow> bool" where
  "IsPrimitive tc \<longleftrightarrow> GetPrimitive tc \<notin> {PRIMITIVE_TYPE_COUNT, PRIMITIVE_TYPE_UNDEFINED}"

definition SetPrimitive :: "primitive_type \<Rightarrow> typecode \<Rightarrow> typecode" where
  "SetPrimitive p tc = tc\<lparr>tc_begin := (tc_begin tc)\<lparr>bg_primitive := p\<rparr>\<rparr>"

text \<open>\<open>SetAtomSize\<close> asserts that the atom divides the unit; a zero atom traps in the
  remainder.\<close>

definition SetAtomSize :: "size_t \<Rightarrow> typecode \<Rightarrow> typecode option" where
  "SetAtomSize a tc =
     (if a = 0 \<or> GetUnit tc mod a \<noteq> 0 then None
      else Some (tc\<lparr>tc_begin := (tc_begin tc)\<lparr>bg_atom_size := a\<rparr>\<rparr>))"

definition AddDataSize :: "size_t \<Rightarrow> begin_t \<Rightarrow> begin_t" where
  "AddDataSize n b = b\<lparr>bg_data_size := bg_data_size b + n\<rparr>"
definition AddExtent :: "size_t \<Rightarrow> begin_t \<Rightarrow> begin_t" where
  "AddExtent n b = b\<lparr>bg_extent := bg_extent b + n\<rparr>"
definition AddNumBlocks :: "size_t \<Rightarrow> begin_t \<Rightarrow> begin_t" where
  "AddNumBlocks n b = b\<lparr>bg_num_blocks := bg_num_blocks b + n\<rparr>"
definition SetSimple :: "bool \<Rightarrow> begin_t \<Rightarrow> begin_t" where
  "SetSimple v b = b\<lparr>bg_simple := v\<rparr>"
definition SetContiguous :: "bool \<Rightarrow> begin_t \<Rightarrow> begin_t" where
  "SetContiguous v b = b\<lparr>bg_contiguous := v\<rparr>"

definition UpdateDepth :: "uint_t \<Rightarrow> begin_t \<Rightarrow> begin_t" where
  "UpdateDepth d b = (if bg_depth b < d then b\<lparr>bg_depth := d\<rparr> else b)"

text \<open>\<^verbatim>\<open>Math::GCD\<close> of \<^verbatim>\<open>arch/MathInterface.h\<close>.\<close>

function Math_GCD :: "size_t \<Rightarrow> size_t \<Rightarrow> size_t" where
  "Math_GCD a b = (if b \<noteq> 0 then Math_GCD b (a mod b) else a)"
  by pat_completeness auto
termination
  by (relation "measure (\<lambda>(a, b). unat b)")
    (auto simp: word_less_nat_alt [symmetric] word_mod_less_divisor word_neq_0_conv)

declare Math_GCD.simps [simp del]

definition UpdateUnit :: "size_t \<Rightarrow> begin_t \<Rightarrow> begin_t" where
  "UpdateUnit n b = (if bg_unit b = 0 then b\<lparr>bg_unit := n\<rparr> else b\<lparr>bg_unit := Math_GCD (bg_unit b) n\<rparr>)"


section \<open>The builder\<close>

text \<open>The constructor: an empty buffer of \<^verbatim>\<open>sizeof(Begin) + 4 * sizeof(Copy)\<close> and
  the header pushed.\<close>

definition TypeCode_new :: "opcode \<Rightarrow> typecode" where
  "TypeCode_new fresh =
     \<lparr>tc_begin = \<lparr>bg_contiguous = True, bg_simple = True, bg_primitive = PRIMITIVE_TYPE_UNDEFINED,
        bg_depth = 1, bg_code_size = of_nat sz_Begin, bg_data_size = 0, bg_extent = 0,
        bg_num_blocks = 0, bg_unit = 0, bg_atom_size = 0\<rparr>,
      tc_ops = [], tc_next_prev = OP_BEGIN, tc_buf_size = sz_Begin + 4 * 32,
      tc_completed = False, tc_fresh = fresh\<rparr>"

lemma Pop_shorter: "tc_ops tc \<noteq> [] \<Longrightarrow> length (tc_ops (Pop tc)) < length (tc_ops tc)"
  by (simp add: Pop_def AddCodeSize_def)

lemma Top_nonempty: "Top oc tc = Some (Some c) \<Longrightarrow> tc_ops tc \<noteq> []"
  by (auto simp: Top_def split: if_splits)

text \<open>\<open>AddShift\<close> and \<open>AddSimpleInternal\<close> call each other: each step either pops an
  instruction or moves from a repeated contiguous copy to a single one, or from an empty copy
  to a shift.\<close>

function AddShift :: "size_t \<Rightarrow> typecode \<Rightarrow> typecode option"
  and AddSimpleInternal :: "size_t \<Rightarrow> size_t \<Rightarrow> size_t \<Rightarrow> typecode \<Rightarrow> typecode option" where
  "AddShift shift tc =
     (if tc_completed tc then None
      else if shift = 0 then Some tc
      else (case Top OP_SHIFT tc of
              None \<Rightarrow> None
            | Some (Some (SHIFT prev)) \<Rightarrow> AddShift (prev + shift) (Pop tc)
            | Some _ \<Rightarrow>
                (case Top OP_COPY tc of
                   None \<Rightarrow> None
                 | Some (Some (COPY b s r)) \<Rightarrow>
                     if r = 1 then AddSimpleInternal b (s + shift) 1 (Pop tc)
                     else Some (Push (SHIFT shift) tc)
                 | Some _ \<Rightarrow> Some (Push (SHIFT shift) tc))))"
| "AddSimpleInternal bytes stride reps tc =
     (if reps = 0 then Some tc
      else if bytes = 0 then AddShift (stride * reps) tc
      else if bytes = stride \<and> 1 < reps then AddSimpleInternal (bytes * reps) (stride * reps) 1 tc
      else (case Top OP_COPY tc of
              None \<Rightarrow> None
            | Some (Some (COPY b s r)) \<Rightarrow>
                if b = s \<and> reps = 1 then AddSimpleInternal (b + bytes) (s + stride) 1 (Pop tc)
                else if b = bytes \<and> s = stride then AddSimpleInternal bytes stride (r + reps) (Pop tc)
                else Some (Push (COPY bytes stride reps) tc)
            | Some _ \<Rightarrow> Some (Push (COPY bytes stride reps) tc)))"
  by pat_completeness auto
termination
proof (relation "measures [\<lambda>x. case x of Inl (k, tc) \<Rightarrow> length (tc_ops tc)
      | Inr (b, s, r, tc) \<Rightarrow> length (tc_ops tc),
    \<lambda>x. case x of Inl _ \<Rightarrow> 0 | Inr (b, s, r, tc) \<Rightarrow> if 1 < r then 2 else 1]", goal_cases)
qed (auto dest!: Top_nonempty Pop_shorter)

declare AddShift.simps [simp del] AddSimpleInternal.simps [simp del]

definition AddSimple :: "size_t \<Rightarrow> size_t \<Rightarrow> size_t \<Rightarrow> typecode \<Rightarrow> typecode option" where
  "AddSimple bytes stride reps tc =
     (if tc_completed tc then None
      else AddSimpleInternal bytes stride reps
             (if bytes \<noteq> 0 then SetPrimitive PRIMITIVE_TYPE_COUNT tc else tc))"

text \<open>\<open>AddTypedInternal\<close>: sub-types are completed objects of the store \<open>st\<close>, named by their
  address. A simple sub-type must begin with a \<open>COPY\<close> (asserted).\<close>

function AddTypedInternal ::
    "(addr \<Rightarrow> typecode) \<Rightarrow> addr \<Rightarrow> size_t \<Rightarrow> size_t \<Rightarrow> typecode \<Rightarrow> typecode option" where
  "AddTypedInternal st sub stride reps tc =
     (if reps = 0 then Some tc
      else if IsContiguous (st sub) then AddSimpleInternal (GetDataSize (st sub)) stride reps tc
      else (let call =
              (case Top OP_CALL tc of
                 None \<Rightarrow> None
               | Some (Some (CALL a s r)) \<Rightarrow>
                   if a = sub \<and> s = stride then AddTypedInternal st sub stride (r + reps) (Pop tc)
                   else Some (Push (CALL sub stride reps) tc)
               | Some _ \<Rightarrow> Some (Push (CALL sub stride reps) tc)) in
            if IsSimple (st sub)
            then (case tc_ops (st sub) of
                    (_, COPY b s r) # _ \<Rightarrow>
                      if stride = GetExtent (st sub) then AddSimpleInternal b s (r * reps) tc
                      else if r = 1 then AddSimpleInternal b stride reps tc
                      else call
                  | _ \<Rightarrow> None)
            else call))"
  by pat_completeness auto
termination
  by (relation "measure (\<lambda>(st, sub, s, r, tc). length (tc_ops tc))")
    (auto dest!: Top_nonempty Pop_shorter)

declare AddTypedInternal.simps [simp del]

definition AddTyped ::
    "(addr \<Rightarrow> typecode) \<Rightarrow> addr \<Rightarrow> size_t \<Rightarrow> size_t \<Rightarrow> typecode \<Rightarrow> typecode option" where
  "AddTyped st sub stride reps tc =
     (if tc_completed tc \<or> \<not> tc_completed (st sub) then None
      else (let p = GetPrimitive (st sub);
                tc1 = (if GetPrimitive tc = PRIMITIVE_TYPE_UNDEFINED then SetPrimitive p tc else tc) in
            case AddTypedInternal st sub stride reps tc1 of
              None \<Rightarrow> None
            | Some tc2 \<Rightarrow>
                Some (if p \<noteq> GetPrimitive tc2 then SetPrimitive PRIMITIVE_TYPE_COUNT tc2 else tc2)))"

section \<open>Completion\<close>

text \<open>The code of a type as it stands in its buffer.\<close>

definition full_code :: "typecode \<Rightarrow> cell list" where
  "full_code tc = (OP_JUNK, BEGIN (tc_begin tc)) # tc_ops tc"

text \<open>The loop of \<open>Complete\<close> over the type's own instructions: \<open>pc\<close> and \<open>cur\<close> are the offsets
  of the current instruction and of the end of the code. It returns the instructions with
  their \<open>CALL\<close>s relocated, the sub-type codes appended behind them, and the header. An
  instruction list that does not end in \<open>END\<close> runs into the bogus-opcode assertion.\<close>

fun complete_loop ::
    "(addr \<Rightarrow> typecode) \<Rightarrow> nat \<Rightarrow> nat \<Rightarrow> cell list \<Rightarrow> begin_t \<Rightarrow> (cell list \<times> cell list \<times> begin_t) option" where
  "complete_loop st pc cur [] hdr = None"
| "complete_loop st pc cur ((p, COPY b s r) # cs) hdr =
     (let h1 = (if p \<noteq> OP_BEGIN then SetSimple False hdr else hdr);
          h2 = UpdateUnit b (AddNumBlocks r (AddExtent (s * r) (AddDataSize (b * r) h1))) in
      case complete_loop st (pc + 32) cur cs h2 of
        None \<Rightarrow> None
      | Some (own, app, h) \<Rightarrow> Some ((p, COPY b s r) # own, app, h))"
| "complete_loop st pc cur ((p, CALL a s r) # cs) hdr =
     (let sub = st a;
          h1 = SetSimple False hdr;
          h2 = h1\<lparr>bg_code_size := bg_code_size h1 + GetCodeSize sub\<rparr>;
          h3 = AddExtent (s * r) (AddDataSize (GetDataSize sub * r) h2);
          h4 = UpdateUnit (GetUnit sub)
                 (AddNumBlocks (GetNumBlocks sub * r) (UpdateDepth (GetDepth sub + 1) h3)) in
      case complete_loop st (pc + 32) (cur + code_bytes (full_code sub)) cs h4 of
        None \<Rightarrow> None
      | Some (own, app, h) \<Rightarrow> Some ((p, CALL (cur - pc) s r) # own, full_code sub @ app, h))"
| "complete_loop st pc cur ((p, SHIFT k) # cs) hdr =
     (case complete_loop st (pc + 16) cur cs (AddExtent k (SetSimple False hdr)) of
        None \<Rightarrow> None
      | Some (own, app, h) \<Rightarrow> Some ((p, SHIFT k) # own, app, h))"
| "complete_loop st pc cur ((p, END) # cs) hdr =
     Some ((p, END) # cs, [], if p = OP_BEGIN then SetSimple False hdr else hdr)"
| "complete_loop st pc cur ((p, BEGIN b) # cs) hdr = None"

text \<open>The contiguity check after the loop; \<open>None\<close> is the failing assertion.\<close>

definition check_contiguous :: "cell list \<Rightarrow> begin_t \<Rightarrow> begin_t option" where
  "check_contiguous cs hdr =
     (if \<not> bg_simple hdr then Some (SetContiguous False hdr)
      else (case cs of
              (_, COPY b s r) # _ \<Rightarrow>
                if b \<noteq> s then Some (SetContiguous False hdr)
                else if r = 1 then Some hdr else None
            | _ \<Rightarrow> None))"

definition Complete :: "(addr \<Rightarrow> typecode) \<Rightarrow> typecode \<Rightarrow> typecode option" where
  "Complete st tc =
     (if tc_completed tc then None
      else (let tc1 = Push END tc in
            case complete_loop st sz_Begin (code_cursor tc1) (tc_ops tc1) (tc_begin tc1) of
              None \<Rightarrow> None
            | Some (own, app, h) \<Rightarrow>
                (case check_contiguous own h of
                   None \<Rightarrow> None
                 | Some h1 \<Rightarrow>
                     (let h2 = (if bg_primitive h1 = PRIMITIVE_TYPE_UNDEFINED
                                then h1\<lparr>bg_primitive := PRIMITIVE_TYPE_COUNT\<rparr> else h1) in
                      Some (tc1\<lparr>tc_begin := h2, tc_ops := own @ app,
                              tc_buf_size := max (tc_buf_size tc1) (unat (bg_code_size h2)),
                              tc_completed := True\<rparr>)))))"

text \<open>The predefined contiguous types: \<open>TypeContig (size_t)\<close> and the primitives.\<close>

fun primitive_atom :: "primitive_type \<Rightarrow> size_t option" where
  "primitive_atom PRIMITIVE_TYPE_BYTE = Some 1"
| "primitive_atom PRIMITIVE_TYPE_SIGNED_CHAR = Some 1"
| "primitive_atom PRIMITIVE_TYPE_SIGNED_SHORT = Some 2"
| "primitive_atom PRIMITIVE_TYPE_SIGNED_INT = Some 4"
| "primitive_atom PRIMITIVE_TYPE_SIGNED_LONG = Some 8"
| "primitive_atom PRIMITIVE_TYPE_SIGNED_LONG_LONG = Some 8"
| "primitive_atom PRIMITIVE_TYPE_UNSIGNED_CHAR = Some 1"
| "primitive_atom PRIMITIVE_TYPE_UNSIGNED_SHORT = Some 2"
| "primitive_atom PRIMITIVE_TYPE_UNSIGNED_INT = Some 4"
| "primitive_atom PRIMITIVE_TYPE_UNSIGNED_LONG = Some 8"
| "primitive_atom PRIMITIVE_TYPE_UNSIGNED_LONG_LONG = Some 8"
| "primitive_atom PRIMITIVE_TYPE_FLOAT = Some 4"
| "primitive_atom PRIMITIVE_TYPE_DOUBLE = Some 8"
| "primitive_atom PRIMITIVE_TYPE_LONG_DOUBLE = Some 16"
| "primitive_atom PRIMITIVE_TYPE_LOGICAL1 = Some 1"
| "primitive_atom PRIMITIVE_TYPE_LOGICAL2 = Some 2"
| "primitive_atom PRIMITIVE_TYPE_LOGICAL4 = Some 4"
| "primitive_atom PRIMITIVE_TYPE_LOGICAL8 = Some 8"
| "primitive_atom PRIMITIVE_TYPE_SINGLE_COMPLEX = Some 8"
| "primitive_atom PRIMITIVE_TYPE_DOUBLE_COMPLEX = Some 16"
| "primitive_atom PRIMITIVE_TYPE_LOC_2INT = Some 8"
| "primitive_atom PRIMITIVE_TYPE_LOC_2FLOAT = Some 8"
| "primitive_atom PRIMITIVE_TYPE_LOC_2DOUBLE = Some 16"
| "primitive_atom PRIMITIVE_TYPE_LOC_SHORT_INT = Some 8"
| "primitive_atom PRIMITIVE_TYPE_LOC_FLOAT_INT = Some 8"
| "primitive_atom PRIMITIVE_TYPE_LOC_DOUBLE_INT = Some 16"
| "primitive_atom PRIMITIVE_TYPE_LOC_LONG_INT = Some 16"
| "primitive_atom PRIMITIVE_TYPE_LOC_LONGDOUBLE_INT = Some 32"
| "primitive_atom PRIMITIVE_TYPE_COUNT = None"
| "primitive_atom PRIMITIVE_TYPE_UNDEFINED = None"

definition TypeContig_atom :: "opcode \<Rightarrow> (addr \<Rightarrow> typecode) \<Rightarrow> size_t \<Rightarrow> typecode option" where
  "TypeContig_atom fresh st atom_size =
     (if atom_size = 0 then None
      else (let prim_size = - 1 - (- 1) mod atom_size in
            do { tc \<leftarrow> AddSimpleInternal prim_size prim_size 1
                         (SetPrimitive PRIMITIVE_TYPE_BYTE (TypeCode_new fresh));
                 tc \<leftarrow> Complete st tc;
                 SetAtomSize atom_size tc }))"

definition TypeContig_primitive :: "opcode \<Rightarrow> (addr \<Rightarrow> typecode) \<Rightarrow> primitive_type \<Rightarrow> typecode option" where
  "TypeContig_primitive fresh st p =
     do { atom \<leftarrow> primitive_atom p;
          tc \<leftarrow> AddSimpleInternal atom atom 1 (SetPrimitive p (TypeCode_new fresh));
          tc \<leftarrow> Complete st tc;
          SetAtomSize atom tc }"

end
