(* ===== verification/Pami_TypeLayout.thy ===== *)
theory Pami_TypeLayout
  imports Pami_TypeCode
begin

text \<open>
  What a type code means: the list of blocks (displacement and length) that one pass over the
  type touches, the displacement of every single byte, and the extent by which the next pass
  is displaced. Displacements are \<open>size_t\<close> values and wrap around, which is how the code
  expresses negative shifts and strides. The builder's merging rules are shown to keep this
  meaning, and \<open>Complete\<close> to compute its size, extent and number of blocks.
\<close>

section \<open>Blocks, bytes and extent\<close>

type_synonym block = "size_t \<times> size_t"

definition blk :: "size_t \<Rightarrow> nat \<Rightarrow> size_t list" where
  "blk d n = map (\<lambda>j. d + of_nat j) [0..<n]"

definition bytes_of :: "block list \<Rightarrow> size_t list" where
  "bytes_of bs = concat (map (\<lambda>(d, b). blk d (unat b)) bs)"

definition shift_blocks :: "size_t \<Rightarrow> block list \<Rightarrow> block list" where
  "shift_blocks d bs = map (\<lambda>(e, b). (d + e, b)) bs"

text \<open>\<open>n\<close> repetitions of a block list, \<open>s\<close> apart.\<close>

definition rep_blocks :: "size_t \<Rightarrow> nat \<Rightarrow> block list \<Rightarrow> block list" where
  "rep_blocks s n bs = concat (map (\<lambda>i. shift_blocks (of_nat i * s) bs) [0..<n])"

fun blocks1 :: "(addr \<Rightarrow> block list) \<Rightarrow> op \<Rightarrow> block list" where
  "blocks1 env (COPY b s r) = rep_blocks s (unat r) [(0, b)]"
| "blocks1 env (CALL a s r) = rep_blocks s (unat r) (env a)"
| "blocks1 env _ = []"

fun ext1 :: "op \<Rightarrow> size_t" where
  "ext1 (COPY b s r) = s * r"
| "ext1 (CALL a s r) = s * r"
| "ext1 (SHIFT k) = k"
| "ext1 _ = 0"

fun blocks :: "(addr \<Rightarrow> block list) \<Rightarrow> op list \<Rightarrow> block list" where
  "blocks env [] = []"
| "blocks env (c # cs) = blocks1 env c @ shift_blocks (ext1 c) (blocks env cs)"

fun ext :: "op list \<Rightarrow> size_t" where
  "ext [] = 0"
| "ext (c # cs) = ext1 c + ext cs"

definition layout :: "(addr \<Rightarrow> block list) \<Rightarrow> op list \<Rightarrow> size_t list" where
  "layout env cs = bytes_of (blocks env cs)"

text \<open>Basic algebra.\<close>

lemma shift_blocks_simps [simp]:
  "shift_blocks d [] = []" "shift_blocks d (x # xs) = (d + fst x, snd x) # shift_blocks d xs"
  "shift_blocks d (xs @ ys) = shift_blocks d xs @ shift_blocks d ys"
  "shift_blocks 0 xs = xs" "length (shift_blocks d xs) = length xs"
  "shift_blocks d (shift_blocks e xs) = shift_blocks (d + e) xs"
  by (auto simp: shift_blocks_def case_prod_beta add.assoc)

lemma shift_blocks_concat: "shift_blocks d (concat xss) = concat (map (shift_blocks d) xss)"
  by (induction xss) auto

lemma length_blk [simp]: "length (blk d n) = n"
  by (simp add: blk_def)

lemma blk_0 [simp]: "blk d 0 = []"
  by (simp add: blk_def)

lemma blk_add: "blk d (m + n) = blk d m @ blk (d + of_nat m) n"
  by (simp add: blk_def upt_add_split comp_def add.assoc)

lemma bytes_of_simps [simp]:
  "bytes_of [] = []" "bytes_of (x # xs) = blk (fst x) (unat (snd x)) @ bytes_of xs"
  "bytes_of (xs @ ys) = bytes_of xs @ bytes_of ys"
  by (auto simp: bytes_of_def case_prod_beta)

lemma bytes_of_shift [simp]: "bytes_of (shift_blocks d xs) = map ((+) d) (bytes_of xs)"
  by (induction xs) (auto simp: blk_def add.assoc)

lemma rep_blocks_0 [simp]: "rep_blocks s 0 bs = []"
  by (simp add: rep_blocks_def)

lemma rep_blocks_1 [simp]: "rep_blocks s (Suc 0) bs = bs"
  by (simp add: rep_blocks_def)

lemma rep_blocks_Nil [simp]: "rep_blocks s n [] = []"
  by (simp add: rep_blocks_def)

lemma rep_blocks_add:
  "rep_blocks s (m + n) bs = rep_blocks s m bs @ shift_blocks (of_nat m * s) (rep_blocks s n bs)"
  by (simp add: rep_blocks_def upt_add_split shift_blocks_concat comp_def algebra_simps)

lemma rep_blocks_Suc:
  "rep_blocks s (Suc n) bs = bs @ shift_blocks s (rep_blocks s n bs)"
  using rep_blocks_add [of s 1 n bs] by simp

lemma length_rep_blocks [simp]: "length (rep_blocks s n bs) = n * length bs"
  by (induction n) (simp_all add: rep_blocks_Suc)

lemma length_bytes_rep [simp]: "length (bytes_of (rep_blocks s n bs)) = n * length (bytes_of bs)"
  by (induction n) (simp_all add: rep_blocks_Suc)

lemma blocks_append:
  "blocks env (xs @ ys) = blocks env xs @ shift_blocks (ext xs) (blocks env ys)"
  by (induction xs) simp_all

lemma ext_append [simp]: "ext (xs @ ys) = ext xs + ext ys"
  by (induction xs) (simp_all add: add.assoc)

lemma layout_append:
  "layout env (xs @ ys) = layout env xs @ map ((+) (ext xs)) (layout env ys)"
  by (simp add: layout_def blocks_append)

lemma layout_Nil [simp]: "layout env [] = []"
  by (simp add: layout_def)

section \<open>The merging rules\<close>

text \<open>Two instruction lists mean the same when they touch the same bytes in the same order
  and have the same extent.\<close>

definition same_type :: "(addr \<Rightarrow> block list) \<Rightarrow> op list \<Rightarrow> op list \<Rightarrow> bool" where
  "same_type env xs ys \<longleftrightarrow> layout env xs = layout env ys \<and> ext xs = ext ys"

lemma same_type_refl [simp]: "same_type env xs xs"
  by (simp add: same_type_def)

lemma same_type_trans: "same_type env xs ys \<Longrightarrow> same_type env ys zs \<Longrightarrow> same_type env xs zs"
  by (simp add: same_type_def)

lemma same_type_prefix: "same_type env xs ys \<Longrightarrow> same_type env (zs @ xs) (zs @ ys)"
  by (simp add: same_type_def layout_append)

lemma same_type_length: "same_type env xs ys \<Longrightarrow> length (layout env xs) = length (layout env ys)"
  by (simp add: same_type_def)

lemma merge_nothing:
  "same_type env [SHIFT 0] []" "same_type env [COPY b s 0] []" "same_type env [CALL a s 0] []"
  by (simp_all add: same_type_def layout_def)

lemma merge_shift_shift: "same_type env [SHIFT j, SHIFT k] [SHIFT (j + k)]"
  by (simp add: same_type_def layout_def)

lemma merge_copy_shift: "same_type env [COPY b s 1, SHIFT k] [COPY b (s + k) 1]"
  by (simp add: same_type_def layout_def)

lemma bytes_of_rep_empty: "bytes_of bs = [] \<Longrightarrow> bytes_of (rep_blocks s n bs) = []"
  by (induction n) (simp_all add: rep_blocks_Suc)

lemma merge_empty_copy: "same_type env [COPY 0 s r] [SHIFT (s * r)]"
  by (simp add: same_type_def layout_def bytes_of_rep_empty)

lemma bytes_of_contig_rep:
  "bytes_of (rep_blocks b n [(0, b)]) = blk 0 (n * unat b)"
proof (induction n)
  case (Suc n)
  have "map ((+) b) (blk 0 (n * unat b)) = blk b (n * unat b)"
    by (simp add: blk_def)
  then show ?case using Suc blk_add [of 0 "unat b" "n * unat b"]
    by (simp add: rep_blocks_Suc)
qed simp

lemma merge_contig_reps:
  assumes "unat b * unat r < 2 ^ 64"
  shows "same_type env [COPY b b r] [COPY (b * r) (b * r) 1]"
proof -
  have "unat (b * r) = unat b * unat r"
    using assms by (simp add: unat_word_ariths)
  then show ?thesis
    using bytes_of_contig_rep [of b "unat r"] by (simp add: same_type_def layout_def mult.commute)
qed

lemma merge_contig_copy:
  assumes "unat b + unat c < 2 ^ 64"
  shows "same_type env [COPY b b 1, COPY c s 1] [COPY (b + c) (b + s) 1]"
proof -
  have "unat (b + c) = unat b + unat c"
    using assms by (simp add: unat_word_ariths)
  moreover have "map ((+) b) (blk 0 (unat c)) = blk b (unat c)" by (simp add: blk_def)
  ultimately show ?thesis
    using blk_add [of 0 "unat b" "unat c"] by (simp add: same_type_def layout_def)
qed

lemma unat_add_small: "unat (x::size_t) + unat y < 2 ^ 64 \<Longrightarrow> unat (x + y) = unat x + unat y"
  by (simp add: unat_word_ariths)

lemma unat_mult_small: "unat (x::size_t) * unat y < 2 ^ 64 \<Longrightarrow> unat (x * y) = unat x * unat y"
  by (simp add: unat_word_ariths)

lemma merge_same_copy:
  assumes "unat r + unat q < 2 ^ 64"
  shows "same_type env [COPY b s r, COPY b s q] [COPY b s (r + q)]"
  using unat_add_small [OF assms] rep_blocks_add [of s "unat r" "unat q" "[(0, b)]"]
  by (simp add: same_type_def layout_def algebra_simps)

lemma merge_same_call:
  assumes "unat r + unat q < 2 ^ 64 \<or> bytes_of (env a) = []"
  shows "same_type env [CALL a s r, CALL a s q] [CALL a s (r + q)]"
  using assms unat_add_small [of r q] rep_blocks_add [of s "unat r" "unat q" "env a"]
  by (auto simp: same_type_def layout_def bytes_of_rep_empty algebra_simps)


section \<open>The builder's invariant\<close>

text \<open>The previous opcode stored in front of an instruction is the right one, except that
  from the third instruction on it may be what new memory held.\<close>

definition last_opcode :: "cell list \<Rightarrow> opcode" where
  "last_opcode cs = (if cs = [] then OP_BEGIN else opcode_of (snd (last cs)))"

definition prev_ok :: "opcode \<Rightarrow> cell list \<Rightarrow> opcode \<Rightarrow> bool" where
  "prev_ok fresh cs p \<longleftrightarrow> p = last_opcode cs \<or> (2 \<le> length cs \<and> p = fresh)"

definition cells_ok :: "opcode \<Rightarrow> cell list \<Rightarrow> bool" where
  "cells_ok fresh cs \<longleftrightarrow> (\<forall>i<length cs. prev_ok fresh (take i cs) (fst (cs ! i)))"

lemma cells_ok_Nil [simp]: "cells_ok f []"
  by (simp add: cells_ok_def)

lemma cells_ok_snoc [simp]:
  "cells_ok f (cs @ [c]) \<longleftrightarrow> cells_ok f cs \<and> prev_ok f cs (fst c)"
  by (auto simp: cells_ok_def nth_append less_Suc_eq)

fun op_ok :: "op \<Rightarrow> bool" where
  "op_ok (COPY b s r) \<longleftrightarrow> b \<noteq> 0 \<and> r \<noteq> 0 \<and> (b = s \<longrightarrow> r = 1)"
| "op_ok (CALL a s r) \<longleftrightarrow> r \<noteq> 0"
| "op_ok (SHIFT k) \<longleftrightarrow> k \<noteq> 0"
| "op_ok _ \<longleftrightarrow> False"

definition fresh_ok :: "opcode \<Rightarrow> bool" where
  "fresh_ok f \<longleftrightarrow> f \<notin> {OP_COPY, OP_CALL, OP_SHIFT}"

definition tc_ins :: "typecode \<Rightarrow> op list" where
  "tc_ins tc = map snd (tc_ops tc)"

text \<open>The fields of a type under construction: only the code size and the primitive type
  change before \<open>Complete\<close>.\<close>

definition hdr_new :: "begin_t \<Rightarrow> bool" where
  "hdr_new b \<longleftrightarrow> bg_contiguous b \<and> bg_simple b \<and> bg_depth b = 1 \<and> bg_data_size b = 0 \<and>
     bg_extent b = 0 \<and> bg_num_blocks b = 0 \<and> bg_unit b = 0 \<and> bg_atom_size b = 0"

definition tc_wf :: "typecode \<Rightarrow> bool" where
  "tc_wf tc \<longleftrightarrow> \<not> tc_completed tc \<and> fresh_ok (tc_fresh tc) \<and>
     cells_ok (tc_fresh tc) (tc_ops tc) \<and> prev_ok (tc_fresh tc) (tc_ops tc) (tc_next_prev tc) \<and>
     list_all op_ok (tc_ins tc) \<and>
     192 \<le> tc_buf_size tc \<and> code_cursor tc + sz_Op \<le> tc_buf_size tc \<and>
     bg_code_size (tc_begin tc) = of_nat (code_cursor tc) \<and> hdr_new (tc_begin tc)"

lemma code_bytes_simps [simp]:
  "code_bytes [] = 0" "code_bytes (c # cs) = op_size (snd c) + code_bytes cs"
  "code_bytes (cs @ ds) = code_bytes cs + code_bytes ds"
  by (simp_all add: code_bytes_def)

lemma op_size_le: "op_ok c \<Longrightarrow> op_size c \<le> 32"
  by (cases c) simp_all

lemma code_bytes_le: "list_all op_ok (map snd cs) \<Longrightarrow> code_bytes cs \<le> 32 * length cs"
  by (induction cs) (auto dest: op_size_le)

lemma tc_wf_new: "fresh_ok f \<Longrightarrow> tc_wf (TypeCode_new f)"
  by (simp add: tc_wf_def TypeCode_new_def tc_ins_def prev_ok_def last_opcode_def code_cursor_def
      sz_Begin_def sz_Op_def hdr_new_def)

lemma tc_ins_new [simp]: "tc_ins (TypeCode_new f) = []"
  by (simp add: tc_ins_def TypeCode_new_def)

lemma AddCodeSize_simps [simp]:
  "tc_ops (AddCodeSize n tc) = tc_ops tc" "tc_next_prev (AddCodeSize n tc) = tc_next_prev tc"
  "tc_buf_size (AddCodeSize n tc) = tc_buf_size tc" "tc_completed (AddCodeSize n tc) = tc_completed tc"
  "tc_fresh (AddCodeSize n tc) = tc_fresh tc" "code_cursor (AddCodeSize n tc) = code_cursor tc"
  "hdr_new (tc_begin (AddCodeSize n tc)) = hdr_new (tc_begin tc)"
  "bg_primitive (tc_begin (AddCodeSize n tc)) = bg_primitive (tc_begin tc)"
  "bg_code_size (tc_begin (AddCodeSize n tc)) = bg_code_size (tc_begin tc) + n"
  by (simp_all add: AddCodeSize_def code_cursor_def hdr_new_def)

lemma SetPrimitive_simps [simp]:
  "tc_wf (SetPrimitive p tc) = tc_wf tc" "tc_ins (SetPrimitive p tc) = tc_ins tc"
  "GetPrimitive (SetPrimitive p tc) = p"
  by (simp_all add: SetPrimitive_def tc_wf_def tc_ins_def code_cursor_def hdr_new_def GetPrimitive_def)

text \<open>Appending an instruction keeps the invariant: the buffer grows when needed, and only from
  the third instruction on, so the first previous opcodes are never lost.\<close>

lemma Push_ins [simp]: "tc_ins (Push c tc) = tc_ins tc @ [c]"
  by (simp add: Push_def tc_ins_def CheckCodeBuffer_def ResizeCodeBuffer_def Let_def)

lemma CheckCodeBuffer_prev:
  assumes "tc_wf tc" and "inc \<le> 40"
  shows "prev_ok (tc_fresh tc) (tc_ops tc) (tc_next_prev (CheckCodeBuffer inc tc))"
proof (cases "tc_buf_size tc < code_cursor tc + inc")
  case True
  have "code_cursor tc \<le> 64 + 32 * length (tc_ops tc)"
    using assms(1) code_bytes_le [of "tc_ops tc"]
    by (simp add: tc_wf_def tc_ins_def code_cursor_def sz_Begin_def)
  then have "2 \<le> length (tc_ops tc)"
    using True assms by (simp add: tc_wf_def)
  then show ?thesis
    using assms(1) True by (auto simp: CheckCodeBuffer_def ResizeCodeBuffer_def prev_ok_def tc_wf_def)
next
  case False
  then show ?thesis using assms by (simp add: CheckCodeBuffer_def tc_wf_def)
qed

lemma CheckCodeBuffer_simps [simp]:
  "tc_ops (CheckCodeBuffer n tc) = tc_ops tc" "tc_completed (CheckCodeBuffer n tc) = tc_completed tc"
  "tc_fresh (CheckCodeBuffer n tc) = tc_fresh tc" "tc_begin (CheckCodeBuffer n tc) = tc_begin tc"
  by (simp_all add: CheckCodeBuffer_def ResizeCodeBuffer_def)

lemma CheckCodeBuffer_room:
  assumes "code_cursor tc + sz_Op \<le> tc_buf_size tc" and "inc \<le> 40" and "192 \<le> tc_buf_size tc"
  shows "code_cursor tc + inc \<le> tc_buf_size (CheckCodeBuffer inc tc)"
    and "tc_buf_size tc \<le> tc_buf_size (CheckCodeBuffer inc tc)"
  using assms by (auto simp: CheckCodeBuffer_def ResizeCodeBuffer_def sz_Op_def)

lemma Push_wf:
  assumes "tc_wf tc" and "op_ok c"
  shows "tc_wf (Push c tc)"
proof -
  have le: "op_size c + sz_Op \<le> 40" using op_size_le [OF assms(2)] by (simp add: sz_Op_def)
  note room = CheckCodeBuffer_room [OF _ le, of tc]
  show ?thesis
    using assms room CheckCodeBuffer_prev [OF assms(1) le]
    by (auto simp: tc_wf_def Push_def Let_def tc_ins_def code_cursor_def prev_ok_def last_opcode_def)
qed

lemma Pop_wf:
  assumes "tc_wf tc" and "tc_ops tc = cs @ [(p, c)]"
  shows "tc_wf (Pop tc)" and "tc_ins (Pop tc) = map snd cs"
  using assms by (auto simp: tc_wf_def Pop_def tc_ins_def code_cursor_def)

text \<open>Under the invariant \<open>Top\<close> never misreads.\<close>

lemma Top_wf:
  assumes "tc_wf tc" and "oc \<in> {OP_COPY, OP_CALL, OP_SHIFT}"
  shows "Top oc tc = Some None \<or>
    (\<exists>cs p c. tc_ops tc = cs @ [(p, c)] \<and> opcode_of c = oc \<and> op_ok c \<and> Top oc tc = Some (Some c))"
proof (cases "tc_next_prev tc = oc")
  case True
  then have "last_opcode (tc_ops tc) = oc"
    using assms by (auto simp: tc_wf_def prev_ok_def fresh_ok_def)
  moreover from this obtain cs x where "tc_ops tc = cs @ [x]"
    using assms(2) by (cases "tc_ops tc" rule: rev_cases) (auto simp: last_opcode_def)
  ultimately show ?thesis
    using True assms(1) by (cases x) (auto simp: Top_def last_opcode_def tc_wf_def tc_ins_def)
qed (simp add: Top_def)

lemma opcode_of_iff [simp]:
  "opcode_of c = OP_COPY \<longleftrightarrow> (\<exists>b s r. c = COPY b s r)"
  "opcode_of c = OP_CALL \<longleftrightarrow> (\<exists>a s r. c = CALL a s r)"
  "opcode_of c = OP_SHIFT \<longleftrightarrow> (\<exists>k. c = SHIFT k)"
  by (cases c; simp)+

end
