(* ===== verification/Pami_TypeBuild.thy ===== *)
theory Pami_TypeBuild
  imports Pami_TypeLayout
begin

text \<open>
  The merging builder keeps the meaning of the type: every added instruction extends the
  layout as if it had simply been appended, and never needs more code than that.
\<close>

text \<open>The instructions a list calls, and the code it needs: its own instructions and, with
  \<open>w\<close> the code sizes of the sub-types, theirs.\<close>

fun sub_of :: "op \<Rightarrow> addr option" where
  "sub_of (CALL a _ _) = Some a"
| "sub_of _ = None"

definition subs :: "op list \<Rightarrow> addr set" where
  "subs cs = set (List.map_filter sub_of cs)"

fun weight :: "(addr \<Rightarrow> nat) \<Rightarrow> op list \<Rightarrow> nat" where
  "weight w [] = 0"
| "weight w (c # cs) = op_size c + (case sub_of c of None \<Rightarrow> 0 | Some a \<Rightarrow> w a) + weight w cs"

definition lighter :: "(addr \<Rightarrow> nat) \<Rightarrow> op list \<Rightarrow> op list \<Rightarrow> bool" where
  "lighter w xs ys \<longleftrightarrow> subs xs \<subseteq> subs ys \<and> weight w xs \<le> weight w ys"

lemma subs_simps [simp]:
  "subs [] = {}" "subs (COPY b s r # cs) = subs cs" "subs (SHIFT k # cs) = subs cs"
  "subs (CALL a s r # cs) = insert a (subs cs)" "subs (xs @ ys) = subs xs \<union> subs ys"
  by (auto simp: subs_def List.map_filter_def)

lemma weight_append [simp]: "weight w (xs @ ys) = weight w xs + weight w ys"
  by (induction xs) simp_all

text \<open>\<open>tc'\<close> is \<open>tc\<close> with the instruction \<open>c\<close> added.\<close>

definition builds :: "(addr \<Rightarrow> block list) \<Rightarrow> (addr \<Rightarrow> nat) \<Rightarrow> typecode \<Rightarrow> op \<Rightarrow> typecode \<Rightarrow> bool" where
  "builds env w tc c tc' \<longleftrightarrow> tc_wf tc' \<and> same_type env (tc_ins tc') (tc_ins tc @ [c]) \<and>
     lighter w (tc_ins tc') (tc_ins tc @ [c]) \<and>
     bg_primitive (tc_begin tc') = bg_primitive (tc_begin tc)"

lemma builds_Push: "tc_wf tc \<Longrightarrow> op_ok c \<Longrightarrow> builds env w tc c (Push c tc)"
  by (simp add: builds_def Push_wf lighter_def) (simp add: Push_def Let_def)

lemma builds_id: "tc_wf tc \<Longrightarrow> same_type env [c] [] \<Longrightarrow> builds env w tc c tc"
  using same_type_prefix [of env "[]" "[c]" "tc_ins tc"] by (simp add: builds_def same_type_def lighter_def)

lemma same_type_sym: "same_type env xs ys \<Longrightarrow> same_type env ys xs"
  by (simp add: same_type_def)

lemma builds_same:
  assumes "builds env w tc c tc'" and "same_type env [c] [d]" and "lighter w [c] [d]"
  shows "builds env w tc d tc'"
proof -
  have "same_type env (tc_ins tc') (tc_ins tc @ [d])"
    using assms(1,2) same_type_prefix [of env "[c]" "[d]" "tc_ins tc"] same_type_trans
    unfolding builds_def by blast
  then show ?thesis using assms by (auto simp: builds_def lighter_def)
qed

text \<open>Popping \<open>c\<close> and adding \<open>d\<close> in place of \<open>c\<close> and \<open>e\<close>.\<close>

lemma builds_Pop:
  assumes "builds env w (Pop tc) d tc'" and "tc_wf tc" and "tc_ops tc = cs @ [(p, c)]"
    and "same_type env [c, e] [d]" and "lighter w [d] [c, e]"
  shows "builds env w tc e tc'"
proof -
  have "same_type env (tc_ins tc') (map snd cs @ [d])"
    using assms Pop_wf(2) [OF assms(2,3)] by (simp add: builds_def)
  moreover have "same_type env (map snd cs @ [c, e]) (map snd cs @ [d])"
    using assms(4) by (rule same_type_prefix)
  moreover have "lighter w (tc_ins tc') (map snd cs @ [c, e])"
    using assms Pop_wf(2) [OF assms(2,3)]
    by (auto simp: builds_def lighter_def subs_def List.map_filter_def split: option.splits)
  moreover have "bg_primitive (tc_begin (Pop tc)) = bg_primitive (tc_begin tc)"
    using assms(3) by (simp add: Pop_def AddCodeSize_def)
  ultimately show ?thesis
    using assms(1,3) by (simp add: builds_def same_type_def tc_ins_def)
qed

lemma lighter_simps [simp]:
  "lighter w [SHIFT k] [SHIFT i, SHIFT j]" "lighter w [COPY b s r] [COPY b' s' r', SHIFT k]"
  "lighter w [SHIFT k] [COPY b s r]" "lighter w [COPY b s r] [COPY b' s' r']"
  "lighter w [COPY b s r] [COPY b' s' r', COPY b'' s'' r'']"
  "lighter w [COPY b s r] [CALL a s' r']" "lighter w [CALL a s r] [CALL a s' r', CALL a s'' r'']"
  by (auto simp: lighter_def)

lemma length_layout_copy: "length (layout env [COPY b s r]) = unat r * unat b"
  by (simp add: layout_def)

lemma layout_SHIFT: "layout env [SHIFT k] = []"
  by (simp add: layout_def)

lemma layout_bound_Pop:
  assumes "tc_wf tc" and "tc_ops tc = cs @ [(p, c)]" and "same_type env [c, e] [d]"
    and "length (layout env (tc_ins tc @ [e])) < n"
  shows "length (layout env (tc_ins (Pop tc) @ [d])) < n"
proof -
  have "same_type env (map snd cs @ [c, e]) (map snd cs @ [d])"
    using assms(3) by (rule same_type_prefix)
  then show ?thesis
    using assms Pop_wf(2) [OF assms(1,2)] by (auto dest!: same_type_length simp: tc_ins_def)
qed

lemma layout_bound_last:
  assumes "tc_ops tc = cs @ [(p, COPY b s r)]"
    and "length (layout env (tc_ins tc @ [COPY b' s' r'])) < n"
  shows "unat r * unat b + unat r' * unat b' < n"
  using assms layout_append [of env "[COPY b s r]" "[COPY b' s' r']"]
  by (simp add: tc_ins_def layout_append length_layout_copy)

lemma word_one_iff: "(r::size_t) \<noteq> 0 \<Longrightarrow> \<not> 1 < r \<Longrightarrow> r = 1"
  by (simp add: word_less_nat_alt word_unat_eq_iff)

lemma AddShift_AddSimpleInternal_builds:
  "tc_wf tc \<Longrightarrow> length (layout env (tc_ins tc)) < 2 ^ 64 \<Longrightarrow>
     \<exists>tc'. AddShift k tc = Some tc' \<and> builds env w tc (SHIFT k) tc'"
  "tc_wf tc2 \<Longrightarrow> length (layout env (tc_ins tc2 @ [COPY b s r])) < 2 ^ 64 \<Longrightarrow>
     \<exists>tc'. AddSimpleInternal b s r tc2 = Some tc' \<and> builds env w tc2 (COPY b s r) tc'"
proof (induction k tc and b s r tc2 rule: AddShift_AddSimpleInternal.induct)
  case (1 k tc)
  note wf = "1.prems"(1) and len = "1.prems"(2)
  have nc: "\<not> tc_completed tc" using wf by (simp add: tc_wf_def)
  consider (zero) "k = 0"
    | (shift) cs p j where "k \<noteq> 0" "tc_ops tc = cs @ [(p, SHIFT j)]" "Top OP_SHIFT tc = Some (Some (SHIFT j))"
    | (copy) cs p b s r where "k \<noteq> 0" "tc_ops tc = cs @ [(p, COPY b s r)]"
        "Top OP_SHIFT tc = Some None" "Top OP_COPY tc = Some (Some (COPY b s r))"
    | (other) "k \<noteq> 0" "Top OP_SHIFT tc = Some None" "Top OP_COPY tc = Some None"
    using Top_wf [OF wf, of OP_SHIFT] Top_wf [OF wf, of OP_COPY] by fastforce
  then show ?case
  proof cases
    case zero
    then show ?thesis using nc wf builds_id merge_nothing(1) by (simp add: AddShift.simps)
  next
    case shift
    have "tc_wf (Pop tc)" using Pop_wf(1) [OF wf shift(2)] .
    moreover have "length (layout env (tc_ins (Pop tc))) < 2 ^ 64"
      using len shift(2) Pop_wf(2) [OF wf shift(2)] by (simp add: tc_ins_def layout_append)
    ultimately obtain tc' where "AddShift (j + k) (Pop tc) = Some tc'" "builds env w (Pop tc) (SHIFT (j + k)) tc'"
      using "1.IH" shift nc by auto
    then show ?thesis
      using shift nc builds_Pop [OF _ wf shift(2) merge_shift_shift] by (auto simp: AddShift.simps [of k])
  next
    case copy
    show ?thesis
    proof (cases "r = 1")
      case True
      have st: "same_type env [COPY b s r, SHIFT k] [COPY b (s + k) 1]"
        using True merge_copy_shift by simp
      have len': "length (layout env (tc_ins tc @ [SHIFT k])) < 2 ^ 64"
        using len by (simp add: layout_append layout_SHIFT)
      obtain tc' where "AddSimpleInternal b (s + k) 1 (Pop tc) = Some tc'"
          "builds env w (Pop tc) (COPY b (s + k) 1) tc'"
        using "1.IH"(1) [OF nc copy(1,3) refl copy(4) refl refl True Pop_wf(1) [OF wf copy(2)]
            layout_bound_Pop [OF wf copy(2) st len']] by blast
      then show ?thesis
        using copy nc True builds_Pop [OF _ wf copy(2) st] by (auto simp: AddShift.simps [of k])
    next
      case False
      then show ?thesis using copy nc builds_Push [OF wf, of "SHIFT k"] by (simp add: AddShift.simps)
    qed
  next
    case other
    then show ?thesis using nc builds_Push [OF wf, of "SHIFT k"] by (simp add: AddShift.simps)
  qed
next
  case (2 b s r tc)
  note wf = "2.prems"(1) and len = "2.prems"(2)
  consider (zero) "r = 0"
    | (empty) "r \<noteq> 0" "b = 0"
    | (contig) "r \<noteq> 0" "b \<noteq> 0" "b = s" "1 < r"
    | (copy) cs p b' s' r' where "r \<noteq> 0" "b \<noteq> 0" "\<not> (b = s \<and> 1 < r)"
        "tc_ops tc = cs @ [(p, COPY b' s' r')]" "op_ok (COPY b' s' r')" "Top OP_COPY tc = Some (Some (COPY b' s' r'))"
    | (other) "r \<noteq> 0" "b \<noteq> 0" "\<not> (b = s \<and> 1 < r)" "Top OP_COPY tc = Some None"
    using Top_wf [OF wf, of OP_COPY] by fastforce
  then show ?case
  proof cases
    case zero
    then show ?thesis using wf builds_id merge_nothing(2) by (simp add: AddSimpleInternal.simps)
  next
    case empty
    have "length (layout env (tc_ins tc)) < 2 ^ 64" using len by (simp add: layout_append)
    then obtain tc' where "AddShift (s * r) tc = Some tc'" "builds env w tc (SHIFT (s * r)) tc'"
      using "2.IH"(1) empty wf by auto
    moreover have "same_type env [SHIFT (s * r)] [COPY b s r]"
      using merge_empty_copy [of env s r] empty by (simp add: same_type_def)
    ultimately show ?thesis using empty builds_same by (auto simp: AddSimpleInternal.simps)
  next
    case contig
    have "unat b * unat r < 2 ^ 64"
      using len by (simp add: layout_append length_layout_copy mult.commute)
    then have st: "same_type env [COPY b s r] [COPY (b * r) (s * r) 1]"
      using merge_contig_reps contig by simp
    then have "length (layout env (tc_ins tc @ [COPY (b * r) (s * r) 1])) < 2 ^ 64"
      using len same_type_length [OF st] by (simp add: layout_append)
    then obtain tc' where "AddSimpleInternal (b * r) (s * r) 1 tc = Some tc'"
        "builds env w tc (COPY (b * r) (s * r) 1) tc'"
      using "2.IH"(2) contig wf by auto
    moreover have "AddSimpleInternal b s r tc = AddSimpleInternal (b * r) (s * r) 1 tc"
      using contig by (subst AddSimpleInternal.simps) simp
    ultimately show ?thesis using builds_same [OF _ same_type_sym [OF st]] by auto
  next
    case copy
    note bound = layout_bound_last [OF copy(4) len]
    note wfP = Pop_wf(1) [OF wf copy(4)]
    consider (join) "b' = s'" "r = 1" | (same) "\<not> (b' = s' \<and> r = 1)" "b' = b" "s' = s"
      | (new) "\<not> (b' = s' \<and> r = 1)" "\<not> (b' = b \<and> s' = s)" by auto
    then show ?thesis
    proof cases
      case join
      have "r' = 1" using copy(5) join by simp
      then have st: "same_type env [COPY b' s' r', COPY b s r] [COPY (b' + b) (s' + s) 1]"
        using join bound merge_contig_copy [of b' b env s] by simp
      then obtain tc' where "AddSimpleInternal (b' + b) (s' + s) 1 (Pop tc) = Some tc'"
          "builds env w (Pop tc) (COPY (b' + b) (s' + s) 1) tc'"
        using "2.IH"(3) [OF copy(1,2,3,6) refl refl _ wfP layout_bound_Pop [OF wf copy(4) st len]] join
        by blast
      then show ?thesis
        using copy join builds_Pop [OF _ wf copy(4) st] by (auto simp: AddSimpleInternal.simps [of b])
    next
      case same
      have "unat r' * unat b + unat r * unat b < 2 ^ 64" using bound same by simp
      moreover have "0 < unat b" using copy(2) by (simp add: unat_gt_0)
      then have "unat r' \<le> unat r' * unat b" and "unat r \<le> unat r * unat b" by simp_all
      ultimately have "unat r' + unat r < 2 ^ 64" by linarith
      then have st: "same_type env [COPY b' s' r', COPY b s r] [COPY b s (r' + r)]"
        using same merge_same_copy by simp
      then obtain tc' where "AddSimpleInternal b s (r' + r) (Pop tc) = Some tc'"
          "builds env w (Pop tc) (COPY b s (r' + r)) tc'"
        using "2.IH"(4) [OF copy(1,2,3,6) refl refl _ _ wfP layout_bound_Pop [OF wf copy(4) st len]] same
        by blast
      then show ?thesis
        using copy same builds_Pop [OF _ wf copy(4) st] by (auto simp: AddSimpleInternal.simps [of b s r])
    next
      case new
      have "op_ok (COPY b s r)" using copy word_one_iff [of r] by auto
      then show ?thesis using copy new builds_Push [OF wf, of "COPY b s r"]
        by (auto simp: AddSimpleInternal.simps)
    qed
  next
    case other
    have "op_ok (COPY b s r)" using other word_one_iff [of r] by auto
    then show ?thesis using other builds_Push [OF wf, of "COPY b s r"]
      by (auto simp: AddSimpleInternal.simps)
  qed
qed

end
