(* ===== verification/Pami_TypeComplete.thy ===== *)
theory Pami_TypeComplete
  imports Pami_TypeBuild
begin

text \<open>
  Completed types as trees of their sub-types, the flat code that \<open>Complete\<close> lays out for
  them, and the proof that code and header describe the type that was built.
\<close>

section \<open>Types as trees\<close>

text \<open>A completed type as a tree: the called sub-types in place of the calls.\<close>

datatype itree = ICopy size_t size_t size_t | IShift size_t | ICall "itree list" size_t size_t

fun tblocks :: "itree list \<Rightarrow> block list" and tblocks1 :: "itree \<Rightarrow> block list" and textent1 :: "itree \<Rightarrow> size_t" where
  "tblocks [] = []"
| "tblocks (i # is) = tblocks1 i @ shift_blocks (textent1 i) (tblocks is)"
| "tblocks1 (ICopy b s r) = rep_blocks s (unat r) [(0, b)]"
| "tblocks1 (IShift k) = []"
| "tblocks1 (ICall sub s r) = rep_blocks s (unat r) (tblocks sub)"
| "textent1 (ICopy b s r) = s * r"
| "textent1 (IShift k) = k"
| "textent1 (ICall sub s r) = s * r"

definition textent :: "itree list \<Rightarrow> size_t" where
  "textent is = sum_list (map textent1 is)"

fun tdepth :: "itree list \<Rightarrow> nat" where
  "tdepth [] = 1"
| "tdepth (ICall sub s r # is) = max (Suc (tdepth sub)) (tdepth is)"
| "tdepth (_ # is) = tdepth is"

definition tbytes :: "itree list \<Rightarrow> size_t list" where
  "tbytes is = bytes_of (tblocks is)"

fun to_tree :: "(addr \<Rightarrow> itree list) \<Rightarrow> op \<Rightarrow> itree" where
  "to_tree tr (COPY b s r) = ICopy b s r"
| "to_tree tr (CALL a s r) = ICall (tr a) s r"
| "to_tree tr (SHIFT k) = IShift k"
| "to_tree tr _ = IShift 0"

lemma blocks_to_tree: 
  "list_all op_ok cs \<Longrightarrow> blocks (tblocks \<circ> tr) cs = tblocks (map (to_tree tr) cs)"
proof (induction cs)
  case (Cons c cs)
  then show ?case by (cases c) simp_all
qed simp

lemma ext_to_tree: "list_all op_ok cs \<Longrightarrow> ext cs = textent (map (to_tree tr) cs)"
proof (induction cs)
  case (Cons c cs)
  then show ?case by (cases c) (simp_all add: textent_def)
qed (simp add: textent_def)

section \<open>Flat code\<close>

fun fetch :: "cell list \<Rightarrow> nat \<Rightarrow> op option" where
  "fetch [] pc = None"
| "fetch (c # cs) pc =
     (if pc = 0 then Some (snd c) else if pc < op_size (snd c) then None
      else fetch cs (pc - op_size (snd c)))"

lemma op_size_pos [simp]: "0 < op_size c" "op_size c \<noteq> 0"
  by (cases c; simp)+

lemma fetch_append: "fetch (xs @ ys) (code_bytes xs + pc) = fetch ys pc"
  by (induction xs) auto

lemma fetch_prefix: "fetch xs pc = Some c \<Longrightarrow> fetch (xs @ ys) pc = Some c"
  by (induction xs pc rule: fetch.induct) (auto split: if_splits)

lemma fetch_mid: "fetch xs pc = Some c \<Longrightarrow> fetch (ws @ xs @ ys) (code_bytes ws + pc) = Some c"
  by (simp add: fetch_append fetch_prefix)

text \<open>The instructions from \<open>pc\<close> on are the tree; a call leads to the code of its
  sub-type, whose header holds the size of its data.\<close>

fun seq_at :: "cell list \<Rightarrow> nat \<Rightarrow> itree list \<Rightarrow> bool" where
  "seq_at code pc [] \<longleftrightarrow> fetch code pc = Some END"
| "seq_at code pc (ICopy b s r # is) \<longleftrightarrow>
     fetch code pc = Some (COPY b s r) \<and> b \<noteq> 0 \<and> r \<noteq> 0 \<and> seq_at code (pc + 32) is"
| "seq_at code pc (IShift k # is) \<longleftrightarrow> fetch code pc = Some (SHIFT k) \<and> seq_at code (pc + 16) is"
| "seq_at code pc (ICall sub s r # is) \<longleftrightarrow>
     (\<exists>off h. fetch code pc = Some (CALL off s r) \<and> fetch code (pc + off) = Some (BEGIN h) \<and>
        bg_data_size h = of_nat (length (tbytes sub)) \<and> seq_at code (pc + off + sz_Begin) sub) \<and>
     r \<noteq> 0 \<and> seq_at code (pc + 32) is"

lemma seq_at_mid: "seq_at code pc is \<Longrightarrow> seq_at (ws @ code @ ys) (code_bytes ws + pc) is"
proof (induction code pc "is" rule: seq_at.induct)
  case (4 code pc sub s r "is")
  then obtain off h where *: "fetch code pc = Some (CALL off s r)" "fetch code (pc + off) = Some (BEGIN h)"
    "bg_data_size h = of_nat (length (tbytes sub))" "seq_at code (pc + off + sz_Begin) sub" by auto
  have "seq_at (ws @ code @ ys) (code_bytes ws + pc + off + sz_Begin) sub"
    using "4.IH"(1) * by (simp add: add.assoc)
  moreover have "fetch (ws @ code @ ys) (code_bytes ws + pc + off) = Some (BEGIN h)"
    using fetch_mid [OF *(2)] by (simp add: add.assoc)
  ultimately show ?case
    using 4 * fetch_mid [OF *(1), of ws ys] by (auto simp: add.assoc)
qed (auto simp: fetch_mid add.assoc)

section \<open>Completed types\<close>

fun unit_of :: "block list \<Rightarrow> nat" where
  "unit_of [] = 0"
| "unit_of (b # bs) = gcd (unat (snd b)) (unit_of bs)"

lemma unat_Math_GCD: "unat (Math_GCD a b) = gcd (unat a) (unat b)"
proof (induction a b rule: Math_GCD.induct)
  case (1 a b)
  then show ?case
    by (cases "b = 0")
      (simp_all add: Math_GCD.simps [of a b] Math_GCD.simps [of a 0] unat_mod gcd_red_nat [of "unat a"])
qed

definition type_ok :: "typecode \<Rightarrow> itree list \<Rightarrow> bool" where
  "type_ok tc t \<longleftrightarrow> tc_completed tc \<and>
     seq_at (full_code tc) sz_Begin t \<and> code_bytes (full_code tc) = unat (GetCodeSize tc) \<and>
     length (tbytes t) < 2 ^ 64 \<and> GetDataSize tc = of_nat (length (tbytes t)) \<and>
     GetExtent tc = textent t \<and> GetNumBlocks tc = of_nat (length (tblocks t)) \<and>
     unat (GetUnit tc) = unit_of (tblocks t) \<and> unat (GetDepth tc) = tdepth t \<and>
     IsSimple tc = (\<exists>b s r. t = [ICopy b s r]) \<and>
     IsContiguous tc = (\<exists>b. t = [ICopy b b 1])"


section \<open>Adding a typed component\<close>

lemma bytes_of_rep_cong:
  "bytes_of xs = bytes_of ys \<Longrightarrow> bytes_of (rep_blocks s n xs) = bytes_of (rep_blocks s n ys)"
  by (induction n) (simp_all add: rep_blocks_Suc)

lemma rep_blocks_mult:
  "rep_blocks (of_nat m * s) n (rep_blocks s m bs) = rep_blocks s (n * m) bs"
  by (induction n) (simp_all add: rep_blocks_Suc rep_blocks_add)

lemma call_as_copy:
  assumes "bytes_of (env a) = blk 0 (unat b)"
  shows "same_type env [CALL a s r] [COPY b s r]"
  using assms bytes_of_rep_cong [of "env a" "[(0, b)]"] by (simp add: same_type_def layout_def)

lemma call_as_strided_copy:
  assumes "env a = rep_blocks s (unat r) [(0, b)]" and "unat r * unat q < 2 ^ 64"
  shows "same_type env [CALL a (s * r) q] [COPY b s (r * q)]"
  using assms rep_blocks_mult [of "unat r" s "unat q" "[(0, b)]"] unat_mult_small [of r q]
  by (simp add: same_type_def layout_def mult.commute mult.left_commute)

lemma length_layout_call: "length (layout env [CALL a s r]) = unat r * length (bytes_of (env a))"
  by (simp add: layout_def)

lemma layout_bound_last_call:
  assumes "tc_ops tc = cs @ [(p, CALL a s r)]"
    and "length (layout env (tc_ins tc @ [CALL a s r'])) < n"
  shows "unat r + unat r' < n \<or> bytes_of (env a) = []"
proof (cases "bytes_of (env a)")
  case (Cons x xs)
  have "(unat r + unat r') * length (bytes_of (env a)) < n"
    using assms layout_append [of env "[CALL a s r]" "[CALL a s r']"]
    by (simp add: tc_ins_def layout_append length_layout_call algebra_simps)
  then show ?thesis using Cons by (simp add: algebra_simps)
qed simp

text \<open>A copy added in place of the call.\<close>

lemma AddSimpleInternal_for_call:
  assumes "tc_wf tc" and "length (layout env (tc_ins tc @ [CALL a s r])) < 2 ^ 64"
    and st: "same_type env [CALL a s r] [COPY b s' r']"
  shows "\<exists>tc'. AddSimpleInternal b s' r' tc = Some tc' \<and> builds env w tc (CALL a s r) tc'"
proof -
  have "length (layout env (tc_ins tc @ [COPY b s' r'])) < 2 ^ 64"
    using assms(2) same_type_length [OF st] by (simp add: layout_append)
  then show ?thesis
    using AddShift_AddSimpleInternal_builds(2) [OF assms(1), of env b s' r' w]
      builds_same [OF _ same_type_sym [OF st] lighter_simps(6)] by blast
qed

text \<open>The call itself: merged with an identical call in front of it, or pushed.\<close>

lemma AddTypedInternal_builds:
  assumes ok: "type_ok (st sub) (tr sub)"
  shows "tc_wf tc \<Longrightarrow>
     length (layout (tblocks \<circ> tr) (tc_ins tc @ [CALL sub stride reps])) < 2 ^ 64 \<Longrightarrow>
     \<exists>tc'. AddTypedInternal st sub stride reps tc = Some tc' \<and>
        builds (tblocks \<circ> tr) w tc (CALL sub stride reps) tc'"
proof (induction "length (tc_ops tc)" arbitrary: tc reps rule: less_induct)
  case less
  let ?env = "tblocks \<circ> tr"
  note wf = less.prems(1) and len = less.prems(2)
  define call where "call =
    (case Top OP_CALL tc of
       None \<Rightarrow> None
     | Some (Some (CALL a s r)) \<Rightarrow>
         if a = sub \<and> s = stride then AddTypedInternal st sub stride (r + reps) (Pop tc)
         else Some (Push (CALL sub stride reps) tc)
     | Some _ \<Rightarrow> Some (Push (CALL sub stride reps) tc))"
  have eq: "AddTypedInternal st sub stride reps tc =
     (if reps = 0 then Some tc
      else if IsContiguous (st sub) then AddSimpleInternal (GetDataSize (st sub)) stride reps tc
      else if IsSimple (st sub)
            then (case tc_ops (st sub) of
                    (_, COPY b s r) # _ \<Rightarrow>
                      if stride = GetExtent (st sub) then AddSimpleInternal b s (r * reps) tc
                      else if r = 1 then AddSimpleInternal b stride reps tc
                      else call
                  | _ \<Rightarrow> None)
            else call)"
    unfolding call_def by (subst AddTypedInternal.simps) (simp add: Let_def)
  have call_ok: "\<exists>tc'. call = Some tc' \<and> builds ?env w tc (CALL sub stride reps) tc'" if "reps \<noteq> 0"
  proof -
    have push: "builds ?env w tc (CALL sub stride reps) (Push (CALL sub stride reps) tc)"
      using builds_Push [OF wf, of "CALL sub stride reps"] that by simp
    consider (merge) cs p r where "tc_ops tc = cs @ [(p, CALL sub stride r)]"
        "Top OP_CALL tc = Some (Some (CALL sub stride r))"
      | (push) "call = Some (Push (CALL sub stride reps) tc)"
      using Top_wf [OF wf, of OP_CALL] unfolding call_def by fastforce
    then show ?thesis
    proof cases
      case merge
      have st: "same_type ?env [CALL sub stride r, CALL sub stride reps] [CALL sub stride (r + reps)]"
        using merge_same_call layout_bound_last_call [OF merge(1) len] by blast
      have "\<exists>tc'. AddTypedInternal st sub stride (r + reps) (Pop tc) = Some tc' \<and>
          builds ?env w (Pop tc) (CALL sub stride (r + reps)) tc'"
        using less.hyps [OF _ Pop_wf(1) [OF wf merge(1)] layout_bound_Pop [OF wf merge(1) st len]]
          Pop_shorter [of tc] merge(1) by simp
      then show ?thesis using merge builds_Pop [OF _ wf merge(1) st] by (auto simp: call_def)
    qed (use push in simp)
  qed
  note copy_ok = AddSimpleInternal_for_call [OF wf len]
  consider (zero) "reps = 0" | (contig) b where "reps \<noteq> 0" "tr sub = [ICopy b b 1]"
    | (simple) b s r where "reps \<noteq> 0" "tr sub = [ICopy b s r]" "\<not> (b = s \<and> r = 1)"
    | (call) "reps \<noteq> 0" "\<not> (\<exists>b s r. tr sub = [ICopy b s r])" by blast
  then show ?case
  proof cases
    case zero
    then show ?thesis using eq wf builds_id merge_nothing(3) by simp
  next
    case contig
    then have "IsContiguous (st sub)" "GetDataSize (st sub) = b"
      using ok by (auto simp: type_ok_def tbytes_def)
    then show ?thesis using eq contig copy_ok [OF call_as_copy, of b] by simp
  next
    case simple
    obtain p rest where code: "tc_ops (st sub) = (p, COPY b s r) # rest" and "b \<noteq> 0"
      using ok simple by (cases "tc_ops (st sub)")
        (auto simp: type_ok_def full_code_def sz_Begin_def)
    have flags: "IsSimple (st sub)" "\<not> IsContiguous (st sub)" "GetExtent (st sub) = s * r"
      using ok simple by (auto simp: type_ok_def textent_def)
    consider (ext) "stride = s * r" | (one) "stride \<noteq> s * r" "r = 1" | (other) "stride \<noteq> s * r" "r \<noteq> 1" by blast
    then show ?thesis
    proof cases
      case ext
      have "unat reps * (unat r * unat b) < 2 ^ 64"
        using len simple by (simp add: layout_append length_layout_call)
      moreover have "unat reps * unat r * 1 \<le> unat reps * unat r * unat b"
        using \<open>b \<noteq> 0\<close> by (intro mult_le_mono) (simp_all add: unat_gt_0 Suc_le_eq)
      ultimately have "unat r * unat reps < 2 ^ 64"
        using mult.assoc [of "unat reps" "unat r" "unat b"] mult.commute [of "unat r" "unat reps"] by linarith
      then show ?thesis
        using eq simple code flags ext copy_ok [of b s "r * reps"] call_as_strided_copy [of ?env sub s r b reps]
        by simp
    next
      case one
      then show ?thesis using eq simple code flags copy_ok [OF call_as_copy, of b] by simp
    next
      case other
      then show ?thesis using eq simple code flags call_ok by simp
    qed
  next
    case call
    then show ?thesis using eq call_ok ok by (auto simp: type_ok_def)
  qed
qed


section \<open>Completion\<close>

text \<open>What the loop adds to the header.\<close>

definition hdr_adds :: "(addr \<Rightarrow> itree list) \<Rightarrow> op list \<Rightarrow> begin_t \<Rightarrow> begin_t \<Rightarrow> bool" where
  "hdr_adds tr cs hdr h \<longleftrightarrow>
     (let t = map (to_tree tr) cs in
      bg_data_size h = bg_data_size hdr + of_nat (length (tbytes t)) \<and>
      bg_extent h = bg_extent hdr + textent t \<and>
      bg_num_blocks h = bg_num_blocks hdr + of_nat (length (tblocks t)) \<and>
      unat (bg_unit h) = gcd (unat (bg_unit hdr)) (unit_of (tblocks t)) \<and>
      unat (bg_depth h) = max (unat (bg_depth hdr)) (tdepth t) \<and>
      bg_primitive h = bg_primitive hdr \<and> bg_contiguous h = bg_contiguous hdr \<and>
      bg_atom_size h = bg_atom_size hdr)"

definition subs_ok :: "(addr \<Rightarrow> typecode) \<Rightarrow> (addr \<Rightarrow> itree list) \<Rightarrow> addr set \<Rightarrow> bool" where
  "subs_ok st tr as \<longleftrightarrow> (\<forall>a\<in>as. type_ok (st a) (tr a) \<and> Suc (tdepth (tr a)) < 2 ^ 32)"

lemma subs_ok_simps [simp]:
  "subs_ok st tr {}"
  "subs_ok st tr (insert a as) \<longleftrightarrow>
     type_ok (st a) (tr a) \<and> Suc (tdepth (tr a)) < 2 ^ 32 \<and> subs_ok st tr as"
  by (auto simp: subs_ok_def)

lemma unit_of_append: "unit_of (xs @ ys) = gcd (unit_of xs) (unit_of ys)"
  by (induction xs) (simp_all add: gcd.assoc)

lemma unit_of_shift [simp]: "unit_of (shift_blocks d xs) = unit_of xs"
  by (induction xs) simp_all

lemma unit_of_rep: "0 < n \<Longrightarrow> unit_of (rep_blocks s n xs) = unit_of xs"
proof (induction n)
  case (Suc n)
  then show ?case by (cases n) (simp_all add: rep_blocks_Suc unit_of_append)
qed simp

lemma UpdateUnit_gcd: "unat (bg_unit (UpdateUnit n b)) = gcd (unat (bg_unit b)) (unat n)"
  by (simp add: UpdateUnit_def unat_Math_GCD)

definition sub_bytes :: "(addr \<Rightarrow> typecode) \<Rightarrow> addr \<Rightarrow> nat" where
  "sub_bytes st a = code_bytes (full_code (st a))"

lemma UpdateUnit_simps [simp]:
  "bg_data_size (UpdateUnit n b) = bg_data_size b" "bg_extent (UpdateUnit n b) = bg_extent b"
  "bg_num_blocks (UpdateUnit n b) = bg_num_blocks b" "bg_depth (UpdateUnit n b) = bg_depth b"
  "bg_primitive (UpdateUnit n b) = bg_primitive b" "bg_contiguous (UpdateUnit n b) = bg_contiguous b"
  "bg_atom_size (UpdateUnit n b) = bg_atom_size b" "bg_code_size (UpdateUnit n b) = bg_code_size b"
  "bg_simple (UpdateUnit n b) = bg_simple b"
  by (simp_all add: UpdateUnit_def)

lemma UpdateDepth_simps [simp]:
  "bg_data_size (UpdateDepth n b) = bg_data_size b" "bg_extent (UpdateDepth n b) = bg_extent b"
  "bg_num_blocks (UpdateDepth n b) = bg_num_blocks b" "bg_unit (UpdateDepth n b) = bg_unit b"
  "bg_primitive (UpdateDepth n b) = bg_primitive b" "bg_contiguous (UpdateDepth n b) = bg_contiguous b"
  "bg_atom_size (UpdateDepth n b) = bg_atom_size b" "bg_code_size (UpdateDepth n b) = bg_code_size b"
  "bg_simple (UpdateDepth n b) = bg_simple b"
  "unat (bg_depth (UpdateDepth n b)) = max (unat (bg_depth b)) (unat n)"
  by (simp_all add: UpdateDepth_def word_less_nat_alt)

lemmas hdr_defs = AddDataSize_def AddExtent_def AddNumBlocks_def SetSimple_def SetContiguous_def

definition loop_ok ::
    "(addr \<Rightarrow> typecode) \<Rightarrow> (addr \<Rightarrow> itree list) \<Rightarrow> nat \<Rightarrow> nat \<Rightarrow> cell list \<Rightarrow> begin_t \<Rightarrow>
     cell list \<times> cell list \<times> begin_t \<Rightarrow> bool" where
  "loop_ok st tr pc cur cs hdr res \<longleftrightarrow>
     (case res of (own, app, h) \<Rightarrow>
        hdr_adds tr (map snd cs) hdr h \<and>
        bg_code_size h = bg_code_size hdr + of_nat (code_bytes app) \<and>
        code_bytes cs + code_bytes app = weight (sub_bytes st) (map snd cs) \<and> code_bytes own = code_bytes cs + 8 \<and>
        map opcode_of (map snd own) = map opcode_of (map snd cs) @ [OP_END] \<and>
        (bg_simple h \<longrightarrow> bg_simple hdr) \<and>
        (\<forall>A B C. code_bytes A = pc \<longrightarrow> code_bytes (A @ own @ B) = cur \<longrightarrow>
           seq_at (A @ own @ B @ app @ C) pc (map (to_tree tr) (map snd cs))))"

lemma hdr_adds_Nil: "1 \<le> unat (bg_depth hdr) \<Longrightarrow> hdr_adds tr [] hdr (SetSimple v hdr)" 
  by (simp add: hdr_adds_def tbytes_def textent_def hdr_defs)

lemma fetch_at: "code_bytes A = pc \<Longrightarrow> fetch (A @ c # B) pc = Some (snd c)"
  using fetch_append [of A "c # B" 0] by simp

lemma hdr_adds_copy:
  assumes "hdr_adds tr cs h2 h" and "r \<noteq> 0"
    and "h2 = UpdateUnit b (AddNumBlocks r (AddExtent (s * r) (AddDataSize (b * r) h1)))"
  shows "hdr_adds tr (COPY b s r # cs) h1 h"
  using assms unit_of_rep [of "unat r" s "[(0, b)]"] unfolding hdr_adds_def Let_def
  by (simp add: unat_gt_0 UpdateUnit_gcd unit_of_append tbytes_def textent_def hdr_defs gcd.assoc algebra_simps)

lemma hdr_adds_shift:
  assumes "hdr_adds tr cs (AddExtent k h1) h"
  shows "hdr_adds tr (SHIFT k # cs) h1 h"
  using assms unfolding hdr_adds_def Let_def
  by (simp add: tbytes_def textent_def hdr_defs algebra_simps)

lemma hdr_adds_call:
  assumes "hdr_adds tr cs h2 h" and "r \<noteq> 0" and "type_ok sub (tr a)" and "Suc (tdepth (tr a)) < 2 ^ 32"
    and "h2 = UpdateUnit (GetUnit sub) (AddNumBlocks (GetNumBlocks sub * r)
           (UpdateDepth (GetDepth sub + 1) (AddExtent (s * r) (AddDataSize (GetDataSize sub * r) h1))))"
  shows "hdr_adds tr (CALL a s r # cs) h1 h"
proof -
  have "unat (GetDepth sub + 1) = Suc (tdepth (tr a))"
    using assms(3,4) by (simp add: type_ok_def unat_word_ariths)
  then show ?thesis
    using assms unit_of_rep [of "unat r" s "tblocks (tr a)"] unfolding hdr_adds_def Let_def
    by (simp add: unat_gt_0 UpdateUnit_gcd unit_of_append tbytes_def textent_def hdr_defs gcd.assoc algebra_simps
      type_ok_def max.assoc max.left_commute)
qed

lemma hdr_adds_ignores [simp]:
  "hdr_adds tr cs (SetSimple v h1) h = hdr_adds tr cs h1 h"
  "hdr_adds tr cs (h1\<lparr>bg_code_size := n\<rparr>) h = hdr_adds tr cs h1 h"
  by (simp_all add: hdr_adds_def SetSimple_def)

lemma SetSimple_simps [simp]:
  "bg_depth (SetSimple v h) = bg_depth h" "bg_code_size (SetSimple v h) = bg_code_size h"
  "bg_simple (SetSimple v h) = v" "SetSimple v (SetSimple w h) = SetSimple v h"
  by (simp_all add: SetSimple_def)

lemma Add_simps [simp]:
  "bg_depth (AddDataSize n h) = bg_depth h" "bg_depth (AddExtent n h) = bg_depth h"
  "bg_depth (AddNumBlocks n h) = bg_depth h"
  "bg_code_size (AddDataSize n h) = bg_code_size h" "bg_code_size (AddExtent n h) = bg_code_size h"
  "bg_code_size (AddNumBlocks n h) = bg_code_size h"
  "bg_simple (AddDataSize n h) = bg_simple h" "bg_simple (AddExtent n h) = bg_simple h"
  "bg_simple (AddNumBlocks n h) = bg_simple h"
  by (simp_all add: hdr_defs)

lemma loop_ok_seq:
  assumes "loop_ok st tr pc cur cs hdr (own, app, h)"
    and "code_bytes A = pc" and "code_bytes A + code_bytes own + code_bytes B = cur"
  shows "seq_at (A @ own @ B @ app @ C) pc (map (to_tree tr \<circ> snd) cs)"
  using assms by (simp add: loop_ok_def)

lemma loop_okI:
  assumes "hdr_adds tr (map snd cs) hdr h" and "bg_code_size h = bg_code_size hdr + of_nat (code_bytes app)"
    and "code_bytes cs + code_bytes app = weight (sub_bytes st) (map snd cs)" and "code_bytes own = code_bytes cs + 8"
    and "map (opcode_of \<circ> snd) own = map (opcode_of \<circ> snd) cs @ [OP_END]" and "bg_simple h \<longrightarrow> bg_simple hdr"
    and "\<And>A B C. code_bytes A = pc \<Longrightarrow> code_bytes A + code_bytes own + code_bytes B = cur \<Longrightarrow>
           seq_at (A @ own @ B @ app @ C) pc (map (to_tree tr \<circ> snd) cs)"
  shows "loop_ok st tr pc cur cs hdr (own, app, h)"
  using assms by (simp add: loop_ok_def)

text \<open>Each instruction in front of a list for which the rest of the loop is right.\<close>

lemma loop_ok_copy:
  assumes rest: "loop_ok st tr (pc + 32) cur cs h2 (own, app, h)" and "op_ok (COPY b s r)"
    and h2: "h2 = UpdateUnit b (AddNumBlocks r (AddExtent (s * r) (AddDataSize (b * r) h1)))"
    and h1: "h1 = (if p \<noteq> OP_BEGIN then SetSimple False hdr else hdr)"
  shows "loop_ok st tr pc cur ((p, COPY b s r) # cs) hdr ((p, COPY b s r) # own, app, h)"
proof (rule loop_okI)
  show "hdr_adds tr (map snd ((p, COPY b s r) # cs)) hdr h"
    using hdr_adds_copy [of tr "map snd cs" h2 h r b s h1] assms by (auto simp: loop_ok_def split: if_splits)
  show "seq_at (A @ ((p, COPY b s r) # own) @ B @ app @ C) pc (map (to_tree tr \<circ> snd) ((p, COPY b s r) # cs))"
    if "code_bytes A = pc" "code_bytes A + code_bytes ((p, COPY b s r) # own) + code_bytes B = cur" for A B C
    using loop_ok_seq [OF rest, of "A @ [(p, COPY b s r)]" B C] that assms(2) by (simp add: fetch_at)
qed (use rest h1 h2 in \<open>auto simp: loop_ok_def split: if_splits\<close>)

lemma loop_ok_shift:
  assumes rest: "loop_ok st tr (pc + 16) cur cs (AddExtent k (SetSimple False hdr)) (own, app, h)"
  shows "loop_ok st tr pc cur ((p, SHIFT k) # cs) hdr ((p, SHIFT k) # own, app, h)"
proof (rule loop_okI)
  show "hdr_adds tr (map snd ((p, SHIFT k) # cs)) hdr h"
    using hdr_adds_shift [of tr "map snd cs" k "SetSimple False hdr" h] rest by (simp add: loop_ok_def)
  show "seq_at (A @ ((p, SHIFT k) # own) @ B @ app @ C) pc (map (to_tree tr \<circ> snd) ((p, SHIFT k) # cs))"
    if "code_bytes A = pc" "code_bytes A + code_bytes ((p, SHIFT k) # own) + code_bytes B = cur" for A B C
    using loop_ok_seq [OF rest, of "A @ [(p, SHIFT k)]" B C] that by (simp add: fetch_at)
qed (use rest in \<open>auto simp: loop_ok_def\<close>)

lemma loop_ok_end:
  assumes "1 \<le> unat (bg_depth hdr)"
  shows "loop_ok st tr pc cur [] hdr ([(p, END)], [], if p = OP_BEGIN then SetSimple False hdr else hdr)"
proof (rule loop_okI)
  show "hdr_adds tr (map snd []) hdr (if p = OP_BEGIN then SetSimple False hdr else hdr)"
    using hdr_adds_Nil [OF assms, of tr False] hdr_adds_Nil [OF assms, of tr "bg_simple hdr"]
    by (simp add: SetSimple_def)
qed (auto simp: fetch_at)

lemma loop_ok_call:
  assumes rest: "loop_ok st tr (pc + 32) (cur + code_bytes (full_code (st a))) cs h2 (own, app, h)"
    and sub: "type_ok (st a) (tr a)" "Suc (tdepth (tr a)) < 2 ^ 32" and "r \<noteq> 0"
    and h1: "h1 = (SetSimple False hdr)\<lparr>bg_code_size := bg_code_size hdr + GetCodeSize (st a)\<rparr>"
    and h2: "h2 = UpdateUnit (GetUnit (st a)) (AddNumBlocks (GetNumBlocks (st a) * r)
           (UpdateDepth (GetDepth (st a) + 1) (AddExtent (s * r) (AddDataSize (GetDataSize (st a) * r) h1))))"
  shows "loop_ok st tr pc cur ((p, CALL a s r) # cs) hdr
     ((p, CALL (cur - pc) s r) # own, full_code (st a) @ app, h)"
proof (rule loop_okI)
  let ?code = "full_code (st a)"
  have size: "GetCodeSize (st a) = of_nat (code_bytes ?code)"
    using sub(1) by (simp add: type_ok_def)
  show "hdr_adds tr (map snd ((p, CALL a s r) # cs)) hdr h"
    using hdr_adds_call [where tr = tr and a = a and cs = "map snd cs" and h = h, OF _ \<open>r \<noteq> 0\<close> sub h2] rest h1 by (simp add: loop_ok_def)
  show "bg_code_size h = bg_code_size hdr + of_nat (code_bytes (?code @ app))"
    using rest size h1 h2 by (simp add: loop_ok_def)
  show "seq_at (A @ ((p, CALL (cur - pc) s r) # own) @ B @ (?code @ app) @ C) pc
      (map (to_tree tr \<circ> snd) ((p, CALL a s r) # cs))"
    if A: "code_bytes A = pc" and cur: "code_bytes A + code_bytes ((p, CALL (cur - pc) s r) # own) + code_bytes B = cur"
    for A B C
  proof -
    let ?call = "(p, CALL (cur - pc) s r)"
    let ?pre = "A @ (?call # own) @ B"
    have pre: "code_bytes ?pre = cur" using cur by simp
    have "seq_at ((A @ [?call]) @ own @ (B @ ?code) @ app @ C) (pc + 32) (map (to_tree tr \<circ> snd) cs)"
      using loop_ok_seq [OF rest, of "A @ [?call]" "B @ ?code" C] A cur by simp
    moreover have "fetch (?pre @ ?code @ app @ C) cur = Some (BEGIN (tc_begin (st a)))"
      using fetch_append [of ?pre "?code @ app @ C" 0] unfolding pre by (simp add: full_code_def)
    moreover have "seq_at (?pre @ ?code @ app @ C) (cur + sz_Begin) (tr a)"
      using seq_at_mid [of ?code sz_Begin "tr a" ?pre "app @ C"] sub(1) unfolding pre type_ok_def by blast
    moreover have "pc + (cur - pc) = cur" using A cur by simp
    moreover have "bg_data_size (tc_begin (st a)) = of_nat (length (tbytes (tr a)))"
      using sub(1) by (simp add: type_ok_def GetDataSize_def)
    ultimately show ?thesis using A \<open>r \<noteq> 0\<close> fetch_at [OF A, of ?call] by simp
  qed
qed (use rest sub h1 h2 in \<open>auto simp: loop_ok_def sub_bytes_def\<close>)

lemma complete_loop_ok:
  assumes "list_all op_ok (map snd cs)" and "subs_ok st tr (subs (map snd cs))" and "1 \<le> unat (bg_depth hdr)"
  shows "\<exists>res. complete_loop st pc cur (cs @ [(p, END)]) hdr = Some res \<and> loop_ok st tr pc cur cs hdr res"
  using assms
proof (induction cs arbitrary: pc cur hdr)
  case Nil
  then show ?case using loop_ok_end by simp
next
  case (Cons c cs)
  obtain q i where c: "c = (q, i)" by force
  have IH: "\<exists>own app h. complete_loop st pc' cur' (cs @ [(p, END)]) h2 = Some (own, app, h) \<and>
      loop_ok st tr pc' cur' cs h2 (own, app, h)" if "unat (bg_depth hdr) \<le> unat (bg_depth h2)" for pc' cur' h2
    using Cons.IH [of h2 pc' cur'] Cons.prems that c by (cases i) auto
  show ?case
  proof (cases i)
    case (COPY b s r)
    define h1 where "h1 = (if q \<noteq> OP_BEGIN then SetSimple False hdr else hdr)"
    define h2 where "h2 = UpdateUnit b (AddNumBlocks r (AddExtent (s * r) (AddDataSize (b * r) h1)))"
    have dep: "unat (bg_depth hdr) \<le> unat (bg_depth h2)" by (simp add: h1_def h2_def)
    obtain own app h where *: "complete_loop st (pc + 32) cur (cs @ [(p, END)]) h2 = Some (own, app, h)"
        "loop_ok st tr (pc + 32) cur cs h2 (own, app, h)"
      using IH [OF dep] by blast
    then have "complete_loop st pc cur ((c # cs) @ [(p, END)]) hdr = Some ((q, COPY b s r) # own, app, h)"
      unfolding c COPY h2_def h1_def by simp
    then show ?thesis using loop_ok_copy [OF *(2) _ h2_def h1_def] Cons.prems(1) c COPY by simp
  next
    case (CALL a s r)
    define h1 where "h1 = (SetSimple False hdr)\<lparr>bg_code_size := bg_code_size hdr + GetCodeSize (st a)\<rparr>"
    define h2 where "h2 = UpdateUnit (GetUnit (st a)) (AddNumBlocks (GetNumBlocks (st a) * r)
      (UpdateDepth (GetDepth (st a) + 1) (AddExtent (s * r) (AddDataSize (GetDataSize (st a) * r) h1))))"
    have dep: "unat (bg_depth hdr) \<le> unat (bg_depth h2)" by (simp add: h1_def h2_def)
    obtain own app h where *: "complete_loop st (pc + 32) (cur + code_bytes (full_code (st a)))
          (cs @ [(p, END)]) h2 = Some (own, app, h)"
        "loop_ok st tr (pc + 32) (cur + code_bytes (full_code (st a))) cs h2 (own, app, h)"
      using IH [OF dep] by blast
    then have "complete_loop st pc cur ((c # cs) @ [(p, END)]) hdr =
        Some ((q, CALL (cur - pc) s r) # own, full_code (st a) @ app, h)"
      unfolding c CALL h2_def h1_def by (simp add: Let_def)
    then show ?thesis using loop_ok_call [OF *(2) _ _ _ h1_def h2_def] Cons.prems(1,2) c CALL by simp
  next
    case (SHIFT k)
    obtain own app h where *: "complete_loop st (pc + 16) cur (cs @ [(p, END)])
          (AddExtent k (SetSimple False hdr)) = Some (own, app, h)"
        "loop_ok st tr (pc + 16) cur cs (AddExtent k (SetSimple False hdr)) (own, app, h)"
      using IH [of "AddExtent k (SetSimple False hdr)" "pc + 16" cur] by auto
    then show ?thesis using loop_ok_shift [OF *(2)] c SHIFT by simp
  qed (use Cons.prems(1) c in simp_all)
qed

text \<open>The flag for simple types: it survives exactly the code of a single copy.\<close>

lemma complete_loop_simple_mono:
  "complete_loop st pc cur cs hdr = Some (own, app, h) \<Longrightarrow> bg_simple h \<Longrightarrow> bg_simple hdr"
proof (induction cs arbitrary: pc cur hdr own app)
  case (Cons c cs)
  obtain q i where "c = (q, i)" by force
  then show ?case
    using Cons by (cases i) (fastforce simp: Let_def split: option.splits if_splits)+
qed simp

lemma opcode_not_begin: "op_ok c \<Longrightarrow> opcode_of c \<noteq> OP_BEGIN"
  by (cases c) simp_all

lemma complete_loop_simple:
  assumes cells: "cells_ok f cs" "prev_ok f cs p" and ok: "list_all op_ok (map snd cs)" and "bg_simple hdr"
    and loop: "complete_loop st pc cur (cs @ [(p, END)]) hdr = Some (own, app, h)"
  shows "bg_simple h = (\<exists>b s r. map snd cs = [COPY b s r])"
proof -
  consider "cs = []" | c where "cs = [c]" | c d ds where "cs = c # d # ds"
    by (cases cs; cases "tl cs") auto
  then show ?thesis
  proof cases
    case 1
    then show ?thesis using loop cells(2) by (auto simp: prev_ok_def last_opcode_def)
  next
    case (2 c)
    have "fst c = OP_BEGIN" "p = opcode_of (snd c)"
      using 2 cells cells_ok_snoc [of f "[]" c] by (auto simp: prev_ok_def last_opcode_def)
    then show ?thesis
      using 2 loop ok \<open>bg_simple hdr\<close> by (cases c; cases "snd c") (auto simp: Let_def)
  next
    case (3 c d ds)
    have "fst d = opcode_of (snd c)"
      using 3 cells(1) by (auto simp: cells_ok_def prev_ok_def last_opcode_def dest!: spec [of _ 1])
    then have "fst d \<noteq> OP_BEGIN" using 3 ok opcode_not_begin by simp
    then have "\<not> bg_simple h"
      using 3 loop ok by (cases c; cases "snd c"; cases d; cases "snd d")
        (auto simp: Let_def dest!: complete_loop_simple_mono split: option.splits prod.splits)
    then show ?thesis using 3 by simp
  qed
qed

lemma check_contiguous_ok:
  assumes "bg_simple h \<Longrightarrow> \<exists>p b s r rest. own = (p, COPY b s r) # rest \<and> op_ok (COPY b s r)"
    and "bg_contiguous h"
  shows "\<exists>v. check_contiguous own h = Some (SetContiguous v h) \<and>
     (v \<longleftrightarrow> bg_simple h \<and> (\<exists>p b r rest. own = (p, COPY b b r) # rest))"
proof (cases "bg_simple h")
  case True
  then obtain p b s r rest where "own = (p, COPY b s r) # rest" "op_ok (COPY b s r)"
    using assms(1) by auto
  then show ?thesis
    using True assms(2) by (cases "b = s") (auto simp: check_contiguous_def SetContiguous_def intro: exI [of _ True])
qed (auto simp: check_contiguous_def)

lemma to_tree_copy_iff [simp]: "to_tree tr c = ICopy b s r \<longleftrightarrow> c = COPY b s r"
  by (cases c) auto

lemma map_singleton_iff: "map f xs = [y] \<longleftrightarrow> (\<exists>x. xs = [x] \<and> f x = y)"
  by (cases xs) auto

lemma tdepth_pos: "1 \<le> tdepth t"
  by (induction t rule: tdepth.induct) auto

text \<open>The completed header and code describe the type.\<close>

lemma completed_type_ok:
  assumes ops: "list_all op_ok (map snd cs)" and hdr: "hdr_new hdr"
    and lok: "loop_ok st tr sz_Begin (sz_Begin + code_bytes own) cs hdr (own, app, h)"
    and size: "bg_code_size hdr = of_nat (sz_Begin + code_bytes own)"
      "sz_Begin + weight (sub_bytes st) (map snd cs) + 8 < 2 ^ 64"
    and len: "length (layout (tblocks \<circ> tr) (map snd cs)) < 2 ^ 64"
    and simple: "bg_simple h = (\<exists>b s r. map snd cs = [COPY b s r])"
    and contig: "v \<longleftrightarrow> (\<exists>b. map snd cs = [COPY b b 1])"
    and tc': "tc_begin tc' = (SetContiguous v h)\<lparr>bg_primitive := prim\<rparr>" "tc_ops tc' = own @ app" "tc_completed tc'"
  shows "type_ok tc' (map (to_tree tr) (map snd cs))"
proof -
  let ?t = "map (to_tree tr) (map snd cs)"
  have adds: "hdr_adds tr (map snd cs) hdr h" and code: "bg_code_size h = bg_code_size hdr + of_nat (code_bytes app)"
    and app: "code_bytes cs + code_bytes app = weight (sub_bytes st) (map snd cs)"
    using lok by (simp_all add: loop_ok_def)
  have bytes: "tbytes ?t = layout (tblocks \<circ> tr) (map snd cs)"
    by (simp only: tbytes_def layout_def blocks_to_tree [OF ops])
  have "seq_at (full_code tc') sz_Begin ?t"
    using loop_ok_seq [OF lok, of "[(OP_JUNK, BEGIN (tc_begin tc'))]" "[]" "[]"] tc'(2)
    by (simp add: full_code_def sz_Begin_def)
  moreover have "code_bytes (full_code tc') = unat (GetCodeSize tc')"
  proof -
    have "sz_Begin + code_bytes own + code_bytes app < 2 ^ 64" using lok size(2) app by (simp add: loop_ok_def)
    moreover have "GetCodeSize tc' = of_nat (sz_Begin + code_bytes own + code_bytes app)"
      using code size(1) tc'(1) by (simp add: GetCodeSize_def SetContiguous_def)
    ultimately have "unat (GetCodeSize tc') = sz_Begin + code_bytes own + code_bytes app"
      by (simp only: unat_of_nat64)
    then show ?thesis using tc'(2) by (simp add: full_code_def sz_Begin_def)
  qed
  moreover have "IsSimple tc' = (\<exists>b s r. ?t = [ICopy b s r])" "IsContiguous tc' = (\<exists>b. ?t = [ICopy b b 1])"
    using simple contig tc'(1) by (auto simp: IsSimple_def IsContiguous_def SetContiguous_def map_singleton_iff)
  moreover have "GetDataSize tc' = of_nat (length (tbytes ?t))" "GetExtent tc' = textent ?t"
      "GetNumBlocks tc' = of_nat (length (tblocks ?t))" "unat (GetUnit tc') = unit_of (tblocks ?t)"
      "unat (GetDepth tc') = tdepth ?t"
    using adds hdr tc'(1) tdepth_pos [of ?t] unfolding hdr_adds_def hdr_new_def Let_def
    by (simp_all add: GetDataSize_def GetExtent_def GetNumBlocks_def GetUnit_def GetDepth_def SetContiguous_def)
  ultimately show ?thesis using len tc'(3) bytes by (simp only: type_ok_def)
qed

lemma Complete_ok:
  assumes wf: "tc_wf tc" and subs: "subs_ok st tr (subs (tc_ins tc))"
    and len: "length (layout (tblocks \<circ> tr) (tc_ins tc)) < 2 ^ 64"
    and size: "sz_Begin + weight (sub_bytes st) (tc_ins tc) + 8 < 2 ^ 64"
  shows "\<exists>tc'. Complete st tc = Some tc' \<and> type_ok tc' (map (to_tree tr) (tc_ins tc)) \<and>
     GetPrimitive tc' = (if GetPrimitive tc = PRIMITIVE_TYPE_UNDEFINED then PRIMITIVE_TYPE_COUNT
                         else GetPrimitive tc)"
proof -
  define tc1 where "tc1 = Push END tc"
  define p where "p = tc_next_prev (CheckCodeBuffer 16 tc)"
  have ops: "tc_ops tc1 = tc_ops tc @ [(p, END)]"
    by (simp add: tc1_def p_def Push_def Let_def sz_Op_def)
  have cur: "code_cursor tc1 = code_cursor tc + 8"
    by (simp add: ops code_cursor_def)
  have hdr: "hdr_new (tc_begin tc1)" "bg_code_size (tc_begin tc1) = of_nat (code_cursor tc + 8)"
    "bg_primitive (tc_begin tc1) = GetPrimitive tc"
    using wf by (simp_all add: tc1_def Push_def Let_def tc_wf_def GetPrimitive_def)
  have cells: "cells_ok (tc_fresh tc) (tc_ops tc)" "prev_ok (tc_fresh tc) (tc_ops tc) p"
      "list_all op_ok (map snd (tc_ops tc))"
    using wf CheckCodeBuffer_prev [OF wf, of 16] by (simp_all add: tc_wf_def tc_ins_def p_def)
  obtain own app h where loop: "complete_loop st sz_Begin (code_cursor tc1) (tc_ops tc1) (tc_begin tc1) = Some (own, app, h)"
    and lok: "loop_ok st tr sz_Begin (code_cursor tc1) (tc_ops tc) (tc_begin tc1) (own, app, h)"
    using complete_loop_ok [OF cells(3), of st tr "tc_begin tc1" sz_Begin "code_cursor tc1" p] subs hdr(1)
    by (auto simp: tc_ins_def ops hdr_new_def)
  have simple: "bg_simple h = (\<exists>b s r. tc_ins tc = [COPY b s r])"
    using complete_loop_simple [OF cells _ loop [unfolded ops]] hdr(1) by (simp add: tc_ins_def hdr_new_def)
  have own: "\<exists>q. own = [(q, COPY b s r), (p, END)]" if "tc_ins tc = [COPY b s r]" for b s r
    using loop that unfolding ops by (cases "tc_ops tc") (auto simp: tc_ins_def Let_def)
  obtain v where v: "check_contiguous own h = Some (SetContiguous v h)"
      "v \<longleftrightarrow> bg_simple h \<and> (\<exists>p b r rest. own = (p, COPY b b r) # rest)"
  proof -
    have "\<exists>p b s r rest. own = (p, COPY b s r) # rest \<and> op_ok (COPY b s r)" if "bg_simple h"
      using that simple own cells(3) unfolding tc_ins_def by fastforce
    moreover have "bg_contiguous h" using lok hdr(1) by (simp add: loop_ok_def hdr_adds_def hdr_new_def Let_def)
    ultimately show ?thesis using check_contiguous_ok that by blast
  qed
  have contig: "v \<longleftrightarrow> (\<exists>b. tc_ins tc = [COPY b b 1])"
    using v(2) simple own cells(3) unfolding tc_ins_def by fastforce
  define h1 where "h1 = SetContiguous v h"
  define h2 where "h2 = (if bg_primitive h1 = PRIMITIVE_TYPE_UNDEFINED
      then h1\<lparr>bg_primitive := PRIMITIVE_TYPE_COUNT\<rparr> else h1)"
  define tc' where "tc' = tc1\<lparr>tc_begin := h2, tc_ops := own @ app,
      tc_buf_size := max (tc_buf_size tc1) (unat (bg_code_size h2)), tc_completed := True\<rparr>"
  have "Complete st tc = Some tc'"
    using wf loop v(1) unfolding Complete_def tc1_def [symmetric]
    by (simp add: tc_wf_def Let_def tc'_def h2_def h1_def)
  moreover have "type_ok tc' (map (to_tree tr) (tc_ins tc))"
    unfolding tc_ins_def
  proof (rule completed_type_ok [OF cells(3) hdr(1)])
    have own_size: "sz_Begin + code_bytes own = code_cursor tc + 8"
      using lok by (simp add: loop_ok_def code_cursor_def)
    show "loop_ok st tr sz_Begin (sz_Begin + code_bytes own) (tc_ops tc) (tc_begin tc1) (own, app, h)"
      using lok cur own_size by simp
    show "bg_code_size (tc_begin tc1) = of_nat (sz_Begin + code_bytes own)"
      "sz_Begin + weight (sub_bytes st) (map snd (tc_ops tc)) + 8 < 2 ^ 64"
      using hdr(2) size own_size by (simp_all add: tc_ins_def)
    show "tc_begin tc' = (SetContiguous v h)\<lparr>bg_primitive := bg_primitive h2\<rparr>"
      by (simp add: tc'_def h2_def h1_def)
  qed (use len simple contig in \<open>simp_all add: tc_ins_def tc'_def\<close>)
  moreover have "GetPrimitive tc' = (if GetPrimitive tc = PRIMITIVE_TYPE_UNDEFINED then PRIMITIVE_TYPE_COUNT
      else GetPrimitive tc)"
    using lok hdr(3) by (simp add: tc'_def h2_def h1_def SetContiguous_def GetPrimitive_def loop_ok_def hdr_adds_def Let_def)
  ultimately show ?thesis by blast
qed

end
