(* ===== verification/Pami_TypeMachine.thy ===== *)
theory Pami_TypeMachine
  imports Pami_TypeComplete
begin

text \<open>
  \<^verbatim>\<open>common/type/TypeMachine.h\<close>: the machine that runs a type code to pack and unpack
  data. Its state is a stack of cursors, one for every nested call. The model keeps the live part
  of the stack array, innermost cursor first, and the number of cursors the array can hold;
  \<open>None\<close> is a failed assertion, an instruction that cannot be executed or a write past the end of the
  stack. Displacements, offsets and repetition counts are \<open>size_t\<close>; memory maps addresses to bytes.
\<close>

section \<open>State\<close>

record cursor =
  cu_pc :: nat
  cu_disp :: size_t
  cu_offset :: size_t
  cu_rep_num :: size_t
  cu_rep_bytes :: size_t

definition Cursor :: "nat \<Rightarrow> size_t \<Rightarrow> size_t \<Rightarrow> size_t \<Rightarrow> size_t \<Rightarrow> cursor" where
  "Cursor pc disp offset rep_num rep_bytes =
     \<lparr>cu_pc = pc, cu_disp = disp, cu_offset = offset, cu_rep_num = rep_num, cu_rep_bytes = rep_bytes\<rparr>"

definition start_cursor :: cursor where
  "start_cursor = Cursor sz_Begin 0 0 0 0"

type_synonym mem = "size_t \<Rightarrow> 8 word"
type_synonym copy_fun = "size_t \<Rightarrow> size_t \<Rightarrow> size_t \<Rightarrow> mem \<Rightarrow> mem"

record machine =
  tm_type :: typecode
  tm_orig_type :: "typecode option"
  tm_copy_func :: "copy_fun option"
  tm_stack :: "cursor list"
  tm_cap :: nat

section \<open>Executing instructions\<close>

definition ExecuteCall :: "nat \<Rightarrow> nat \<Rightarrow> cursor list \<Rightarrow> cursor list option" where
  "ExecuteCall cap sub_type stack =
     (case stack of
        [] \<Rightarrow> None
      | c # cs \<Rightarrow>
          if length stack < cap
          then Some (Cursor (cu_pc c + sub_type + sz_Begin) (cu_disp c) (cu_offset c) 0 0 # c # cs)
          else None)"

definition ExecuteShift :: "size_t \<Rightarrow> cursor list \<Rightarrow> cursor list option" where
  "ExecuteShift shift stack =
     (case stack of
        [] \<Rightarrow> None
      | c # cs \<Rightarrow> Some (c\<lparr>cu_pc := cu_pc c + 16, cu_disp := cu_disp c + shift\<rparr> # cs))"

definition ExecuteEnd :: "cell list \<Rightarrow> cursor list \<Rightarrow> cursor list option" where
  "ExecuteEnd code stack =
     (case stack of
        [] \<Rightarrow> None
      | [c] \<Rightarrow> Some [c\<lparr>cu_pc := sz_Begin, cu_rep_num := 0, cu_rep_bytes := 0\<rparr>]
      | c # d # ds \<Rightarrow>
          (case fetch code (cu_pc d) of
             Some (CALL off s r) \<Rightarrow>
               (let d1 = d\<lparr>cu_disp := cu_disp d + s, cu_offset := cu_offset c,
                           cu_rep_num := cu_rep_num d + 1, cu_rep_bytes := 0\<rparr> in
                Some ((if cu_rep_num d1 = r then d1\<lparr>cu_pc := cu_pc d1 + 32, cu_rep_num := 0\<rparr> else d1) # ds))
           | _ \<Rightarrow> None))"

section \<open>Copying\<close>

definition memcpy :: copy_fun where
  "memcpy to from n m = (\<lambda>a. if a - to < n then m (from + (a - to)) else m a)"

text \<open>16 bytes are copied as two doubles.\<close>

definition InternalMemCopy :: copy_fun where
  "InternalMemCopy to from n m =
     (if n = 16 then memcpy (to + 8) (from + 8) 8 (memcpy to from 8 m) else memcpy to from n m)"

definition MemCopy :: "bool \<Rightarrow> copy_fun option \<Rightarrow> copy_fun" where
  "MemCopy pack copy_func to from n m =
     (let f = (case copy_func of None \<Rightarrow> InternalMemCopy | Some f \<Rightarrow> f) in
      if pack then f to from n m else f from to n m)"

text \<open>The loop over whole repetitions in \<open>Copy\<close>.\<close>

partial_function (option) copy_reps ::
    "copy_fun \<Rightarrow> size_t \<Rightarrow> size_t \<Rightarrow> size_t \<Rightarrow> size_t \<Rightarrow> size_t \<Rightarrow> cursor \<Rightarrow> mem \<Rightarrow>
     (size_t \<times> size_t \<times> cursor \<times> mem) option" where
  "copy_reps mc origin b s target bytes c m =
     (if b < bytes
      then copy_reps mc origin b s (target + b) (bytes - b)
             (c\<lparr>cu_disp := cu_disp c + s, cu_offset := cu_offset c + b, cu_rep_num := cu_rep_num c + 1\<rparr>)
             (mc target (origin + cu_disp c) b m)
      else Some (target, bytes, c, m))"

definition copy_first ::
    "copy_fun \<Rightarrow> size_t \<Rightarrow> size_t \<Rightarrow> size_t \<Rightarrow> size_t \<Rightarrow> size_t \<Rightarrow> size_t \<Rightarrow> cursor \<Rightarrow> mem \<Rightarrow>
     (size_t \<times> size_t \<times> cursor \<times> mem) option" where
  "copy_first mc target origin bytes b s r c m =
     (let left = b - cu_rep_bytes c in
      if left < bytes
      then do { (target, bytes, c, m) \<leftarrow>
                  copy_reps mc origin b s (target + left) (bytes - left)
                    (c\<lparr>cu_disp := cu_disp c + s, cu_offset := cu_offset c + left,
                       cu_rep_num := cu_rep_num c + 1, cu_rep_bytes := 0\<rparr>)
                    (mc target (origin + cu_disp c + cu_rep_bytes c) left m);
                if cu_rep_num c < r then Some (target, bytes, c, m) else None }
      else Some (target, bytes, c, m))"

definition copy_last :: "size_t \<Rightarrow> size_t \<Rightarrow> size_t \<Rightarrow> size_t \<Rightarrow> cursor \<Rightarrow> cursor" where
  "copy_last bytes b s r c =
     (let c1 = c\<lparr>cu_offset := cu_offset c + bytes, cu_rep_bytes := cu_rep_bytes c + bytes\<rparr> in
      if cu_rep_bytes c1 = b
      then (let c2 = c1\<lparr>cu_disp := cu_disp c1 + s, cu_rep_num := cu_rep_num c1 + 1, cu_rep_bytes := 0\<rparr> in
            if cu_rep_num c2 = r then c2\<lparr>cu_pc := cu_pc c2 + 32, cu_rep_num := 0\<rparr> else c2)
      else c1)"

definition Copy ::
    "copy_fun \<Rightarrow> size_t \<Rightarrow> size_t \<Rightarrow> size_t \<Rightarrow> size_t \<Rightarrow> size_t \<Rightarrow> size_t \<Rightarrow> cursor \<Rightarrow> mem \<Rightarrow>
     (cursor \<times> mem) option" where
  "Copy mc target origin bytes b s r c m =
     (if \<not> bytes \<le> b * (r - cu_rep_num c) - cu_rep_bytes c then None
      else do { (target, bytes, c, m) \<leftarrow> copy_first mc target origin bytes b s r c m;
                if \<not> bytes \<le> b - cu_rep_bytes c then None
                else Some (copy_last bytes b s r c,
                           mc target (origin + cu_disp c + cu_rep_bytes c) bytes m) })"

text \<open>One turn of the loop of \<open>Run\<close>: the number of bytes copied, the stack and the memory.\<close>

definition run_step ::
    "cell list \<Rightarrow> nat \<Rightarrow> copy_fun \<Rightarrow> size_t \<Rightarrow> size_t \<Rightarrow> size_t \<Rightarrow> cursor list \<Rightarrow> mem \<Rightarrow>
     (size_t \<times> cursor list \<times> mem) option" where
  "run_step code cap mc target origin bytes stack m =
     (case stack of
        [] \<Rightarrow> None
      | c # cs \<Rightarrow>
         (case fetch code (cu_pc c) of
            Some (COPY b s r) \<Rightarrow>
              (let bytes_left = b * (r - cu_rep_num c) - cu_rep_bytes c;
                   n = min bytes_left bytes in
               if bytes_left = 0 then None
               else map_option (\<lambda>(c1, m1). (n, c1 # cs, m1)) (Copy mc target origin n b s r c m))
          | Some (CALL off s r) \<Rightarrow> map_option (\<lambda>st. (0, st, m)) (ExecuteCall cap off stack)
          | Some (SHIFT k) \<Rightarrow> map_option (\<lambda>st. (0, st, m)) (ExecuteShift k stack)
          | Some END \<Rightarrow> map_option (\<lambda>st. (0, st, m)) (ExecuteEnd code stack)
          | _ \<Rightarrow> None))"

partial_function (option) Run ::
    "cell list \<Rightarrow> nat \<Rightarrow> copy_fun \<Rightarrow> size_t \<Rightarrow> size_t \<Rightarrow> size_t \<Rightarrow> cursor list \<Rightarrow> mem \<Rightarrow>
     (cursor list \<times> mem) option" where
  "Run code cap mc target origin bytes stack m =
     (if bytes = 0 then Some (stack, m)
      else do { (n, stack1, m1) \<leftarrow> run_step code cap mc target origin bytes stack m;
                Run code cap mc (target + n) origin (bytes - n) stack1 m1 })"

section \<open>Moving the cursor\<close>

text \<open>One turn of the loop of \<open>MoveCursor\<close>: \<open>Inl\<close> is the stack when it returns, \<open>Inr\<close> the
  program counter, displacement, offset and lower cursors of the next turn.\<close>

definition move_step ::
    "cell list \<Rightarrow> nat \<Rightarrow> size_t \<Rightarrow> nat \<times> size_t \<times> size_t \<times> cursor list \<Rightarrow>
     (cursor list + nat \<times> size_t \<times> size_t \<times> cursor list) option" where
  "move_step code cap new_offset = (\<lambda>(pc, disp, offset, lower).
     (if cap \<le> length lower then None
      else (case fetch code pc of
        Some (COPY b s r) \<Rightarrow>
          (let copy_size = b * r in
           if new_offset < offset + copy_size
           then (if b = 0 then None
                 else (let diff_size = new_offset - offset;
                           rep_num = diff_size div b;
                           rep_bytes = diff_size - b * rep_num in
                       Some (Inl (Cursor pc (disp + s * rep_num) new_offset rep_num rep_bytes # lower))))
           else Some (Inr (pc + 32, disp + s * r, offset + copy_size, lower)))
      | Some (CALL off s r) \<Rightarrow>
          (case fetch code (pc + off) of
             Some (BEGIN h) \<Rightarrow>
               (let sub_bytes = bg_data_size h;
                    copy_size = sub_bytes * r in
                if new_offset < offset + copy_size
                then (if sub_bytes = 0 then None
                      else (let diff_size = new_offset - offset;
                                rep_num = diff_size div sub_bytes;
                                rep_bytes = diff_size - sub_bytes * rep_num;
                                disp = disp + s * rep_num;
                                offset = new_offset - rep_bytes in
                            Some (Inr (pc + off + sz_Begin, disp, offset,
                                       Cursor pc disp offset rep_num 0 # lower))))
                else Some (Inr (pc + 32, disp + s * r, offset + copy_size, lower)))
           | _ \<Rightarrow> None)
      | Some (SHIFT k) \<Rightarrow> Some (Inr (pc + 16, disp + k, offset, lower))
      | Some END \<Rightarrow> Some (Inr (sz_Begin, disp, offset, lower))
      | _ \<Rightarrow> None)))"

partial_function (option) move_loop ::
    "cell list \<Rightarrow> nat \<Rightarrow> size_t \<Rightarrow> nat \<times> size_t \<times> size_t \<times> cursor list \<Rightarrow> cursor list option" where
  "move_loop code cap new_offset x =
     do { y \<leftarrow> move_step code cap new_offset x;
          (case y of Inl stack \<Rightarrow> Some stack | Inr z \<Rightarrow> move_loop code cap new_offset z) }"

definition top_offset :: "machine \<Rightarrow> size_t" where
  "top_offset tm = (case tm_stack tm of [] \<Rightarrow> 0 | c # _ \<Rightarrow> cu_offset c)"

definition MoveCursor :: "size_t \<Rightarrow> machine \<Rightarrow> machine option" where
  "MoveCursor new_offset tm =
     (if top_offset tm = new_offset then Some tm
      else if GetDataSize (tm_type tm) = 0 then None
      else (let sz = GetDataSize (tm_type tm);
                skip_reps = new_offset div sz in
            map_option (\<lambda>stack. tm\<lparr>tm_stack := stack\<rparr>)
              (move_loop (full_code (tm_type tm)) (tm_cap tm) new_offset
                 (sz_Begin, skip_reps * GetExtent (tm_type tm), skip_reps * sz, []))))"

section \<open>The machine\<close>

definition SMALL_STACK_DEPTH :: nat where "SMALL_STACK_DEPTH = 4"

text \<open>The three constructors choose the type to run and the stack alike; they differ in the
  stack offered to them: the small stack inside the object, or \<open>custom\<close> cursors. \<open>contig_max\<close> is
  \<^verbatim>\<open>PAMI_TYPE_CONTIG_MAX\<close>.\<close>

definition TypeMachine_new :: "typecode \<Rightarrow> nat \<Rightarrow> typecode \<Rightarrow> machine option" where
  "TypeMachine_new contig_max offered atype =
     (if \<not> IsCompleted atype then None
      else (let (ty, orig) = (if IsContiguous atype then (contig_max, Some atype) else (atype, None));
                cap = (if unat (GetDepth ty) \<le> offered then offered else unat (GetDepth ty)) in
            Some \<lparr>tm_type = ty, tm_orig_type = orig, tm_copy_func = None,
                  tm_stack = [start_cursor], tm_cap = cap\<rparr>))"

definition SetType :: "typecode \<Rightarrow> typecode \<Rightarrow> machine \<Rightarrow> machine option" where
  "SetType contig_max new_type tm =
     (if \<not> IsCompleted new_type \<or> new_type = contig_max then None
      else (let old = (case tm_orig_type tm of None \<Rightarrow> tm_type tm | Some t \<Rightarrow> t);
                (ty, orig) = (if IsContiguous new_type then (contig_max, Some new_type) else (new_type, None));
                new_depth = unat (GetDepth ty);
                cap = (if unat (GetDepth old) < new_depth \<and> SMALL_STACK_DEPTH < new_depth then new_depth
                       else tm_cap tm) in
            Some (tm\<lparr>tm_type := ty, tm_orig_type := orig, tm_stack := [start_cursor], tm_cap := cap\<rparr>)))"

definition GetType :: "machine \<Rightarrow> typecode" where
  "GetType tm = (case tm_orig_type tm of Some t \<Rightarrow> t | None \<Rightarrow> tm_type tm)"

definition GetCursor :: "machine \<Rightarrow> size_t" where
  "GetCursor tm = top_offset tm"

definition GetCursorDisp :: "machine \<Rightarrow> size_t" where
  "GetCursorDisp tm = (case tm_stack tm of [] \<Rightarrow> 0 | c # _ \<Rightarrow> cu_disp c)"

definition Pack :: "size_t \<Rightarrow> size_t \<Rightarrow> size_t \<Rightarrow> machine \<Rightarrow> mem \<Rightarrow> (machine \<times> mem) option" where
  "Pack target origin bytes tm m =
     map_option (\<lambda>(stack, m). (tm\<lparr>tm_stack := stack\<rparr>, m))
       (Run (full_code (tm_type tm)) (tm_cap tm) (MemCopy True (tm_copy_func tm)) target origin bytes (tm_stack tm) m)"

definition Unpack :: "size_t \<Rightarrow> size_t \<Rightarrow> size_t \<Rightarrow> machine \<Rightarrow> mem \<Rightarrow> (machine \<times> mem) option" where
  "Unpack target origin bytes tm m =
     map_option (\<lambda>(stack, m). (tm\<lparr>tm_stack := stack\<rparr>, m))
       (Run (full_code (tm_type tm)) (tm_cap tm) (MemCopy False (tm_copy_func tm)) origin target bytes (tm_stack tm) m)"

text \<open>\<open>GetContigBytes\<close> runs the instructions that copy nothing until it stands at a copy, and
  returns what is left of it.\<close>

partial_function (option) contig_loop ::
    "cell list \<Rightarrow> nat \<Rightarrow> cursor list \<Rightarrow> (size_t \<times> cursor list) option" where
  "contig_loop code cap stack =
     (case stack of
        [] \<Rightarrow> None
      | c # cs \<Rightarrow>
         (case fetch code (cu_pc c) of
            None \<Rightarrow> None
          | Some i \<Rightarrow>
             (case i of
                COPY b s r \<Rightarrow>
                  (let bytes_left = b * (r - cu_rep_num c) - cu_rep_bytes c in
                   if bytes_left = 0 then None else Some (bytes_left, stack))
              | CALL off s r \<Rightarrow> Option.bind (ExecuteCall cap off stack) (contig_loop code cap)
              | SHIFT k \<Rightarrow> Option.bind (ExecuteShift k stack) (contig_loop code cap)
              | END \<Rightarrow> Option.bind (ExecuteEnd code stack) (contig_loop code cap)
              | BEGIN _ \<Rightarrow> None)))"

declare copy_reps.simps [code] Run.simps [code] move_loop.simps [code] contig_loop.simps [code]

definition GetContigBytes :: "machine \<Rightarrow> (size_t \<times> machine) option" where
  "GetContigBytes tm =
     map_option (\<lambda>(n, stack). (n, tm\<lparr>tm_stack := stack\<rparr>))
       (contig_loop (full_code (tm_type tm)) (tm_cap tm) (tm_stack tm))"

end
