(* ===== verification/Pami_TypeRun.thy ===== *)
theory Pami_TypeRun
  imports Pami_TypeMachine
begin

text \<open>
  The machine runs a type as its tree describes it: from offset \<open>n\<close> of the endless
  repetition of the type, running \<open>b\<close> bytes ends and copies the displacements of the
  offsets \<open>n\<close> to \<open>n + b\<close>, in order; the stack never overflows; \<open>MoveCursor\<close> reaches
  every offset.
\<close>

section \<open>What is left to do\<close>

text \<open>The blocks and the displacement that remain of an instruction list of which the first
  instruction has done \<open>n\<close> repetitions, relative to the displacement of the cursor.\<close>

fun pend1 :: "itree \<Rightarrow> size_t \<Rightarrow> block list" where
  "pend1 (ICopy b s r) n = rep_blocks s (unat r - unat n) [(0, b)]"
| "pend1 (ICall sub s r) n = rep_blocks s (unat r - unat n) (tblocks sub)"
| "pend1 (IShift k) n = []"

fun adv1 :: "itree \<Rightarrow> size_t \<Rightarrow> size_t" where
  "adv1 (ICopy b s r) n = s * (r - n)"
| "adv1 (ICall sub s r) n = s * (r - n)"
| "adv1 (IShift k) n = k"

fun pend :: "itree list \<Rightarrow> size_t \<Rightarrow> block list" where
  "pend [] n = []"
| "pend (i # is) n = pend1 i n @ shift_blocks (adv1 i n) (tblocks is)"

fun adv :: "itree list \<Rightarrow> size_t \<Rightarrow> size_t" where
  "adv [] n = 0"
| "adv (i # is) n = adv1 i n + textent is"

lemma pend_0 [simp]: "pend is 0 = tblocks is"
proof (cases "is")
  case (Cons i js)
  then show ?thesis by (cases i) simp_all
qed simp

lemma adv_0 [simp]: "adv is 0 = textent is"
proof (cases "is")
  case (Cons i js)
  then show ?thesis by (cases i) (simp_all add: textent_def)
qed (simp add: textent_def)

text \<open>A cursor at the instructions \<open>is\<close>.\<close>

definition top_ok :: "cell list \<Rightarrow> cursor \<Rightarrow> itree list \<Rightarrow> bool" where
  "top_ok code c is \<longleftrightarrow> seq_at code (cu_pc c) is \<and>
     (case is of
        ICopy b s r # _ \<Rightarrow> cu_rep_num c < r \<and> cu_rep_bytes c < b
      | ICall sub s r # _ \<Rightarrow> cu_rep_num c < r \<and> cu_rep_bytes c = 0
      | _ \<Rightarrow> cu_rep_num c = 0 \<and> cu_rep_bytes c = 0)"

text \<open>The cursors below the top one wait in a call; \<open>d\<close> is the depth of what runs above.\<close>

fun low_ok :: "cell list \<Rightarrow> nat \<Rightarrow> nat \<Rightarrow> (cursor \<times> itree list) list \<Rightarrow> bool" where
  "low_ok code cap d [] \<longleftrightarrow> d \<le> cap"
| "low_ok code cap d ((c, is) # fs) \<longleftrightarrow>
     (\<exists>sub s r js. is = ICall sub s r # js \<and> seq_at code (cu_pc c) is \<and> cu_rep_num c < r \<and> d \<le> tdepth sub) \<and>
     low_ok code cap (tdepth is) fs"

fun stride_of :: "itree list \<Rightarrow> size_t" where
  "stride_of (ICall sub s r # is) = s"
| "stride_of _ = 0"

fun low_rem :: "(cursor \<times> itree list) list \<Rightarrow> size_t list" where
  "low_rem [] = []"
| "low_rem ((c, is) # fs) =
     map ((+) (cu_disp c + stride_of is)) (bytes_of (pend is (cu_rep_num c + 1))) @ low_rem fs"

fun low_fin :: "size_t \<Rightarrow> (cursor \<times> itree list) list \<Rightarrow> size_t" where
  "low_fin x [] = x"
| "low_fin x ((c, is) # fs) = low_fin (cu_disp c + stride_of is + adv is (cu_rep_num c + 1)) fs"

definition top_rem :: "cursor \<Rightarrow> itree list \<Rightarrow> size_t list" where
  "top_rem c is = map ((+) (cu_disp c)) (drop (unat (cu_rep_bytes c)) (bytes_of (pend is (cu_rep_num c))))"

definition top_fin :: "cursor \<Rightarrow> itree list \<Rightarrow> size_t" where
  "top_fin c is = cu_disp c + adv is (cu_rep_num c)"

text \<open>The displacement of the byte at offset \<open>n\<close> of the endless repetition of a type.\<close>

definition disp_at :: "itree list \<Rightarrow> nat \<Rightarrow> size_t" where
  "disp_at t n = of_nat (n div length (tbytes t)) * textent t + tbytes t ! (n mod length (tbytes t))"

text \<open>No copy of the tree wraps around.\<close>

fun tfits :: "itree list \<Rightarrow> bool" where
  "tfits [] \<longleftrightarrow> True"
| "tfits (ICopy b s r # is) \<longleftrightarrow> unat b * unat r < 2 ^ 64 \<and> tfits is"
| "tfits (IShift k # is) \<longleftrightarrow> tfits is"
| "tfits (ICall sub s r # is) \<longleftrightarrow> length (tbytes sub) * unat r < 2 ^ 64 \<and> tfits sub \<and> tfits is"

lemma length_tbytes_simps [simp]:
  "length (tbytes []) = 0"
  "length (tbytes (ICopy b s r # is)) = unat r * unat b + length (tbytes is)"
  "length (tbytes (IShift k # is)) = length (tbytes is)"
  "length (tbytes (ICall sub s r # is)) = unat r * length (tbytes sub) + length (tbytes is)"
  by (simp_all add: tbytes_def)

lemma seq_at_tfits: "seq_at code pc t \<Longrightarrow> length (tbytes t) < 2 ^ 64 \<Longrightarrow> tfits t"
proof (induction code pc t rule: seq_at.induct)
  case (4 code pc sub s r "is")
  have "0 < unat r" using "4.prems"(1) by (auto simp: unat_gt_0)
  then have "length (tbytes sub) \<le> unat r * length (tbytes sub)" by (cases "unat r") simp_all
  then have "length (tbytes sub) < 2 ^ 64" using "4.prems"(2) by (simp only: length_tbytes_simps)
  then show ?case using 4 by (auto simp: mult.commute)
qed (auto simp: mult.commute)

text \<open>The number of silent steps until the end of the type.\<close>

fun tsteps :: "itree list \<Rightarrow> nat" where
  "tsteps [] = 1"
| "tsteps (ICall sub s r # is) = unat r * Suc (tsteps sub) + tsteps is"
| "tsteps (_ # is) = 1 + tsteps is"

fun psteps :: "itree list \<Rightarrow> size_t \<Rightarrow> nat" where
  "psteps (ICall sub s r # is) n = (unat r - unat n) * Suc (tsteps sub) + tsteps is"
| "psteps is n = tsteps is"

fun low_steps :: "(cursor \<times> itree list) list \<Rightarrow> nat" where
  "low_steps [] = 0"
| "low_steps ((c, is) # fs) = psteps is (cu_rep_num c + 1) + low_steps fs"

lemma psteps_0 [simp]: "psteps is 0 = tsteps is"
  by (cases "is" rule: tsteps.cases) simp_all

text \<open>Silent steps: a call, a shift and the end of a sub-type change neither what remains nor
  where it ends.\<close>

lemma word_Suc_le: "(n::size_t) < r \<Longrightarrow> unat (n + 1) = Suc (unat n) \<and> unat r - unat n = Suc (unat r - unat (n + 1))"
proof -
  assume "n < r"
  then have "unat n < unat r" by (simp add: word_less_nat_alt)
  moreover have "unat r < 2 ^ 64" by (rule unat64_less)
  ultimately have "unat (n + 1) = Suc (unat n)" by (simp add: unat_word_ariths)
  then show ?thesis using \<open>unat n < unat r\<close> by simp
qed

lemma call_rem:
  assumes "n < r"
  shows "bytes_of (pend (ICall sub s r # is) n) =
     bytes_of (tblocks sub) @ map ((+) s) (bytes_of (pend (ICall sub s r # is) (n + 1)))"
    and "adv (ICall sub s r # is) n = s + adv (ICall sub s r # is) (n + 1)"
  using word_Suc_le [OF assms] by (simp_all add: rep_blocks_Suc comp_def algebra_simps)

lemma pend_done: "pend (ICall sub s r # is) r = tblocks is" "adv (ICall sub s r # is) r = textent is"
  by simp_all

lemma top_ok_start:
  assumes "seq_at code pc is" and "cu_pc c = pc" and "cu_rep_num c = 0" and "cu_rep_bytes c = 0"
  shows "top_ok code c is"
  using assms unfolding top_ok_def
  by (cases "is" rule: tdepth.cases) (auto simp: word_neq_0_conv)


lemma frames_fit: "low_ok code cap d fs \<Longrightarrow> d + length fs \<le> cap"
proof (induction code cap d fs rule: low_ok.induct)
  case (2 code cap d c "is" fs)
  then show ?case by auto
qed simp

lemma ExecuteCall_silent:
  assumes top: "top_ok code c (ICall sub s r # is)" and low: "low_ok code cap (tdepth (ICall sub s r # is)) fs"
  obtains off c' where "fetch code (cu_pc c) = Some (CALL off s r)"
    and "ExecuteCall cap off (c # map fst fs) = Some (c' # map fst ((c, ICall sub s r # is) # fs))"
    and "top_ok code c' sub" and "low_ok code cap (tdepth sub) ((c, ICall sub s r # is) # fs)"
    and "top_rem c' sub @ low_rem ((c, ICall sub s r # is) # fs) = top_rem c (ICall sub s r # is) @ low_rem fs"
    and "low_fin (top_fin c' sub) ((c, ICall sub s r # is) # fs) = low_fin (top_fin c (ICall sub s r # is)) fs"
    and "cu_offset c' = cu_offset c"
    and "psteps sub (cu_rep_num c') + low_steps ((c, ICall sub s r # is) # fs) <
      psteps (ICall sub s r # is) (cu_rep_num c) + low_steps fs"
proof -
  obtain off h where off: "fetch code (cu_pc c) = Some (CALL off s r)"
      "seq_at code (cu_pc c + off + sz_Begin) sub" and rn: "cu_rep_num c < r" "cu_rep_bytes c = 0"
    using top by (auto simp: top_ok_def)
  define c' where "c' = Cursor (cu_pc c + off + sz_Begin) (cu_disp c) (cu_offset c) 0 0"
  have "1 \<le> tdepth sub" by (rule tdepth_pos)
  then have "Suc (length fs) < cap" using frames_fit [OF low] by (auto simp: max_def split: if_splits)
  then have "ExecuteCall cap off (c # map fst fs) = Some (c' # map fst ((c, ICall sub s r # is) # fs))"
    by (simp add: ExecuteCall_def c'_def)
  moreover have "top_ok code c' sub" by (rule top_ok_start [OF off(2)]) (simp_all add: c'_def Cursor_def)
  moreover have "low_ok code cap (tdepth sub) ((c, ICall sub s r # is) # fs)"
    using top low rn by (auto simp: top_ok_def)
  ultimately show ?thesis
    using that [OF off(1)] call_rem [OF rn(1), of sub s "is"] rn(2) word_Suc_le [OF rn(1)]
    by (simp add: top_rem_def top_fin_def c'_def Cursor_def comp_def add.assoc del: pend.simps adv.simps)
qed

lemma ExecuteShift_silent:
  assumes "top_ok code c (IShift k # is)"
  obtains c' where "fetch code (cu_pc c) = Some (SHIFT k)"
    and "ExecuteShift k (c # cs) = Some (c' # cs)" and "top_ok code c' is"
    and "top_rem c' is = top_rem c (IShift k # is)" and "top_fin c' is = top_fin c (IShift k # is)"
    and "cu_offset c' = cu_offset c" and "psteps is (cu_rep_num c') < psteps (IShift k # is) (cu_rep_num c)"
proof -
  define c' where "c' = c\<lparr>cu_pc := cu_pc c + 16, cu_disp := cu_disp c + k\<rparr>"
  have c: "fetch code (cu_pc c) = Some (SHIFT k)" "seq_at code (cu_pc c + 16) is"
      "cu_rep_num c = 0" "cu_rep_bytes c = 0"
    using assms by (auto simp: top_ok_def)
  moreover have "top_ok code c' is" by (rule top_ok_start [OF c(2)]) (simp_all add: c'_def c)
  ultimately show ?thesis
    using that [of c'] by (simp add: ExecuteShift_def c'_def top_rem_def top_fin_def comp_def add.assoc textent_def)
qed

lemma low_ok_mono: "low_ok code cap d fs \<Longrightarrow> d' \<le> d \<Longrightarrow> low_ok code cap d' fs"
  by (cases fs) auto

lemma ExecuteEnd_silent:
  assumes top: "top_ok code c []" and low: "low_ok code cap d ((e, is) # fs)"
  obtains e' is' where "fetch code (cu_pc c) = Some END"
    and "ExecuteEnd code (c # e # map fst fs) = Some (e' # map fst fs)" and "top_ok code e' is'"
    and "low_ok code cap (tdepth is') fs"
    and "top_rem e' is' = low_rem [(e, is)]" and "top_fin e' is' = low_fin x [(e, is)]"
    and "cu_offset e' = cu_offset c" and "psteps is' (cu_rep_num e') = psteps is (cu_rep_num e + 1)"
    and "tfits is \<Longrightarrow> tfits is'"
proof -
  obtain sub s r js where is_eq: "is = ICall sub s r # js" and at: "seq_at code (cu_pc e) is" and rn: "cu_rep_num e < r"
      and low': "low_ok code cap (tdepth is) fs"
    using low by auto
  obtain off where f: "fetch code (cu_pc e) = Some (CALL off s r)" and at': "seq_at code (cu_pc e + 32) js"
    using at is_eq by auto
  have fc: "fetch code (cu_pc c) = Some END" using top by (simp add: top_ok_def)
  define e1 where "e1 = e\<lparr>cu_disp := cu_disp e + s, cu_offset := cu_offset c, cu_rep_num := cu_rep_num e + 1, cu_rep_bytes := 0\<rparr>"
  show ?thesis
  proof (cases "cu_rep_num e + 1 = r")
    case True
    define e2 where "e2 = e1\<lparr>cu_pc := cu_pc e1 + 32, cu_rep_num := 0\<rparr>"
    have "ExecuteEnd code (c # e # map fst fs) = Some (e2 # map fst fs)"
      using True f by (simp add: ExecuteEnd_def e1_def e2_def Let_def)
    moreover have "top_ok code e2 js" by (rule top_ok_start [OF at']) (simp_all add: e2_def e1_def)
    moreover have "low_ok code cap (tdepth js) fs" using low_ok_mono [OF low'] is_eq by simp
    ultimately show ?thesis
      using that [OF fc] True is_eq by (simp add: top_rem_def top_fin_def e2_def e1_def)
  next
    case False
    have "cu_rep_num e + 1 < r" using rn False word_Suc_le [OF rn] by (auto simp: word_less_nat_alt word_unat_eq_iff)
    then have "top_ok code e1 is" using at is_eq by (simp add: top_ok_def e1_def)
    moreover have "ExecuteEnd code (c # e # map fst fs) = Some (e1 # map fst fs)"
      using False f by (simp add: ExecuteEnd_def e1_def Let_def)
    ultimately show ?thesis
      using that [OF fc, of e1 "is"] low' is_eq by (simp add: top_rem_def top_fin_def e1_def)
  qed
qed

section \<open>Copying\<close>

text \<open>The chunks a run copies, each to the next bytes of the target.\<close>

fun run_chunks :: "copy_fun \<Rightarrow> size_t \<Rightarrow> size_t \<Rightarrow> block list \<Rightarrow> mem \<Rightarrow> mem" where
  "run_chunks mc target origin [] m = m"
| "run_chunks mc target origin ((d, n) # bs) m =
     run_chunks mc (target + n) origin bs (mc target (origin + d) n m)"

definition blocks_size :: "block list \<Rightarrow> size_t" where
  "blocks_size bs = sum_list (map snd bs)"

lemma run_chunks_append:
  "run_chunks mc target origin (xs @ ys) m =
     run_chunks mc (target + blocks_size xs) origin ys (run_chunks mc target origin xs m)"
  by (induction mc target origin xs m rule: run_chunks.induct) (simp_all add: blocks_size_def add.assoc)

text \<open>The bytes left of a copy instruction.\<close>

definition copy_rem :: "size_t \<Rightarrow> size_t \<Rightarrow> size_t \<Rightarrow> cursor \<Rightarrow> size_t list" where
  "copy_rem b s r c = map ((+) (cu_disp c))
     (drop (unat (cu_rep_bytes c)) (bytes_of (rep_blocks s (unat r - unat (cu_rep_num c)) [(0, b)])))"

lemma blk_shift: "map ((+) d) (blk e n) = blk (d + e) n"
  by (simp add: blk_def add.assoc)

lemma drop_blk: "k \<le> n \<Longrightarrow> drop k (blk d n) = blk (d + of_nat k) (n - k)"
  using blk_add [of d k "n - k"] by simp

text \<open>The rest of the current repetition, and what remains after it.\<close>

lemma copy_rem_rep:
  assumes "cu_rep_num c < r" and "cu_rep_bytes c \<le> b"
  shows "copy_rem b s r c = blk (cu_disp c + cu_rep_bytes c) (unat b - unat (cu_rep_bytes c)) @
     copy_rem b s r (c\<lparr>cu_disp := cu_disp c + s, cu_rep_num := cu_rep_num c + 1, cu_rep_bytes := 0\<rparr>)"
proof -
  have "unat (cu_rep_bytes c) \<le> unat b" using assms(2) by (simp add: word_le_nat_alt)
  then show ?thesis
    using word_Suc_le [OF assms(1)] by (simp add: copy_rem_def rep_blocks_Suc drop_blk blk_shift comp_def add.assoc)
qed

lemma copy_rem_offset [simp]: "copy_rem b s r (c\<lparr>cu_offset := x\<rparr>) = copy_rem b s r c"
  by (simp add: copy_rem_def)

lemma length_copy_rem: "length (copy_rem b s r c) = (unat r - unat (cu_rep_num c)) * unat b - unat (cu_rep_bytes c)"
  by (simp add: copy_rem_def)

lemma blocks_size_simps [simp]:
  "blocks_size [] = 0" "blocks_size (x # xs) = snd x + blocks_size xs"
  "blocks_size (xs @ ys) = blocks_size xs + blocks_size ys"
  by (simp_all add: blocks_size_def)

text \<open>A partial copy: \<open>n\<close> bytes asked for, \<open>n'\<close> of them left after the chunks.\<close>

definition copied ::
    "size_t \<Rightarrow> size_t \<Rightarrow> size_t \<Rightarrow> block list \<Rightarrow> cursor \<Rightarrow> cursor \<Rightarrow> bool" where
  "copied b s r chunks c c' \<longleftrightarrow>
     copy_rem b s r c = bytes_of chunks @ copy_rem b s r c' \<and>
     cu_offset c' = cu_offset c + blocks_size chunks \<and> cu_pc c' = cu_pc c \<and>
     cu_disp c' + s * (r - cu_rep_num c') = cu_disp c + s * (r - cu_rep_num c)"

lemma copied_trans:
  "copied b s r xs c d \<Longrightarrow> copied b s r ys d e \<Longrightarrow> copied b s r (xs @ ys) c e"
  by (simp add: copied_def add.assoc)

lemma copied_rep:
  assumes "cu_rep_num c < r" and "cu_rep_bytes c \<le> b"
  shows "copied b s r [(cu_disp c + cu_rep_bytes c, b - cu_rep_bytes c)] c
     (c\<lparr>cu_disp := cu_disp c + s, cu_offset := cu_offset c + (b - cu_rep_bytes c),
        cu_rep_num := cu_rep_num c + 1, cu_rep_bytes := 0\<rparr>)"
  using copy_rem_rep [OF assms, of s] unat_diff_le [OF assms(2)]
  by (simp add: copied_def copy_rem_def algebra_simps)

lemma copy_reps_ok:
  assumes "b \<noteq> 0" and "cu_rep_bytes c = 0" and "0 < bytes" and "unat bytes \<le> (unat r - unat (cu_rep_num c)) * unat b"
  shows "\<exists>chunks bytes' c'. copy_reps mc origin b s target bytes c m =
       Some (target + blocks_size chunks, bytes', c', run_chunks mc target origin chunks m) \<and>
     copied b s r chunks c c' \<and> 0 < bytes' \<and> bytes' \<le> b \<and> bytes = blocks_size chunks + bytes' \<and>
     unat bytes = length (bytes_of chunks) + unat bytes' \<and> cu_rep_bytes c' = 0 \<and> cu_rep_num c' < r"
  using assms
proof (induction "unat bytes" arbitrary: target bytes c m rule: less_induct)
  case less
  have "cu_rep_num c < r" using less.prems(3,4) by (simp add: word_less_nat_alt) (metis diff_is_0_eq' gr0I mult_0 not_less le_0_eq)
  show ?case
  proof (cases "b < bytes")
    case False
    then show ?thesis
      using less.prems \<open>cu_rep_num c < r\<close>
      by (intro exI [of _ "[]"] exI [of _ bytes] exI [of _ c]) (simp add: copy_reps.simps copied_def)
  next
    case True
    define c1 where "c1 = c\<lparr>cu_disp := cu_disp c + s, cu_offset := cu_offset c + b, cu_rep_num := cu_rep_num c + 1\<rparr>"
    have sub: "unat (bytes - b) = unat bytes - unat b" using True by (intro unat_diff_le) simp
    have "copied b s r [(cu_disp c, b)] c c1"
      using copied_rep [OF \<open>cu_rep_num c < r\<close>, of b s] less.prems(2) by (cases c) (simp add: c1_def)
    moreover have "\<exists>chunks bytes' c'. copy_reps mc origin b s (target + b) (bytes - b) c1 (mc target (origin + cu_disp c) b m) =
         Some (target + b + blocks_size chunks, bytes', c', run_chunks mc (target + b) origin chunks (mc target (origin + cu_disp c) b m)) \<and>
       copied b s r chunks c1 c' \<and> 0 < bytes' \<and> bytes' \<le> b \<and> bytes - b = blocks_size chunks + bytes' \<and>
       unat (bytes - b) = length (bytes_of chunks) + unat bytes' \<and> cu_rep_bytes c' = 0 \<and> cu_rep_num c' < r"
    proof (rule less.hyps)
      show "unat (bytes - b) < unat bytes" using sub True less.prems(1) unat_gt_0 [of b]
        by (simp add: word_less_nat_alt)
      show "0 < bytes - b" using True by (simp add: word_less_nat_alt sub)
      show "unat (bytes - b) \<le> (unat r - unat (cu_rep_num c1)) * unat b"
        using less.prems(4) sub word_Suc_le [OF \<open>cu_rep_num c < r\<close>] by (simp add: c1_def)
    qed (use less.prems in \<open>simp_all add: c1_def\<close>)
    ultimately obtain chunks bytes' c' where *:
      "copy_reps mc origin b s (target + b) (bytes - b) c1 (mc target (origin + cu_disp c) b m) =
         Some (target + b + blocks_size chunks, bytes', c', run_chunks mc (target + b) origin chunks (mc target (origin + cu_disp c) b m))"
      "copied b s r ((cu_disp c, b) # chunks) c c'" "0 < bytes'" "bytes' \<le> b" "bytes - b = blocks_size chunks + bytes'"
       "unat (bytes - b) = length (bytes_of chunks) + unat bytes'" "cu_rep_bytes c' = 0" "cu_rep_num c' < r"
      using copied_trans [of b s r "[(cu_disp c, b)]" c c1] by fastforce
    have "unat bytes = length (bytes_of ((cu_disp c, b) # chunks)) + unat bytes'"
      using *(6) sub True by (simp add: word_less_nat_alt)
    moreover have "bytes = blocks_size ((cu_disp c, b) # chunks) + bytes'"
      using *(5) by (simp add: algebra_simps)
    ultimately show ?thesis
      using * True by (intro exI [of _ "(cu_disp c, b) # chunks"] exI [of _ bytes'] exI [of _ c'])
        (simp add: copy_reps.simps [of mc origin b s target] c1_def add.assoc)
  qed
qed

lemma copy_left:
  assumes "cu_rep_num c < r" and "cu_rep_bytes c < b" and "unat b * unat r < 2 ^ 64"
  shows "unat (b * (r - cu_rep_num c) - cu_rep_bytes c) = length (copy_rem b s r c)"
    and "0 < length (copy_rem b s r c)"
proof -
  let ?k = "unat r - unat (cu_rep_num c)"
  have k: "unat (r - cu_rep_num c) = ?k" "0 < ?k"
    using assms(1) unat_diff_le [of "cu_rep_num c" r] by (simp_all add: word_less_nat_alt word_le_nat_alt)
  have rb: "unat (cu_rep_bytes c) < unat b" using assms(2) by (simp add: word_less_nat_alt)
  have "unat b * ?k \<le> unat b * unat r" by simp
  then have mult: "unat (b * (r - cu_rep_num c)) = unat b * ?k"
    using unat_mult_small [of b "r - cu_rep_num c", unfolded k(1), OF le_less_trans [OF _ assms(3)]] by blast
  have "unat b * 1 \<le> unat b * ?k" using k(2) by (intro mult_le_mono) simp_all
  then have "unat (cu_rep_bytes c) < unat b * ?k" using rb by (simp only: mult_1_right)
  then show "unat (b * (r - cu_rep_num c) - cu_rep_bytes c) = length (copy_rem b s r c)"
      "0 < length (copy_rem b s r c)"
    using mult by (simp_all add: length_copy_rem unat_diff_le word_le_nat_alt mult.commute)
qed

text \<open>The leftover of the current repetition and the whole repetitions after it.\<close>

lemma copy_first_ok:
  assumes "cu_rep_num c < r" and "cu_rep_bytes c < b" and "0 < n" and "unat n \<le> length (copy_rem b s r c)"
  shows "\<exists>chunks n' c'. copy_first mc target origin n b s r c m =
       Some (target + blocks_size chunks, n', c', run_chunks mc target origin chunks m) \<and>
     copied b s r chunks c c' \<and> 0 < n' \<and> n' \<le> b - cu_rep_bytes c' \<and> n = blocks_size chunks + n' \<and>
     unat n = length (bytes_of chunks) + unat n' \<and> cu_rep_bytes c' < b \<and> cu_rep_num c' < r"
proof (cases "b - cu_rep_bytes c < n")
  case False
  then show ?thesis
    using assms by (intro exI [of _ "[]"] exI [of _ n] exI [of _ c]) (simp add: copy_first_def copied_def Let_def)
next
  case True
  define left where "left = b - cu_rep_bytes c"
  define c1 where "c1 = c\<lparr>cu_disp := cu_disp c + s, cu_offset := cu_offset c + left,
      cu_rep_num := cu_rep_num c + 1, cu_rep_bytes := 0\<rparr>"
  define m1 where "m1 = mc target (origin + cu_disp c + cu_rep_bytes c) left m"
  have left: "unat left = unat b - unat (cu_rep_bytes c)" unfolding left_def using assms(2) by (intro unat_diff_le) simp
  have sub: "unat (n - left) = unat n - unat left" using True unfolding left_def by (intro unat_diff_le) simp
  have c1: "copied b s r [(cu_disp c + cu_rep_bytes c, left)] c c1"
    unfolding left_def c1_def using assms(1,2) by (intro copied_rep) simp_all
  have "b \<noteq> 0" using assms(2) by auto
  moreover have "0 < n - left" using True sub by (simp add: word_less_nat_alt left_def)
  moreover have "unat (n - left) \<le> (unat r - unat (cu_rep_num c1)) * unat b"
  proof -
    have "length (copy_rem b s r c) = unat left + length (copy_rem b s r c1)" using c1 by (simp add: copied_def)
    then have "unat (n - left) \<le> length (copy_rem b s r c1)" using assms(4) sub by simp
    then show ?thesis by (simp add: length_copy_rem c1_def)
  qed
  ultimately obtain chunks n' c' where *:
    "copy_reps mc origin b s (target + left) (n - left) c1 m1 =
       Some (target + left + blocks_size chunks, n', c', run_chunks mc (target + left) origin chunks m1)"
    "copied b s r chunks c1 c'" "0 < n'" "n' \<le> b" "n - left = blocks_size chunks + n'"
    "unat (n - left) = length (bytes_of chunks) + unat n'" "cu_rep_bytes c' = 0" "cu_rep_num c' < r"
    using copy_reps_ok [of b c1 "n - left" r mc origin s "target + left" m1] by (auto simp: c1_def)
  have "unat n = length (bytes_of ((cu_disp c + cu_rep_bytes c, left) # chunks)) + unat n'"
    using *(6) sub True by (simp add: word_less_nat_alt left_def)
  moreover have "n = blocks_size ((cu_disp c + cu_rep_bytes c, left) # chunks) + n'"
    using *(5) by (simp add: algebra_simps)
  moreover have "copied b s r ((cu_disp c + cu_rep_bytes c, left) # chunks) c c'"
    using copied_trans [OF c1 *(2)] by simp
  moreover have "copy_first mc target origin n b s r c m =
      Some (target + left + blocks_size chunks, n', c', run_chunks mc (target + left) origin chunks m1)"
    using True *(1,8) by (simp add: copy_first_def Let_def left_def c1_def m1_def)
  ultimately show ?thesis
    using * \<open>b \<noteq> 0\<close> by (intro exI [of _ "(cu_disp c + cu_rep_bytes c, left) # chunks"] exI [of _ n'] exI [of _ c'])
      (simp add: m1_def add.assoc word_neq_0_conv)
qed

text \<open>The last part, within one repetition.\<close>

lemma copy_rem_within:
  assumes "cu_rep_num c < r" and "cu_rep_bytes c < b" and "n \<le> b - cu_rep_bytes c"
  shows "copy_rem b s r c = blk (cu_disp c + cu_rep_bytes c) (unat n) @
     copy_rem b s r (c\<lparr>cu_rep_bytes := cu_rep_bytes c + n\<rparr>)"
    and "unat (cu_rep_bytes c + n) = unat (cu_rep_bytes c) + unat n" and "cu_rep_bytes c + n \<le> b"
proof -
  have le: "unat (cu_rep_bytes c) + unat n \<le> unat b"
    using assms(2,3) unat_diff_le [of "cu_rep_bytes c" b] by (simp add: word_le_nat_alt word_less_nat_alt)
  then show sum: "unat (cu_rep_bytes c + n) = unat (cu_rep_bytes c) + unat n"
    using unat64_less [of b] by (intro unat_add_small) linarith
  then show leb: "cu_rep_bytes c + n \<le> b" using le by (simp add: word_le_nat_alt)
  have "unat b - unat (cu_rep_bytes c) = unat n + (unat b - unat (cu_rep_bytes c + n))" using le sum by simp
  then show "copy_rem b s r c = blk (cu_disp c + cu_rep_bytes c) (unat n) @
     copy_rem b s r (c\<lparr>cu_rep_bytes := cu_rep_bytes c + n\<rparr>)"
    using copy_rem_rep [of c r b s] copy_rem_rep [of "c\<lparr>cu_rep_bytes := cu_rep_bytes c + n\<rparr>" r b s] assms leb
    by (simp add: blk_add add.assoc)
qed

lemma top_rem_copy:
  assumes "cu_rep_num c < r" and "cu_rep_bytes c \<le> b"
  shows "top_rem c (ICopy b s r # js) =
     copy_rem b s r c @ map ((+) (cu_disp c + s * (r - cu_rep_num c))) (bytes_of (tblocks js))"
proof -
  have "unat (cu_rep_bytes c) \<le> unat b" using assms(2) by (simp add: word_le_nat_alt)
  then show ?thesis
    using word_Suc_le [OF assms(1)] by (simp add: top_rem_def copy_rem_def rep_blocks_Suc comp_def add.assoc)
qed

lemma copy_last_ok:
  assumes rn: "cu_rep_num c < r" and rb: "cu_rep_bytes c < b" and n: "0 < n" "n \<le> b - cu_rep_bytes c"
    and at: "seq_at code (cu_pc c) (ICopy b s r # js)"
  shows "\<exists>is'. top_ok code (copy_last n b s r c) is' \<and> is' \<in> {js, ICopy b s r # js} \<and>
     top_rem c (ICopy b s r # js) = blk (cu_disp c + cu_rep_bytes c) (unat n) @ top_rem (copy_last n b s r c) is' \<and>
     top_fin (copy_last n b s r c) is' = top_fin c (ICopy b s r # js) \<and>
     cu_offset (copy_last n b s r c) = cu_offset c + n"
proof -
  note within = copy_rem_within(1) [OF rn rb n(2), of s] copy_rem_within(3) [OF rn rb n(2)]
  define c1 where "c1 = c\<lparr>cu_offset := cu_offset c + n, cu_rep_bytes := cu_rep_bytes c + n\<rparr>"
  define c2 where "c2 = c1\<lparr>cu_disp := cu_disp c1 + s, cu_rep_num := cu_rep_num c1 + 1, cu_rep_bytes := 0\<rparr>"
  have rem1: "top_rem c (ICopy b s r # js) = blk (cu_disp c + cu_rep_bytes c) (unat n) @ top_rem c1 (ICopy b s r # js)"
    using within(1,2) rn rb by (simp add: top_rem_copy c1_def copy_rem_def)
  consider (part) "cu_rep_bytes c + n \<noteq> b" | (rep) "cu_rep_bytes c + n = b" "cu_rep_num c + 1 \<noteq> r"
    | (last) "cu_rep_bytes c + n = b" "cu_rep_num c + 1 = r" by blast
  then show ?thesis
  proof cases
    case part
    then have "copy_last n b s r c = c1" by (simp add: copy_last_def Let_def c1_def)
    moreover have "top_ok code c1 (ICopy b s r # js)" "top_fin c1 (ICopy b s r # js) = top_fin c (ICopy b s r # js)"
      using part within(2) rn at by (auto simp: top_ok_def top_fin_def c1_def)
    ultimately show ?thesis using rem1 by (intro exI [of _ "ICopy b s r # js"]) (simp add: c1_def)
  next
    case rep
    then have "copy_last n b s r c = c2" by (simp add: copy_last_def Let_def c1_def c2_def)
    moreover have lt: "cu_rep_num c + 1 < r"
      using rn rep(2) word_Suc_le [OF rn] by (auto simp: word_less_nat_alt word_unat_eq_iff)
    have "top_ok code c2 (ICopy b s r # js)" "top_fin c2 (ICopy b s r # js) = top_fin c (ICopy b s r # js)"
      using lt rb at word_neq_0_conv [of b] by (auto simp: top_ok_def top_fin_def c1_def c2_def algebra_simps)
    moreover have "top_rem c2 (ICopy b s r # js) = top_rem c1 (ICopy b s r # js)"
      using copy_rem_rep [of c1 r b s] rep(1) rn lt
      by (simp add: top_rem_copy c1_def c2_def copy_rem_def algebra_simps)
    ultimately show ?thesis using rem1 by (intro exI [of _ "ICopy b s r # js"]) (simp add: c1_def c2_def)
  next
    case last
    define c3 where "c3 = c2\<lparr>cu_pc := cu_pc c2 + 32, cu_rep_num := 0\<rparr>"
    have "copy_last n b s r c = c3" using last by (simp add: copy_last_def Let_def c1_def c2_def c3_def)
    moreover have "top_ok code c3 js"
      by (rule top_ok_start [of _ "cu_pc c + 32"]) (use at in \<open>simp_all add: c1_def c2_def c3_def\<close>)
    moreover have "r - cu_rep_num c = 1" using last(2) by (simp add: algebra_simps)
    then have "top_fin c3 js = top_fin c (ICopy b s r # js)"
      by (simp add: top_fin_def c1_def c2_def c3_def)
    moreover have "copy_rem b s r c1 = []"
      using word_Suc_le [OF rn] last by (simp add: copy_rem_def c1_def)
    then have "top_rem c3 js = top_rem c1 (ICopy b s r # js)"
      using top_rem_copy [of c1 r b s js] last(1) rn \<open>r - cu_rep_num c = 1\<close>
      by (simp add: c1_def c2_def c3_def top_rem_def [of _ js])
    ultimately show ?thesis using rem1 by (intro exI [of _ js]) (simp add: c1_def c2_def c3_def)
  qed
qed

definition copy_done ::
    "cell list \<Rightarrow> cursor \<Rightarrow> itree list \<Rightarrow> size_t \<Rightarrow> block list \<Rightarrow> cursor \<Rightarrow> itree list \<Rightarrow> bool" where
  "copy_done code c is n chunks c' is' \<longleftrightarrow>
     top_ok code c' is' \<and> is' \<in> {tl is, is} \<and> top_rem c is = bytes_of chunks @ top_rem c' is' \<and>
     length (bytes_of chunks) = unat n \<and> blocks_size chunks = n \<and> top_fin c' is' = top_fin c is \<and>
     cu_offset c' = cu_offset c + n"

lemma Copy_ok:
  assumes top: "top_ok code c (ICopy b s r # js)" and fits: "unat b * unat r < 2 ^ 64"
    and n: "0 < n" "unat n \<le> length (copy_rem b s r c)"
  shows "\<exists>c' is' chunks. Copy mc target origin n b s r c m = Some (c', run_chunks mc target origin chunks m) \<and>
     copy_done code c (ICopy b s r # js) n chunks c' is'"
proof -
  have rn: "cu_rep_num c < r" and rb: "cu_rep_bytes c < b" and at: "seq_at code (cu_pc c) (ICopy b s r # js)"
    using top by (simp_all add: top_ok_def)
  obtain chunks n' c1 where first: "copy_first mc target origin n b s r c m =
       Some (target + blocks_size chunks, n', c1, run_chunks mc target origin chunks m)"
    and cp: "copied b s r chunks c c1" and n': "0 < n'" "n' \<le> b - cu_rep_bytes c1" "n = blocks_size chunks + n'"
     "unat n = length (bytes_of chunks) + unat n'" and c1: "cu_rep_bytes c1 < b" "cu_rep_num c1 < r"
    using copy_first_ok [OF rn rb n, of mc target origin m] by blast
  define chunks' where "chunks' = chunks @ [(cu_disp c1 + cu_rep_bytes c1, n')]"
  have "seq_at code (cu_pc c1) (ICopy b s r # js)" using at cp by (simp add: copied_def)
  then obtain is' where last: "top_ok code (copy_last n' b s r c1) is'" "is' \<in> {js, ICopy b s r # js}"
     "top_rem c1 (ICopy b s r # js) = blk (cu_disp c1 + cu_rep_bytes c1) (unat n') @ top_rem (copy_last n' b s r c1) is'"
     "top_fin (copy_last n' b s r c1) is' = top_fin c1 (ICopy b s r # js)"
     "cu_offset (copy_last n' b s r c1) = cu_offset c1 + n'"
    using copy_last_ok [OF c1(2,1) n'(1,2)] by blast
  have "n \<le> b * (r - cu_rep_num c) - cu_rep_bytes c"
    using n(2) copy_left(1) [OF rn rb fits, of s] by (simp add: word_le_nat_alt)
  then have "Copy mc target origin n b s r c m =
      Some (copy_last n' b s r c1, run_chunks mc target origin chunks' m)"
    using first n'(2) by (simp add: Copy_def chunks'_def run_chunks_append add.assoc)
  moreover have "top_rem c (ICopy b s r # js) = bytes_of chunks' @ top_rem (copy_last n' b s r c1) is'"
    using last(3) cp rn rb c1 by (simp add: top_rem_copy chunks'_def copied_def)
  moreover have "top_fin c1 (ICopy b s r # js) = top_fin c (ICopy b s r # js)"
    using cp by (simp add: top_fin_def copied_def add.assoc [symmetric])
  ultimately show ?thesis
    using last n'(3,4) cp unfolding copy_done_def
    by (intro exI [of _ "copy_last n' b s r c1"] exI [of _ is'] exI [of _ chunks'])
      (simp add: chunks'_def copied_def add.assoc)
qed

section \<open>Running\<close>

definition frames_at ::
    "cell list \<Rightarrow> itree list \<Rightarrow> nat \<Rightarrow> nat \<Rightarrow> nat \<Rightarrow> cursor \<Rightarrow> itree list \<Rightarrow> (cursor \<times> itree list) list \<Rightarrow> bool" where
  "frames_at code t cap k n c is fs \<longleftrightarrow>
     top_ok code c is \<and> low_ok code cap (tdepth is) fs \<and> tfits is \<and> (\<forall>f\<in>set fs. tfits (snd f)) \<and>
     cu_offset c = of_nat n \<and> n \<le> k * length (tbytes t) \<and>
     top_rem c is @ low_rem fs = map (disp_at t) [n..<k * length (tbytes t)] \<and>
     low_fin (top_fin c is) fs = of_nat k * textent t"

text \<open>The machine stands at offset \<open>n\<close> of the endless repetition of the type.\<close>

definition machine_at :: "cell list \<Rightarrow> itree list \<Rightarrow> nat \<Rightarrow> nat \<Rightarrow> cursor list \<Rightarrow> bool" where
  "machine_at code t cap n stack \<longleftrightarrow>
     (\<exists>k c is fs. stack = c # map fst fs \<and> frames_at code t cap k n c is fs)"

text \<open>A code that can be run.\<close>

definition runnable :: "cell list \<Rightarrow> itree list \<Rightarrow> nat \<Rightarrow> bool" where
  "runnable code t cap \<longleftrightarrow> seq_at code sz_Begin t \<and> tfits t \<and> tdepth t \<le> cap \<and> 0 < length (tbytes t)"

lemma disp_at_pass:
  assumes "0 < length (tbytes t)"
  shows "map (disp_at t) [k * length (tbytes t)..<Suc k * length (tbytes t)] =
     map ((+) (of_nat k * textent t)) (tbytes t)"
  using assms by (intro nth_equalityI) (auto simp: disp_at_def)

lemma frames_at_pass:
  assumes "runnable code t cap" and "cu_pc c = sz_Begin" and "cu_disp c = of_nat k * textent t"
    and "cu_offset c = of_nat (k * length (tbytes t))" and "cu_rep_num c = 0" and "cu_rep_bytes c = 0"
  shows "frames_at code t cap (Suc k) (k * length (tbytes t)) c t []"
proof -
  have "top_rem c t = map (disp_at t) [k * length (tbytes t)..<Suc k * length (tbytes t)]"
    using disp_at_pass [of t k] assms by (simp add: top_rem_def runnable_def tbytes_def)
  moreover have "top_ok code c t" using assms by (intro top_ok_start) (auto simp: runnable_def)
  ultimately show ?thesis
    using assms by (simp add: frames_at_def runnable_def top_fin_def algebra_simps)
qed

lemma machine_at_start: "runnable code t cap \<Longrightarrow> machine_at code t cap 0 [start_cursor]"
  using frames_at_pass [of code t cap start_cursor 0] unfolding machine_at_def
  by (intro exI [of _ "Suc 0"] exI [of _ start_cursor] exI [of _ t] exI [of _ "[]"])
    (simp add: start_cursor_def Cursor_def)

text \<open>The order in which the silent steps decrease: first the end of the type is passed, then the
  steps to the next end.\<close>

definition steps_left :: "itree list \<Rightarrow> nat \<Rightarrow> nat \<Rightarrow> cursor \<Rightarrow> itree list \<Rightarrow> (cursor \<times> itree list) list \<Rightarrow> nat" where
  "steps_left t k n c is fs =
     (if n = k * length (tbytes t) then Suc (tsteps t) else 0) + psteps is (cu_rep_num c) + low_steps fs"

lemma silent_step:
  assumes run: "runnable code t cap" and at: "frames_at code t cap k n c is fs"
    and "\<not> (\<exists>b s r js. is = ICopy b s r # js)" and "bytes \<noteq> 0"
  shows "\<exists>k' c' is' fs'. run_step code cap mc target origin bytes (c # map fst fs) m = Some (0, c' # map fst fs', m) \<and>
     frames_at code t cap k' n c' is' fs' \<and> steps_left t k' n c' is' fs' < steps_left t k n c is fs"
proof -
  note at' = at [unfolded frames_at_def]
  consider (call) sub s r js where "is = ICall sub s r # js" | (shift) j js where "is = IShift j # js"
    | (ret) e es fs' where "is = []" "fs = (e, es) # fs'" | (top) "is = []" "fs = []"
    using assms(3) by (cases "is" rule: tdepth.cases; cases fs; auto)
  then show ?thesis
  proof cases
    case call
    obtain off c' where c': "fetch code (cu_pc c) = Some (CALL off s r)"
      "ExecuteCall cap off (c # map fst fs) = Some (c' # map fst ((c, is) # fs))"
      "top_ok code c' sub" "low_ok code cap (tdepth sub) ((c, is) # fs)"
      "top_rem c' sub @ low_rem ((c, is) # fs) = top_rem c is @ low_rem fs"
      "low_fin (top_fin c' sub) ((c, is) # fs) = low_fin (top_fin c is) fs" "cu_offset c' = cu_offset c"
      "psteps sub (cu_rep_num c') + low_steps ((c, is) # fs) < psteps is (cu_rep_num c) + low_steps fs"
      using ExecuteCall_silent [of code c sub s r js cap fs] at' call by metis
    have "frames_at code t cap k n c' sub ((c, is) # fs)"
      using at' c' call unfolding frames_at_def by (simp del: low_ok.simps low_rem.simps low_fin.simps)
    moreover have "run_step code cap mc target origin bytes (c # map fst fs) m = Some (0, c' # map fst ((c, is) # fs), m)"
      using c'(1,2) by (simp add: run_step_def)
    moreover have "steps_left t k n c' sub ((c, is) # fs) < steps_left t k n c is fs"
      using c'(8) by (simp add: steps_left_def)
    ultimately show ?thesis by blast
  next
    case shift
    obtain c' where c': "fetch code (cu_pc c) = Some (SHIFT j)"
      "ExecuteShift j (c # map fst fs) = Some (c' # map fst fs)" "top_ok code c' js"
      "top_rem c' js = top_rem c is" "top_fin c' js = top_fin c is" "cu_offset c' = cu_offset c"
      "psteps js (cu_rep_num c') < psteps is (cu_rep_num c)"
      using ExecuteShift_silent [of code c j js "map fst fs"] at' shift by metis
    have "frames_at code t cap k n c' js fs"
      using at' c' shift unfolding frames_at_def by simp
    moreover have "run_step code cap mc target origin bytes (c # map fst fs) m = Some (0, c' # map fst fs, m)"
      using c'(1,2) by (simp add: run_step_def)
    moreover have "steps_left t k n c' js fs < steps_left t k n c is fs"
      using c'(7) by (simp add: steps_left_def)
    ultimately show ?thesis by blast
  next
    case ret
    obtain e' es' where e': "fetch code (cu_pc c) = Some END"
      "ExecuteEnd code (c # e # map fst fs') = Some (e' # map fst fs')" "top_ok code e' es'"
      "low_ok code cap (tdepth es') fs'" "top_rem e' es' = low_rem [(e, es)]"
      "top_fin e' es' = low_fin (top_fin c is) [(e, es)]" "cu_offset e' = cu_offset c"
      "psteps es' (cu_rep_num e') = psteps es (cu_rep_num e + 1)" "tfits es \<Longrightarrow> tfits es'"
      using ExecuteEnd_silent [of code c cap "tdepth is" e es fs'] at' ret by metis
    have "top_rem c is = []" using ret by (simp add: top_rem_def)
    then have "frames_at code t cap k n e' es' fs'"
      using at' e' ret unfolding frames_at_def by simp
    moreover have "run_step code cap mc target origin bytes (c # map fst fs) m = Some (0, e' # map fst fs', m)"
      using e'(1,2) ret by (simp add: run_step_def)
    moreover have "steps_left t k n e' es' fs' < steps_left t k n c is fs"
      using e'(8) ret by (simp add: steps_left_def)
    ultimately show ?thesis by blast
  next
    case top
    define c' where "c' = c\<lparr>cu_pc := sz_Begin, cu_rep_num := 0, cu_rep_bytes := 0\<rparr>"
    have "top_rem c is = []" using top by (simp add: top_rem_def)
    then have n: "n = k * length (tbytes t)" and disp: "cu_disp c = of_nat k * textent t"
      and off: "cu_offset c = of_nat n" and f: "fetch code (cu_pc c) = Some END"
      using at' top by (auto simp: top_fin_def top_ok_def)
    have "frames_at code t cap (Suc k) n c' t []"
      unfolding n by (rule frames_at_pass [OF run]) (use n disp off in \<open>simp_all add: c'_def\<close>)
    moreover have "run_step code cap mc target origin bytes (c # map fst fs) m = Some (0, c' # map fst [], m)"
      using f top by (simp add: run_step_def ExecuteEnd_def c'_def)
    moreover have "steps_left t (Suc k) n c' t [] < steps_left t k n c is fs"
      using n top run by (simp add: steps_left_def c'_def runnable_def)
    ultimately show ?thesis by blast
  qed
qed

lemma copy_step:
  assumes run: "runnable code t cap" and at: "frames_at code t cap k n c (ICopy b s r # js) fs" and "bytes \<noteq> 0"
  shows "\<exists>j chunks c' is'. run_step code cap mc target origin bytes (c # map fst fs) m =
       Some (j, c' # map fst fs, run_chunks mc target origin chunks m) \<and>
     frames_at code t cap k (n + unat j) c' is' fs \<and> 0 < j \<and> j \<le> bytes \<and> blocks_size chunks = j \<and>
     bytes_of chunks = map (disp_at t) [n..<n + unat j]"
proof -
  note at' = at [unfolded frames_at_def]
  let ?L = "length (tbytes t)" and ?is = "ICopy b s r # js"
  define left where "left = b * (r - cu_rep_num c) - cu_rep_bytes c"
  define j where "j = min left bytes"
  have c: "cu_rep_num c < r" "cu_rep_bytes c < b" "fetch code (cu_pc c) = Some (COPY b s r)" "unat b * unat r < 2 ^ 64"
    using at' by (simp_all add: top_ok_def)
  note left = copy_left [OF c(1,2,4), folded left_def, of s]
  have j: "0 < j" "unat j \<le> length (copy_rem b s r c)" "j \<le> bytes"
    using left \<open>bytes \<noteq> 0\<close> by (auto simp: j_def min_def word_le_nat_alt word_less_nat_alt unat_gt_0)
  obtain c' is' chunks where Copy: "Copy mc target origin j b s r c m = Some (c', run_chunks mc target origin chunks m)"
      "copy_done code c ?is j chunks c' is'"
    using Copy_ok [of code c b s r js j mc target origin m] at' c(4) j by blast
  note cd = Copy(2) [unfolded copy_done_def]
  have rem: "bytes_of chunks @ (top_rem c' is' @ low_rem fs) = map (disp_at t) [n..<k * ?L]"
    using at' cd by simp
  then have "unat j + length (top_rem c' is' @ low_rem fs) = k * ?L - n"
    using cd by (metis length_append length_map length_upt)
  then have le: "n + unat j \<le> k * ?L" using at' by linarith
  then have split: "[n..<k * ?L] = [n..<n + unat j] @ [n + unat j..<k * ?L]"
    by (intro upt_split) simp_all
  have "bytes_of chunks = map (disp_at t) [n..<n + unat j]" "top_rem c' is' @ low_rem fs = map (disp_at t) [n + unat j..<k * ?L]"
    using rem cd unfolding split by (simp_all add: append_eq_append_conv)
  moreover have "left \<noteq> 0" using left by auto
  then have "run_step code cap mc target origin bytes (c # map fst fs) m =
      Some (j, c' # map fst fs, run_chunks mc target origin chunks m)"
    using c(3) Copy(1) by (simp add: run_step_def left_def j_def Let_def)
  moreover have "tfits is'" "tdepth is' = tdepth js" using at' cd by auto
  ultimately show ?thesis
    using at' cd le j unfolding frames_at_def
    by (intro exI [of _ j] exI [of _ chunks] exI [of _ c'] exI [of _ is']) simp
qed

definition run_ok ::
    "cell list \<Rightarrow> itree list \<Rightarrow> nat \<Rightarrow> copy_fun \<Rightarrow> size_t \<Rightarrow> size_t \<Rightarrow> size_t \<Rightarrow> nat \<Rightarrow> cursor list \<Rightarrow> mem \<Rightarrow> bool" where
  "run_ok code t cap mc target origin bytes n stack m \<longleftrightarrow>
     (\<exists>chunks stack'. Run code cap mc target origin bytes stack m =
         Some (stack', run_chunks mc target origin chunks m) \<and>
       machine_at code t cap (n + unat bytes) stack' \<and> blocks_size chunks = bytes \<and>
       bytes_of chunks = map (disp_at t) [n..<n + unat bytes])"

lemma run_ok_silent:
  assumes "run_step code cap mc target origin bytes stack m = Some (0, stack', m)" and "bytes \<noteq> 0"
    and "run_ok code t cap mc target origin bytes n stack' m"
  shows "run_ok code t cap mc target origin bytes n stack m"
  using assms by (simp add: run_ok_def Run.simps [of code cap mc target origin bytes stack m])

lemma run_ok_copy:
  assumes step: "run_step code cap mc target origin bytes stack m = Some (j, stack', run_chunks mc target origin xs m)"
    and xs: "blocks_size xs = j" "bytes_of xs = map (disp_at t) [n..<n + unat j]" and "bytes \<noteq> 0" "j \<le> bytes"
    and ok: "run_ok code t cap mc (target + j) origin (bytes - j) (n + unat j) stack' (run_chunks mc target origin xs m)"
  shows "run_ok code t cap mc target origin bytes n stack m"
proof -
  have j: "unat j + unat (bytes - j) = unat bytes" "unat j \<le> unat bytes"
    using \<open>j \<le> bytes\<close> unat_diff_le [of j bytes] by (simp_all add: word_le_nat_alt)
  obtain ys stack'' where ys: "Run code cap mc (target + j) origin (bytes - j) stack' (run_chunks mc target origin xs m) =
         Some (stack'', run_chunks mc (target + j) origin ys (run_chunks mc target origin xs m))"
       "machine_at code t cap (n + unat bytes) stack''" "blocks_size ys = bytes - j"
       "bytes_of ys = map (disp_at t) [n + unat j..<n + unat bytes]"
    using ok unfolding run_ok_def add.assoc j(1) by blast
  have "[n..<n + unat bytes] = [n..<n + unat j] @ [n + unat j..<n + unat bytes]"
    using j(2) by (intro upt_split) simp_all
  then show ?thesis
    unfolding run_ok_def Run.simps [of code cap mc target origin bytes stack m]
    using step xs ys \<open>bytes \<noteq> 0\<close>
    by (intro exI [of _ "xs @ ys"] exI [of _ stack'']) (simp add: run_chunks_append)
qed

text \<open>Running \<open>bytes\<close> bytes from offset \<open>n\<close> ends, copies the displacements of the offsets \<open>n\<close>
  to \<open>n + bytes\<close> in order, and leaves the machine at offset \<open>n + bytes\<close>.\<close>

lemma Run_frames:
  assumes run: "runnable code t cap"
  shows "frames_at code t cap k n c is fs \<Longrightarrow> run_ok code t cap mc target origin bytes n (c # map fst fs) m"
proof (induction "unat bytes" arbitrary: bytes target k n c "is" fs m rule: less_induct)
  case (less bytes target k n c "is" fs m)
  note outer = less.hyps
  show ?case using less.prems
  proof (induction "steps_left t k n c is fs" arbitrary: k c "is" fs rule: less_induct)
    case (less k c "is" fs)
    consider (zero) "bytes = 0" | (copy) b s r js where "bytes \<noteq> 0" "is = ICopy b s r # js"
      | (silent) "bytes \<noteq> 0" "\<not> (\<exists>b s r js. is = ICopy b s r # js)" by blast
    then show ?case
    proof cases
      case zero
      then show ?thesis using less.prems unfolding run_ok_def machine_at_def
        by (intro exI [of _ "[]"] exI [of _ "c # map fst fs"]) (auto simp: Run.simps)
    next
      case copy
      obtain j chunks c' is' where j: "run_step code cap mc target origin bytes (c # map fst fs) m =
           Some (j, c' # map fst fs, run_chunks mc target origin chunks m)"
         "frames_at code t cap k (n + unat j) c' is' fs" "0 < j" "j \<le> bytes" "blocks_size chunks = j"
         "bytes_of chunks = map (disp_at t) [n..<n + unat j]"
        using copy_step [OF run less.prems [unfolded copy(2)] copy(1), of mc target origin m] by blast
      have "unat (bytes - j) < unat bytes"
        using j(3,4) copy(1) unat_diff_le [of j bytes] by (simp add: word_less_nat_alt word_le_nat_alt unat_gt_0)
      then show ?thesis using run_ok_copy [OF j(1,5,6) copy(1) j(4)] outer [OF _ j(2)] by blast
    next
      case silent
      then show ?thesis
        using silent_step [OF run less.prems silent(2,1), of mc target origin m] run_ok_silent less.hyps by blast
    qed
  qed
qed

lemma Run_ok:
  assumes "runnable code t cap" and "machine_at code t cap n stack"
  shows "run_ok code t cap mc target origin bytes n stack m"
  using assms Run_frames unfolding machine_at_def by blast

section \<open>Moving the cursor\<close>

lemma drop_rep:
  assumes "q \<le> r"
  shows "drop (q * length (bytes_of B) + y) (bytes_of (rep_blocks s r B)) =
     map ((+) (of_nat q * s)) (drop y (bytes_of (rep_blocks s (r - q) B)))"
proof -
  have "rep_blocks s r B = rep_blocks s q B @ shift_blocks (of_nat q * s) (rep_blocks s (r - q) B)"
    using rep_blocks_add [of s q "r - q" B] assms by simp
  then show ?thesis by (simp add: drop_map)
qed

definition moved ::
    "cell list \<Rightarrow> nat \<Rightarrow> size_t \<Rightarrow> itree list \<Rightarrow> size_t \<Rightarrow> nat \<Rightarrow> (cursor \<times> itree list) list \<Rightarrow> cursor list \<Rightarrow> bool" where
  "moved code cap new_off is disp x fs stack \<longleftrightarrow>
     (\<exists>c js gs. stack = c # map fst gs \<and> top_ok code c js \<and> low_ok code cap (tdepth js) gs \<and>
        tfits js \<and> (\<forall>f\<in>set gs. tfits (snd f)) \<and> cu_offset c = new_off \<and>
        top_rem c js @ low_rem gs = map ((+) disp) (drop x (tbytes is)) @ low_rem fs \<and>
        low_fin (top_fin c js) gs = low_fin (disp + textent is) fs)"

definition move_pre ::
    "cell list \<Rightarrow> nat \<Rightarrow> itree list \<Rightarrow> nat \<Rightarrow> nat \<Rightarrow> nat \<Rightarrow> (cursor \<times> itree list) list \<Rightarrow> bool" where
  "move_pre code cap is pc n x fs \<longleftrightarrow>
     seq_at code pc is \<and> low_ok code cap (tdepth is) fs \<and> tfits is \<and> (\<forall>f\<in>set fs. tfits (snd f)) \<and>
     x < length (tbytes is) \<and> n + length (tbytes is) < 2 ^ 64"

lemma move_pre_room: "move_pre code cap is pc n x fs \<Longrightarrow> \<not> cap \<le> length (map fst fs)"
  using frames_fit [of code cap "tdepth is" fs] tdepth_pos [of "is"] by (simp add: move_pre_def)

lemma moved_skip:
  assumes "moved code cap new_off js (disp + d) y fs stack"
    and "drop x (tbytes is) = map ((+) d) (drop y (tbytes js))" and "textent is = d + textent js"
  shows "moved code cap new_off is disp x fs stack"
proof -
  have "map ((+) disp) (drop x (tbytes is)) = map ((+) (disp + d)) (drop y (tbytes js))"
    using assms(2) by (simp add: comp_def add.assoc)
  then show ?thesis using assms(1,3) by (simp add: moved_def add.assoc)
qed

text \<open>The offset arithmetic of \<open>MoveCursor\<close> in natural numbers.\<close>

lemma offset_div:
  fixes b :: size_t
  assumes "x < 2 ^ 64"
  shows "(of_nat x :: size_t) div b = of_nat (x div unat b)"
    and "(of_nat x :: size_t) - b * of_nat (x div unat b) = of_nat (x mod unat b)"
proof -
  have "x div unat b < 2 ^ 64" using assms div_le_dividend [of x "unat b"] by linarith
  then show "(of_nat x :: size_t) div b = of_nat (x div unat b)"
    using assms by (simp add: word_unat_eq_iff unat_div unat_of_nat64)
  have "(of_nat x :: size_t) = of_nat (unat b * (x div unat b) + x mod unat b)" by simp
  then have "(of_nat x :: size_t) = b * of_nat (x div unat b) + of_nat (x mod unat b)"
    by (simp only: of_nat_add of_nat_mult) simp
  then show "(of_nat x :: size_t) - b * of_nat (x div unat b) = of_nat (x mod unat b)" by simp
qed

lemma offset_less:
  fixes y :: size_t
  assumes "n + x < 2 ^ 64" and "n + unat y < 2 ^ 64"
  shows "(of_nat (n + x) :: size_t) < of_nat n + y \<longleftrightarrow> x < unat y"
proof -
  have "unat (of_nat n + y) = n + unat y"
    using assms(2) unat_of_nat64 [of n] by (subst unat_add_small) simp_all
  then show ?thesis using assms(1) by (simp add: word_less_nat_alt unat_of_nat64 del: of_nat_add)
qed

lemma move_copy_here:
  assumes pre: "move_pre code cap (ICopy b s r # js) pc n x fs" and x: "x < unat r * unat b"
  shows "\<exists>stack. move_step code cap (of_nat (n + x)) (pc, disp, of_nat n, map fst fs) = Some (Inl stack) \<and>
     moved code cap (of_nat (n + x)) (ICopy b s r # js) disp x fs stack"
proof -
  let ?is = "ICopy b s r # js"
  have f: "fetch code pc = Some (COPY b s r)" and b: "b \<noteq> 0" "0 < unat b"
    using pre by (auto simp: move_pre_def unat_gt_0)
  define q where "q = x div unat b"
  have q: "q < unat r" "q * unat b + x mod unat b = x" "x mod unat b < unat b"
    using x b(2) by (simp_all add: q_def less_mult_imp_div_less)
  have lt: "n + unat r * unat b < 2 ^ 64" using pre by (simp add: move_pre_def)
  have qr: "unat (of_nat q :: size_t) = q" "unat (of_nat (x mod unat b) :: size_t) = x mod unat b"
    using q(1,3) unat64_less [of r] unat64_less [of b] by (auto intro!: unat_of_nat64)
  have br: "unat (b * r) = unat r * unat b" using lt unat_mult_small [of b r] by (simp add: mult.commute)
  define c where "c = Cursor pc (disp + s * of_nat q) (of_nat (n + x)) (of_nat q) (of_nat (x mod unat b))"
  have "move_step code cap (of_nat (n + x)) (pc, disp, of_nat n, map fst fs) = Some (Inl (c # map fst fs))"
    using f b(1) move_pre_room [OF pre] offset_less [of n x "b * r"] x lt br offset_div [of x b] 
    by (simp add: move_step_def Let_def c_def q_def)
  moreover have top: "top_ok code c ?is"
    using pre q qr by (simp add: top_ok_def c_def Cursor_def move_pre_def word_less_nat_alt)
  moreover have "top_rem c ?is = map ((+) disp) (drop x (tbytes ?is))"
  proof -
    have "drop x (bytes_of (rep_blocks s (unat r) [(0, b)])) =
        map ((+) (of_nat q * s)) (drop (x mod unat b) (bytes_of (rep_blocks s (unat r - q) [(0, b)])))"
      using drop_rep [of q "unat r" "[(0, b)]" "x mod unat b" s] q by simp
    moreover have "cu_rep_num c < r" "cu_rep_bytes c \<le> b"
      using top by (auto simp: top_ok_def)
    ultimately show ?thesis
      using x qr by (simp add: top_rem_copy copy_rem_def tbytes_def c_def Cursor_def comp_def algebra_simps)
  qed
  moreover have "top_fin c ?is = disp + textent ?is"
    by (simp add: top_fin_def c_def Cursor_def textent_def algebra_simps)
  ultimately show ?thesis
    using pre unfolding moved_def move_pre_def
    by (intro exI [of _ "c # map fst fs"] conjI exI [of _ c] exI [of _ ?is] exI [of _ fs])
      (simp_all add: c_def Cursor_def)
qed

text \<open>Entering a sub-type: the call's cursor goes below and the sub-type is searched for the
  rest of the offset.\<close>

lemma move_call_rem:
  assumes "q < unat r" and "y < length (tbytes sub)"
  shows "drop (q * length (tbytes sub) + y) (tbytes (ICall sub s r # js)) =
       map ((+) (s * of_nat q)) (drop y (tbytes sub)) @
       map ((+) (s * of_nat q + s)) (bytes_of (pend (ICall sub s r # js) (of_nat q + 1)))"
    and "textent (ICall sub s r # js) = s * of_nat q + (s + adv (ICall sub s r # js) (of_nat q + 1))"
proof -
  let ?is = "ICall sub s r # js" and ?L = "length (tbytes sub)"
  have q64: "unat (of_nat q :: size_t) = q" using assms(1) unat64_less [of r] by (intro unat_of_nat64) linarith
  then have qr: "(of_nat q :: size_t) < r" using assms(1) by (simp add: word_less_nat_alt)
  have "Suc q * ?L \<le> unat r * ?L" using assms(1) by (intro mult_le_mono) simp_all
  then have "drop (q * ?L + y) (tbytes ?is) =
      drop (q * ?L + y) (bytes_of (rep_blocks s (unat r) (tblocks sub))) @ map ((+) (s * r)) (bytes_of (tblocks js))"
    using assms(2) by (simp add: tbytes_def)
  also have "\<dots> = map ((+) (s * of_nat q)) (drop y (bytes_of (pend ?is (of_nat q))))"
  proof -
    have "1 * ?L \<le> (unat r - q) * ?L" using assms(1) by (intro mult_le_mono) simp_all
    then show ?thesis
      using drop_rep [of q "unat r" "tblocks sub" y s] assms q64
      by (simp add: tbytes_def comp_def algebra_simps)
  qed
  also have "\<dots> = map ((+) (s * of_nat q)) (drop y (tbytes sub)) @
       map ((+) (s * of_nat q + s)) (bytes_of (pend ?is (of_nat q + 1)))"
    using call_rem(1) [OF qr, of sub s js] assms(2) by (simp add: tbytes_def comp_def add.assoc del: pend.simps)
  finally show "drop (q * ?L + y) (tbytes ?is) =
       map ((+) (s * of_nat q)) (drop y (tbytes sub)) @
       map ((+) (s * of_nat q + s)) (bytes_of (pend ?is (of_nat q + 1)))" .
  show "textent ?is = s * of_nat q + (s + adv ?is (of_nat q + 1))"
    using call_rem(2) [OF qr, of sub s js] by (simp add: textent_def algebra_simps)
qed

lemma map_add_add: "map ((+) a) (map ((+) b) xs) = map ((+) (a + b)) (xs :: size_t list)"
  by (simp add: comp_def add.assoc)

lemma move_call_enter:
  assumes pre: "move_pre code cap (ICall sub s r # js) pc n x fs" and x: "x < unat r * length (tbytes sub)"
  shows "\<exists>pc' d n' y c. move_step code cap (of_nat (n + x)) (pc, disp, of_nat n, map fst fs) =
       Some (Inr (pc', d, of_nat n', map fst ((c, ICall sub s r # js) # fs))) \<and> n' + y = n + x \<and>
     move_pre code cap sub pc' n' y ((c, ICall sub s r # js) # fs) \<and>
     (\<forall>stack. moved code cap (of_nat (n + x)) sub d y ((c, ICall sub s r # js) # fs) stack \<longrightarrow>
        moved code cap (of_nat (n + x)) (ICall sub s r # js) disp x fs stack)"
proof -
  let ?is = "ICall sub s r # js" and ?L = "length (tbytes sub)"
  obtain off h where f: "fetch code pc = Some (CALL off s r)" "fetch code (pc + off) = Some (BEGIN h)"
      "bg_data_size h = of_nat ?L" "seq_at code (pc + off + sz_Begin) sub"
    and at: "seq_at code pc ?is" using pre by (auto simp: move_pre_def)
  have L: "0 < ?L" using x by (cases "?L = 0") auto
  define q where "q = x div ?L"
  have q: "q < unat r" "q * ?L + x mod ?L = x" "x mod ?L < ?L"
    using x L by (simp_all add: q_def less_mult_imp_div_less)
  have lt: "n + unat r * ?L < 2 ^ 64" using pre by (simp add: move_pre_def)
  have "Suc q * ?L \<le> unat r * ?L" using q(1) by (intro mult_le_mono) simp_all
  then have n': "n + q * ?L + ?L < 2 ^ 64" using lt by simp
  then have L64: "unat (of_nat ?L :: size_t) = ?L" by (intro unat_of_nat64) simp
  have r64: "unat (of_nat q :: size_t) = q" using q(1) unat64_less [of r] by (intro unat_of_nat64) linarith
  have Lr: "unat (of_nat ?L * r) = unat r * ?L" using lt L64 unat_mult_small [of "of_nat ?L" r] by (simp add: mult.commute)
  define c where "c = Cursor pc (disp + s * of_nat q) (of_nat (n + q * ?L)) (of_nat q) 0"
  have "(of_nat (n + x) :: size_t) - of_nat (x mod ?L) = of_nat (n + q * ?L)"
  proof -
    have "(of_nat (n + x) :: size_t) = of_nat (n + q * ?L) + of_nat (x mod ?L)"
      using q(2) by (metis add.assoc of_nat_add)
    then show ?thesis by simp
  qed
  moreover have "(of_nat (n + x) :: size_t) < of_nat n + of_nat ?L * r"
    using offset_less [of n x "of_nat ?L * r"] x lt Lr by simp
  moreover have "(of_nat ?L :: size_t) \<noteq> 0" using L64 L by (metis unat_0 less_numeral_extra(3))
  ultimately have "move_step code cap (of_nat (n + x)) (pc, disp, of_nat n, map fst fs) =
       Some (Inr (pc + off + sz_Begin, disp + s * of_nat q, of_nat (n + q * ?L), map fst ((c, ?is) # fs)))"
    using f move_pre_room [OF pre] offset_div [of x "of_nat ?L"] x lt L64
    by (simp add: move_step_def Let_def c_def q_def add_diff_eq [symmetric])
  moreover have "move_pre code cap sub (pc + off + sz_Begin) (n + q * ?L) (x mod ?L) ((c, ?is) # fs)"
    using pre f(4) at q(1,3) n' r64 by (auto simp: move_pre_def c_def Cursor_def word_less_nat_alt)
  moreover have "moved code cap (of_nat (n + x)) ?is disp x fs stack"
    if "moved code cap (of_nat (n + x)) sub (disp + s * of_nat q) (x mod ?L) ((c, ?is) # fs) stack" for stack
  proof -
    have "map ((+) (disp + s * of_nat q)) (drop (x mod ?L) (tbytes sub)) @ low_rem ((c, ?is) # fs) =
        map ((+) disp) (drop x (tbytes ?is)) @ low_rem fs"
      using move_call_rem(1) [OF q(1,3), of s js] q(2)
      by (simp add: c_def Cursor_def map_add_add add.assoc del: pend.simps map_map)
    moreover have "low_fin (disp + s * of_nat q + textent sub) ((c, ?is) # fs) = low_fin (disp + textent ?is) fs"
      using move_call_rem(2) [OF q(1,3), of s js]
      by (simp add: c_def Cursor_def add.assoc del: adv.simps)
    ultimately show ?thesis using that unfolding moved_def by (simp only:)
  qed
  moreover have "n + q * ?L + x mod ?L = n + x" using q(2) by simp
  ultimately show ?thesis by blast
qed

text \<open>Skipping a whole instruction.\<close>

lemma tbytes_Cons: "tbytes (i # js) = tbytes [i] @ map ((+) (textent1 i)) (tbytes js)"
  by (simp add: tbytes_def)

lemma textent_Cons: "textent (i # js) = textent1 i + textent js"
  by (simp add: textent_def)

lemma move_pre_tl:
  assumes "move_pre code cap (i # js) pc n x fs" and "length (tbytes [i]) \<le> x" and "seq_at code pc' js"
  shows "move_pre code cap js pc' (n + length (tbytes [i])) (x - length (tbytes [i])) fs"
proof -
  have "tdepth js \<le> tdepth (i # js)" "tfits (i # js) \<Longrightarrow> tfits js" by (cases i; simp)+
  then show ?thesis
    using assms low_ok_mono unfolding move_pre_def
    by (auto simp: tbytes_Cons [of i js] simp del: length_tbytes_simps)
qed

lemma move_skip:
  assumes pre: "move_pre code cap (i # js) pc n x fs" and x: "length (tbytes [i]) \<le> x"
  shows "\<exists>pc'. move_step code cap (of_nat (n + x)) (pc, disp, of_nat n, map fst fs) =
       Some (Inr (pc', disp + textent1 i, of_nat (n + length (tbytes [i])), map fst fs)) \<and>
     move_pre code cap js pc' (n + length (tbytes [i])) (x - length (tbytes [i])) fs"
proof (cases i)
  case (ICopy b s r)
  have *: "fetch code pc = Some (COPY b s r)" "seq_at code (pc + 32) js" "n + unat r * unat b < 2 ^ 64"
      "n + x < 2 ^ 64" using pre ICopy by (auto simp: move_pre_def)
  have "unat (b * r) = unat r * unat b" using *(3) unat_mult_small [of b r] by (simp add: mult.commute)
  then have "\<not> (of_nat (n + x) :: size_t) < of_nat n + b * r"
    using offset_less [of n x "b * r"] *(3,4) x ICopy by simp
  then show ?thesis
    using * move_pre_tl [OF pre x *(2)] move_pre_room [OF pre] ICopy
    by (intro exI [of _ "pc + 32"]) (simp add: move_step_def mult.commute)
next
  case (IShift k)
  have *: "fetch code pc = Some (SHIFT k)" "seq_at code (pc + 16) js" using pre IShift by (auto simp: move_pre_def)
  then show ?thesis
    using move_pre_tl [OF pre x *(2)] move_pre_room [OF pre] IShift
    by (intro exI [of _ "pc + 16"]) (simp add: move_step_def)
next
  case (ICall sub s r)
  let ?L = "length (tbytes sub)"
  obtain off h where f: "fetch code pc = Some (CALL off s r)" "fetch code (pc + off) = Some (BEGIN h)"
      "bg_data_size h = of_nat ?L" "seq_at code (pc + 32) js" "n + unat r * ?L < 2 ^ 64" "n + x < 2 ^ 64" "r \<noteq> 0"
    using pre ICall by (auto simp: move_pre_def)
  have "1 * ?L \<le> unat r * ?L" using \<open>r \<noteq> 0\<close> by (intro mult_le_mono) (simp_all add: unat_gt_0 Suc_le_eq)
  then have "?L < 2 ^ 64" using f(5) by linarith
  then have "unat (of_nat ?L * r) = unat r * ?L"
    using f(5) unat_mult_small [of "of_nat ?L" r] unat_of_nat64 [of ?L] by (simp add: mult.commute)
  then have "\<not> (of_nat (n + x) :: size_t) < of_nat n + of_nat ?L * r"
    using offset_less [of n x "of_nat ?L * r"] f(5,6) x ICall by simp
  then show ?thesis
    using f move_pre_tl [OF pre x f(4)] move_pre_room [OF pre] ICall
    by (intro exI [of _ "pc + 32"]) (simp add: move_step_def Let_def mult.commute)
qed

lemma move_loop_step:
  "move_step code cap new_off x = Some (Inl stack) \<Longrightarrow> move_loop code cap new_off x = Some stack"
  "move_step code cap new_off x = Some (Inr z) \<Longrightarrow> move_loop code cap new_off x = move_loop code cap new_off z"
  by (subst move_loop.simps, simp)+

lemma move_loop_skip:
  assumes pre: "move_pre code cap (i # js) pc n x fs" and x: "length (tbytes [i]) \<le> x"
    and IH: "\<And>pc n x disp. move_pre code cap js pc n x fs \<Longrightarrow>
      \<exists>stack. move_loop code cap (of_nat (n + x)) (pc, disp, of_nat n, map fst fs) = Some stack \<and>
        moved code cap (of_nat (n + x)) js disp x fs stack"
  shows "\<exists>stack. move_loop code cap (of_nat (n + x)) (pc, disp, of_nat n, map fst fs) = Some stack \<and>
     moved code cap (of_nat (n + x)) (i # js) disp x fs stack"
proof -
  let ?l = "length (tbytes [i])"
  have eq: "n + ?l + (x - ?l) = n + x" using x by simp
  obtain pc' where step: "move_step code cap (of_nat (n + x)) (pc, disp, of_nat n, map fst fs) =
       Some (Inr (pc', disp + textent1 i, of_nat (n + ?l), map fst fs))"
    and pre': "move_pre code cap js pc' (n + ?l) (x - ?l) fs"
    using move_skip [OF pre x, of disp] by blast
  obtain stack where "move_loop code cap (of_nat (n + x)) (pc', disp + textent1 i, of_nat (n + ?l), map fst fs) = Some stack"
    and "moved code cap (of_nat (n + x)) js (disp + textent1 i) (x - ?l) fs stack"
    using IH [OF pre', of "disp + textent1 i"] unfolding eq by blast
  moreover from this(2) have "moved code cap (of_nat (n + x)) (i # js) disp x fs stack"
    by (rule moved_skip) (use x in \<open>simp_all add: tbytes_Cons [of i js] textent_Cons drop_map del: length_tbytes_simps\<close>)
  ultimately show ?thesis using move_loop_step(2) [OF step] by auto
qed

lemma move_loop_moved:
  assumes "move_pre code cap is pc n x fs"
  shows "\<exists>stack. move_loop code cap (of_nat (n + x)) (pc, disp, of_nat n, map fst fs) = Some stack \<and>
     moved code cap (of_nat (n + x)) is disp x fs stack"
  using assms
proof (induction "is" arbitrary: pc n x disp fs rule: tfits.induct)
  case 1
  then show ?case by (simp add: move_pre_def)
next
  case (2 b s r js)
  show ?case
  proof (cases "x < unat r * unat b")
    case True
    then show ?thesis using move_copy_here [OF "2.prems" True, of disp] move_loop_step(1) by blast
  next
    case False
    then show ?thesis using move_loop_skip [OF "2.prems"] "2.IH" by simp
  qed
next
  case (3 k js)
  then show ?case using move_loop_skip [OF "3.prems"] by simp
next
  case (4 sub s r js)
  show ?case
  proof (cases "x < unat r * length (tbytes sub)")
    case True
    obtain pc' d n' y c where *: "move_step code cap (of_nat (n + x)) (pc, disp, of_nat n, map fst fs) =
         Some (Inr (pc', d, of_nat n', map fst ((c, ICall sub s r # js) # fs)))" "n' + y = n + x"
       "move_pre code cap sub pc' n' y ((c, ICall sub s r # js) # fs)"
       "\<forall>stack. moved code cap (of_nat (n + x)) sub d y ((c, ICall sub s r # js) # fs) stack \<longrightarrow>
          moved code cap (of_nat (n + x)) (ICall sub s r # js) disp x fs stack"
      using move_call_enter [OF "4.prems" True, of disp] by blast
    show ?thesis using "4.IH"(1) [OF *(3), of d] *(4) move_loop_step(2) [OF *(1)] unfolding *(2) by auto
  next
    case False
    then show ?thesis using move_loop_skip [OF "4.prems"] "4.IH"(2) by simp
  qed
qed

end
