(* ===== verification/Pami_TypeMemory.thy ===== *)
theory Pami_TypeMemory
  imports Pami_TypeRun
begin

text \<open>
  What a run does to memory, and whole machines: construction, moving the cursor, packing and
  unpacking.
\<close>

section \<open>The effect on memory\<close>

text \<open>\<open>m'\<close> is \<open>m\<close> with the bytes at \<open>R\<close> copied to \<open>W\<close>; the bytes at \<open>X\<close> may change.\<close>

definition copies_via :: "size_t set \<Rightarrow> size_t list \<Rightarrow> size_t list \<Rightarrow> mem \<Rightarrow> mem \<Rightarrow> bool" where
  "copies_via X W R m m' \<longleftrightarrow> length W = length R \<and> (\<forall>i<length W. m' (W ! i) = m (R ! i)) \<and>
     (\<forall>a. a \<notin> set W \<union> X \<longrightarrow> m' a = m a)"

definition copies :: "size_t list \<Rightarrow> size_t list \<Rightarrow> mem \<Rightarrow> mem \<Rightarrow> bool" where
  "copies W R m m' \<longleftrightarrow> copies_via {} W R m m'"

lemma copies_Nil [simp]: "copies_via X [] [] m m" "copies [] [] m m"
  by (simp_all add: copies_via_def copies_def)

lemma copies_via_append:
  assumes 1: "copies_via X W R m m1" and 2: "copies_via X W' R' m1 m2"
    and "set W \<inter> set R' = {}" and "set W \<inter> set W' = {}" and "X \<inter> set R' = {}" and "X \<inter> set W = {}"
  shows "copies_via X (W @ W') (R @ R') m m2"
proof -
  have "m2 ((W @ W') ! i) = m ((R @ R') ! i)" if i: "i < length (W @ W')" for i
  proof (cases "i < length W")
    case True
    then have "W ! i \<notin> set W' \<union> X" using assms(4,6) nth_mem by blast
    then show ?thesis using True 1 2 by (simp add: copies_via_def nth_append)
  next
    case False
    then have "i - length W < length W'" using i by simp
    moreover from this have "R' ! (i - length W) \<in> set R'" using 2 by (simp add: copies_via_def)
    then have "R' ! (i - length W) \<notin> set W \<union> X" using assms(3,5) by blast
    ultimately show ?thesis using False 1 2 by (simp add: copies_via_def nth_append)
  qed
  then show ?thesis using 1 2 by (simp add: copies_via_def)
qed

lemma copies_append:
  assumes "copies W R m m1" and "copies W' R' m1 m2" and "set W \<inter> set R' = {}" and "set W \<inter> set W' = {}"
  shows "copies (W @ W') (R @ R') m m2"
  using assms copies_via_append [of "{}" W R m m1 W' R' m2] by (simp add: copies_def)

text \<open>Through an intermediate buffer \<open>B\<close>.\<close>

lemma copies_trans:
  assumes "copies B R m m1" and "copies W B m1 m2" and "set B \<inter> set W = {}"
  shows "copies_via (set B) W R m m2"
  using assms by (simp add: copies_def copies_via_def)

lemma nth_blk [simp]: "i < n \<Longrightarrow> blk d n ! i = d + of_nat i"
  by (simp add: blk_def)

lemma set_blk: "n \<le> 2 ^ 64 \<Longrightarrow> a \<in> set (blk d n) \<longleftrightarrow> unat (a - d) < n"
proof
  assume n: "n \<le> 2 ^ 64" and "a \<in> set (blk d n)"
  then obtain i where "i < n" "a = d + of_nat i" by (auto simp: blk_def)
  then show "unat (a - d) < n" using n by (simp add: unat_of_nat64)
next
  assume less: "unat (a - d) < n"
  then have "blk d n ! unat (a - d) = a" by simp
  then show "a \<in> set (blk d n)" using less nth_mem [of "unat (a - d)" "blk d n"] by simp
qed

lemma distinct_blk: "n \<le> 2 ^ 64 \<Longrightarrow> distinct (blk d n)"
proof -
  assume n: "n \<le> 2 ^ 64"
  have "i = j" if "i < n" "j < n" "(of_nat i :: size_t) = of_nat j" for i j
  proof -
    have "unat (of_nat i :: size_t) = i" "unat (of_nat j :: size_t) = j"
      using unat_of_nat64 [OF less_le_trans [OF that(1) n]] unat_of_nat64 [OF less_le_trans [OF that(2) n]] .
    then show ?thesis unfolding that(3) by (rule trans [OF sym])
  qed
  then show ?thesis by (auto simp: distinct_conv_nth)
qed

lemma memcpy_copies:
  assumes "set (blk to (unat n)) \<inter> set (blk from (unat n)) = {}"
  shows "copies (blk to (unat n)) (blk from (unat n)) m (memcpy to from n m)"
  unfolding copies_def copies_via_def
proof (intro conjI allI impI)
  show "memcpy to from n m (blk to (unat n) ! i) = m (blk from (unat n) ! i)" if "i < length (blk to (unat n))" for i
    using that unat64_less [of n] by (simp add: memcpy_def word_less_nat_alt unat_of_nat64)
  show "memcpy to from n m a = m a" if "a \<notin> set (blk to (unat n)) \<union> {}" for a
    using that set_blk [of "unat n" a to] unat64_less [of n] by (simp add: memcpy_def word_less_nat_alt)
qed simp

lemma InternalMemCopy_copies:
  assumes "set (blk to (unat n)) \<inter> set (blk from (unat n)) = {}"
  shows "copies (blk to (unat n)) (blk from (unat n)) m (InternalMemCopy to from n m)"
proof (cases "n = 16")
  case True
  have split: "blk d 16 = blk d 8 @ blk (d + 8) 8" for d using blk_add [of d 8 8] by simp
  have "distinct (blk to 16)" by (rule distinct_blk) simp
  then have "set (blk to 8) \<inter> set (blk (to + 8) 8) = {}" using split by simp
  moreover have dis: "set (blk to 16) \<inter> set (blk from 16) = {}" using assms True by simp
  ultimately show ?thesis
    using copies_append [OF memcpy_copies [of to 8 "from" m] memcpy_copies [of "to + 8" 8 "from + 8"]] True
    by (auto simp: InternalMemCopy_def split)
next
  case False
  then show ?thesis using memcpy_copies [OF assms] by (simp add: InternalMemCopy_def)
qed

text \<open>Packing and unpacking chunks when the copy function copies.\<close>

definition plain_copy :: "copy_fun option \<Rightarrow> bool" where
  "plain_copy cf \<longleftrightarrow> cf = None \<or> cf = Some memcpy"

lemma MemCopy_copies:
  assumes "plain_copy cf" and "set (blk to (unat n)) \<inter> set (blk from (unat n)) = {}"
  shows "copies (blk to (unat n)) (blk from (unat n)) m (MemCopy True cf to from n m)"
    and "copies (blk to (unat n)) (blk from (unat n)) m (MemCopy False cf from to n m)"
  using assms memcpy_copies InternalMemCopy_copies by (auto simp: plain_copy_def MemCopy_def)

lemma run_chunks_pack:
  assumes cf: "plain_copy cf" and "length (bytes_of bs) < 2 ^ 64"
    and "set (blk target (length (bytes_of bs))) \<inter> (+) origin ` set (bytes_of bs) = {}"
  shows "copies (blk target (length (bytes_of bs))) (map ((+) origin) (bytes_of bs)) m
     (run_chunks (MemCopy True cf) target origin bs m)"
  using assms(2-)
proof (induction bs arbitrary: target m)
  case (Cons b bs)
  obtain d n where b: "b = (d, n)" by force
  let ?rest = "length (bytes_of bs)"
  have split: "blk target (length (bytes_of (b # bs))) = blk target (unat n) @ blk (target + n) ?rest"
    using b by (simp add: blk_add)
  have R: "map ((+) origin) (bytes_of (b # bs)) = blk (origin + d) (unat n) @ map ((+) origin) (bytes_of bs)"
    using b by (simp add: blk_shift)
  have dis: "set (blk target (unat n) @ blk (target + n) ?rest) \<inter>
      set (blk (origin + d) (unat n) @ map ((+) origin) (bytes_of bs)) = {}"
    using Cons.prems(2) by (simp only: split R [symmetric] set_map)
  have "distinct (blk target (unat n) @ blk (target + n) ?rest)"
    unfolding split [symmetric] by (rule distinct_blk) (use Cons.prems(1) in simp)
  moreover have "copies (blk target (unat n)) (blk (origin + d) (unat n)) m (MemCopy True cf target (origin + d) n m)"
    using MemCopy_copies(1) [OF cf, of target n "origin + d" m] dis by auto
  moreover have "copies (blk (target + n) ?rest) (map ((+) origin) (bytes_of bs)) (MemCopy True cf target (origin + d) n m)
      (run_chunks (MemCopy True cf) (target + n) origin bs (MemCopy True cf target (origin + d) n m))"
    by (rule Cons.IH) (use Cons.prems(1) b dis in auto)
  moreover have "run_chunks (MemCopy True cf) target origin (b # bs) m =
      run_chunks (MemCopy True cf) (target + n) origin bs (MemCopy True cf target (origin + d) n m)"
    using b by simp
  ultimately show ?case
    unfolding split R using dis by (simp only:) (rule copies_append, auto)
qed simp

lemma run_chunks_unpack:
  assumes cf: "plain_copy cf" and "length (bytes_of bs) < 2 ^ 64" and "distinct (bytes_of bs)"
    and "set (blk target (length (bytes_of bs))) \<inter> (+) origin ` set (bytes_of bs) = {}"
  shows "copies (map ((+) origin) (bytes_of bs)) (blk target (length (bytes_of bs))) m
     (run_chunks (MemCopy False cf) target origin bs m)"
  using assms(2-)
proof (induction bs arbitrary: target m)
  case (Cons b bs)
  obtain d n where b: "b = (d, n)" by force
  let ?rest = "length (bytes_of bs)"
  have split: "blk target (length (bytes_of (b # bs))) = blk target (unat n) @ blk (target + n) ?rest"
    using b by (simp add: blk_add)
  have R: "map ((+) origin) (bytes_of (b # bs)) = blk (origin + d) (unat n) @ map ((+) origin) (bytes_of bs)"
    using b by (simp add: blk_shift)
  have dis: "set (blk target (unat n) @ blk (target + n) ?rest) \<inter>
      set (blk (origin + d) (unat n) @ map ((+) origin) (bytes_of bs)) = {}"
    using Cons.prems(3) by (simp only: split R [symmetric] set_map)
  have "distinct (blk (origin + d) (unat n) @ map ((+) origin) (bytes_of bs))"
    unfolding R [symmetric] using Cons.prems(2) by (simp add: distinct_map inj_on_def del: bytes_of_simps)
  moreover have "copies (blk (origin + d) (unat n)) (blk target (unat n)) m (MemCopy False cf target (origin + d) n m)"
    using MemCopy_copies(2) [OF cf, of "origin + d" n target m] dis by auto
  moreover have "copies (map ((+) origin) (bytes_of bs)) (blk (target + n) ?rest) (MemCopy False cf target (origin + d) n m)
      (run_chunks (MemCopy False cf) (target + n) origin bs (MemCopy False cf target (origin + d) n m))"
    by (rule Cons.IH) (use Cons.prems(1,2) b dis in auto)
  moreover have "run_chunks (MemCopy False cf) target origin (b # bs) m =
      run_chunks (MemCopy False cf) (target + n) origin bs (MemCopy False cf target (origin + d) n m)"
    using b by simp
  ultimately show ?case
    unfolding split R using dis by (simp only:) (rule copies_append, auto)
qed simp

section \<open>Machines\<close>

definition machine_ok :: "machine \<Rightarrow> itree list \<Rightarrow> nat \<Rightarrow> bool" where
  "machine_ok tm t n \<longleftrightarrow> type_ok (tm_type tm) t \<and> 0 < length (tbytes t) \<and> tdepth t \<le> tm_cap tm \<and>
     machine_at (full_code (tm_type tm)) t (tm_cap tm) n (tm_stack tm)"

lemma machine_ok_runnable: "machine_ok tm t n \<Longrightarrow> runnable (full_code (tm_type tm)) t (tm_cap tm)"
  using seq_at_tfits by (auto simp: machine_ok_def runnable_def type_ok_def)

lemma machine_ok_stack:
  assumes "machine_ok tm t n" and "machine_at (full_code (tm_type tm)) t (tm_cap tm) n' stack"
  shows "machine_ok (tm\<lparr>tm_stack := stack\<rparr>) t n'"
  using assms by (simp add: machine_ok_def)

lemma top_offset_machine: "machine_ok tm t n \<Longrightarrow> top_offset tm = of_nat n"
  by (auto simp: machine_ok_def machine_at_def frames_at_def top_offset_def)

text \<open>The contiguous type that stands in for every contiguous type has the same displacements.\<close>

lemma disp_at_contig:
  assumes "b \<noteq> 0"
  shows "disp_at [ICopy b b 1] n = of_nat n"
proof -
  have b: "0 < unat b" using assms by (simp add: unat_gt_0)
  have bytes: "tbytes [ICopy b b 1] = blk 0 (unat b)" by (simp add: tbytes_def)
  have "disp_at [ICopy b b 1] n = of_nat (n div unat b) * of_nat (unat b) + of_nat (n mod unat b)"
    using b by (simp add: disp_at_def bytes textent_def)
  also have "\<dots> = of_nat (n div unat b * unat b + n mod unat b)" by (simp only: of_nat_add of_nat_mult)
  finally show ?thesis by (simp only: div_mult_mod_eq)
qed

definition contig_max_ok :: "typecode \<Rightarrow> bool" where
  "contig_max_ok cm \<longleftrightarrow> (\<exists>b. b \<noteq> 0 \<and> type_ok cm [ICopy b b 1])"

lemma start_machine:
  assumes "type_ok ty t" and "0 < length (tbytes t)" and "unat (GetDepth ty) \<le> cap"
  shows "machine_ok \<lparr>tm_type = ty, tm_orig_type = orig, tm_copy_func = cf, tm_stack = [start_cursor], tm_cap = cap\<rparr> t 0"
proof -
  have "runnable (full_code ty) t cap"
    using assms seq_at_tfits by (auto simp: runnable_def type_ok_def)
  then show ?thesis using assms machine_at_start by (auto simp: machine_ok_def type_ok_def)
qed

lemma TypeMachine_new_ok:
  assumes ty: "type_ok ty t" "0 < length (tbytes t)" and cm: "contig_max_ok cm"
  obtains tm t' where "TypeMachine_new cm offered ty = Some tm" and "machine_ok tm t' 0"
    and "\<And>n. disp_at t' n = disp_at t n" and "GetType tm = ty" and "tm_copy_func tm = None"
    and "t' = t \<or> (\<exists>b. t' = [ICopy b b 1])"
proof (cases "IsContiguous ty")
  case True
  obtain b where b: "b \<noteq> 0" "type_ok cm [ICopy b b 1]" using cm by (auto simp: contig_max_ok_def)
  obtain b' where b': "t = [ICopy b' b' 1]" using True ty(1) by (auto simp: type_ok_def)
  then have "b' \<noteq> 0" using ty(2) by (auto simp: tbytes_def)
  then have "disp_at [ICopy b b 1] n = disp_at t n" for n using b' b(1) by (simp add: disp_at_contig)
  moreover have "0 < length (tbytes [ICopy b b 1])" using b(1) by (simp add: unat_gt_0)
  ultimately show ?thesis
    using that [OF _ start_machine [OF b(2)]] True ty(1)
    by (simp add: TypeMachine_new_def IsCompleted_def type_ok_def GetType_def)
next
  case False
  then show ?thesis
    using that [OF _ start_machine [OF ty]] ty(1)
    by (simp add: TypeMachine_new_def IsCompleted_def type_ok_def GetType_def)
qed

lemma MoveCursor_ok:
  assumes tm: "machine_ok tm t n" and n: "n < 2 ^ 64"
    and fits: "unat off div length (tbytes t) * length (tbytes t) + length (tbytes t) < 2 ^ 64"
  shows "\<exists>tm'. MoveCursor off tm = Some tm' \<and> machine_ok tm' t (unat off) \<and>
     tm_copy_func tm' = tm_copy_func tm \<and> tm_type tm' = tm_type tm"
proof (cases "top_offset tm = off")
  case True
  then have "n = unat off" using top_offset_machine [OF tm] n unat_of_nat64 by fastforce
  then show ?thesis using True tm by (simp add: MoveCursor_def)
next
  case False
  let ?code = "full_code (tm_type tm)" and ?L = "length (tbytes t)"
  note run = machine_ok_runnable [OF tm]
  have ty: "type_ok (tm_type tm) t" and L: "0 < ?L" using tm by (auto simp: machine_ok_def)
  define q where "q = unat off div ?L"
  define x where "x = unat off mod ?L"
  have qx: "q * ?L + x = unat off" "x < ?L" using L by (simp_all add: q_def x_def)
  have L64: "unat (of_nat ?L :: size_t) = ?L" using ty by (intro unat_of_nat64) (simp add: type_ok_def)
  have div: "off div of_nat ?L = of_nat q"
    using offset_div(1) [OF unat64_less, of off "of_nat ?L"] L64 by (simp add: q_def)
  have "move_pre ?code (tm_cap tm) t sz_Begin (q * ?L) x []"
    using run qx(2) fits by (simp add: move_pre_def runnable_def q_def)
  then obtain stack where stack: "move_loop ?code (tm_cap tm) (of_nat (q * ?L + x))
        (sz_Begin, of_nat q * textent t, of_nat (q * ?L), []) = Some stack"
      "moved ?code (tm_cap tm) (of_nat (q * ?L + x)) t (of_nat q * textent t) x [] stack"
    using move_loop_moved [of ?code "tm_cap tm" t sz_Begin "q * ?L" x "[]" "of_nat q * textent t"]
    unfolding list.map by blast
  have "MoveCursor off tm = Some (tm\<lparr>tm_stack := stack\<rparr>)"
  proof -
    have "GetDataSize (tm_type tm) = of_nat ?L" "GetExtent (tm_type tm) = textent t"
      using ty by (simp_all add: type_ok_def)
    moreover have "(of_nat ?L :: size_t) \<noteq> 0" using L64 L by (metis unat_0 less_numeral_extra(3))
    ultimately show ?thesis using stack(1) False div unfolding qx(1) by (simp add: MoveCursor_def)
  qed
  moreover have "machine_at ?code t (tm_cap tm) (unat off) stack"
  proof -
    have "map (disp_at t) [unat off..<Suc q * ?L] = drop x (map (disp_at t) [q * ?L..<Suc q * ?L])"
      using qx(1) by (simp add: drop_map add.commute)
    also have "\<dots> = map ((+) (of_nat q * textent t)) (drop x (tbytes t))"
      unfolding disp_at_pass [OF L] by (rule drop_map)
    finally have rem: "map (disp_at t) [unat off..<Suc q * ?L] = map ((+) (of_nat q * textent t)) (drop x (tbytes t))" .
    have "unat off \<le> Suc q * ?L" using qx by simp
    then show ?thesis
      using stack(2) unfolding machine_at_def moved_def frames_at_def qx(1) rem [symmetric]
      by (fastforce simp: algebra_simps)
  qed
  ultimately show ?thesis using machine_ok_stack [OF tm] by auto
qed

text \<open>The addresses of \<open>k\<close> bytes from offset \<open>n\<close> of a type at address \<open>a\<close>.\<close>

definition addrs :: "size_t \<Rightarrow> itree list \<Rightarrow> nat \<Rightarrow> nat \<Rightarrow> size_t list" where
  "addrs a t n k = map (\<lambda>i. a + disp_at t i) [n..<n + k]"

lemma addrs_bytes: "addrs a t n k = map ((+) a) (map (disp_at t) [n..<n + k])"
  by (simp add: addrs_def)

lemma addrs_add: "addrs a t n (j + k) = addrs a t n j @ addrs a t (n + j) k"
  using upt_split [of n "n + j" "n + j + k"] by (simp add: addrs_def add.assoc)

lemma length_addrs [simp]: "length (addrs a t n k) = k"
  by (simp add: addrs_def)

lemma Pack_ok:
  assumes tm: "machine_ok tm t n" and cf: "plain_copy (tm_copy_func tm)"
    and dis: "set (blk target (unat bytes)) \<inter> set (addrs origin t n (unat bytes)) = {}"
  shows "\<exists>tm' m'. Pack target origin bytes tm m = Some (tm', m') \<and> machine_ok tm' t (n + unat bytes) \<and>
     tm_copy_func tm' = tm_copy_func tm \<and> copies (blk target (unat bytes)) (addrs origin t n (unat bytes)) m m'"
proof -
  let ?mc = "MemCopy True (tm_copy_func tm)"
  obtain chunks stack where run: "Run (full_code (tm_type tm)) (tm_cap tm) ?mc target origin bytes (tm_stack tm) m =
        Some (stack, run_chunks ?mc target origin chunks m)"
      "machine_at (full_code (tm_type tm)) t (tm_cap tm) (n + unat bytes) stack"
      "bytes_of chunks = map (disp_at t) [n..<n + unat bytes]"
    using Run_ok [OF machine_ok_runnable [OF tm], of n "tm_stack tm" ?mc target origin bytes m] tm
    unfolding run_ok_def machine_ok_def by blast
  have "copies (blk target (unat bytes)) (addrs origin t n (unat bytes)) m (run_chunks ?mc target origin chunks m)"
    using run_chunks_pack [OF cf, of chunks target origin m] dis unat64_less [of bytes] unfolding run(3) addrs_bytes by (simp add: image_image)
  then show ?thesis using run(1) machine_ok_stack [OF tm run(2)] by (simp add: Pack_def)
qed

lemma Unpack_ok:
  assumes tm: "machine_ok tm t n" and cf: "plain_copy (tm_copy_func tm)"
    and dis: "set (blk origin (unat bytes)) \<inter> set (addrs target t n (unat bytes)) = {}"
    and dist: "distinct (addrs target t n (unat bytes))"
  shows "\<exists>tm' m'. Unpack target origin bytes tm m = Some (tm', m') \<and> machine_ok tm' t (n + unat bytes) \<and>
     tm_copy_func tm' = tm_copy_func tm \<and> copies (addrs target t n (unat bytes)) (blk origin (unat bytes)) m m'"
proof -
  let ?mc = "MemCopy False (tm_copy_func tm)"
  obtain chunks stack where run: "Run (full_code (tm_type tm)) (tm_cap tm) ?mc origin target bytes (tm_stack tm) m =
        Some (stack, run_chunks ?mc origin target chunks m)"
      "machine_at (full_code (tm_type tm)) t (tm_cap tm) (n + unat bytes) stack"
      "bytes_of chunks = map (disp_at t) [n..<n + unat bytes]"
    using Run_ok [OF machine_ok_runnable [OF tm], of n "tm_stack tm" ?mc origin target bytes m] tm
    unfolding run_ok_def machine_ok_def by blast
  have "distinct (map (disp_at t) [n..<n + unat bytes])"
    using dist unfolding addrs_bytes by (simp only: distinct_map)
  then have "copies (addrs target t n (unat bytes)) (blk origin (unat bytes)) m (run_chunks ?mc origin target chunks m)"
    using run_chunks_unpack [OF cf, of chunks origin target m] dis unat64_less [of bytes] unfolding run(3) addrs_bytes by (simp add: image_image)
  then show ?thesis using run(1) machine_ok_stack [OF tm run(2)] by (simp add: Unpack_def)
qed

end
