(* ===== verification/Pami_TypeFunc.thy ===== *)
theory Pami_TypeFunc
  imports Pami_TypeCode
begin

unbundle bit_operations_syntax

text \<open>
  \<^verbatim>\<open>common/type/TypeFunc.h\<close> and \<^verbatim>\<open>arch/MathInterface.h\<close>: the table of
  the functions that combine data of a primitive type, and the element-wise loops behind
  them. The element types are \<open>ctype\<close>; their sizes are those of LP64 with the alignment rules of
  the ABI, an array of length 0 taking no space.
\<close>

section \<open>C types\<close>

datatype ctype =
    C_uint8 | C_uint16 | C_uint32 | C_uint64
  | C_schar | C_short | C_int | C_long | C_llong
  | C_uchar | C_ushort | C_uint | C_ulong | C_ullong
  | C_float | C_double | C_ldouble
  | C_complex ctype
  | C_loc ctype ctype nat nat   \<comment> \<open>value, index, pad0, pad1\<close>

definition round_up :: "nat \<Rightarrow> nat \<Rightarrow> nat" where
  "round_up n a = (n + a - 1) div a * a"

fun alignof_sizeof :: "ctype \<Rightarrow> nat \<times> nat" where
  "alignof_sizeof C_uint8 = (1, 1)"
| "alignof_sizeof C_uint16 = (2, 2)"
| "alignof_sizeof C_uint32 = (4, 4)"
| "alignof_sizeof C_uint64 = (8, 8)"
| "alignof_sizeof C_schar = (1, 1)"
| "alignof_sizeof C_short = (2, 2)"
| "alignof_sizeof C_int = (4, 4)"
| "alignof_sizeof C_long = (8, 8)"
| "alignof_sizeof C_llong = (8, 8)"
| "alignof_sizeof C_uchar = (1, 1)"
| "alignof_sizeof C_ushort = (2, 2)"
| "alignof_sizeof C_uint = (4, 4)"
| "alignof_sizeof C_ulong = (8, 8)"
| "alignof_sizeof C_ullong = (8, 8)"
| "alignof_sizeof C_float = (4, 4)"
| "alignof_sizeof C_double = (8, 8)"
| "alignof_sizeof C_ldouble = (16, 16)"
| "alignof_sizeof (C_complex t) = (let (a, n) = alignof_sizeof t in (a, 2 * n))"
| "alignof_sizeof (C_loc v i pad0 pad1) =
     (let (av, nv) = alignof_sizeof v; (ai, ni) = alignof_sizeof i;
          a = max av ai; index_at = round_up (nv + pad0) ai in
      (a, round_up (index_at + ni + pad1) a))"

definition sizeof :: "ctype \<Rightarrow> nat" where
  "sizeof t = snd (alignof_sizeof t)"

section \<open>The table\<close>

datatype primitive_func =
    PRIMITIVE_FUNC_COPY | PRIMITIVE_FUNC_NOOP | PRIMITIVE_FUNC_MAX | PRIMITIVE_FUNC_MIN
  | PRIMITIVE_FUNC_SUM | PRIMITIVE_FUNC_PROD | PRIMITIVE_FUNC_LAND | PRIMITIVE_FUNC_LOR
  | PRIMITIVE_FUNC_LXOR | PRIMITIVE_FUNC_BAND | PRIMITIVE_FUNC_BOR | PRIMITIVE_FUNC_BXOR
  | PRIMITIVE_FUNC_MAXLOC | PRIMITIVE_FUNC_MINLOC

datatype func =
    F_copy ctype | F_noop | F_max ctype | F_min ctype | F_sum ctype | F_prod ctype
  | F_land ctype | F_lor ctype | F_lxor ctype | F_band ctype | F_bor ctype | F_bxor ctype
  | F_maxloc ctype | F_minloc ctype | F_error

fun func_index :: "primitive_func \<Rightarrow> nat" where
  "func_index PRIMITIVE_FUNC_COPY = 0"
| "func_index PRIMITIVE_FUNC_NOOP = 1"
| "func_index PRIMITIVE_FUNC_MAX = 2"
| "func_index PRIMITIVE_FUNC_MIN = 3"
| "func_index PRIMITIVE_FUNC_SUM = 4"
| "func_index PRIMITIVE_FUNC_PROD = 5"
| "func_index PRIMITIVE_FUNC_LAND = 6"
| "func_index PRIMITIVE_FUNC_LOR = 7"
| "func_index PRIMITIVE_FUNC_LXOR = 8"
| "func_index PRIMITIVE_FUNC_BAND = 9"
| "func_index PRIMITIVE_FUNC_BOR = 10"
| "func_index PRIMITIVE_FUNC_BXOR = 11"
| "func_index PRIMITIVE_FUNC_MAXLOC = 12"
| "func_index PRIMITIVE_FUNC_MINLOC = 13"

fun type_index :: "primitive_type \<Rightarrow> nat" where
  "type_index PRIMITIVE_TYPE_BYTE = 0"
| "type_index PRIMITIVE_TYPE_SIGNED_CHAR = 1"
| "type_index PRIMITIVE_TYPE_SIGNED_SHORT = 2"
| "type_index PRIMITIVE_TYPE_SIGNED_INT = 3"
| "type_index PRIMITIVE_TYPE_SIGNED_LONG = 4"
| "type_index PRIMITIVE_TYPE_SIGNED_LONG_LONG = 5"
| "type_index PRIMITIVE_TYPE_UNSIGNED_CHAR = 6"
| "type_index PRIMITIVE_TYPE_UNSIGNED_SHORT = 7"
| "type_index PRIMITIVE_TYPE_UNSIGNED_INT = 8"
| "type_index PRIMITIVE_TYPE_UNSIGNED_LONG = 9"
| "type_index PRIMITIVE_TYPE_UNSIGNED_LONG_LONG = 10"
| "type_index PRIMITIVE_TYPE_FLOAT = 11"
| "type_index PRIMITIVE_TYPE_DOUBLE = 12"
| "type_index PRIMITIVE_TYPE_LONG_DOUBLE = 13"
| "type_index PRIMITIVE_TYPE_LOGICAL1 = 14"
| "type_index PRIMITIVE_TYPE_LOGICAL2 = 15"
| "type_index PRIMITIVE_TYPE_LOGICAL4 = 16"
| "type_index PRIMITIVE_TYPE_LOGICAL8 = 17"
| "type_index PRIMITIVE_TYPE_SINGLE_COMPLEX = 18"
| "type_index PRIMITIVE_TYPE_DOUBLE_COMPLEX = 19"
| "type_index PRIMITIVE_TYPE_LOC_2INT = 20"
| "type_index PRIMITIVE_TYPE_LOC_2FLOAT = 21"
| "type_index PRIMITIVE_TYPE_LOC_2DOUBLE = 22"
| "type_index PRIMITIVE_TYPE_LOC_SHORT_INT = 23"
| "type_index PRIMITIVE_TYPE_LOC_FLOAT_INT = 24"
| "type_index PRIMITIVE_TYPE_LOC_DOUBLE_INT = 25"
| "type_index PRIMITIVE_TYPE_LOC_LONG_INT = 26"
| "type_index PRIMITIVE_TYPE_LOC_LONGDOUBLE_INT = 27"
| "type_index PRIMITIVE_TYPE_COUNT = 28"
| "type_index PRIMITIVE_TYPE_UNDEFINED = 29"

definition rows_signed :: "func list list" where
  "rows_signed =
    [[F_copy C_uint8, F_noop, F_max C_uint8, F_min C_uint8, F_sum C_uint8, F_prod C_uint8,
      F_land C_uint8, F_lor C_uint8, F_lxor C_uint8, F_band C_uint8, F_bor C_uint8, F_bxor C_uint8, F_error, F_error],
     [F_copy C_schar, F_noop, F_max C_schar, F_min C_schar, F_sum C_schar, F_prod C_schar,
      F_land C_schar, F_lor C_schar, F_lxor C_schar, F_band C_schar, F_bor C_schar, F_bxor C_schar, F_error, F_error],
     [F_copy C_short, F_noop, F_max C_short, F_min C_short, F_sum C_short, F_prod C_short,
      F_land C_short, F_lor C_short, F_lxor C_short, F_band C_short, F_bor C_short, F_bxor C_short, F_error, F_error],
     [F_copy C_int, F_noop, F_max C_int, F_min C_int, F_sum C_int, F_prod C_int,
      F_land C_int, F_lor C_int, F_lxor C_int, F_band C_int, F_bor C_int, F_bxor C_int, F_error, F_error],
     [F_copy C_long, F_noop, F_max C_long, F_min C_long, F_sum C_long, F_prod C_long,
      F_land C_long, F_lor C_long, F_lxor C_long, F_band C_long, F_bor C_long, F_bxor C_long, F_error, F_error],
     [F_copy C_llong, F_noop, F_max C_llong, F_min C_llong, F_sum C_llong, F_prod C_llong,
      F_land C_llong, F_lor C_llong, F_lxor C_llong, F_band C_llong, F_bor C_llong, F_bxor C_llong, F_error, F_error]]"

definition rows_unsigned :: "func list list" where
  "rows_unsigned =
    [[F_copy C_uchar, F_noop, F_max C_uchar, F_min C_uchar, F_sum C_uchar, F_prod C_uchar,
      F_land C_uchar, F_lor C_uchar, F_lxor C_uchar, F_band C_uchar, F_bor C_uchar, F_bxor C_uchar, F_error, F_error],
     [F_copy C_ushort, F_noop, F_max C_ushort, F_min C_ushort, F_sum C_ushort, F_prod C_ushort,
      F_land C_ushort, F_lor C_ushort, F_lxor C_ushort, F_band C_ushort, F_bor C_ushort, F_bxor C_ushort, F_error, F_error],
     [F_copy C_uint, F_noop, F_max C_uint, F_min C_uint, F_sum C_uint, F_prod C_uint,
      F_land C_uint, F_lor C_uint, F_lxor C_uint, F_band C_uint, F_bor C_uint, F_bxor C_uint, F_error, F_error],
     [F_copy C_ulong, F_noop, F_max C_ulong, F_min C_ulong, F_sum C_ulong, F_prod C_ulong,
      F_land C_ulong, F_lor C_ulong, F_lxor C_ulong, F_band C_ulong, F_bor C_ulong, F_bxor C_ulong, F_error, F_error],
     [F_copy C_ullong, F_noop, F_max C_ullong, F_min C_ullong, F_sum C_ullong, F_prod C_ullong,
      F_land C_ullong, F_lor C_ullong, F_lxor C_ullong, F_band C_ullong, F_bor C_ullong, F_bxor C_ullong, F_error, F_error]]"

definition rows_float :: "func list list" where
  "rows_float =
    [[F_copy C_float, F_noop, F_max C_float, F_min C_float, F_sum C_float, F_prod C_float,
      F_error, F_error, F_error, F_error, F_error, F_error, F_error, F_error],
     [F_copy C_double, F_noop, F_max C_double, F_min C_double, F_sum C_double, F_prod C_double,
      F_error, F_error, F_error, F_error, F_error, F_error, F_error, F_error],
     [F_copy C_ldouble, F_noop, F_max C_ldouble, F_min C_ldouble, F_sum C_ldouble, F_prod C_ldouble,
      F_error, F_error, F_error, F_error, F_error, F_error, F_error, F_error]]"

definition rows_logical :: "func list list" where
  "rows_logical =
    [[F_copy C_uint8, F_noop, F_error, F_error, F_error, F_error,
      F_land C_uint8, F_lor C_uint8, F_lxor C_uint8, F_error, F_error, F_error, F_error, F_error],
     [F_copy C_uint16, F_noop, F_error, F_error, F_error, F_error,
      F_land C_uint16, F_lor C_uint16, F_lxor C_uint16, F_error, F_error, F_error, F_error, F_error],
     [F_copy C_uint32, F_noop, F_error, F_error, F_error, F_error,
      F_land C_uint32, F_lor C_uint32, F_lxor C_uint32, F_error, F_error, F_error, F_error, F_error],
     [F_copy C_uint64, F_noop, F_error, F_error, F_error, F_error,
      F_land C_uint64, F_lor C_uint64, F_lxor C_uint64, F_error, F_error, F_error, F_error, F_error]]"

definition rows_complex :: "func list list" where
  "rows_complex =
    [[F_copy (C_complex C_float), F_noop, F_error, F_error, F_sum (C_complex C_float), F_prod (C_complex C_float),
      F_error, F_error, F_error, F_error, F_error, F_error, F_error, F_error],
     [F_copy (C_complex C_double), F_noop, F_error, F_error, F_sum (C_complex C_double), F_prod (C_complex C_double),
      F_error, F_error, F_error, F_error, F_error, F_error, F_error, F_error]]"

definition rows_loc :: "func list list" where
  "rows_loc =
    [[F_copy (C_loc C_int C_int 0 0), F_noop, F_error, F_error, F_error, F_error,
      F_error, F_error, F_error, F_error, F_error, F_error, F_maxloc (C_loc C_int C_int 0 0), F_minloc (C_loc C_int C_int 0 0)],
     [F_copy (C_loc C_float C_float 0 0), F_noop, F_error, F_error, F_error, F_error,
      F_error, F_error, F_error, F_error, F_error, F_error, F_maxloc (C_loc C_float C_float 0 0), F_minloc (C_loc C_float C_float 0 0)],
     [F_copy (C_loc C_double C_double 0 0), F_noop, F_error, F_error, F_error, F_error,
      F_error, F_error, F_error, F_error, F_error, F_error, F_maxloc (C_loc C_double C_double 0 0), F_minloc (C_loc C_double C_double 0 0)],
     [F_copy (C_loc C_short C_int 0 0), F_noop, F_error, F_error, F_error, F_error,
      F_error, F_error, F_error, F_error, F_error, F_error, F_maxloc (C_loc C_short C_int 2 0), F_minloc (C_loc C_short C_int 2 0)],
     [F_copy (C_loc C_float C_int 0 0), F_noop, F_error, F_error, F_error, F_error,
      F_error, F_error, F_error, F_error, F_error, F_error, F_maxloc (C_loc C_float C_int 0 0), F_minloc (C_loc C_float C_int 0 0)],
     [F_copy (C_loc C_double C_int 0 4), F_noop, F_error, F_error, F_error, F_error,
      F_error, F_error, F_error, F_error, F_error, F_error, F_maxloc (C_loc C_double C_int 0 4), F_minloc (C_loc C_double C_int 0 4)],
     [F_copy (C_loc C_long C_int 0 4), F_noop, F_error, F_error, F_error, F_error,
      F_error, F_error, F_error, F_error, F_error, F_error, F_maxloc (C_loc C_long C_int 0 4), F_minloc (C_loc C_long C_int 0 4)],
     [F_copy (C_loc C_ldouble C_int 0 12), F_noop, F_error, F_error, F_error, F_error,
      F_error, F_error, F_error, F_error, F_error, F_error, F_maxloc (C_loc C_ldouble C_int 0 12), F_minloc (C_loc C_ldouble C_int 0 12)]]"

definition func_table :: "func list list" where
  "func_table = rows_signed @ rows_unsigned @ rows_float @ rows_logical @ rows_complex @ rows_loc"

text \<open>\<open>None\<close> is an index outside of the table.\<close>

definition GetCopyFunction :: "primitive_type \<Rightarrow> primitive_func \<Rightarrow> func option" where
  "GetCopyFunction ty f =
     (if type_index ty < length func_table then Some (func_table ! type_index ty ! func_index f) else None)"

fun func_kind :: "func \<Rightarrow> primitive_func option" where
  "func_kind (F_copy _) = Some PRIMITIVE_FUNC_COPY"
| "func_kind F_noop = Some PRIMITIVE_FUNC_NOOP"
| "func_kind (F_max _) = Some PRIMITIVE_FUNC_MAX"
| "func_kind (F_min _) = Some PRIMITIVE_FUNC_MIN"
| "func_kind (F_sum _) = Some PRIMITIVE_FUNC_SUM"
| "func_kind (F_prod _) = Some PRIMITIVE_FUNC_PROD"
| "func_kind (F_land _) = Some PRIMITIVE_FUNC_LAND"
| "func_kind (F_lor _) = Some PRIMITIVE_FUNC_LOR"
| "func_kind (F_lxor _) = Some PRIMITIVE_FUNC_LXOR"
| "func_kind (F_band _) = Some PRIMITIVE_FUNC_BAND"
| "func_kind (F_bor _) = Some PRIMITIVE_FUNC_BOR"
| "func_kind (F_bxor _) = Some PRIMITIVE_FUNC_BXOR"
| "func_kind (F_maxloc _) = Some PRIMITIVE_FUNC_MAXLOC"
| "func_kind (F_minloc _) = Some PRIMITIVE_FUNC_MINLOC"
| "func_kind F_error = None"

fun func_type :: "func \<Rightarrow> ctype option" where
  "func_type (F_copy t) = Some t" | "func_type (F_max t) = Some t" | "func_type (F_min t) = Some t"
| "func_type (F_sum t) = Some t" | "func_type (F_prod t) = Some t" | "func_type (F_land t) = Some t"
| "func_type (F_lor t) = Some t" | "func_type (F_lxor t) = Some t" | "func_type (F_band t) = Some t"
| "func_type (F_bor t) = Some t" | "func_type (F_bxor t) = Some t" | "func_type (F_maxloc t) = Some t"
| "func_type (F_minloc t) = Some t" | "func_type F_noop = None" | "func_type F_error = None"

section \<open>Element-wise loops\<close>

text \<open>Every template of \<^verbatim>\<open>Math\<close> is the same loop around its own assignment. The index is
  an \<^verbatim>\<open>unsigned\<close>, the bound a \<^verbatim>\<open>size_t\<close>; an access outside of the arrays is
  \<open>None\<close>. The overloads for arrays of \<open>N\<close> elements are the loop with the bound \<open>N\<close>.\<close>

partial_function (option) math_loop ::
    "('a \<Rightarrow> 'a \<Rightarrow> 'a) \<Rightarrow> size_t \<Rightarrow> uint_t \<Rightarrow> 'a list \<Rightarrow> 'a list \<Rightarrow> 'a list option" where
  "math_loop f count i dst src =
     (if ucast i < count
      then (if unat i < length dst \<and> unat i < length src
            then math_loop f count (i + 1) (dst[unat i := f (dst ! unat i) (src ! unat i)]) src
            else None)
      else Some dst)"

definition Math_copy :: "'a list \<Rightarrow> 'a list \<Rightarrow> size_t \<Rightarrow> 'a list option" where
  "Math_copy dst src count = math_loop (\<lambda>d s. s) count 0 dst src"
definition Math_max :: "'a::ord list \<Rightarrow> 'a list \<Rightarrow> size_t \<Rightarrow> 'a list option" where
  "Math_max dst src count = math_loop (\<lambda>d s. if d < s then s else d) count 0 dst src"
definition Math_min :: "'a::ord list \<Rightarrow> 'a list \<Rightarrow> size_t \<Rightarrow> 'a list option" where
  "Math_min dst src count = math_loop (\<lambda>d s. if s < d then s else d) count 0 dst src"
definition Math_sum :: "'a::plus list \<Rightarrow> 'a list \<Rightarrow> size_t \<Rightarrow> 'a list option" where
  "Math_sum dst src count = math_loop (\<lambda>d s. d + s) count 0 dst src"
definition Math_prod :: "'a::times list \<Rightarrow> 'a list \<Rightarrow> size_t \<Rightarrow> 'a list option" where
  "Math_prod dst src count = math_loop (\<lambda>d s. d * s) count 0 dst src"
definition Math_land :: "'a::zero_neq_one list \<Rightarrow> 'a list \<Rightarrow> size_t \<Rightarrow> 'a list option" where
  "Math_land dst src count = math_loop (\<lambda>d s. of_bool (d \<noteq> 0 \<and> s \<noteq> 0)) count 0 dst src"
definition Math_lor :: "'a::zero_neq_one list \<Rightarrow> 'a list \<Rightarrow> size_t \<Rightarrow> 'a list option" where
  "Math_lor dst src count = math_loop (\<lambda>d s. of_bool (d \<noteq> 0 \<or> s \<noteq> 0)) count 0 dst src"
definition Math_lxor :: "'a::zero_neq_one list \<Rightarrow> 'a list \<Rightarrow> size_t \<Rightarrow> 'a list option" where
  "Math_lxor dst src count =
     math_loop (\<lambda>d s. of_bool ((d \<noteq> 0 \<and> s = 0) \<or> (d = 0 \<and> s \<noteq> 0))) count 0 dst src"
definition Math_band :: "'a::semiring_bit_operations list \<Rightarrow> 'a list \<Rightarrow> size_t \<Rightarrow> 'a list option" where
  "Math_band dst src count = math_loop (\<lambda>d s. d AND s) count 0 dst src"
definition Math_bor :: "'a::semiring_bit_operations list \<Rightarrow> 'a list \<Rightarrow> size_t \<Rightarrow> 'a list option" where
  "Math_bor dst src count = math_loop (\<lambda>d s. d OR s) count 0 dst src"
definition Math_bxor :: "'a::semiring_bit_operations list \<Rightarrow> 'a list \<Rightarrow> size_t \<Rightarrow> 'a list option" where
  "Math_bxor dst src count = math_loop (\<lambda>d s. d XOR s) count 0 dst src"
definition Math_minloc :: "('v::ord \<times> 'i) list \<Rightarrow> ('v \<times> 'i) list \<Rightarrow> size_t \<Rightarrow> ('v \<times> 'i) list option" where
  "Math_minloc dst src count = math_loop (\<lambda>d s. if fst s < fst d then (fst s, snd s) else d) count 0 dst src"
definition Math_maxloc :: "('v::ord \<times> 'i) list \<Rightarrow> ('v \<times> 'i) list \<Rightarrow> size_t \<Rightarrow> ('v \<times> 'i) list option" where
  "Math_maxloc dst src count = math_loop (\<lambda>d s. if fst d < fst s then (fst s, snd s) else d) count 0 dst src"

section \<open>Lemmas\<close>

text \<open>Fewer than \<open>2 ^ 32\<close> elements: the loop ends and treats each element once.\<close>

lemma math_loop_from:
  assumes "unat count < 2 ^ 32" and "unat count \<le> length dst" and "unat count \<le> length src" and "unat i \<le> unat count"
  shows "math_loop f count i dst src =
     Some (take (unat i) dst @ map2 f (drop (unat i) (take (unat count) dst)) (drop (unat i) (take (unat count) src)) @
           drop (unat count) dst)"
  using assms
proof (induction "unat count - unat i" arbitrary: i dst)
  case 0
  then have "unat i = unat count" by simp
  then show ?case by (simp add: math_loop.simps word_less_nat_alt unat_ucast_uint)
next
  case (Suc k)
  have lt: "unat i < unat count" using Suc.hyps(2) by simp
  have i1: "unat (i + 1) = Suc (unat i)"
    using lt Suc.prems(1) by (simp add: unat_word_ariths)
  let ?dst = "dst[unat i := f (dst ! unat i) (src ! unat i)]"
  have "math_loop f count i dst src = math_loop f count (i + 1) ?dst src"
    using lt Suc.prems by (subst math_loop.simps) (simp add: word_less_nat_alt unat_ucast_uint)
  also have "\<dots> = Some (take (Suc (unat i)) ?dst @ map2 f (drop (Suc (unat i)) (take (unat count) ?dst))
      (drop (Suc (unat i)) (take (unat count) src)) @ drop (unat count) ?dst)"
    using Suc.hyps(1) [of "i + 1" ?dst] Suc.hyps(2) Suc.prems lt i1 by simp
  also have "take (Suc (unat i)) ?dst = take (unat i) dst @ [f (dst ! unat i) (src ! unat i)]"
    using lt Suc.prems by (simp add: take_Suc_conv_app_nth)
  also have "drop (Suc (unat i)) (take (unat count) ?dst) = drop (Suc (unat i)) (take (unat count) dst)"
    by (simp add: take_update_swap)
  also have "drop (unat count) ?dst = drop (unat count) dst" using lt by simp
  finally show ?case
    using lt Suc.prems Cons_nth_drop_Suc [of "unat i" "take (unat count) dst"]
      Cons_nth_drop_Suc [of "unat i" "take (unat count) src"] by (simp flip: Cons_nth_drop_Suc)
qed

lemma math_loop_map:
  assumes "unat count < 2 ^ 32" and "unat count \<le> length dst" and "unat count \<le> length src"
  shows "math_loop f count 0 dst src =
     Some (map2 f (take (unat count) dst) (take (unat count) src) @ drop (unat count) dst)"
  using math_loop_from [OF assms, of 0 f] by simp

text \<open>From \<open>2 ^ 32\<close> elements on it never ends.\<close>

lemma math_loop_ends: "math_loop f count i dst src = Some r \<Longrightarrow> unat count < 2 ^ 32"
proof (rule math_loop.raw_induct [where P = "\<lambda>f count i dst src r. unat count < 2 ^ 32"])
  fix ml :: "('a \<Rightarrow> 'a \<Rightarrow> 'a) \<Rightarrow> size_t \<Rightarrow> uint_t \<Rightarrow> 'a list \<Rightarrow> 'a list \<Rightarrow> 'a list option" and f count i dst src r
  assume IH: "\<And>f count i dst src r. ml f count i dst src = Some r \<Longrightarrow> unat count < 2 ^ 32"
    and body: "(if ucast i < count then (if unat i < length dst \<and> unat i < length src
        then ml f count (i + 1) (dst[unat i := f (dst ! unat i) (src ! unat i)]) src else None) else Some dst) = Some r"
  show "unat count < 2 ^ 32"
  proof (cases "ucast i < count")
    case True
    then show ?thesis using body IH by (auto split: if_splits)
  next
    case False
    then have "unat count \<le> unat i" by (simp add: word_less_nat_alt unat_ucast_uint)
    then show ?thesis using unat32_less [of i] by linarith
  qed
qed

lemma GetCopyFunction_entry:
  "GetCopyFunction p f = Some e \<Longrightarrow> e = F_error \<or> (func_kind e = Some f \<and>
     (\<forall>t. func_type e = Some t \<longrightarrow> primitive_atom p = Some (of_nat (sizeof t))))"
  by (cases p; cases f) (auto simp: GetCopyFunction_def func_table_def rows_signed_def rows_unsigned_def
      rows_float_def rows_logical_def rows_complex_def rows_loc_def sizeof_def round_up_def)


lemma copying_entry:
  assumes "p \<notin> {PRIMITIVE_TYPE_COUNT, PRIMITIVE_TYPE_UNDEFINED}"
  shows "\<exists>e. GetCopyFunction p f = Some e \<and> (f = PRIMITIVE_FUNC_COPY \<or> f = PRIMITIVE_FUNC_NOOP \<longrightarrow> e \<noteq> F_error)"
  using assms by (cases p; cases f) (simp_all add: GetCopyFunction_def func_table_def rows_signed_def
      rows_unsigned_def rows_float_def rows_logical_def rows_complex_def rows_loc_def)

section \<open>Properties\<close>

text \<open>C13: The function table agrees with the predefined types: every entry of a primitive type is
  the refusing function or the function asked for, on a C type whose size is the atom size of the
  predefined type, and copying is never refused.\<close>

theorem copy_function_table:
  assumes "p \<notin> {PRIMITIVE_TYPE_COUNT, PRIMITIVE_TYPE_UNDEFINED}"
  shows "\<exists>e. GetCopyFunction p f = Some e \<and>
     (e \<noteq> F_error \<longrightarrow> func_kind e = Some f \<and>
        (\<forall>t. func_type e = Some t \<longrightarrow> primitive_atom p = Some (of_nat (sizeof t)))) \<and>
     (f = PRIMITIVE_FUNC_COPY \<or> f = PRIMITIVE_FUNC_NOOP \<longrightarrow> e \<noteq> F_error)"
  using copying_entry [OF assms, of f] GetCopyFunction_entry by blast

theorem copy_function_table_witness:
  "\<exists>e. GetCopyFunction PRIMITIVE_TYPE_LOC_SHORT_INT PRIMITIVE_FUNC_COPY = Some e \<and> e \<noteq> F_error"
  using copy_function_table [of PRIMITIVE_TYPE_LOC_SHORT_INT PRIMITIVE_FUNC_COPY] by auto

text \<open>The reference: the first \<open>n\<close> elements combined pairwise.\<close>

definition elementwise :: "('a \<Rightarrow> 'a \<Rightarrow> 'a) \<Rightarrow> 'a list \<Rightarrow> 'a list \<Rightarrow> nat \<Rightarrow> 'a list" where
  "elementwise f dst src n = map2 f (take n dst) (take n src) @ drop n dst"

lemma math_loop_elementwise:
  assumes "unat count < 2 ^ 32" and "unat count \<le> length dst" and "unat count \<le> length src"
  shows "math_loop f count 0 dst src = Some (elementwise f dst src (unat count))"
  using math_loop_map [OF assms] by (simp add: elementwise_def)

lemma ord_if_max: "(\<lambda>(d::'w::len word) s. if d < s then s else d) = max" "(\<lambda>(d::'w word) s. if s < d then s else d) = min"
  by (auto simp: max_def min_def fun_eq_iff)



end
