(* ===== verification/Pami_TypeApi.thy ===== *)
theory Pami_TypeApi
  imports Pami_TypeComplete
begin

text \<open>
  \<^verbatim>\<open>api/c/pami_type.cc\<close>: the calls that create, extend, complete, serialize and
  query types, and the correctness of whole programs of them.
\<close>

section \<open>Creating and extending types\<close>

text \<open>\<open>None\<close> is a failed assertion; \<^verbatim>\<open>PAMI_ENOMEM\<close> is not modelled.\<close>

definition PAMI_Type_create :: "opcode \<Rightarrow> typecode" where
  "PAMI_Type_create fresh = TypeCode_new fresh"

definition PAMI_Type_add_simple ::
    "size_t \<Rightarrow> size_t \<Rightarrow> size_t \<Rightarrow> size_t \<Rightarrow> typecode \<Rightarrow> (pami_result \<times> typecode) option" where
  "PAMI_Type_add_simple bytes offset count stride tc =
     (if IsCompleted tc then Some (PAMI_INVAL, tc)
      else do { tc1 \<leftarrow> AddShift offset tc;
                tc2 \<leftarrow> AddSimple bytes stride count tc1;
                Some (PAMI_SUCCESS, tc2) })"

definition PAMI_Type_add_typed ::
    "(addr \<Rightarrow> typecode) \<Rightarrow> addr \<Rightarrow> size_t \<Rightarrow> size_t \<Rightarrow> size_t \<Rightarrow> typecode \<Rightarrow> (pami_result \<times> typecode) option" where
  "PAMI_Type_add_typed st subtype offset count stride tc =
     (if IsCompleted tc then Some (PAMI_INVAL, tc)
      else if \<not> IsCompleted (st subtype) then Some (PAMI_INVAL, tc)
      else do { tc1 \<leftarrow> AddShift offset tc;
                tc2 \<leftarrow> AddTyped st subtype stride count tc1;
                Some (PAMI_SUCCESS, tc2) })"

text \<open>The unit is read before \<open>Complete\<close> computes it.\<close>

definition PAMI_Type_complete ::
    "(addr \<Rightarrow> typecode) \<Rightarrow> size_t \<Rightarrow> typecode \<Rightarrow> (pami_result \<times> typecode) option" where
  "PAMI_Type_complete st atom_size tc =
     (if IsCompleted tc then Some (PAMI_INVAL, tc)
      else if atom_size < 1 \<or> 128 < atom_size then Some (PAMI_INVAL, tc)
      else if GetUnit tc mod atom_size \<noteq> 0 then Some (PAMI_INVAL, tc)
      else do { tc1 \<leftarrow> Complete st tc;
                tc2 \<leftarrow> SetAtomSize atom_size tc1;
                Some (PAMI_SUCCESS, tc2) })"

definition PAMI_Type_serialize :: "typecode \<Rightarrow> (pami_result \<times> cell list \<times> size_t)" where
  "PAMI_Type_serialize tc =
     (if \<not> IsCompleted tc then (PAMI_INVAL, [], 0)
      else (PAMI_SUCCESS, full_code tc, GetCodeSize tc))"

text \<open>The constructor that copies a code buffer: \<open>size\<close> bytes from the code's start must be
  the whole of it and must be what its header says.\<close>

definition PAMI_Type_deserialize :: "cell list \<Rightarrow> size_t \<Rightarrow> (pami_result \<times> typecode) option" where
  "PAMI_Type_deserialize code sz =
     (case code of
        (_, BEGIN h) # ops \<Rightarrow>
          if code_bytes code = unat sz \<and> sz = bg_code_size h
          then Some (PAMI_SUCCESS,
            \<lparr>tc_begin = h, tc_ops = ops, tc_next_prev = OP_JUNK, tc_buf_size = unat sz,
             tc_completed = True, tc_fresh = OP_JUNK\<rparr>)
          else None
      | _ \<Rightarrow> None)"

datatype type_attr = TYPE_DATA_SIZE | TYPE_DATA_EXTENT | TYPE_ATOM_SIZE | TYPE_OTHER

text \<open>The queries up to the first invalid attribute.\<close>

fun query_attrs :: "typecode \<Rightarrow> type_attr list \<Rightarrow> pami_result \<times> size_t list" where
  "query_attrs tc [] = (PAMI_SUCCESS, [])"
| "query_attrs tc (a # as) =
     (case a of
        TYPE_OTHER \<Rightarrow> (PAMI_INVAL, [])
      | _ \<Rightarrow>
        (let v = (case a of TYPE_DATA_SIZE \<Rightarrow> GetDataSize tc | TYPE_DATA_EXTENT \<Rightarrow> GetExtent tc
                  | _ \<Rightarrow> GetAtomSize tc);
             (r, vs) = query_attrs tc as in (r, v # vs)))"

definition PAMI_Type_query :: "typecode \<Rightarrow> type_attr list \<Rightarrow> pami_result \<times> size_t list" where
  "PAMI_Type_query tc as = (if \<not> IsCompleted tc then (PAMI_INVAL, []) else query_attrs tc as)"

section \<open>Programs of calls\<close>

datatype type_call =
    Add_simple size_t size_t size_t size_t
  | Add_typed addr size_t size_t size_t

fun do_type_call :: "(addr \<Rightarrow> typecode) \<Rightarrow> type_call \<Rightarrow> typecode \<Rightarrow> (pami_result \<times> typecode) option" where
  "do_type_call st (Add_simple b off n s) tc = PAMI_Type_add_simple b off n s tc"
| "do_type_call st (Add_typed a off n s) tc = PAMI_Type_add_typed st a off n s tc"

fun do_type_calls :: "(addr \<Rightarrow> typecode) \<Rightarrow> type_call list \<Rightarrow> typecode \<Rightarrow> (pami_result list \<times> typecode) option" where
  "do_type_calls st [] tc = Some ([], tc)"
| "do_type_calls st (c # cs) tc =
     do { (r, tc1) \<leftarrow> do_type_call st c tc;
          (rs, tc2) \<leftarrow> do_type_calls st cs tc1;
          Some (r # rs, tc2) }"

text \<open>The reference: the instructions as the calls give them, none merged.\<close>

fun call_ops :: "type_call \<Rightarrow> op list" where
  "call_ops (Add_simple b off n s) = [SHIFT off, COPY b s n]"
| "call_ops (Add_typed a off n s) = [SHIFT off, CALL a s n]"

definition built :: "(addr \<Rightarrow> block list) \<Rightarrow> (addr \<Rightarrow> nat) \<Rightarrow> op list \<Rightarrow> typecode \<Rightarrow> bool" where
  "built env w cs tc \<longleftrightarrow> tc_wf tc \<and> same_type env (tc_ins tc) cs \<and> lighter w (tc_ins tc) cs"

lemma built_new: "fresh_ok f \<Longrightarrow> built env w [] (PAMI_Type_create f)"
  by (simp add: built_def PAMI_Type_create_def tc_wf_new lighter_def)

lemma built_builds:
  assumes "built env w cs tc" and "builds env w tc c tc'"
  shows "built env w (cs @ [c]) tc'"
proof -
  have "same_type env (tc_ins tc @ [c]) (cs @ [c])"
    using assms(1) by (simp add: built_def same_type_def layout_append)
  then have "same_type env (tc_ins tc') (cs @ [c])"
    using assms(2) same_type_trans unfolding builds_def by blast
  then show ?thesis using assms by (auto simp: built_def builds_def lighter_def)
qed

lemma built_SetPrimitive [simp]: "built env w cs (SetPrimitive p tc) = built env w cs tc"
  by (simp add: built_def)

lemma built_bound:
  assumes "built env w cs tc" and "length (layout env (cs @ ds)) < n"
  shows "length (layout env (tc_ins tc @ ds)) < n"
  using assms by (simp add: built_def same_type_def layout_append)

lemma AddShift_built:
  assumes "built env w cs tc" and "length (layout env cs) < 2 ^ 64"
  shows "\<exists>tc'. AddShift k tc = Some tc' \<and> built env w (cs @ [SHIFT k]) tc'"
  using AddShift_AddSimpleInternal_builds(1) [of tc env k w] built_bound [OF assms(1), of "[]"] assms
    built_builds [OF assms(1)] by (auto simp: built_def)

lemma AddSimple_built:
  assumes "built env w cs tc" and "length (layout env (cs @ [COPY b s r])) < 2 ^ 64"
  shows "\<exists>tc'. AddSimple b s r tc = Some tc' \<and> built env w (cs @ [COPY b s r]) tc'"
proof -
  define tc1 where "tc1 = (if b \<noteq> 0 then SetPrimitive PRIMITIVE_TYPE_COUNT tc else tc)"
  have "built env w cs tc1" using assms(1) by (simp add: tc1_def)
  moreover have "\<not> tc_completed tc" using assms(1) by (simp add: built_def tc_wf_def)
  ultimately show ?thesis
    using AddShift_AddSimpleInternal_builds(2) [of tc1 env b s r w] built_bound [of env w cs tc1, OF _ assms(2)]
      built_builds [of env w cs tc1] by (auto simp: AddSimple_def tc1_def [symmetric] built_def)
qed

lemma AddTyped_built:
  assumes "built (tblocks \<circ> tr) w cs tc" and "type_ok (st a) (tr a)"
    and "length (layout (tblocks \<circ> tr) (cs @ [CALL a s r])) < 2 ^ 64"
  shows "\<exists>tc'. AddTyped st a s r tc = Some tc' \<and> built (tblocks \<circ> tr) w (cs @ [CALL a s r]) tc'"
proof -
  define tc1 where "tc1 = (if GetPrimitive tc = PRIMITIVE_TYPE_UNDEFINED
     then SetPrimitive (GetPrimitive (st a)) tc else tc)"
  have "built (tblocks \<circ> tr) w cs tc1" using assms(1) by (simp add: tc1_def)
  moreover have "\<not> tc_completed tc" "tc_completed (st a)"
    using assms(1,2) by (simp_all add: built_def tc_wf_def type_ok_def)
  ultimately show ?thesis
    using AddTypedInternal_builds [where tr = tr and st = st and sub = a and w = w, OF assms(2), of tc1 s r] built_bound [of _ w cs tc1, OF _ assms(3)]
      built_builds [of "tblocks \<circ> tr" w cs tc1]
    by (fastforce simp: AddTyped_def tc1_def [symmetric] Let_def built_def)
qed

lemma layout_length_prefix: "length (layout env cs) \<le> length (layout env (cs @ ds))"
  by (simp add: layout_append)

lemma type_call_built:
  assumes "built (tblocks \<circ> tr) w cs tc" and "\<And>a. a \<in> subs (call_ops c) \<Longrightarrow> type_ok (st a) (tr a)"
    and len: "length (layout (tblocks \<circ> tr) (cs @ call_ops c)) < 2 ^ 64"
  shows "\<exists>tc'. do_type_call st c tc = Some (PAMI_SUCCESS, tc') \<and> built (tblocks \<circ> tr) w (cs @ call_ops c) tc'"
proof -
  let ?env = "tblocks \<circ> tr"
  have nc: "\<not> tc_completed tc" using assms(1) by (simp add: built_def tc_wf_def)
  have "length (layout ?env cs) < 2 ^ 64" using len layout_length_prefix le_less_trans by blast
  note shift = AddShift_built [OF assms(1) this]
  show ?thesis
  proof (cases c)
    case (Add_simple b off n s)
    obtain tc1 where tc1: "AddShift off tc = Some tc1" "built ?env w (cs @ [SHIFT off]) tc1" using shift by blast
    moreover obtain tc2 where "AddSimple b s n tc1 = Some tc2" "built ?env w (cs @ [SHIFT off, COPY b s n]) tc2"
      using AddSimple_built [OF tc1(2), of b s n] len Add_simple by auto
    ultimately show ?thesis using Add_simple nc by (simp add: PAMI_Type_add_simple_def IsCompleted_def)
  next
    case (Add_typed a off n s)
    obtain tc1 where tc1: "AddShift off tc = Some tc1" "built ?env w (cs @ [SHIFT off]) tc1" using shift by blast
    have ok: "type_ok (st a) (tr a)" using assms(2) Add_typed by simp
    moreover obtain tc2 where "AddTyped st a s n tc1 = Some tc2" "built ?env w (cs @ [SHIFT off, CALL a s n]) tc2"
      using AddTyped_built [where st = st and a = a, OF tc1(2) ok, of s n] len Add_typed by auto
    ultimately show ?thesis
      using Add_typed nc tc1(1) by (simp add: PAMI_Type_add_typed_def IsCompleted_def type_ok_def)
  qed
qed

lemma type_calls_built:
  assumes "built (tblocks \<circ> tr) w cs tc"
    and "\<And>a. a \<in> subs (concat (map call_ops calls)) \<Longrightarrow> type_ok (st a) (tr a)"
    and "length (layout (tblocks \<circ> tr) (cs @ concat (map call_ops calls))) < 2 ^ 64"
  shows "\<exists>tc'. do_type_calls st calls tc = Some (replicate (length calls) PAMI_SUCCESS, tc') \<and>
     built (tblocks \<circ> tr) w (cs @ concat (map call_ops calls)) tc'"
  using assms
proof (induction calls arbitrary: cs tc)
  case (Cons c calls)
  let ?rest = "concat (map call_ops calls)"
  have "length (layout (tblocks \<circ> tr) (cs @ call_ops c)) < 2 ^ 64"
    using Cons.prems(3) layout_length_prefix [of "tblocks \<circ> tr" "cs @ call_ops c" ?rest]
    by (simp only: list.map concat.simps append_assoc)
  then obtain tc1 where tc1: "do_type_call st c tc = Some (PAMI_SUCCESS, tc1)"
      "built (tblocks \<circ> tr) w (cs @ call_ops c) tc1"
    using type_call_built [OF Cons.prems(1), of c st] Cons.prems(2) by auto
  then show ?case using Cons.IH [OF tc1(2)] Cons.prems(2,3) by auto
qed simp

lemma Math_unit_new: "tc_wf tc \<Longrightarrow> GetUnit tc = 0"
  by (simp add: tc_wf_def hdr_new_def GetUnit_def)

lemma fetch_head:
  "fetch ((p', BEGIN h') # cs) pc =
     (if pc = 0 then Some (BEGIN h') else fetch ((p, BEGIN h) # cs) pc)"
  by simp

lemma seq_at_head:
  "seq_at ((p, BEGIN h) # cs) pc t \<Longrightarrow> bg_data_size h' = bg_data_size h \<Longrightarrow>
     seq_at ((p', BEGIN h') # cs) pc t"
proof (induction "(p, BEGIN h) # cs" pc t rule: seq_at.induct)
  case (4 pc sub s r "is")
  then obtain off g where *: "fetch ((p, BEGIN h) # cs) pc = Some (CALL off s r)"
      "fetch ((p, BEGIN h) # cs) (pc + off) = Some (BEGIN g)"
      "bg_data_size g = of_nat (length (tbytes sub))" "seq_at ((p, BEGIN h) # cs) (pc + off + sz_Begin) sub" by auto
  have "fetch ((p', BEGIN h') # cs) (pc + off) = Some (BEGIN (if pc + off = 0 then h' else g))"
    using *(2) by (simp del: fetch.simps add: fetch_head [of p' h' cs _ p h])
  moreover have "bg_data_size (if pc + off = 0 then h' else g) = of_nat (length (tbytes sub))"
    using * "4.prems"(2) by auto
  moreover have "fetch ((p', BEGIN h') # cs) pc = Some (CALL off s r)"
    using *(1) by (auto split: if_splits)
  ultimately show ?case using 4 * by (simp del: fetch.simps)
qed (auto split: if_splits)

lemma type_ok_header:
  assumes "type_ok tc t" and "tc_ops tc' = tc_ops tc" and "tc_completed tc'"
    and "tc_begin tc' = (tc_begin tc)\<lparr>bg_atom_size := a\<rparr>"
  shows "type_ok tc' t"
proof -
  have "seq_at (full_code tc') sz_Begin t"
    unfolding full_code_def assms(2)
    by (rule seq_at_head [of OP_JUNK "tc_begin tc"]) (use assms in \<open>simp_all add: type_ok_def full_code_def\<close>)
  moreover have "code_bytes (full_code tc') = code_bytes (full_code tc)"
    using assms by (simp add: full_code_def)
  ultimately show ?thesis
    using assms by (simp add: type_ok_def GetDataSize_def GetExtent_def GetNumBlocks_def GetUnit_def
        GetDepth_def GetCodeSize_def IsSimple_def IsContiguous_def)
qed

lemma SetAtomSize_ok:
  assumes "type_ok tc t" and "a \<noteq> 0" and "unat a dvd unit_of (tblocks t)"
  shows "\<exists>tc'. SetAtomSize a tc = Some tc' \<and> type_ok tc' t \<and> GetAtomSize tc' = a"
proof -
  have "GetUnit tc mod a = 0"
    using assms by (simp add: type_ok_def word_unat_eq_iff unat_mod)
  then show ?thesis
    using assms type_ok_header [OF assms(1)] by (simp add: SetAtomSize_def GetAtomSize_def type_ok_def)
qed

lemma SetAtomSize_aborts:
  assumes "type_ok tc t" and "\<not> unat a dvd unit_of (tblocks t)"
  shows "SetAtomSize a tc = None"
  using assms by (auto simp: SetAtomSize_def type_ok_def word_unat_eq_iff unat_mod dvd_eq_mod_eq_0)


definition calls_ops :: "type_call list \<Rightarrow> op list" where
  "calls_ops calls = concat (map call_ops calls)"

text \<open>The size limits under which sizes and code offsets do not wrap around.\<close>

definition type_fits :: "(addr \<Rightarrow> typecode) \<Rightarrow> (addr \<Rightarrow> itree list) \<Rightarrow> type_call list \<Rightarrow> bool" where
  "type_fits st tr calls \<longleftrightarrow>
     length (layout (tblocks \<circ> tr) (calls_ops calls)) < 2 ^ 64 \<and>
     sz_Begin + weight (sub_bytes st) (calls_ops calls) + 8 < 2 ^ 64"

lemma build_and_complete:
  assumes "fresh_ok f" and subs: "subs_ok st tr (subs (calls_ops calls))" and fits: "type_fits st tr calls"
  obtains tc tc' where "do_type_calls st calls (PAMI_Type_create f) = Some (replicate (length calls) PAMI_SUCCESS, tc)"
    and "tc_wf tc" and "Complete st tc = Some tc'" and "type_ok tc' (map (to_tree tr) (tc_ins tc))"
    and "tbytes (map (to_tree tr) (tc_ins tc)) = layout (tblocks \<circ> tr) (calls_ops calls)"
    and "textent (map (to_tree tr) (tc_ins tc)) = ext (calls_ops calls)"
proof -
  let ?env = "tblocks \<circ> tr" and ?w = "sub_bytes st"
  obtain tc where tc: "do_type_calls st calls (PAMI_Type_create f) = Some (replicate (length calls) PAMI_SUCCESS, tc)"
      "built ?env ?w (calls_ops calls) tc"
    using type_calls_built [where tr = tr and st = st and calls = calls and w = ?w, OF built_new [OF assms(1)]] subs fits
    unfolding subs_ok_def type_fits_def calls_ops_def by auto
  have wf: "tc_wf tc" and st: "same_type ?env (tc_ins tc) (calls_ops calls)"
    and lw: "lighter ?w (tc_ins tc) (calls_ops calls)" using tc(2) by (simp_all add: built_def)
  have ops: "list_all op_ok (tc_ins tc)" using wf by (simp add: tc_wf_def)
  have "subs_ok st tr (subs (tc_ins tc))" using subs lw by (auto simp: subs_ok_def lighter_def)
  moreover have "length (layout ?env (tc_ins tc)) < 2 ^ 64"
    using fits same_type_length [OF st] by (simp only: type_fits_def)
  moreover have "sz_Begin + weight ?w (tc_ins tc) + 8 < 2 ^ 64"
    using fits lw unfolding type_fits_def lighter_def by linarith
  ultimately obtain tc' where "Complete st tc = Some tc'" "type_ok tc' (map (to_tree tr) (tc_ins tc))"
    using Complete_ok [OF wf] by blast
  moreover have "tbytes (map (to_tree tr) (tc_ins tc)) = layout ?env (calls_ops calls)"
    using st blocks_to_tree [OF ops, of tr] by (simp add: tbytes_def same_type_def layout_def)
  moreover have "textent (map (to_tree tr) (tc_ins tc)) = ext (calls_ops calls)"
    using st ext_to_tree [OF ops, of tr] by (simp add: same_type_def)
  ultimately show ?thesis using that tc(1) wf by blast
qed


section \<open>Properties\<close>


definition vector_type :: typecode where
  "vector_type = the (do { (_, tc) \<leftarrow> do_type_calls (\<lambda>_. TypeCode_new OP_JUNK) [Add_simple 4 0 3 8] (PAMI_Type_create OP_JUNK);
                           Complete (\<lambda>_. TypeCode_new OP_JUNK) tc })"

lemma vector_type_code:
  "tc_completed vector_type" "tc_ops vector_type = [(OP_BEGIN, COPY 4 8 3), (OP_COPY, END)]"
  "tc_begin vector_type = \<lparr>bg_contiguous = False, bg_simple = True, bg_primitive = PRIMITIVE_TYPE_COUNT,
     bg_depth = 1, bg_code_size = 104, bg_data_size = 12, bg_extent = 24, bg_num_blocks = 3,
     bg_unit = 4, bg_atom_size = 0\<rparr>"
  by code_simp+

lemma vector_type_ok: "type_ok vector_type [ICopy 4 8 3]"
  by (simp add: type_ok_def full_code_def vector_type_code sz_Begin_def GetCodeSize_def GetDataSize_def
      GetExtent_def GetNumBlocks_def GetUnit_def GetDepth_def IsSimple_def IsContiguous_def tbytes_def
      textent_def unit_of_rep)

definition sample_calls :: "type_call list" where
  "sample_calls = [Add_typed 5 0 2 100, Add_simple 8 16 1 8]"

lemma sample_ops: "calls_ops sample_calls = [SHIFT 0, CALL 5 100 2, SHIFT 16, COPY 8 8 1]"
  by (simp add: calls_ops_def sample_calls_def)

lemma sample_length: "length sample_calls = 2"
  by (simp add: sample_calls_def)

lemma sample_ok:
  "subs_ok (\<lambda>_. vector_type) (\<lambda>_. [ICopy 4 8 3]) (subs (calls_ops sample_calls))"
  "type_fits (\<lambda>_. vector_type) (\<lambda>_. [ICopy 4 8 3]) sample_calls"
  "fresh_ok OP_JUNK"
  by (simp_all add: sample_ops vector_type_ok type_fits_def layout_def comp_def sub_bytes_def full_code_def
      vector_type_code sz_Begin_def fresh_ok_def)




text \<open>C11: A completed type survives serialization: deserializing its code gives a type of the same
  meaning that answers every query alike.\<close>

theorem type_serialize_roundtrip:
  assumes "type_ok tc t"
  shows "\<exists>tc'. (case PAMI_Type_serialize tc of (r, code, n) \<Rightarrow>
       r = PAMI_SUCCESS \<and> PAMI_Type_deserialize code n = Some (PAMI_SUCCESS, tc')) \<and>
     type_ok tc' t \<and> GetPrimitive tc' = GetPrimitive tc \<and> (\<forall>as. PAMI_Type_query tc' as = PAMI_Type_query tc as)"
proof -
  define tc' where "tc' = \<lparr>tc_begin = tc_begin tc, tc_ops = tc_ops tc, tc_next_prev = OP_JUNK,
     tc_buf_size = unat (GetCodeSize tc), tc_completed = True, tc_fresh = OP_JUNK\<rparr>"
  have ok: "type_ok tc' t"
    by (rule type_ok_header [OF assms, where a = "GetAtomSize tc"]) (simp_all add: tc'_def GetAtomSize_def)
  have "query_attrs tc' as = query_attrs tc as" for as
    by (induction as) (auto simp: tc'_def GetDataSize_def GetExtent_def GetAtomSize_def split: type_attr.splits prod.splits)
  moreover have "PAMI_Type_deserialize (full_code tc) (GetCodeSize tc) = Some (PAMI_SUCCESS, tc')"
    using assms by (simp add: PAMI_Type_deserialize_def full_code_def type_ok_def tc'_def) (simp add: GetCodeSize_def)
  ultimately show ?thesis
    using ok assms by (intro exI [of _ tc']) (simp add: PAMI_Type_serialize_def PAMI_Type_query_def
        IsCompleted_def type_ok_def, simp add: tc'_def GetPrimitive_def)
qed

theorem type_serialize_roundtrip_witness:
  "\<exists>tc'. PAMI_Type_deserialize (full_code vector_type) 104 = Some (PAMI_SUCCESS, tc') \<and>
     type_ok tc' [ICopy 4 8 3] \<and> PAMI_Type_query tc' [TYPE_DATA_SIZE, TYPE_DATA_EXTENT] = (PAMI_SUCCESS, [12, 24])"
proof -
  have *: "PAMI_Type_serialize vector_type = (PAMI_SUCCESS, full_code vector_type, 104)"
    "PAMI_Type_query vector_type [TYPE_DATA_SIZE, TYPE_DATA_EXTENT] = (PAMI_SUCCESS, [12, 24])"
    by (simp_all add: PAMI_Type_serialize_def PAMI_Type_query_def IsCompleted_def vector_type_code
        GetCodeSize_def GetDataSize_def GetExtent_def)
  show ?thesis using type_serialize_roundtrip [OF vector_type_ok] unfolding *(1) prod.case by (metis *(2))
qed

text \<open>An atom size that does not divide the unit: the process aborts.\<close>

lemma complete_bad_atom_aborts:
  "PAMI_Type_complete (\<lambda>_. vector_type) 3
     (the (map_option snd (PAMI_Type_add_simple 4 0 3 8 (PAMI_Type_create OP_JUNK)))) = None"
  by code_simp

text \<open>The previous opcode at the cursor is not copied when the buffer grows: whether this
  program of calls succeeds depends on what the new memory held.\<close>

definition growing_calls :: "type_call list" where
  "growing_calls = [Add_simple 1 0 2 10, Add_simple 2 5 2 10, Add_simple 3 5 2 10, Add_simple 3 0 2 10]"

lemma lost_prev_opcode:
  "do_type_calls (\<lambda>_. vector_type) growing_calls (PAMI_Type_create OP_JUNK) \<noteq> None"
  "do_type_calls (\<lambda>_. vector_type) growing_calls (PAMI_Type_create OP_COPY) = None"
  by code_simp+

end
