(* ===== verification/Pami_TypeTransform.thy ===== *)
theory Pami_TypeTransform
  imports Pami_TypeMemory Pami_TypeFunc Pami_TypeApi
begin

text \<open>
  The copy function of a type machine (\<^verbatim>\<open>TypeMachine::SetCopyFunc\<close> of
  \<^verbatim>\<open>common/type/TypeMachine.h\<close>) and \<^verbatim>\<open>PAMI_Type_transform_data\<close> of
  \<^verbatim>\<open>api/c/pami_type.cc\<close>, which moves data between two layouts.
\<close>

section \<open>The copy function of a machine\<close>

text \<open>A data function is one of the predefined numbers or a function of the user.\<close>

datatype data_function = Data_prim primitive_func | Data_user copy_fun

text \<open>What a machine can come to call besides the copying functions, whose effect is a parameter
  \<open>other\<close> of the model: the othermetic functions and the aborting function of the table, a
  predefined number called as if it were a function, and what lies outside the table.\<close>

datatype callee = Table_func func | Number primitive_func | Outside_table

definition func_sem :: "(callee \<Rightarrow> copy_fun) \<Rightarrow> func \<Rightarrow> copy_fun" where
  "func_sem other f = (case f of F_copy _ \<Rightarrow> memcpy | F_noop \<Rightarrow> (\<lambda>to from n m. m) | _ \<Rightarrow> other (Table_func f))"

definition SetCopyFunc :: "(callee \<Rightarrow> copy_fun) \<Rightarrow> data_function \<Rightarrow> machine \<Rightarrow> machine" where
  "SetCopyFunc other fn tm =
     tm\<lparr>tm_copy_func :=
       (case fn of
          Data_user f \<Rightarrow> Some f
        | Data_prim p \<Rightarrow>
            if GetPrimitive (GetType tm) = PRIMITIVE_TYPE_COUNT
            then (if p = PRIMITIVE_FUNC_COPY then None else Some (other (Number p)))
            else Some (case GetCopyFunction (GetPrimitive (GetType tm)) p of
                         None \<Rightarrow> other Outside_table
                       | Some e \<Rightarrow> func_sem other e))\<rparr>"

section \<open>Transforming data\<close>

definition TMP_BUF_SIZE :: size_t where "TMP_BUF_SIZE = 8192"

partial_function (option) transform_loop ::
    "size_t \<Rightarrow> size_t \<Rightarrow> size_t \<Rightarrow> size_t \<Rightarrow> size_t \<Rightarrow> machine \<Rightarrow> machine \<Rightarrow> mem \<Rightarrow> mem option" where
  "transform_loop tmp_buf src_addr dst_addr sz offset packer unpacker m =
     (if offset < sz
      then do { (packer1, m1) \<leftarrow> Pack tmp_buf src_addr (min (sz - offset) TMP_BUF_SIZE) packer m;
                (unpacker1, m2) \<leftarrow> Unpack dst_addr tmp_buf (min (sz - offset) TMP_BUF_SIZE) unpacker m1;
                transform_loop tmp_buf src_addr dst_addr sz (offset + TMP_BUF_SIZE) packer1 unpacker1 m2 }
      else Some m)"

text \<open>\<open>cm\<close> is \<^verbatim>\<open>PAMI_TYPE_CONTIG_MAX\<close> and \<open>tmp_buf\<close> the address of the temporary
  buffer on the stack.\<close>

definition PAMI_Type_transform_data ::
    "(callee \<Rightarrow> copy_fun) \<Rightarrow> typecode \<Rightarrow> size_t \<Rightarrow> size_t \<Rightarrow> typecode \<Rightarrow> size_t \<Rightarrow> size_t \<Rightarrow> typecode \<Rightarrow> size_t \<Rightarrow>
     size_t \<Rightarrow> data_function \<Rightarrow> mem \<Rightarrow> (pami_result \<times> mem) option" where
  "PAMI_Type_transform_data other cm tmp_buf src_addr src_type src_offset dst_addr dst_type dst_offset sz data_fn m =
     (if \<not> IsCompleted src_type \<or> \<not> IsCompleted dst_type then Some (PAMI_INVAL, m)
      else if IsContiguous src_type \<and> IsContiguous dst_type
      then Some (PAMI_SUCCESS, memcpy (dst_addr + dst_offset) (src_addr + src_offset) sz m)
      else if IsContiguous src_type
      then do { unpacker \<leftarrow> TypeMachine_new cm SMALL_STACK_DEPTH dst_type;
                unpacker \<leftarrow> MoveCursor dst_offset (SetCopyFunc other data_fn unpacker);
                (_, m1) \<leftarrow> Unpack dst_addr (src_addr + src_offset) sz unpacker m;
                Some (PAMI_SUCCESS, m1) }
      else if IsContiguous dst_type
      then do { packer \<leftarrow> TypeMachine_new cm SMALL_STACK_DEPTH src_type;
                packer \<leftarrow> MoveCursor src_offset (SetCopyFunc other data_fn packer);
                (_, m1) \<leftarrow> Pack (dst_addr + dst_offset) src_addr sz packer m;
                Some (PAMI_SUCCESS, m1) }
      else do { packer \<leftarrow> TypeMachine_new cm SMALL_STACK_DEPTH src_type;
                packer \<leftarrow> MoveCursor src_offset packer;
                unpacker \<leftarrow> TypeMachine_new cm SMALL_STACK_DEPTH dst_type;
                unpacker \<leftarrow> MoveCursor dst_offset (SetCopyFunc other data_fn unpacker);
                m1 \<leftarrow> transform_loop tmp_buf src_addr dst_addr sz 0 packer unpacker m;
                Some (PAMI_SUCCESS, m1) })"

section \<open>Lemmas\<close>

text \<open>Copying data functions keep copying.\<close>

lemma SetCopyFunc_copy:
  assumes "GetPrimitive (GetType tm) \<noteq> PRIMITIVE_TYPE_UNDEFINED"
  shows "\<exists>cf. SetCopyFunc other (Data_prim PRIMITIVE_FUNC_COPY) tm = tm\<lparr>tm_copy_func := cf\<rparr> \<and> plain_copy cf"
proof (cases "GetPrimitive (GetType tm) = PRIMITIVE_TYPE_COUNT")
  case True
  then show ?thesis by (auto simp: SetCopyFunc_def plain_copy_def)
next
  case False
  then obtain e where e: "GetCopyFunction (GetPrimitive (GetType tm)) PRIMITIVE_FUNC_COPY = Some e" "e \<noteq> F_error"
    using copying_entry [of "GetPrimitive (GetType tm)"] assms by auto
  then obtain t where "e = F_copy t" using GetCopyFunction_entry [OF e(1)] by (cases e) auto
  then show ?thesis using e False by (auto simp: SetCopyFunc_def plain_copy_def func_sem_def)
qed

lemma machine_ok_copy_func [simp]: "machine_ok (tm\<lparr>tm_copy_func := cf\<rparr>) t n = machine_ok tm t n"
  by (simp add: machine_ok_def)

text \<open>A new machine with its copy function, moved to an offset.\<close>

definition reaches :: "itree list \<Rightarrow> size_t \<Rightarrow> bool" where
  "reaches t off \<longleftrightarrow> unat off div length (tbytes t) * length (tbytes t) + length (tbytes t) < 2 ^ 64"

lemma moved_machine:
  assumes ty: "type_ok ty t" "0 < length (tbytes t)" "\<not> IsContiguous ty" "reaches t off" and cm: "contig_max_ok cm"
    and prim: "GetPrimitive ty \<noteq> PRIMITIVE_TYPE_UNDEFINED"
  obtains tm tm1 tm2 tm3 where "TypeMachine_new cm SMALL_STACK_DEPTH ty = Some tm"
    and "MoveCursor off tm = Some tm1" and "machine_ok tm1 t (unat off)" and "plain_copy (tm_copy_func tm1)"
    and "SetCopyFunc other (Data_prim PRIMITIVE_FUNC_COPY) tm = tm2"
    and "MoveCursor off tm2 = Some tm3" and "machine_ok tm3 t (unat off)" and "plain_copy (tm_copy_func tm3)"
proof -
  define tm where "tm = \<lparr>tm_type = ty, tm_orig_type = None, tm_copy_func = None, tm_stack = [start_cursor],
      tm_cap = (if unat (GetDepth ty) \<le> SMALL_STACK_DEPTH then SMALL_STACK_DEPTH else unat (GetDepth ty))\<rparr>"
  have new: "TypeMachine_new cm SMALL_STACK_DEPTH ty = Some tm" "GetType tm = ty"
    using ty(1,3) by (simp_all add: TypeMachine_new_def IsCompleted_def type_ok_def tm_def GetType_def)
  have ok: "machine_ok tm t 0" unfolding tm_def by (rule start_machine [OF ty(1,2)]) simp
  obtain cf where cf: "SetCopyFunc other (Data_prim PRIMITIVE_FUNC_COPY) tm = tm\<lparr>tm_copy_func := cf\<rparr>" "plain_copy cf"
    using SetCopyFunc_copy [of tm other] new(2) prim by auto
  have "plain_copy (tm_copy_func tm)" by (simp add: tm_def plain_copy_def)
  then show ?thesis
    using that [OF new(1)] cf MoveCursor_ok [OF ok, of off] MoveCursor_ok [of "tm\<lparr>tm_copy_func := cf\<rparr>" t 0 off] ok ty(4)
    unfolding reaches_def by fastforce
qed

lemma set_blk_mono: "n \<le> k \<Longrightarrow> set (blk d n) \<subseteq> set (blk d k)"
  by (auto simp: blk_def)

lemma copies_via_mono: "copies_via X W R m m' \<Longrightarrow> X \<subseteq> Y \<Longrightarrow> copies_via Y W R m m'"
  by (auto simp: copies_via_def)

text \<open>The areas that the generic transformation needs apart.\<close>

definition apart :: "size_t \<Rightarrow> size_t list \<Rightarrow> size_t list \<Rightarrow> bool" where
  "apart tmp S T \<longleftrightarrow> distinct T \<and> set S \<inter> set T = {} \<and> set (blk tmp 8192) \<inter> (set S \<union> set T) = {}"

lemma transform_turn:
  assumes p: "machine_ok packer ts ns" "plain_copy (tm_copy_func packer)"
    and u: "machine_ok unpacker td nd" "plain_copy (tm_copy_func unpacker)"
    and ap: "apart tmp (addrs src ts ns (unat n)) (addrs dst td nd (unat n))" and n: "unat n \<le> 8192"
  obtains packer1 m1 unpacker1 m2 where "Pack tmp src n packer m = Some (packer1, m1)"
    and "Unpack dst tmp n unpacker m1 = Some (unpacker1, m2)"
    and "machine_ok packer1 ts (ns + unat n)" and "plain_copy (tm_copy_func packer1)"
    and "machine_ok unpacker1 td (nd + unat n)" and "plain_copy (tm_copy_func unpacker1)"
    and "copies_via (set (blk tmp 8192)) (addrs dst td nd (unat n)) (addrs src ts ns (unat n)) m m2"
proof -
  note sub = set_blk_mono [OF n, of tmp]
  have dis: "set (blk tmp (unat n)) \<inter> set (addrs src ts ns (unat n)) = {}"
      "set (blk tmp (unat n)) \<inter> set (addrs dst td nd (unat n)) = {}"
    and dist: "distinct (addrs dst td nd (unat n))"
    using ap sub unfolding apart_def by blast+
  obtain packer1 m1 where P: "Pack tmp src n packer m = Some (packer1, m1)" "machine_ok packer1 ts (ns + unat n)"
      "tm_copy_func packer1 = tm_copy_func packer" "copies (blk tmp (unat n)) (addrs src ts ns (unat n)) m m1"
    using Pack_ok [OF p dis(1)] by blast
  obtain unpacker1 m2 where U: "Unpack dst tmp n unpacker m1 = Some (unpacker1, m2)"
      "machine_ok unpacker1 td (nd + unat n)" "tm_copy_func unpacker1 = tm_copy_func unpacker"
      "copies (addrs dst td nd (unat n)) (blk tmp (unat n)) m1 m2"
    using Unpack_ok [OF u dis(2) dist] by blast
  have "copies_via (set (blk tmp 8192)) (addrs dst td nd (unat n)) (addrs src ts ns (unat n)) m m2"
    by (rule copies_via_mono [OF copies_trans [OF P(4) U(4) dis(2)] sub])
  then show ?thesis using that P U p(2) u(2) by simp
qed

lemma transform_loop_ok:
  assumes "machine_ok packer ts ns" and "plain_copy (tm_copy_func packer)"
    and "machine_ok unpacker td nd" and "plain_copy (tm_copy_func unpacker)"
    and "apart tmp (addrs src ts ns (unat sz - unat off)) (addrs dst td nd (unat sz - unat off))"
    and "unat sz + 8192 < 2 ^ 64"
  shows "\<exists>m'. transform_loop tmp src dst sz off packer unpacker m = Some m' \<and>
     copies_via (set (blk tmp 8192)) (addrs dst td nd (unat sz - unat off)) (addrs src ts ns (unat sz - unat off)) m m'"
  using assms
proof (induction "unat sz - unat off" arbitrary: off packer unpacker ns nd m rule: less_induct)
  case (less off packer unpacker ns nd m)
  show ?case
  proof (cases "off < sz")
    case False
    then show ?thesis by (simp add: transform_loop.simps word_less_nat_alt addrs_def)
  next
    case True
    define n where "n = min (sz - off) TMP_BUF_SIZE"
    define k where "k = unat sz - unat off"
    have d: "unat (sz - off) = k" using True unfolding k_def by (intro unat_diff_le) simp
    have n: "unat n = min k 8192" using d by (simp add: n_def TMP_BUF_SIZE_def min_def word_le_nat_alt)
    have kn: "k = unat n + (k - unat n)" "unat n \<le> 8192" using n by simp_all
    have S: "addrs src ts ns k = addrs src ts ns (unat n) @ addrs src ts (ns + unat n) (k - unat n)"
      and T: "addrs dst td nd k = addrs dst td nd (unat n) @ addrs dst td (nd + unat n) (k - unat n)"
      using addrs_add [of _ _ _ "unat n" "k - unat n"] kn(1) by simp_all
    have ap: "apart tmp (addrs src ts ns k) (addrs dst td nd k)" using less.prems(5) by (simp add: k_def)
    have ap1: "apart tmp (addrs src ts ns (unat n)) (addrs dst td nd (unat n))"
      and ap2: "apart tmp (addrs src ts (ns + unat n) (k - unat n)) (addrs dst td (nd + unat n) (k - unat n))"
      using ap unfolding S T apart_def by auto
    obtain packer1 m1 unpacker1 m2 where t: "Pack tmp src n packer m = Some (packer1, m1)"
      "Unpack dst tmp n unpacker m1 = Some (unpacker1, m2)"
      "machine_ok packer1 ts (ns + unat n)" "plain_copy (tm_copy_func packer1)"
      "machine_ok unpacker1 td (nd + unat n)" "plain_copy (tm_copy_func unpacker1)"
      "copies_via (set (blk tmp 8192)) (addrs dst td nd (unat n)) (addrs src ts ns (unat n)) m m2"
      using transform_turn [OF less.prems(1-4) ap1 kn(2)] by metis
    have off: "unat (off + TMP_BUF_SIZE) = unat off + 8192"
      using True less.prems(6) unfolding TMP_BUF_SIZE_def
      by (subst unat_add_small) (simp_all add: word_less_nat_alt)
    have rest: "unat sz - unat (off + TMP_BUF_SIZE) = k - unat n" using n by (simp add: off k_def)
    have lt: "k - unat n < k" using True n by (simp add: k_def word_less_nat_alt)
    obtain m' where m': "transform_loop tmp src dst sz (off + TMP_BUF_SIZE) packer1 unpacker1 m2 = Some m'"
        "copies_via (set (blk tmp 8192)) (addrs dst td (nd + unat n) (k - unat n)) (addrs src ts (ns + unat n) (k - unat n)) m2 m'"
      using less.hyps [OF _ t(3-6), of "off + TMP_BUF_SIZE" m2] lt ap2 less.prems(6) unfolding rest k_def by blast
    have "copies_via (set (blk tmp 8192)) (addrs dst td nd k) (addrs src ts ns k) m m'"
      using ap unfolding S T by (intro copies_via_append [OF t(7) m'(2)]) (auto simp: apart_def)
    then show ?thesis
      using True t(1,2) m'(1) by (subst transform_loop.simps) (simp add: n_def k_def)
  qed
qed


text \<open>A type that data can be moved through from an offset.\<close>

definition movable :: "typecode \<Rightarrow> itree list \<Rightarrow> size_t \<Rightarrow> bool" where
  "movable ty t off \<longleftrightarrow> type_ok ty t \<and> 0 < length (tbytes t) \<and> reaches t off \<and>
     GetPrimitive ty \<noteq> PRIMITIVE_TYPE_UNDEFINED"

lemma movable_completed: "movable ty t off \<Longrightarrow> IsCompleted ty"
  by (simp add: movable_def type_ok_def IsCompleted_def)

lemma addrs_contig:
  assumes "movable ty t off" and "IsContiguous ty"
  shows "addrs a t (unat off) k = blk (a + off) k"
proof -
  obtain b where b: "t = [ICopy b b 1]" using assms by (auto simp: movable_def type_ok_def)
  then have "b \<noteq> 0" using assms by (auto simp: movable_def tbytes_def)
  then have "disp_at t i = of_nat i" for i using b by (simp add: disp_at_contig)
  then have "addrs a t (unat off) k = map (\<lambda>i. a + of_nat i) [unat off..<unat off + k]" by (simp add: addrs_def)
  also have "\<dots> = map (\<lambda>i. a + off + of_nat i) [0..<k]"
    by (rule nth_equalityI) (simp_all add: add.assoc)
  finally show ?thesis by (simp add: blk_def)
qed

lemma transform_memcpy:
  assumes "apart tmp (blk src (unat sz)) (blk dst (unat sz))"
  shows "copies_via (set (blk tmp 8192)) (blk dst (unat sz)) (blk src (unat sz)) m (memcpy dst src sz m)"
proof -
  have "set (blk dst (unat sz)) \<inter> set (blk src (unat sz)) = {}" using assms unfolding apart_def by blast
  from memcpy_copies [OF this, of m] show ?thesis unfolding copies_def by (rule copies_via_mono) simp
qed

lemma transform_unpack:
  assumes ty: "movable ty t off" "\<not> IsContiguous ty" and cm: "contig_max_ok cm"
    and ap: "apart tmp (blk src (unat sz)) (addrs dst t (unat off) (unat sz))"
  obtains tm tm2 tm3 tm4 m' where "TypeMachine_new cm SMALL_STACK_DEPTH ty = Some tm"
    and "SetCopyFunc other (Data_prim PRIMITIVE_FUNC_COPY) tm = tm2" and "MoveCursor off tm2 = Some tm3"
    and "Unpack dst src sz tm3 m = Some (tm4, m')"
    and "copies_via (set (blk tmp 8192)) (addrs dst t (unat off) (unat sz)) (blk src (unat sz)) m m'"
proof -
  obtain tm tm2 tm3 where tm: "TypeMachine_new cm SMALL_STACK_DEPTH ty = Some tm"
      "SetCopyFunc other (Data_prim PRIMITIVE_FUNC_COPY) tm = tm2" "MoveCursor off tm2 = Some tm3"
      "machine_ok tm3 t (unat off)" "plain_copy (tm_copy_func tm3)"
    using moved_machine [of ty t off cm other] ty cm unfolding movable_def by metis
  have "set (blk src (unat sz)) \<inter> set (addrs dst t (unat off) (unat sz)) = {}"
    and "distinct (addrs dst t (unat off) (unat sz))" using ap by (auto simp: apart_def)
  from Unpack_ok [OF tm(4,5) this] obtain tm4 m' where "Unpack dst src sz tm3 m = Some (tm4, m')"
      "copies (addrs dst t (unat off) (unat sz)) (blk src (unat sz)) m m'" by blast
  then show ?thesis using that tm(1-3) copies_via_mono [of "{}"] unfolding copies_def by blast
qed

lemma transform_pack:
  assumes ty: "movable ty t off" "\<not> IsContiguous ty" and cm: "contig_max_ok cm"
    and ap: "apart tmp (addrs src t (unat off) (unat sz)) (blk dst (unat sz))"
  obtains tm tm2 tm3 tm4 m' where "TypeMachine_new cm SMALL_STACK_DEPTH ty = Some tm"
    and "SetCopyFunc other (Data_prim PRIMITIVE_FUNC_COPY) tm = tm2" and "MoveCursor off tm2 = Some tm3"
    and "Pack dst src sz tm3 m = Some (tm4, m')"
    and "copies_via (set (blk tmp 8192)) (blk dst (unat sz)) (addrs src t (unat off) (unat sz)) m m'"
proof -
  obtain tm tm2 tm3 where tm: "TypeMachine_new cm SMALL_STACK_DEPTH ty = Some tm"
      "SetCopyFunc other (Data_prim PRIMITIVE_FUNC_COPY) tm = tm2" "MoveCursor off tm2 = Some tm3"
      "machine_ok tm3 t (unat off)" "plain_copy (tm_copy_func tm3)"
    using moved_machine [of ty t off cm other] ty cm unfolding movable_def by metis
  have "set (blk dst (unat sz)) \<inter> set (addrs src t (unat off) (unat sz)) = {}" using ap by (auto simp: apart_def)
  from Pack_ok [OF tm(4,5) this] obtain tm4 m' where "Pack dst src sz tm3 m = Some (tm4, m')"
      "copies (blk dst (unat sz)) (addrs src t (unat off) (unat sz)) m m'" by blast
  then show ?thesis using that tm(1-3) copies_via_mono [of "{}"] unfolding copies_def by blast
qed

lemma transform_both:
  assumes s: "movable ts s soff" "\<not> IsContiguous ts" and d: "movable td d doff" "\<not> IsContiguous td"
    and cm: "contig_max_ok cm" and sz: "unat sz + 8192 < 2 ^ 64"
    and ap: "apart tmp (addrs src s (unat soff) (unat sz)) (addrs dst d (unat doff) (unat sz))"
  obtains p p1 u u1 u2 m' where "TypeMachine_new cm SMALL_STACK_DEPTH ts = Some p" and "MoveCursor soff p = Some p1"
    and "TypeMachine_new cm SMALL_STACK_DEPTH td = Some u"
    and "SetCopyFunc other (Data_prim PRIMITIVE_FUNC_COPY) u = u1" and "MoveCursor doff u1 = Some u2"
    and "transform_loop tmp src dst sz 0 p1 u2 m = Some m'"
    and "copies_via (set (blk tmp 8192)) (addrs dst d (unat doff) (unat sz)) (addrs src s (unat soff) (unat sz)) m m'"
proof -
  obtain p p1 where p: "TypeMachine_new cm SMALL_STACK_DEPTH ts = Some p" "MoveCursor soff p = Some p1"
      "machine_ok p1 s (unat soff)" "plain_copy (tm_copy_func p1)"
    using moved_machine [of ts s soff cm] s cm unfolding movable_def by metis
  obtain u u1 u2 where u: "TypeMachine_new cm SMALL_STACK_DEPTH td = Some u"
      "SetCopyFunc other (Data_prim PRIMITIVE_FUNC_COPY) u = u1" "MoveCursor doff u1 = Some u2"
      "machine_ok u2 d (unat doff)" "plain_copy (tm_copy_func u2)"
    using moved_machine [of td d doff cm other] d cm unfolding movable_def by metis
  show ?thesis
    using transform_loop_ok [OF p(3,4) u(4,5), of tmp src sz 0 dst m] ap sz that [OF p(1,2) u(1-3)] by auto
qed

section \<open>Properties\<close>

text \<open>C9: With the copying data function, \<open>PAMI_Type_transform_data\<close> returns \<open>PAMI_SUCCESS\<close> and
  copies the bytes that the source type describes from the source offset on to the bytes that the
  destination type describes from the destination offset on, in order; no other byte outside its
  temporary buffer changes. This covers its four branches.\<close>

theorem transform_data_correct:
  assumes "movable src_type s src_offset" and "movable dst_type d dst_offset" and "contig_max_ok cm"
    and "unat sz + 8192 < 2 ^ 64"
    and "apart tmp (addrs src s (unat src_offset) (unat sz)) (addrs dst d (unat dst_offset) (unat sz))"
  shows "\<exists>m'. PAMI_Type_transform_data other cm tmp src src_type src_offset dst dst_type dst_offset sz
       (Data_prim PRIMITIVE_FUNC_COPY) m = Some (PAMI_SUCCESS, m') \<and>
     copies_via (set (blk tmp 8192)) (addrs dst d (unat dst_offset) (unat sz))
       (addrs src s (unat src_offset) (unat sz)) m m'"
proof -
  note done1 = movable_completed [OF assms(1)] and done2 = movable_completed [OF assms(2)]
  note sc = addrs_contig [OF assms(1)] and dc = addrs_contig [OF assms(2)]
  consider (both) "IsContiguous src_type" "IsContiguous dst_type" | (src) "IsContiguous src_type" "\<not> IsContiguous dst_type"
    | (dst) "\<not> IsContiguous src_type" "IsContiguous dst_type" | (none) "\<not> IsContiguous src_type" "\<not> IsContiguous dst_type"
    by blast
  then show ?thesis
  proof cases
    case both
    then show ?thesis
      using transform_memcpy [of tmp "src + src_offset" sz "dst + dst_offset" m] assms(5) done1 done2
      by (simp add: PAMI_Type_transform_data_def sc dc)
  next
    case src
    note ap = assms(5) [unfolded sc [OF src(1)]]
    show ?thesis unfolding sc [OF src(1)]
      by (rule transform_unpack [OF assms(2) src(2) assms(3) ap, of other m])
        (use src done1 done2 in \<open>simp add: PAMI_Type_transform_data_def\<close>)
  next
    case dst
    note ap = assms(5) [unfolded dc [OF dst(2)]]
    show ?thesis unfolding dc [OF dst(2)]
      by (rule transform_pack [OF assms(1) dst(1) assms(3) ap, of other m])
        (use dst done1 done2 in \<open>simp add: PAMI_Type_transform_data_def\<close>)
  next
    case none
    show ?thesis
      by (rule transform_both [OF assms(1) none(1) assms(2) none(2) assms(3,4,5), of other m])
        (use none done1 done2 in \<open>simp add: PAMI_Type_transform_data_def\<close>)
  qed
qed

definition byte_max :: typecode where
  "byte_max = the (TypeContig_atom OP_JUNK (\<lambda>_. TypeCode_new OP_JUNK) 1)"

lemma byte_max_code:
  "tc_completed byte_max" "tc_ops byte_max = [(OP_BEGIN, COPY (- 1) (- 1) 1), (OP_COPY, END)]"
  "tc_begin byte_max = \<lparr>bg_contiguous = True, bg_simple = True, bg_primitive = PRIMITIVE_TYPE_BYTE,
     bg_depth = 1, bg_code_size = 104, bg_data_size = - 1, bg_extent = - 1, bg_num_blocks = 1,
     bg_unit = - 1, bg_atom_size = 1\<rparr>"
  by code_simp+

lemma byte_max_ok: "type_ok byte_max [ICopy (- 1) (- 1) 1]"
  using unat64_less [of "- 1"] by (simp add: type_ok_def full_code_def byte_max_code sz_Begin_def GetCodeSize_def GetDataSize_def
      GetExtent_def GetNumBlocks_def GetUnit_def GetDepth_def IsSimple_def IsContiguous_def tbytes_def
      textent_def unit_of_rep)

lemma contig_max_byte_max: "contig_max_ok byte_max"
  using byte_max_ok by (auto simp: contig_max_ok_def intro!: exI [of _ "- 1"])

lemma vector_movable: "movable vector_type [ICopy 4 8 3] 4"
  by (simp add: movable_def vector_type_ok reaches_def tbytes_def GetPrimitive_def vector_type_code)

lemma vector_bytes: "tbytes [ICopy 4 8 3] = [0, 1, 2, 3, 8, 9, 10, 11, 16, 17, 18, 19]"
  by code_simp

lemma vector_addrs: "addrs a [ICopy 4 8 3] 4 8 = map ((+) a) [8, 9, 10, 11, 16, 17, 18, 19]"
  by (simp add: addrs_def disp_at_def vector_bytes upt_rec)

lemma vector_apart:
  "apart 65536 (addrs 4096 [ICopy 4 8 3] 4 8) (addrs 8192 [ICopy 4 8 3] 4 8)"
  by (simp add: apart_def vector_addrs disjoint_iff set_blk del: blk_def)

theorem transform_data_correct_witness:
  "\<exists>m'. PAMI_Type_transform_data (\<lambda>_. memcpy) byte_max 65536 4096 vector_type 4 8192 vector_type 4 8
       (Data_prim PRIMITIVE_FUNC_COPY) (\<lambda>a. ucast a) = Some (PAMI_SUCCESS, m') \<and>
     copies_via (set (blk 65536 8192)) (addrs 8192 [ICopy 4 8 3] 4 8) (addrs 4096 [ICopy 4 8 3] 4 8) (\<lambda>a. ucast a) m'"
  using transform_data_correct [OF vector_movable vector_movable contig_max_byte_max, of 8 65536 4096 8192 "\<lambda>_. memcpy" "\<lambda>a. ucast a"]
    vector_apart by simp

text \<open>What \<open>copies\<close> says determines the memory, so packing may stop and resume anywhere.\<close>

lemma copies_unique:
  assumes "copies W R m m1" and "copies W R m m2"
  shows "m1 = m2"
proof
  fix a
  show "m1 a = m2 a"
  proof (cases "a \<in> set W")
    case True
    then obtain i where "i < length W" "W ! i = a" by (auto simp: in_set_conv_nth)
    then show ?thesis using assms by (auto simp: copies_def copies_via_def)
  next
    case False
    then show ?thesis using assms by (simp add: copies_def copies_via_def)
  qed
qed

lemma Pack_split:
  assumes tm: "machine_ok tm t n" and cf: "plain_copy (tm_copy_func tm)" and k: "unat j + unat k < 2 ^ 64"
    and dis: "set (blk target (unat j + unat k)) \<inter> set (addrs origin t n (unat j + unat k)) = {}"
  shows "\<exists>tm1 m1 tm2 m2 tm3. Pack target origin j tm m = Some (tm1, m1) \<and> Pack (target + j) origin k tm1 m1 = Some (tm2, m2) \<and>
     Pack target origin (j + k) tm m = Some (tm3, m2) \<and> GetCursor tm3 = GetCursor tm2 \<and>
     copies (blk target (unat j + unat k)) (addrs origin t n (unat j + unat k)) m m2"
proof -
  have jk: "unat (j + k) = unat j + unat k" using k by (intro unat_add_small) simp
  have B: "blk target (unat j + unat k) = blk target (unat j) @ blk (target + j) (unat k)" by (simp add: blk_add)
  have d: "distinct (blk target (unat j) @ blk (target + j) (unat k))"
    unfolding B [symmetric] by (rule distinct_blk) (use k in simp)
  have dis': "set (blk target (unat j) @ blk (target + j) (unat k)) \<inter>
      set (addrs origin t n (unat j) @ addrs origin t (n + unat j) (unat k)) = {}"
    using dis unfolding B addrs_add .
  obtain tm1 m1 where 1: "Pack target origin j tm m = Some (tm1, m1)" "machine_ok tm1 t (n + unat j)"
      "tm_copy_func tm1 = tm_copy_func tm" "copies (blk target (unat j)) (addrs origin t n (unat j)) m m1"
    using Pack_ok [OF tm cf, of target j origin m] dis' by auto
  obtain tm2 m2 where 2: "Pack (target + j) origin k tm1 m1 = Some (tm2, m2)" "machine_ok tm2 t (n + unat j + unat k)"
      "copies (blk (target + j) (unat k)) (addrs origin t (n + unat j) (unat k)) m1 m2"
    using Pack_ok [OF 1(2), of "target + j" k origin m1] 1(3) cf dis' by auto
  obtain tm3 m3 where 3: "Pack target origin (j + k) tm m = Some (tm3, m3)" "machine_ok tm3 t (n + unat j + unat k)"
      "copies (blk target (unat j + unat k)) (addrs origin t n (unat j + unat k)) m m3"
    using Pack_ok [OF tm cf, of target "j + k" origin m] dis unfolding jk by (auto simp: add.assoc)
  have "copies (blk target (unat j + unat k)) (addrs origin t n (unat j + unat k)) m m2"
    unfolding B addrs_add using d dis' by (intro copies_append [OF 1(4) 2(3)]) auto
  moreover from this have "m3 = m2" using 3(3) copies_unique by blast
  ultimately show ?thesis
    using 1(1) 2(1) 3(1) top_offset_machine [OF 2(2)] top_offset_machine [OF 3(2)] by (auto simp: GetCursor_def)
qed

text \<open>C10: A machine on a type with gaps that is moved to any offset packs the bytes of the type from
  that offset on, and packing may stop after any number of bytes and resume: two calls leave the
  memory and the cursor that one call leaves.\<close>

theorem pack_resumes:
  assumes "movable ty t off" and "\<not> IsContiguous ty" and "contig_max_ok cm" and "unat j + unat k < 2 ^ 64"
    and "set (blk target (unat j + unat k)) \<inter> set (addrs origin t (unat off) (unat j + unat k)) = {}"
  shows "\<exists>new tm tm1 m1 tm2 m2 tm3. TypeMachine_new cm SMALL_STACK_DEPTH ty = Some new \<and> MoveCursor off new = Some tm \<and>
     Pack target origin j tm m = Some (tm1, m1) \<and> Pack (target + j) origin k tm1 m1 = Some (tm2, m2) \<and>
     Pack target origin (j + k) tm m = Some (tm3, m2) \<and> GetCursor tm3 = GetCursor tm2 \<and>
     copies (blk target (unat j + unat k)) (addrs origin t (unat off) (unat j + unat k)) m m2"
proof -
  obtain new tm where "TypeMachine_new cm SMALL_STACK_DEPTH ty = Some new" "MoveCursor off new = Some tm"
      "machine_ok tm t (unat off)" "plain_copy (tm_copy_func tm)"
    using moved_machine [of ty t off cm] assms(1-3) unfolding movable_def by metis
  then show ?thesis using Pack_split [OF _ _ assms(4,5)] by blast
qed

theorem pack_resumes_witness:
  "\<exists>new tm tm1 m1 tm2 m2 tm3. TypeMachine_new byte_max SMALL_STACK_DEPTH vector_type = Some new \<and>
     MoveCursor 4 new = Some tm \<and>
     Pack 8192 4096 3 tm (\<lambda>a. ucast a) = Some (tm1, m1) \<and> Pack (8192 + 3) 4096 5 tm1 m1 = Some (tm2, m2) \<and>
     Pack 8192 4096 (3 + 5) tm (\<lambda>a. ucast a) = Some (tm3, m2) \<and> GetCursor tm3 = GetCursor tm2 \<and>
     copies (blk 8192 8) (map ((+) 4096) [8, 9, 10, 11, 16, 17, 18, 19]) (\<lambda>a. ucast a) m2"
proof -
  have "set (blk 8192 (unat (3 :: size_t) + unat (5 :: size_t))) \<inter>
      set (addrs 4096 [ICopy 4 8 3] (unat (4 :: size_t)) (unat (3 :: size_t) + unat (5 :: size_t))) = {}"
    by (simp add: vector_addrs disjoint_iff set_blk)
  from pack_resumes [OF vector_movable _ contig_max_byte_max _ this, of "\<lambda>a. ucast a"]
  show ?thesis by (simp add: IsContiguous_def vector_type_code vector_addrs)
qed

end
