(* ===== verification/Pami_PipeWorkQueue.thy ===== *)
theory Pami_PipeWorkQueue
  imports Pami_TypeTransform
begin

text \<open>
  \<^verbatim>\<open>common/default/PipeWorkQueue.h\<close>: the byte pipe between one producer and one
  consumer. A \<open>pwq\<close> is the local object, a \<open>workqueue_hdr\<close> the header with the two counters,
  which several objects share. Sizes and the mask are \<^verbatim>\<open>unsigned\<close>, the counters
  \<^verbatim>\<open>size_t\<close>, and both wrap around as in the source. \<open>None\<close> is a dereference of
  \<^verbatim>\<open>NULL\<close>, a division by zero or a failed assertion of the type machine; the debug
  assertions are not part of the model. The second half runs the pipe: a producer and a consumer
  take steps in any order.
\<close>

section \<open>State\<close>

record workqueue_hdr =
  producedBytes :: size_t
  consumedBytes :: size_t

datatype sq_ref = SQ_null | SQ_own | SQ_shared

record pwq =
  pw_qsize :: uint_t
  pw_isize :: uint_t
  pw_pmask :: uint_t
  pw_buffer :: size_t
  pw_sharedqueue :: sq_ref
  pw_prod_tm :: "machine option"
  pw_cons_tm :: "machine option"

definition PipeWorkQueue_new :: pwq where
  "PipeWorkQueue_new = \<lparr>pw_qsize = 0, pw_isize = 0, pw_pmask = 0, pw_buffer = 0,
     pw_sharedqueue = SQ_null, pw_prod_tm = None, pw_cons_tm = None\<rparr>"

section \<open>Configuration\<close>

text \<open>The circular buffer in shared memory; \<open>alloc\<close> is the memory manager.\<close>

definition configure_shared :: "(size_t \<Rightarrow> size_t option) \<Rightarrow> size_t \<Rightarrow> pwq \<Rightarrow> (pwq \<times> workqueue_hdr) option" where
  "configure_shared alloc bufsize q =
     (let qsize = ucast bufsize in
      case alloc (16 + ucast qsize) of
        None \<Rightarrow> None
      | Some a \<Rightarrow>
          Some (q\<lparr>pw_qsize := qsize, pw_sharedqueue := SQ_shared, pw_buffer := a + 16, pw_pmask := qsize - 1\<rparr>,
                \<lparr>producedBytes = ucast (pw_isize q), consumedBytes = 0\<rparr>))"

text \<open>The circular buffer of the user: the counters keep their values until a reset.\<close>

definition configure_user :: "size_t \<Rightarrow> size_t \<Rightarrow> pwq \<Rightarrow> pwq" where
  "configure_user buffer bufsize q =
     q\<lparr>pw_qsize := ucast bufsize, pw_buffer := buffer, pw_sharedqueue := SQ_own, pw_pmask := ucast bufsize - 1\<rparr>"

text \<open>The part of the flat configuration that a type with gaps needs, on each side: the machine,
  and the packed sizes.\<close>

definition packed_size :: "typecode \<Rightarrow> size_t \<Rightarrow> uint_t" where
  "packed_size dt n = ucast ((n div GetExtent dt) * GetDataSize dt)"

definition view_machine :: "typecode \<Rightarrow> typecode option \<Rightarrow> machine option option" where
  "view_machine cm dt =
     (case dt of
        None \<Rightarrow> Some None
      | Some ty \<Rightarrow>
          if IsContiguous ty then Some None
          else if GetExtent ty = 0 then None
          else map_option Some (TypeMachine_new cm SMALL_STACK_DEPTH ty))"

definition move_view :: "size_t \<Rightarrow> machine option \<Rightarrow> machine option option" where
  "move_view off tm = (case tm of None \<Rightarrow> Some None | Some m \<Rightarrow> map_option Some (MoveCursor off m))"

definition set_view :: "typecode option \<Rightarrow> machine option \<Rightarrow> size_t \<Rightarrow> size_t \<Rightarrow> pwq \<Rightarrow> pwq" where
  "set_view dt tm bufsize bufinit q =
     (case (dt, tm) of
        (Some ty, Some _) \<Rightarrow> q\<lparr>pw_pmask := - 1, pw_qsize := packed_size ty bufsize, pw_isize := packed_size ty bufinit\<rparr>
      | _ \<Rightarrow> q)"

definition configure_flat ::
    "typecode \<Rightarrow> size_t \<Rightarrow> size_t \<Rightarrow> size_t \<Rightarrow> typecode option \<Rightarrow> typecode option \<Rightarrow> pwq \<Rightarrow>
     (pwq \<times> workqueue_hdr) option" where
  "configure_flat cm buffer bufsize bufinit prod_dt cons_dt q =
     do { prod \<leftarrow> view_machine cm prod_dt;
          cons \<leftarrow> view_machine cm cons_dt;
          let q1 = q\<lparr>pw_qsize := ucast bufsize, pw_isize := ucast bufinit, pw_buffer := buffer,
                     pw_sharedqueue := SQ_own, pw_pmask := 0\<rparr>;
          let q2 = set_view cons_dt cons bufsize bufinit (set_view prod_dt prod bufsize bufinit q1);
          prod1 \<leftarrow> move_view (ucast (pw_isize q2)) prod;
          cons1 \<leftarrow> move_view 0 cons;
          Some (q2\<lparr>pw_prod_tm := prod1, pw_cons_tm := cons1\<rparr>,
                \<lparr>producedBytes = ucast (pw_isize q2), consumedBytes = 0\<rparr>) }"

section \<open>Reset, export and import\<close>

definition reset_nosync_impl :: "pwq \<Rightarrow> workqueue_hdr \<Rightarrow> (pwq \<times> workqueue_hdr) option" where
  "reset_nosync_impl q h =
     (if pw_sharedqueue q = SQ_null then None
      else do { prod \<leftarrow> move_view (ucast (pw_isize q)) (pw_prod_tm q);
                cons \<leftarrow> move_view 0 (pw_cons_tm q);
                Some (q\<lparr>pw_prod_tm := prod, pw_cons_tm := cons\<rparr>,
                      h\<lparr>producedBytes := ucast (pw_isize q), consumedBytes := 0\<rparr>) })"

definition reset_impl :: "pwq \<Rightarrow> workqueue_hdr \<Rightarrow> (pwq \<times> workqueue_hdr) option" where
  "reset_impl q h = reset_nosync_impl q h"

text \<open>The clone: \<open>isize\<close> is the value that the memory of the new object happens to hold, because
  the constructor initialises every other field but this one and then resets.\<close>

definition PipeWorkQueue_clone :: "uint_t \<Rightarrow> pwq \<Rightarrow> workqueue_hdr \<Rightarrow> (pwq \<times> workqueue_hdr) option" where
  "PipeWorkQueue_clone isize obj h = reset_impl (obj\<lparr>pw_isize := isize\<rparr>) h"

text \<open>When all participants have passed the barrier, the header is zero.\<close>

definition barrier_reset_impl :: "pwq \<Rightarrow> workqueue_hdr \<Rightarrow> (pwq \<times> workqueue_hdr) option" where
  "barrier_reset_impl q h =
     (if pw_sharedqueue q = SQ_null then None
      else do { prod \<leftarrow> move_view 0 (pw_prod_tm q);
                cons \<leftarrow> move_view 0 (pw_cons_tm q);
                Some (q\<lparr>pw_prod_tm := prod, pw_cons_tm := cons\<rparr>, \<lparr>producedBytes = 0, consumedBytes = 0\<rparr>) })"

text \<open>Export writes the mask into the export record, for flat buffers only.\<close>

definition exp_impl :: "pwq \<Rightarrow> uint_t \<Rightarrow> pami_result \<times> uint_t" where
  "exp_impl q e = (if pw_pmask q \<noteq> 0 then (PAMI_ERROR, e) else (PAMI_SUCCESS, pw_pmask q))"

definition import_impl :: "uint_t \<Rightarrow> pami_result" where
  "import_impl e = PAMI_ERROR"

definition available_impl :: "pwq \<Rightarrow> bool" where
  "available_impl q \<longleftrightarrow> pw_sharedqueue q \<noteq> SQ_null"

section \<open>Producing and consuming\<close>

text \<open>The offset of a counter in a circular buffer.\<close>

definition ring_offset :: "pwq \<Rightarrow> size_t \<Rightarrow> uint_t" where
  "ring_offset q n = ucast (n AND ucast (pw_pmask q))"

definition circ_to_produce :: "pwq \<Rightarrow> size_t \<Rightarrow> size_t \<Rightarrow> size_t" where
  "circ_to_produce q p c =
     (let po = ring_offset q p; co = ring_offset q c in
      if co < po then ucast (pw_qsize q - po)
      else if po < co then ucast (co - po)
      else if p = c then ucast (pw_qsize q - po)
      else 0)"

text \<open>A size bounded by what the machine of the view has left of its copy.\<close>

definition bound_by_view :: "size_t \<Rightarrow> machine \<Rightarrow> (size_t \<times> machine) option" where
  "bound_by_view a tm =
     do { (n, tm1) \<leftarrow> GetContigBytes tm; Some (if n < a then n else a, tm1) }"

definition bytesAvailableToProduce_impl :: "pwq \<Rightarrow> workqueue_hdr \<Rightarrow> (size_t \<times> pwq) option" where
  "bytesAvailableToProduce_impl q h =
     (if pw_sharedqueue q = SQ_null then None
      else if pw_pmask q = 0 then Some (ucast (pw_qsize q) - producedBytes h, q)
      else (case pw_prod_tm q of
              Some tm \<Rightarrow>
                do { (a, tm1) \<leftarrow> bound_by_view (ucast (pw_qsize q) - producedBytes h) tm;
                     Some (a, q\<lparr>pw_prod_tm := Some tm1\<rparr>) }
            | None \<Rightarrow> Some (circ_to_produce q (producedBytes h) (consumedBytes h), q)))"

definition circ_to_consume :: "pwq \<Rightarrow> size_t \<Rightarrow> size_t \<Rightarrow> size_t" where
  "circ_to_consume q p0 c0 =
     (let sz = ucast (pw_qsize q);
          bump = p0 < c0 \<and> c0 + sz < p0 + sz;
          p = (if bump then p0 + sz else p0);
          c = (if bump then c0 + sz else c0);
          po = ring_offset q p; co = ring_offset q c in
      if co < po then ucast (po - co)
      else if po < co then ucast (pw_qsize q - co)
      else if c < p then ucast (pw_qsize q - co)
      else 0)"

definition bytesAvailableToConsume_impl :: "pwq \<Rightarrow> workqueue_hdr \<Rightarrow> (size_t \<times> pwq) option" where
  "bytesAvailableToConsume_impl q h =
     (if pw_sharedqueue q = SQ_null then None
      else if pw_pmask q = 0 then Some (producedBytes h - consumedBytes h, q)
      else (case pw_cons_tm q of
              Some tm \<Rightarrow>
                do { (a, tm1) \<leftarrow> bound_by_view (producedBytes h - consumedBytes h) tm;
                     Some (a, q\<lparr>pw_cons_tm := Some tm1\<rparr>) }
            | None \<Rightarrow> Some (circ_to_consume q (producedBytes h) (consumedBytes h), q)))"

definition getBytesProduced_impl :: "pwq \<Rightarrow> workqueue_hdr \<Rightarrow> size_t option" where
  "getBytesProduced_impl q h = (if pw_sharedqueue q = SQ_null then None else Some (producedBytes h))"

definition getBytesConsumed_impl :: "pwq \<Rightarrow> workqueue_hdr \<Rightarrow> size_t option" where
  "getBytesConsumed_impl q h = (if pw_sharedqueue q = SQ_null then None else Some (consumedBytes h))"

definition bufferToProduce_impl :: "pwq \<Rightarrow> workqueue_hdr \<Rightarrow> size_t option" where
  "bufferToProduce_impl q h =
     (if pw_sharedqueue q = SQ_null then None
      else Some (if pw_pmask q = 0 then pw_buffer q + producedBytes h
                 else (case pw_prod_tm q of
                         Some tm \<Rightarrow> pw_buffer q + GetCursorDisp tm
                       | None \<Rightarrow> pw_buffer q + ucast (ring_offset q (producedBytes h)))))"

definition produceBytes_impl :: "size_t \<Rightarrow> pwq \<Rightarrow> workqueue_hdr \<Rightarrow> (pwq \<times> workqueue_hdr) option" where
  "produceBytes_impl bytes q h =
     (if pw_sharedqueue q = SQ_null then None
      else (let h1 = h\<lparr>producedBytes := producedBytes h + bytes\<rparr> in
            do { prod \<leftarrow> move_view (producedBytes h1) (pw_prod_tm q);
                 Some (q\<lparr>pw_prod_tm := prod\<rparr>, h1) }))"

definition bufferToConsume_impl :: "pwq \<Rightarrow> workqueue_hdr \<Rightarrow> size_t option" where
  "bufferToConsume_impl q h =
     (if pw_sharedqueue q = SQ_null then None
      else Some (if pw_pmask q = 0 then pw_buffer q + consumedBytes h
                 else (case pw_cons_tm q of
                         Some tm \<Rightarrow> pw_buffer q + GetCursorDisp tm
                       | None \<Rightarrow> pw_buffer q + ucast (ring_offset q (consumedBytes h)))))"

definition consumeBytes_impl :: "size_t \<Rightarrow> pwq \<Rightarrow> workqueue_hdr \<Rightarrow> (pwq \<times> workqueue_hdr) option" where
  "consumeBytes_impl bytes q h =
     (if pw_sharedqueue q = SQ_null then None
      else (let h1 = h\<lparr>consumedBytes := consumedBytes h + bytes\<rparr> in
            do { cons \<leftarrow> move_view (consumedBytes h1) (pw_cons_tm q);
                 Some (q\<lparr>pw_cons_tm := cons\<rparr>, h1) }))"

end
