(* ===== verification/Pami_PipeStream.thy ===== *)
theory Pami_PipeStream
  imports Pami_PipeWorkQueue
begin

text \<open>
  The pipe at work: one producer and one consumer use the same pipe work queue, one memory access
  or call at a time and in any order. The locale states what the position and room calculations
  of a queue promise; the stream property is proved from it once and holds for the circular and
  the flat variety, which interpret it.
\<close>

section \<open>The system\<close>

text \<open>A side is idle or has been told how many bytes it may move and has moved some of them.\<close>

datatype side = Idle | Busy size_t "8 word list"

record pipe =
  pi_hdr :: workqueue_hdr
  pi_mem :: mem
  pi_prod :: side
  pi_cons :: side
  pi_sent :: "8 word list"   \<comment> \<open>every byte made available to the consumer so far\<close>
  pi_got :: "8 word list"    \<comment> \<open>every byte consumed so far\<close>

inductive pipe_step :: "pwq \<Rightarrow> pipe \<Rightarrow> pipe \<Rightarrow> bool" for q where
  ask_produce:
    "pi_prod s = Idle \<Longrightarrow> bytesAvailableToProduce_impl q (pi_hdr s) = Some (a, q1) \<Longrightarrow>
     pipe_step q s (s\<lparr>pi_prod := Busy a []\<rparr>)"
| write_byte:
    "pi_prod s = Busy a ds \<Longrightarrow> length ds < unat a \<Longrightarrow> bufferToProduce_impl q (pi_hdr s) = Some b \<Longrightarrow>
     pipe_step q s (s\<lparr>pi_mem := (pi_mem s)(b + of_nat (length ds) := d), pi_prod := Busy a (ds @ [d])\<rparr>)"
| publish:
    "pi_prod s = Busy a ds \<Longrightarrow> produceBytes_impl (of_nat (length ds)) q (pi_hdr s) = Some (q1, h) \<Longrightarrow>
     pipe_step q s (s\<lparr>pi_hdr := h, pi_prod := Idle, pi_sent := pi_sent s @ ds\<rparr>)"
| ask_consume:
    "pi_cons s = Idle \<Longrightarrow> bytesAvailableToConsume_impl q (pi_hdr s) = Some (a, q1) \<Longrightarrow>
     pipe_step q s (s\<lparr>pi_cons := Busy a []\<rparr>)"
| read_byte:
    "pi_cons s = Busy a ds \<Longrightarrow> length ds < unat a \<Longrightarrow> bufferToConsume_impl q (pi_hdr s) = Some b \<Longrightarrow>
     pipe_step q s (s\<lparr>pi_cons := Busy a (ds @ [pi_mem s (b + of_nat (length ds))])\<rparr>)"
| retire:
    "pi_cons s = Busy a ds \<Longrightarrow> consumeBytes_impl (of_nat (length ds)) q (pi_hdr s) = Some (q1, h) \<Longrightarrow>
     pipe_step q s (s\<lparr>pi_hdr := h, pi_cons := Idle, pi_got := pi_got s @ ds\<rparr>)"

text \<open>The start: the header that configuration and reset leave, and the initial content.\<close>

definition pipe_start :: "pwq \<Rightarrow> mem \<Rightarrow> pipe" where
  "pipe_start q m =
     \<lparr>pi_hdr = \<lparr>producedBytes = ucast (pw_isize q), consumedBytes = 0\<rparr>, pi_mem = m, pi_prod = Idle, pi_cons = Idle,
      pi_sent = map (\<lambda>i. m (pw_buffer q + of_nat i)) [0..<unat (pw_isize q)], pi_got = []\<rparr>"

inductive pipe_reaches :: "pwq \<Rightarrow> mem \<Rightarrow> pipe \<Rightarrow> bool" for q m where
  start: "pipe_reaches q m (pipe_start q m)"
| step: "pipe_reaches q m s \<Longrightarrow> pipe_step q s s' \<Longrightarrow> pipe_reaches q m s'"

section \<open>The contract\<close>

definition counters :: "nat \<Rightarrow> nat \<Rightarrow> workqueue_hdr" where
  "counters P C = \<lparr>producedBytes = of_nat P, consumedBytes = of_nat C\<rparr>"

text \<open>\<open>slot q i\<close> is the place in the buffer of byte \<open>i\<close> of the stream, \<open>lim q C\<close> the end of the
  part of the stream that the buffer has room for when \<open>C\<close> bytes are consumed.\<close>

locale pipe_shape =
  fixes ok :: "pwq \<Rightarrow> bool" and slot lim :: "pwq \<Rightarrow> nat \<Rightarrow> nat"
  assumes plain: "ok q \<Longrightarrow> pw_sharedqueue q \<noteq> SQ_null \<and> pw_prod_tm q = None \<and> pw_cons_tm q = None"
    and lim_mono: "ok q \<Longrightarrow> C \<le> C' \<Longrightarrow> lim q C \<le> lim q C'"
    and slot_start: "ok q \<Longrightarrow> unat (pw_isize q) \<le> lim q 0 \<and> (\<forall>i<unat (pw_isize q). slot q i = i)"
    and slot_inj: "ok q \<Longrightarrow> C \<le> i \<Longrightarrow> i < lim q C \<Longrightarrow> C \<le> j \<Longrightarrow> j < lim q C \<Longrightarrow>
      (of_nat (slot q i) :: size_t) = of_nat (slot q j) \<Longrightarrow> i = j"
    and produce_at: "ok q \<Longrightarrow> P \<le> lim q C \<Longrightarrow> C \<le> P \<Longrightarrow>
      bufferToProduce_impl q (counters P C) = Some (pw_buffer q + of_nat (slot q P))"
    and consume_at: "ok q \<Longrightarrow> P \<le> lim q C \<Longrightarrow> C \<le> P \<Longrightarrow>
      bufferToConsume_impl q (counters P C) = Some (pw_buffer q + of_nat (slot q C))"
    and room: "ok q \<Longrightarrow> P \<le> lim q C \<Longrightarrow> C \<le> P \<Longrightarrow>
      \<exists>a. bytesAvailableToProduce_impl q (counters P C) = Some (a, q) \<and> P + unat a \<le> lim q C \<and>
        (\<forall>j<unat a. slot q (P + j) = slot q P + j) \<and> (P < lim q C \<longrightarrow> 0 < unat a)"
    and fill: "ok q \<Longrightarrow> P \<le> lim q C \<Longrightarrow> C \<le> P \<Longrightarrow>
      \<exists>a. bytesAvailableToConsume_impl q (counters P C) = Some (a, q) \<and> C + unat a \<le> P \<and>
        (\<forall>j<unat a. slot q (C + j) = slot q C + j) \<and> (C < P \<longrightarrow> 0 < unat a)"
begin

definition place :: "pwq \<Rightarrow> nat \<Rightarrow> size_t" where
  "place q i = pw_buffer q + of_nat (slot q i)"

text \<open>What holds of a side that is moving bytes of the stream from position \<open>n\<close> on.\<close>

definition moving :: "pwq \<Rightarrow> nat \<Rightarrow> nat \<Rightarrow> side \<Rightarrow> bool" where
  "moving q n e sd \<longleftrightarrow> (case sd of Idle \<Rightarrow> True
     | Busy a ds \<Rightarrow> length ds \<le> unat a \<and> n + unat a \<le> e \<and> (\<forall>j<unat a. slot q (n + j) = slot q n + j))"

definition inv :: "pwq \<Rightarrow> pipe \<Rightarrow> bool" where
  "inv q s \<longleftrightarrow> (let P = length (pi_sent s); C = length (pi_got s) in
     pi_hdr s = counters P C \<and> C \<le> P \<and> P \<le> lim q C \<and> pi_got s = take C (pi_sent s) \<and>
     (\<forall>i<P. C \<le> i \<longrightarrow> pi_mem s (place q i) = pi_sent s ! i) \<and>
     moving q P (lim q C) (pi_prod s) \<and> moving q C P (pi_cons s) \<and>
     (\<forall>a ds. pi_prod s = Busy a ds \<longrightarrow> (\<forall>j<length ds. pi_mem s (place q (P + j)) = ds ! j)) \<and>
     (\<forall>a ds. pi_cons s = Busy a ds \<longrightarrow> ds = take (length ds) (drop C (pi_sent s))))"

lemma invD:
  assumes "inv q s"
  shows "pi_hdr s = counters (length (pi_sent s)) (length (pi_got s))"
    and "length (pi_got s) \<le> length (pi_sent s)" and "length (pi_sent s) \<le> lim q (length (pi_got s))"
    and "pi_got s = take (length (pi_got s)) (pi_sent s)"
    and "\<And>i. i < length (pi_sent s) \<Longrightarrow> length (pi_got s) \<le> i \<Longrightarrow> pi_mem s (place q i) = pi_sent s ! i"
    and "moving q (length (pi_sent s)) (lim q (length (pi_got s))) (pi_prod s)"
    and "moving q (length (pi_got s)) (length (pi_sent s)) (pi_cons s)"
    and "\<And>a ds j. pi_prod s = Busy a ds \<Longrightarrow> j < length ds \<Longrightarrow> pi_mem s (place q (length (pi_sent s) + j)) = ds ! j"
    and "\<And>a ds. pi_cons s = Busy a ds \<Longrightarrow> ds = take (length ds) (drop (length (pi_got s)) (pi_sent s))"
  using assms unfolding inv_def Let_def by blast+

lemma inv_start: "ok q \<Longrightarrow> inv q (pipe_start q m)"
  using slot_start [of q] by (auto simp: inv_def pipe_start_def counters_def moving_def place_def unat_ucast_uint
      word_unat_eq_iff unat_of_nat64 less_trans [OF unat32_less])

lemma inv_write:
  assumes ok: "ok q" and inv: "inv q s" and busy: "pi_prod s = Busy a ds" and room: "length ds < unat a"
    and b: "bufferToProduce_impl q (pi_hdr s) = Some b"
  shows "inv q (s\<lparr>pi_mem := (pi_mem s)(b + of_nat (length ds) := d), pi_prod := Busy a (ds @ [d])\<rparr>)"
proof -
  let ?P = "length (pi_sent s)" and ?C = "length (pi_got s)"
  note I = invD [OF inv]
  have mv: "?P + unat a \<le> lim q ?C" "\<forall>j<unat a. slot q (?P + j) = slot q ?P + j"
    using I(6) busy by (simp_all add: moving_def)
  have here: "b + of_nat (length ds) = place q (?P + length ds)"
    using b produce_at [OF ok I(3,2)] mv(2) room unfolding I(1) by (simp add: place_def add.assoc)
  have other: "place q i \<noteq> b + of_nat (length ds)" if "?C \<le> i" "i < ?P + length ds" for i
  proof
    assume "place q i = b + of_nat (length ds)"
    then have "i = ?P + length ds"
      using slot_inj [OF ok that(1), of "?P + length ds"] that(2) I(2) mv(1) room unfolding here place_def by simp
    then show False using that(2) by simp
  qed
  show ?thesis
    unfolding inv_def Let_def
    using I busy room other here by (auto simp: moving_def nth_append less_Suc_eq)
qed

lemma inv_ask_produce:
  assumes ok: "ok q" and inv: "inv q s" and a: "bytesAvailableToProduce_impl q (pi_hdr s) = Some (a, q1)"
  shows "inv q (s\<lparr>pi_prod := Busy a []\<rparr>)"
  using invD [OF inv] room [OF ok invD(3) [OF inv] invD(2) [OF inv]] a unfolding inv_def Let_def by (auto simp: moving_def)

lemma inv_ask_consume:
  assumes ok: "ok q" and inv: "inv q s" and a: "bytesAvailableToConsume_impl q (pi_hdr s) = Some (a, q1)"
  shows "inv q (s\<lparr>pi_cons := Busy a []\<rparr>)"
  using invD [OF inv] fill [OF ok invD(3) [OF inv] invD(2) [OF inv]] a unfolding inv_def Let_def by (auto simp: moving_def)

lemma inv_publish:
  assumes ok: "ok q" and inv: "inv q s" and busy: "pi_prod s = Busy a ds"
    and h: "produceBytes_impl (of_nat (length ds)) q (pi_hdr s) = Some (q1, h)"
  shows "inv q (s\<lparr>pi_hdr := h, pi_prod := Idle, pi_sent := pi_sent s @ ds\<rparr>)"
proof -
  let ?P = "length (pi_sent s)" and ?C = "length (pi_got s)"
  note I = invD [OF inv]
  have h: "h = counters (?P + length ds) ?C"
    using h plain [OF ok] unfolding I(1) by (simp add: produceBytes_impl_def move_view_def counters_def Let_def)
  have fits: "?P + length ds \<le> lim q ?C" using I(6) busy by (simp add: moving_def)
  have mem: "pi_mem s (place q i) = (pi_sent s @ ds) ! i" if "?C \<le> i" "i < ?P + length ds" for i
  proof (cases "i < ?P")
    case True
    then show ?thesis using I(5) that by (simp add: nth_append)
  next
    case False
    then show ?thesis using I(8) [OF busy, of "i - ?P"] that by (simp add: nth_append)
  qed
  have cons: "moving q ?C (?P + length ds) (pi_cons s)" using I(7) by (auto simp: moving_def split: side.splits)
  have got: "pi_got s = take ?C (pi_sent s @ ds)" using I(2,4) by simp
  have rd: "es = take (length es) (drop ?C (pi_sent s @ ds))" if "pi_cons s = Busy a' es" for a' es
  proof -
    have "length es \<le> ?P - ?C" using I(7) that I(9) [OF that] by (auto simp: moving_def)
    then show ?thesis using I(2) I(9) [OF that] by simp
  qed
  show ?thesis
    unfolding inv_def Let_def using h fits mem cons got rd I(2) by (auto simp: moving_def)
qed

lemma inv_read:
  assumes ok: "ok q" and inv: "inv q s" and busy: "pi_cons s = Busy a ds" and room: "length ds < unat a"
    and b: "bufferToConsume_impl q (pi_hdr s) = Some b"
  shows "inv q (s\<lparr>pi_cons := Busy a (ds @ [pi_mem s (b + of_nat (length ds))])\<rparr>)"
proof -
  let ?P = "length (pi_sent s)" and ?C = "length (pi_got s)"
  note I = invD [OF inv]
  have mv: "?C + unat a \<le> ?P" "\<forall>j<unat a. slot q (?C + j) = slot q ?C + j"
    using I(7) busy by (simp_all add: moving_def)
  have "b + of_nat (length ds) = place q (?C + length ds)"
    using b consume_at [OF ok I(3,2)] mv(2) room unfolding I(1) by (simp add: place_def add.assoc)
  then have byte: "pi_mem s (b + of_nat (length ds)) = drop ?C (pi_sent s) ! length ds"
    using I(5) [of "?C + length ds"] mv(1) room by simp
  have "length ds < length (drop ?C (pi_sent s))" using mv(1) room by simp
  then have "ds @ [drop ?C (pi_sent s) ! length ds] = take (Suc (length ds)) (drop ?C (pi_sent s))"
    using I(9) [OF busy] by (simp add: take_Suc_conv_app_nth)
  moreover define es where "es = ds @ [pi_mem s (b + of_nat (length ds))]"
  moreover have len: "length es = Suc (length ds)" by (simp add: es_def)
  ultimately have "es = take (length es) (drop ?C (pi_sent s))" unfolding byte by (simp only:)
  then show ?thesis
    unfolding inv_def Let_def es_def [symmetric] using I busy len room by (simp add: moving_def)
qed

lemma inv_retire:
  assumes ok: "ok q" and inv: "inv q s" and busy: "pi_cons s = Busy a ds"
    and h: "consumeBytes_impl (of_nat (length ds)) q (pi_hdr s) = Some (q1, h)"
  shows "inv q (s\<lparr>pi_hdr := h, pi_cons := Idle, pi_got := pi_got s @ ds\<rparr>)"
proof -
  let ?P = "length (pi_sent s)" and ?C = "length (pi_got s)"
  note I = invD [OF inv]
  have h: "h = counters ?P (?C + length ds)"
    using h plain [OF ok] unfolding I(1) by (simp add: consumeBytes_impl_def move_view_def counters_def Let_def)
  have le: "?C + length ds \<le> ?P" using I(7) busy by (simp add: moving_def)
  have more: "lim q ?C \<le> lim q (?C + length ds)" by (rule lim_mono [OF ok]) simp
  have "pi_got s @ ds = take ?C (pi_sent s) @ take (length ds) (drop ?C (pi_sent s))"
    using I(4) I(9) [OF busy] by simp
  then have got: "pi_got s @ ds = take (?C + length ds) (pi_sent s)" by (simp add: take_add)
  have prod: "moving q ?P (lim q (?C + length ds)) (pi_prod s)"
    using I(6) more by (auto simp: moving_def split: side.splits)
  have "?P \<le> lim q (?C + length ds)" using I(3) more by linarith
  then show ?thesis
    unfolding inv_def Let_def using h le got prod I(5,8) by (simp add: moving_def)
qed

lemma inv_step: "pipe_step q s s' \<Longrightarrow> ok q \<Longrightarrow> inv q s \<Longrightarrow> inv q s'"
  by (induction rule: pipe_step.induct)
    (blast intro: inv_ask_produce inv_ask_consume inv_write inv_read inv_publish inv_retire)+

lemma inv_reaches: "pipe_reaches q m s \<Longrightarrow> ok q \<Longrightarrow> inv q s"
  by (induction rule: pipe_reaches.induct) (blast intro: inv_start inv_step)+

lemma stream:
  assumes "ok q" and "pipe_reaches q m s"
  shows "pi_got s = take (length (pi_got s)) (pi_sent s) \<and> length (pi_got s) \<le> length (pi_sent s) \<and>
     length (pi_sent s) \<le> lim q (length (pi_got s))"
  using invD(2-4) [OF inv_reaches [OF assms(2,1)]] by blast

text \<open>Nobody waits in vain.\<close>

lemma progress:
  assumes "ok q" and "pipe_reaches q m s"
  shows "\<exists>a b. bytesAvailableToProduce_impl q (pi_hdr s) = Some (a, q) \<and>
     bytesAvailableToConsume_impl q (pi_hdr s) = Some (b, q) \<and>
     (length (pi_sent s) < lim q (length (pi_got s)) \<longrightarrow> a \<noteq> 0) \<and> (length (pi_got s) < length (pi_sent s) \<longrightarrow> b \<noteq> 0)"
proof -
  note I = invD [OF inv_reaches [OF assms(2,1)]]
  show ?thesis using room [OF assms(1) I(3,2)] fill [OF assms(1) I(3,2)] unfolding I(1) by fastforce
qed

end

end
