(* ===== verification/Pami_PipeVarieties.thy ===== *)
theory Pami_PipeVarieties
  imports Pami_PipeStream
begin

text \<open>
  The circular and the flat pipe work queue satisfy the contract of \<open>pipe_shape\<close>; so what comes
  out of either is what went in. The wrap-around of the counters and the adjustment that
  \<^verbatim>\<open>bytesAvailableToConsume_impl\<close> makes for it are part of the proof.
\<close>

section \<open>The circular buffer\<close>

definition circ_ok :: "pwq \<Rightarrow> bool" where
  "circ_ok q \<longleftrightarrow> pw_sharedqueue q \<noteq> SQ_null \<and> pw_prod_tm q = None \<and> pw_cons_tm q = None \<and>
     (\<exists>k\<in>{1..31}. unat (pw_qsize q) = 2 ^ k) \<and> pw_pmask q = pw_qsize q - 1 \<and> pw_isize q \<le> pw_qsize q"

definition circ_slot :: "pwq \<Rightarrow> nat \<Rightarrow> nat" where
  "circ_slot q i = i mod unat (pw_qsize q)"

definition circ_lim :: "pwq \<Rightarrow> nat \<Rightarrow> nat" where
  "circ_lim q C = C + unat (pw_qsize q)"

lemma circ_okE:
  assumes "circ_ok q"
  obtains k where "1 \<le> k" and "k \<le> 31" and "unat (pw_qsize q) = 2 ^ k" and "unat (pw_pmask q) = mask k"
    and "pw_pmask q \<noteq> 0"
proof -
  obtain k where k: "1 \<le> k" "k \<le> 31" "unat (pw_qsize q) = 2 ^ k" using assms by (auto simp: circ_ok_def)
  have "1 \<le> pw_qsize q" using k(3) by (simp add: word_le_nat_alt)
  then have m: "unat (pw_pmask q) = 2 ^ k - 1" using assms k(3) by (simp add: circ_ok_def unat_sub)
  have "(2::nat) ^ 1 \<le> 2 ^ k" using k(1) by (rule power_increasing) simp
  then have "unat (pw_pmask q) \<noteq> 0" using m by simp
  then have "pw_pmask q \<noteq> 0" by auto
  then show ?thesis using that [OF k] m by (simp add: mask_eq_exp_minus_1)
qed

lemma mod_of_nat64: "k \<le> 64 \<Longrightarrow> unat (of_nat n :: size_t) mod 2 ^ k = n mod 2 ^ k"
proof -
  assume "k \<le> 64"
  then have "n mod 2 ^ 64 mod 2 ^ k = n mod 2 ^ k" by (intro mod_mod_cancel le_imp_power_dvd)
  then show ?thesis by (simp add: unat_of_nat take_bit_eq_mod)
qed

lemma unat_ring_offset:
  assumes "circ_ok q"
  shows "unat (ring_offset q (of_nat n)) = n mod unat (pw_qsize q)"
proof -
  obtain k where k: "1 \<le> k" "k \<le> 31" "unat (pw_qsize q) = 2 ^ k" "unat (pw_pmask q) = mask k"
    using circ_okE [OF assms] by metis
  have "unat (of_nat n AND ucast (pw_pmask q) :: size_t) = unat (of_nat n :: size_t) AND mask k"
    by (simp only: unsigned_and_eq unat_ucast_uint k(4))
  also have "\<dots> = n mod 2 ^ k"
    using k(2) by (simp only: take_bit_eq_mask [symmetric] take_bit_eq_mod) (rule mod_of_nat64, simp)
  finally have *: "unat (of_nat n AND ucast (pw_pmask q) :: size_t) = n mod 2 ^ k" .
  have "n mod 2 ^ k < (2::nat) ^ k" by simp
  also have "\<dots> \<le> 2 ^ 32" using k(2) by (intro power_increasing) simp_all
  finally have "take_bit 32 (n mod 2 ^ k) = n mod 2 ^ k" by (simp add: take_bit_nat_eq_self)
  then show ?thesis using * k(3) by (simp add: ring_offset_def unsigned_ucast_eq)
qed

text \<open>The arithmetic of a window of at most \<open>Q\<close> positions.\<close>

lemma window_mod:
  assumes "0 < (Q::nat)" and "C \<le> P" and "P \<le> C + Q"
  shows "C mod Q < P mod Q \<Longrightarrow> P - C = P mod Q - C mod Q"
    and "P mod Q < C mod Q \<Longrightarrow> P - C = Q - (C mod Q - P mod Q)"
    and "P mod Q = C mod Q \<Longrightarrow> P = C \<or> P = C + Q"
proof -
  define d where "d = P - C"
  have P: "P = C + d" "d \<le> Q" using assms by (simp_all add: d_def)
  have less: "C mod Q < Q" using assms(1) by simp
  have eq: "P mod Q = (if C mod Q + d < Q then C mod Q + d else if C mod Q + d < 2 * Q then C mod Q + d - Q else 0)" 
  proof -
    have "P mod Q = (C mod Q + d) mod Q" unfolding P(1) by (simp add: mod_add_left_eq)
    moreover have "C mod Q + d < 2 * Q" using less P(2) by linarith
    ultimately show ?thesis using le_mod_geq [of Q "C mod Q + d"] by (auto simp: not_less)
  qed
  show "C mod Q < P mod Q \<Longrightarrow> P - C = P mod Q - C mod Q"
    and "P mod Q < C mod Q \<Longrightarrow> P - C = Q - (C mod Q - P mod Q)"
    and "P mod Q = C mod Q \<Longrightarrow> P = C \<or> P = C + Q"
    using eq P less by (auto split: if_splits)
qed

lemma ucast_qsize: "(ucast (n::uint_t) :: size_t) = of_nat (unat n)"
  by (simp add: word_unat_eq_iff unat_ucast_uint unat_of_nat64 less_trans [OF unat32_less])

lemma unat_ucast_diff:
  "(y::uint_t) \<le> x \<Longrightarrow> unat (ucast (x - y) :: size_t) = unat x - unat y"
  by (simp only: unat_ucast_uint unat_sub)

lemma circ_to_produce_room:
  assumes ok: "circ_ok q" and "C \<le> P" and "P \<le> C + unat (pw_qsize q)"
  shows "unat (circ_to_produce q (of_nat P) (of_nat C)) =
     min (C + unat (pw_qsize q) - P) (unat (pw_qsize q) - P mod unat (pw_qsize q))"
proof -
  let ?Q = "unat (pw_qsize q)"
  obtain k where k: "1 \<le> k" "k \<le> 31" "?Q = 2 ^ k" using circ_okE [OF ok] by metis
  have Q: "0 < ?Q" "?Q < 2 ^ 64" using k by simp (rule less_trans [OF unat32_less], simp)
  note w = window_mod [OF Q(1) assms(2,3)]
  note po = unat_ring_offset [OF ok, of P] and co = unat_ring_offset [OF ok, of C]
  have m: "P mod ?Q < ?Q" "C mod ?Q < ?Q" using Q(1) by simp_all
  have le: "ring_offset q (of_nat P) \<le> pw_qsize q" using po m by (simp add: word_le_nat_alt)
  consider "C mod ?Q < P mod ?Q" | "P mod ?Q < C mod ?Q" | "P mod ?Q = C mod ?Q" "P = C" | "P mod ?Q = C mod ?Q" "P = C + ?Q"
    using w(3) by linarith
  then show ?thesis
  proof cases
    case 1
    then show ?thesis using w(1) m le po co
      by (simp add: circ_to_produce_def word_less_nat_alt unat_ucast_diff)
  next
    case 2
    then have "ring_offset q (of_nat P) \<le> ring_offset q (of_nat C)" using po co by (simp add: word_le_nat_alt)
    then show ?thesis using 2 w(2) m po co assms(2)
      by (simp add: circ_to_produce_def word_less_nat_alt unat_ucast_diff)
  next
    case 3
    then show ?thesis using le po
      by (simp add: circ_to_produce_def word_less_nat_alt unat_ucast_diff)
  next
    case 4
    have "(of_nat P :: size_t) \<noteq> of_nat C"
    proof
      assume "(of_nat P :: size_t) = of_nat C"
      then have "(of_nat ?Q :: size_t) = 0" using 4(2) by (simp only: of_nat_add) simp
      then have "unat (of_nat ?Q :: size_t) = 0" by (simp only: unat_0)
      then show False using Q unat_of_nat64 [OF Q(2)] by (simp only:)
    qed
    then show ?thesis using 4 po co by (simp add: circ_to_produce_def word_less_nat_alt Let_def)
  qed
qed


text \<open>The test for counters on both sides of the wrap-around point.\<close>

lemma bump:
  fixes P C Q :: nat
  assumes Q: "Q < 2 ^ 32" and "C \<le> P" and "P \<le> C + Q"
  defines "b \<equiv> (of_nat P :: size_t) < of_nat C \<and> (of_nat C :: size_t) + of_nat Q < of_nat P + of_nat Q"
  shows "(if b then (of_nat C :: size_t) + of_nat Q else of_nat C) < (if b then of_nat P + of_nat Q else of_nat P) \<longleftrightarrow> C < P"
proof -
  define u where "u = unat (of_nat C :: size_t)"
  define d where "d = P - C"
  have d: "P = C + d" "d \<le> Q" using assms by (simp_all add: d_def)
  have u: "u < 2 ^ 64" unfolding u_def by (rule unat64_less)
  have C: "(of_nat C :: size_t) = of_nat u" by (simp add: u_def)
  have P: "(of_nat P :: size_t) = of_nat (u + d)" unfolding d(1) by (simp add: C)
  have lift: "unat (of_nat n :: size_t) = (if n < 2 ^ 64 then n else n - 2 ^ 64)" if "n < 2 * 2 ^ 64" for n
  proof (cases "n < 2 ^ 64")
    case True
    then show ?thesis by (simp add: unat_of_nat64)
  next
    case False
    then have "(of_nat n :: size_t) = of_nat (n - 2 ^ 64)" by (simp add: of_nat_diff)
    moreover have "unat (of_nat (n - 2 ^ 64) :: size_t) = n - 2 ^ 64" using that by (intro unat_of_nat64) simp
    ultimately show ?thesis using False by (simp only: if_False)
  qed
  have "unat (of_nat u :: size_t) = u" by (rule unat_of_nat64 [OF u])
  moreover have "unat (of_nat (u + d) :: size_t) = (if u + d < 2 ^ 64 then u + d else u + d - 2 ^ 64)"
    "unat (of_nat (u + Q) :: size_t) = (if u + Q < 2 ^ 64 then u + Q else u + Q - 2 ^ 64)"
    "unat (of_nat (u + d + Q) :: size_t) = (if u + d + Q < 2 ^ 64 then u + d + Q else u + d + Q - 2 ^ 64)"
    using u d Q by (intro lift; simp)+
  ultimately show ?thesis
    unfolding b_def C P of_nat_add [symmetric] word_less_nat_alt using d u Q by (auto simp del: of_nat_add)
qed

lemma circ_to_consume_fill:
  assumes ok: "circ_ok q" and "C \<le> P" and "P \<le> C + unat (pw_qsize q)"
  shows "unat (circ_to_consume q (of_nat P) (of_nat C)) =
     min (P - C) (unat (pw_qsize q) - C mod unat (pw_qsize q))"
proof -
  let ?Q = "unat (pw_qsize q)"
  obtain k where k: "1 \<le> k" "k \<le> 31" "?Q = 2 ^ k" using circ_okE [OF ok] by metis
  have Q: "0 < ?Q" using k by simp
  have sz: "(ucast (pw_qsize q) :: size_t) = of_nat ?Q"
    by (simp add: word_unat_eq_iff unat_ucast_uint unat_of_nat64 less_trans [OF unat32_less])
  define b where "b \<longleftrightarrow> (of_nat P :: size_t) < of_nat C \<and> (of_nat C :: size_t) + of_nat ?Q < of_nat P + of_nat ?Q"
  define P' where "P' = (if b then P + ?Q else P)"
  define C' where "C' = (if b then C + ?Q else C)"
  have PC: "(if b then of_nat P + of_nat ?Q else of_nat P :: size_t) = of_nat P'"
    "(if b then of_nat C + of_nat ?Q else of_nat C :: size_t) = of_nat C'"
    by (simp_all add: P'_def C'_def)
  have mods: "P' mod ?Q = P mod ?Q" "C' mod ?Q = C mod ?Q" by (simp_all add: P'_def C'_def)
  have less: "(of_nat C' :: size_t) < of_nat P' \<longleftrightarrow> C < P"
    using bump [OF unat32_less assms(2,3)] unfolding b_def [symmetric] PC .
  note w = window_mod [OF Q assms(2,3)]
  note po = unat_ring_offset [OF ok, of P', unfolded mods(1)]
  note co = unat_ring_offset [OF ok, of C', unfolded mods(2)]
  have m: "P mod ?Q < ?Q" "C mod ?Q < ?Q" using Q by simp_all
  have le: "ring_offset q (of_nat C') \<le> pw_qsize q" using co m by (simp add: word_le_nat_alt)
  have val: "circ_to_consume q (of_nat P) (of_nat C) =
      (if ring_offset q (of_nat C') < ring_offset q (of_nat P') then ucast (ring_offset q (of_nat P') - ring_offset q (of_nat C'))
       else if ring_offset q (of_nat P') < ring_offset q (of_nat C') then ucast (pw_qsize q - ring_offset q (of_nat C'))
       else if C < P then ucast (pw_qsize q - ring_offset q (of_nat C')) else 0)"
    unfolding circ_to_consume_def Let_def sz b_def [symmetric] PC less ..
  consider "C mod ?Q < P mod ?Q" | "P mod ?Q < C mod ?Q" | "P mod ?Q = C mod ?Q" "P = C" | "P mod ?Q = C mod ?Q" "P = C + ?Q"
    using w(3) by linarith
  then show ?thesis
  proof cases
    case 1
    then have "ring_offset q (of_nat C') \<le> ring_offset q (of_nat P')" using po co by (simp add: word_le_nat_alt)
    moreover have "P mod ?Q - C mod ?Q \<le> ?Q - C mod ?Q" using m by linarith
    ultimately show ?thesis using 1 w(1) po co
      by (simp add: val word_less_nat_alt unat_ucast_diff min.absorb1)
  next
    case 2
    then show ?thesis using w(2) m po co le assms(2) by (simp add: val word_less_nat_alt unat_ucast_diff)
  next
    case 3
    then show ?thesis unfolding val using po co by (simp add: word_less_nat_alt)
  next
    case 4
    then show ?thesis unfolding val using po co le Q by (simp add: word_less_nat_alt unat_ucast_diff)
  qed
qed


lemma window_inj:
  assumes "0 < (Q::nat)" and "C \<le> i" and "i < C + Q" and "C \<le> j" and "j < C + Q" and eq: "i mod Q = j mod Q"
  shows "i = j"
proof (cases "i \<le> j")
  case True
  have "j \<le> i + Q" using assms by linarith
  from window_mod(3) [OF assms(1) True this eq [symmetric]] show ?thesis using assms(2,5) by linarith
next
  case False
  then have "j \<le> i" "i \<le> j + Q" using assms by linarith+
  from window_mod(3) [OF assms(1) this eq] show ?thesis using assms(3,4) by linarith
qed

lemma mod_add_small: "P mod Q + j < (Q::nat) \<Longrightarrow> (P + j) mod Q = P mod Q + j"
  using mod_add_left_eq [of P Q j] by simp

lemma circ_plain: "circ_ok q \<Longrightarrow> pw_sharedqueue q \<noteq> SQ_null \<and> pw_prod_tm q = None \<and> pw_cons_tm q = None"
  by (simp add: circ_ok_def)

lemma circ_offset: "circ_ok q \<Longrightarrow> (ucast (ring_offset q (of_nat n)) :: size_t) = of_nat (circ_slot q n)"
  unfolding ucast_qsize circ_slot_def unat_ring_offset ..

lemma circ_size: "circ_ok q \<Longrightarrow> 0 < unat (pw_qsize q)"
  by (auto simp: circ_ok_def)

interpretation circ: pipe_shape circ_ok circ_slot circ_lim
proof (unfold_locales, goal_cases)
  case (3 q)
  then show ?case using circ_size [OF 3] by (auto simp: circ_ok_def circ_lim_def circ_slot_def word_le_nat_alt)
next
  case (4 q C i j)
  let ?Q = "unat (pw_qsize q)"
  have lt: "n mod ?Q < 2 ^ 64" for n
    using mod_less_divisor [OF circ_size [OF 4(1)], of n] unat32_less [of "pw_qsize q"] by simp
  have "unat (of_nat (circ_slot q i) :: size_t) = unat (of_nat (circ_slot q j) :: size_t)" using 4(6) by simp
  then have "i mod ?Q = j mod ?Q" unfolding circ_slot_def unat_of_nat64 [OF lt] .
  then show ?case using window_inj [OF circ_size [OF 4(1)] 4(2) _ 4(4)] 4(3,5) unfolding circ_lim_def by blast
next
  case (7 q P C)
  let ?a = "circ_to_produce q (of_nat P) (of_nat C)"
  have a: "unat ?a = min (C + unat (pw_qsize q) - P) (unat (pw_qsize q) - P mod unat (pw_qsize q))"
    using circ_to_produce_room [OF 7(1,3)] 7(2) by (simp add: circ_lim_def)
  have "bytesAvailableToProduce_impl q (counters P C) = Some (?a, q)"
    using circ_plain [OF 7(1)] circ_okE [OF 7(1)] by (auto simp: bytesAvailableToProduce_impl_def counters_def)
  then show ?case using a mod_less_divisor [OF circ_size [OF 7(1)], of P] 7(2)
    by (auto simp: circ_lim_def circ_slot_def intro!: mod_add_small)
next
  case (8 q P C)
  let ?a = "circ_to_consume q (of_nat P) (of_nat C)"
  have a: "unat ?a = min (P - C) (unat (pw_qsize q) - C mod unat (pw_qsize q))"
    using circ_to_consume_fill [OF 8(1,3)] 8(2) by (simp add: circ_lim_def)
  have "bytesAvailableToConsume_impl q (counters P C) = Some (?a, q)"
    using circ_plain [OF 8(1)] circ_okE [OF 8(1)] by (auto simp: bytesAvailableToConsume_impl_def counters_def)
  then show ?case using a mod_less_divisor [OF circ_size [OF 8(1)], of C] 8(3)
    by (auto simp: circ_lim_def circ_slot_def intro!: mod_add_small)
next
  case (5 q P C)
  then show ?case using circ_okE [OF 5(1)] circ_plain [OF 5(1)]
    by (auto simp: bufferToProduce_impl_def counters_def circ_offset)
next
  case (6 q P C)
  then show ?case using circ_okE [OF 6(1)] circ_plain [OF 6(1)]
    by (auto simp: bufferToConsume_impl_def counters_def circ_offset)
qed (simp_all add: circ_plain circ_lim_def)

section \<open>The flat buffer\<close>

definition flat_ok :: "pwq \<Rightarrow> bool" where
  "flat_ok q \<longleftrightarrow> pw_sharedqueue q \<noteq> SQ_null \<and> pw_prod_tm q = None \<and> pw_cons_tm q = None \<and>
     pw_pmask q = 0 \<and> pw_isize q \<le> pw_qsize q"

definition flat_slot :: "pwq \<Rightarrow> nat \<Rightarrow> nat" where
  "flat_slot q i = i"

definition flat_lim :: "pwq \<Rightarrow> nat \<Rightarrow> nat" where
  "flat_lim q C = unat (pw_qsize q)"

lemma unat_of_nat_diff:
  "b \<le> a \<Longrightarrow> a < 2 ^ 64 \<Longrightarrow> unat (of_nat a - of_nat b :: size_t) = a - b"
  by (metis of_nat_diff unat_of_nat64 less_imp_diff_less)

lemma flat_size: "n \<le> flat_lim q C \<Longrightarrow> n < 2 ^ 64"
  using unat32_less [of "pw_qsize q"] by (simp add: flat_lim_def)

interpretation flat: pipe_shape flat_ok flat_slot flat_lim
proof (unfold_locales, goal_cases)
  case (4 q C i j)
  have "unat (of_nat i :: size_t) = unat (of_nat j :: size_t)" using 4(6) by (simp add: flat_slot_def)
  then show ?case
    unfolding unat_of_nat64 [OF flat_size [OF less_imp_le [OF 4(3)]]] unat_of_nat64 [OF flat_size [OF less_imp_le [OF 4(5)]]] .
next
  case (7 q P C)
  have "unat (ucast (pw_qsize q) - of_nat P :: size_t) = unat (pw_qsize q) - P"
    unfolding ucast_qsize using 7(2) flat_size [of "unat (pw_qsize q)" q 0]
    by (intro unat_of_nat_diff) (simp_all add: flat_lim_def)
  then show ?case using 7
    by (auto simp: flat_ok_def bytesAvailableToProduce_impl_def counters_def flat_lim_def flat_slot_def)
next
  case (8 q P C)
  then show ?case using unat_of_nat_diff [of C P] flat_size [OF 8(2)]
    by (auto simp: flat_ok_def bytesAvailableToConsume_impl_def counters_def flat_slot_def)
qed (auto simp: flat_ok_def flat_lim_def flat_slot_def bufferToProduce_impl_def bufferToConsume_impl_def counters_def word_le_nat_alt)


section \<open>Properties\<close>

lemma shared_circ_ok:
  assumes "k \<in> {1..31}" and "unat bufsize = 2 ^ k" and "configure_shared alloc bufsize PipeWorkQueue_new = Some (q, h)"
  shows "circ_ok q \<and> unat (pw_qsize q) = 2 ^ k \<and> pi_hdr (pipe_start q m) = h"
proof -
  have "(2::nat) ^ k \<le> 2 ^ 31" using assms(1) by (intro power_increasing) simp_all
  then have "unat (ucast bufsize :: uint_t) = 2 ^ k" using assms(1,2) by (simp add: unsigned_ucast_eq take_bit_nat_eq_self)
  then show ?thesis using assms(1,3)
    by (auto simp: configure_shared_def PipeWorkQueue_new_def circ_ok_def pipe_start_def Let_def split: option.splits)
qed

text \<open>C15: The circular pipe is a reliable stream. In every state that a producer and a consumer reach by
  single calls and memory accesses in any order, whatever the counters have wrapped around to, the
  consumed bytes are a prefix of the produced ones, and at most the size of the buffer is in flight.\<close>

theorem circular_pipe_stream:
  assumes "k \<in> {1..31}" and "unat bufsize = 2 ^ k"
    and "configure_shared alloc bufsize PipeWorkQueue_new = Some (q, h)" and "pipe_reaches q m s"
  shows "pi_hdr (pipe_start q m) = h \<and> pi_got s = take (length (pi_got s)) (pi_sent s) \<and>
     length (pi_got s) \<le> length (pi_sent s) \<and> length (pi_sent s) \<le> length (pi_got s) + 2 ^ k"
  using circ.stream [OF _ assms(4)] shared_circ_ok [OF assms(1-3), of m] by (simp add: circ_lim_def)

definition demo_alloc :: "size_t \<Rightarrow> size_t option" where
  "demo_alloc n = Some 4096"

definition demo_q :: pwq where
  "demo_q = \<lparr>pw_qsize = 4, pw_isize = 0, pw_pmask = 3, pw_buffer = 4112, pw_sharedqueue = SQ_shared,
     pw_prod_tm = None, pw_cons_tm = None\<rparr>"

definition demo_s :: pipe where
  "demo_s = \<lparr>pi_hdr = \<lparr>producedBytes = 1, consumedBytes = 1\<rparr>, pi_mem = (\<lambda>_. 0)(4112 := 7),
     pi_prod = Idle, pi_cons = Idle, pi_sent = [7], pi_got = [7]\<rparr>"

lemma demo_configured:
  "configure_shared demo_alloc 4 PipeWorkQueue_new = Some (demo_q, \<lparr>producedBytes = 0, consumedBytes = 0\<rparr>)"
  by (simp add: configure_shared_def demo_alloc_def PipeWorkQueue_new_def demo_q_def)

lemmas demo_calls = bytesAvailableToProduce_impl_def bytesAvailableToConsume_impl_def bufferToProduce_impl_def
  bufferToConsume_impl_def produceBytes_impl_def consumeBytes_impl_def circ_to_produce_def circ_to_consume_def
  ring_offset_def move_view_def demo_q_def

lemma demo_reaches: "pipe_reaches demo_q (\<lambda>_. 0) demo_s"
proof -
  let ?s0 = "pipe_start demo_q (\<lambda>_. 0)"
  let ?s1 = "?s0\<lparr>pi_prod := Busy 4 []\<rparr>"
  let ?s2 = "?s1\<lparr>pi_mem := (pi_mem ?s1)(4112 + of_nat (length ([] :: 8 word list)) := 7), pi_prod := Busy 4 ([] @ [7])\<rparr>"
  let ?s3 = "?s2\<lparr>pi_hdr := \<lparr>producedBytes = 1, consumedBytes = 0\<rparr>, pi_prod := Idle, pi_sent := pi_sent ?s2 @ [7]\<rparr>"
  let ?s4 = "?s3\<lparr>pi_cons := Busy 1 []\<rparr>"
  let ?s5 = "?s4\<lparr>pi_cons := Busy 1 ([] @ [pi_mem ?s4 (4112 + of_nat (length ([] :: 8 word list)))])\<rparr>"
  let ?s6 = "?s5\<lparr>pi_hdr := \<lparr>producedBytes = 1, consumedBytes = 1\<rparr>, pi_cons := Idle, pi_got := pi_got ?s5 @ [7]\<rparr>"
  note next_step = pipe_reaches.step [where q = demo_q and m = "\<lambda>_. 0"] and calls = demo_calls pipe_start_def
  have "pipe_reaches demo_q (\<lambda>_. 0) ?s1"
    by (rule next_step [OF pipe_reaches.start], rule pipe_step.ask_produce) (simp_all add: calls)
  then have "pipe_reaches demo_q (\<lambda>_. 0) ?s2"
    by (rule next_step, intro pipe_step.write_byte) (simp_all add: calls)
  then have "pipe_reaches demo_q (\<lambda>_. 0) ?s3"
    by (rule next_step, intro pipe_step.publish [where a = 4]) (simp_all add: calls)
  then have "pipe_reaches demo_q (\<lambda>_. 0) ?s4"
    by (rule next_step, intro pipe_step.ask_consume) (simp_all add: calls)
  then have "pipe_reaches demo_q (\<lambda>_. 0) ?s5"
    by (rule next_step, intro pipe_step.read_byte) (simp_all add: calls)
  then have "pipe_reaches demo_q (\<lambda>_. 0) ?s6"
    by (rule next_step, intro pipe_step.retire [where a = 1]) (simp_all add: calls)
  then show ?thesis by (simp add: demo_s_def calls)
qed

theorem circular_pipe_stream_witness:
  "pi_got demo_s = [7] \<and> pi_got demo_s = take (length (pi_got demo_s)) (pi_sent demo_s) \<and>
     length (pi_sent demo_s) \<le> length (pi_got demo_s) + 2 ^ 2"
  using circular_pipe_stream [OF _ _ demo_configured demo_reaches, of 2] by (simp add: demo_s_def)




definition demo_flat :: pwq where
  "demo_flat = \<lparr>pw_qsize = 8, pw_isize = 3, pw_pmask = 0, pw_buffer = 4096, pw_sharedqueue = SQ_own,
     pw_prod_tm = None, pw_cons_tm = None\<rparr>"

lemma demo_flat_configured:
  "configure_flat byte_max 4096 8 3 None None PipeWorkQueue_new = Some (demo_flat, \<lparr>producedBytes = 3, consumedBytes = 0\<rparr>)"
  by (simp add: configure_flat_def view_machine_def move_view_def set_view_def PipeWorkQueue_new_def demo_flat_def)

lemma demo_flat_reaches:
  "pipe_reaches demo_flat (\<lambda>_. 5) ((pipe_start demo_flat (\<lambda>_. 5))\<lparr>pi_cons := Busy 3 []\<rparr>)"
  by (rule pipe_reaches.step [OF pipe_reaches.start], rule pipe_step.ask_consume)
    (simp_all add: demo_flat_def pipe_start_def bytesAvailableToConsume_impl_def)


section \<open>Where the queue departs from its description\<close>

text \<open>A circular buffer of one byte has the mask 0 and is taken for a flat one: once a byte has
  passed through, no room is ever reported again.\<close>

lemma one_byte_ring_stuck:
  "configure_shared alloc 1 PipeWorkQueue_new = Some (q, h) \<Longrightarrow>
     bytesAvailableToProduce_impl q \<lparr>producedBytes = 1, consumedBytes = 1\<rparr> = Some (0, q)"
  by (auto simp: configure_shared_def PipeWorkQueue_new_def bytesAvailableToProduce_impl_def Let_def split: option.splits)

text \<open>A type with gaps: the twelve bytes of \<open>vector_type\<close> are reported as consumable in one piece,
  but only four of them are adjacent.\<close>

lemma strided_view_over_reported:
  "map_option (\<lambda>(q, h). (map_option fst (bytesAvailableToConsume_impl q h), bufferToConsume_impl q h))
     (configure_flat byte_max 4096 24 24 None (Some vector_type) PipeWorkQueue_new) = Some (Some 12, Some 4096) \<and>
   addrs 4096 [ICopy 4 8 3] 4 8 ! 0 = 4096 + 8"
  by (rule conjI, code_simp, simp add: vector_addrs)

end
