(* ===== verification/Pami_Radix.thy ===== *)
theory Pami_Radix
  imports Pami_Prelude
begin

text \<open>
  Mixed radix numbers: the position of a coordinate in a box, the last dimension running fastest.
  The task estimate of the map cache and the indices of a rectangular topology are such numbers.
\<close>

text \<open>Least significant digit first.\<close>

fun lval :: "nat list \<Rightarrow> nat list \<Rightarrow> nat" where
  "lval (s # ss) (x # xs) = x + s * lval ss xs"
| "lval _ _ = 0"

fun ldigits :: "nat list \<Rightarrow> nat \<Rightarrow> nat list" where
  "ldigits [] n = []"
| "ldigits (s # ss) n = n mod s # ldigits ss (n div s)"

definition digits_ok :: "nat list \<Rightarrow> nat list \<Rightarrow> bool" where
  "digits_ok ss xs \<longleftrightarrow> list_all2 (\<lambda>s x. x < s) ss xs"

lemma digits_ok_simps [simp]:
  "digits_ok [] xs \<longleftrightarrow> xs = []" "digits_ok ss [] \<longleftrightarrow> ss = []"
  "digits_ok (s # ss) (x # xs) \<longleftrightarrow> x < s \<and> digits_ok ss xs"
  by (simp_all add: digits_ok_def)

lemma digits_ok_length: "digits_ok ss xs \<Longrightarrow> length xs = length ss"
  by (auto simp: digits_ok_def dest: list_all2_lengthD)

lemma digits_ok_rev [simp]: "digits_ok (rev ss) (rev xs) = digits_ok ss xs"
  by (simp add: digits_ok_def)

lemma lval_less: "digits_ok ss xs \<Longrightarrow> lval ss xs < prod_list ss"
proof (induction ss xs rule: lval.induct)
  case (1 s ss x xs)
  then have "s * lval ss xs \<le> s * (prod_list ss - 1)" and "1 \<le> prod_list ss" by simp_all
  then have "x + s * lval ss xs < s + s * (prod_list ss - 1)" using 1(2) by (intro add_less_le_mono) simp_all
  also have "\<dots> = s * prod_list ss" using \<open>1 \<le> prod_list ss\<close> by (cases "prod_list ss") simp_all
  finally show ?case by simp
qed auto

lemma ldigits_lval: "digits_ok ss xs \<Longrightarrow> ldigits ss (lval ss xs) = xs"
  by (induction ss xs rule: lval.induct) auto

lemma lval_ldigits: "n < prod_list ss \<Longrightarrow> lval ss (ldigits ss n) = n"
proof (induction ss arbitrary: n)
  case (Cons s ss)
  then have "n div s < prod_list ss" by (simp add: less_mult_imp_div_less mult.commute)
  then show ?case using Cons.IH by simp
qed simp

lemma ldigits_ok: "n < prod_list ss \<Longrightarrow> digits_ok ss (ldigits ss n)"
proof (induction ss arbitrary: n)
  case (Cons s ss)
  then have "0 < s" by (cases s) simp_all
  moreover have "n div s < prod_list ss" using Cons.prems by (simp add: less_mult_imp_div_less mult.commute)
  ultimately show ?case using Cons.IH by simp
qed simp

text \<open>Most significant digit first.\<close>

definition mval :: "nat list \<Rightarrow> nat list \<Rightarrow> nat" where
  "mval ss xs = lval (rev ss) (rev xs)"

definition mdigits :: "nat list \<Rightarrow> nat \<Rightarrow> nat list" where
  "mdigits ss n = rev (ldigits (rev ss) n)"

lemma mval_less: "digits_ok ss xs \<Longrightarrow> mval ss xs < prod_list ss"
  using lval_less [of "rev ss" "rev xs"] by (simp add: mval_def prod_list.rev)

lemma mdigits_mval: "digits_ok ss xs \<Longrightarrow> mdigits ss (mval ss xs) = xs"
  by (simp add: mdigits_def mval_def ldigits_lval)

lemma mval_mdigits: "n < prod_list ss \<Longrightarrow> mval ss (mdigits ss n) = n"
  by (simp add: mdigits_def mval_def lval_ldigits prod_list.rev)

lemma mdigits_ok: "n < prod_list ss \<Longrightarrow> digits_ok ss (mdigits ss n)"
  using ldigits_ok [of n "rev ss"] digits_ok_rev [of ss "mdigits ss n"] by (simp add: mdigits_def prod_list.rev)

lemma mval_inj: "digits_ok ss xs \<Longrightarrow> digits_ok ss ys \<Longrightarrow> mval ss xs = mval ss ys \<Longrightarrow> xs = ys"
  using mdigits_mval by metis

lemma lval_snoc: "length xs = length ss \<Longrightarrow> lval (ss @ [s]) (xs @ [x]) = lval ss xs + prod_list ss * x"
  by (induction ss xs rule: list_induct2') (auto simp: algebra_simps)

lemma mval_Cons: "length xs = length ss \<Longrightarrow> mval (s # ss) (x # xs) = x * prod_list ss + mval ss xs"
  by (simp add: mval_def lval_snoc prod_list.rev mult.commute add.commute)

text \<open>Horner's scheme, which is how the sources compute it.\<close>

fun horner :: "nat \<Rightarrow> nat list \<Rightarrow> nat list \<Rightarrow> nat" where
  "horner h (s # ss) (x # xs) = horner (h * s + x) ss xs"
| "horner h _ _ = h"

lemma horner_mval: "length xs = length ss \<Longrightarrow> horner h ss xs = h * prod_list ss + mval ss xs"
proof (induction h ss xs rule: horner.induct)
  case (1 h s ss x xs)
  then show ?case by (simp add: mval_Cons algebra_simps)
qed (auto simp: mval_def)

lemma digits_horner_less: "digits_ok ss xs \<Longrightarrow> horner 0 ss xs < prod_list ss"
  by (simp add: horner_mval digits_ok_length mval_less)

end
