(* ===== verification/Pami_BgqMapping.thy ===== *)
theory Pami_BgqMapping
  imports Pami_Radix
begin

unbundle bit_operations_syntax

text \<open>
  \<^verbatim>\<open>common/bgq/Mapping.h\<close> and the map cache of \<^verbatim>\<open>common/bgq/BgqMapCache.h\<close>: tasks,
  torus coordinates and node addresses of Blue Gene/Q. A coordinate is the list of its six
  dimensions a, b, c, d, e and t. The cache packs the coordinates of a task into 32 bits, some of
  which carry flags. A table access behind the end of a table reads what the memory holds there,
  \<open>bm_beyond\<close>.
\<close>

type_synonym coord = "size_t list"

record bgq_map =
  bm_sizes :: coord              \<comment> \<open>aSize to tSize of the personality\<close>
  bm_coords :: coord             \<comment> \<open>the coordinates of this process\<close>
  bm_torusInfo :: "bool list"
  bm_jobLL :: uint_t             \<comment> \<open>the lower left corner of the job, packed\<close>
  bm_task :: size_t
  bm_task2coords :: "uint_t list"
  bm_coords2task :: "uint_t list"
  bm_local2peer :: "size_t list"
  bm_peer2task :: "size_t list"
  bm_size :: size_t
  bm_local_size :: size_t
  bm_lowestT :: size_t
  bm_numActiveNodes :: size_t
  bm_beyond :: "nat \<Rightarrow> uint_t"

section \<open>Packed coordinates\<close>

definition raw_of :: "bgq_map \<Rightarrow> size_t \<Rightarrow> uint_t" where
  "raw_of M task =
     (if unat task < length (bm_task2coords M) then bm_task2coords M ! unat task else bm_beyond M (unat task))"

definition raw_coords :: "uint_t \<Rightarrow> coord" where
  "raw_coords abcdet =
     map ucast [drop_bit 24 abcdet AND 0x1f, drop_bit 18 abcdet AND 0x1f, drop_bit 12 abcdet AND 0xf,
                drop_bit 6 abcdet AND 0xf, drop_bit 31 abcdet, abcdet AND 0x3f]"

definition task2network_impl :: "bgq_map \<Rightarrow> size_t \<Rightarrow> coord" where
  "task2network_impl M task = raw_coords (raw_of M task)"

definition task2global :: "bgq_map \<Rightarrow> size_t \<Rightarrow> coord" where
  "task2global M task = raw_coords (raw_of M task)"

definition task2torus_impl :: "bgq_map \<Rightarrow> size_t \<Rightarrow> coord" where
  "task2torus_impl M task = take 5 (raw_coords (raw_of M task))"

definition torusAddr_impl :: "bgq_map \<Rightarrow> coord" where
  "torusAddr_impl M = bm_coords M"

definition torusgetcoord_impl :: "bgq_map \<Rightarrow> nat \<Rightarrow> size_t option" where
  "torusgetcoord_impl M dimension = (if 6 \<le> dimension then None else Some (torusAddr_impl M ! dimension))"

section \<open>From coordinates to tasks\<close>

fun ESTIMATED_TASK :: "coord \<Rightarrow> coord \<Rightarrow> size_t" where
  "ESTIMATED_TASK [a, b, c, d, e, t] [aSize, bSize, cSize, dSize, eSize, tSize] =
     ((((a * bSize + b) * cSize + c) * dSize + d) * eSize + e) * tSize + t"
| "ESTIMATED_TASK _ _ = 0"

definition task_at :: "bgq_map \<Rightarrow> size_t \<Rightarrow> uint_t" where
  "task_at M hash =
     (if unat hash < length (bm_coords2task M) then bm_coords2task M ! unat hash else bm_beyond M (unat hash))"

text \<open>The result of a lookup: an error code or the task.\<close>

definition torus2task_impl :: "bgq_map \<Rightarrow> coord \<Rightarrow> pami_result + uint_t" where
  "torus2task_impl M addr =
     (if list_ex (\<lambda>(x, sz). sz \<le> x) (zip addr (bm_sizes M)) then Inl PAMI_INVAL
      else (let task = task_at M (ESTIMATED_TASK addr (bm_sizes M)) in
            if task = - 1 then Inl PAMI_ERROR else Inr task))"

definition global2task :: "bgq_map \<Rightarrow> coord \<Rightarrow> pami_result + uint_t" where
  "global2task M addr = torus2task_impl M addr"

definition network2task_impl :: "bgq_map \<Rightarrow> coord \<Rightarrow> pami_result + uint_t" where
  "network2task_impl M addr =
     (if list_ex (\<lambda>(x, sz). sz \<le> x) (zip addr (bm_sizes M)) then Inl PAMI_INVAL
      else (let task = task_at M (ESTIMATED_TASK addr (bm_sizes M)) in
            if task = - 1 then Inl PAMI_ERROR else Inr task))"

section \<open>Nodes\<close>

text \<open>A node address is the pair of \<^verbatim>\<open>global\<close> and \<^verbatim>\<open>local\<close>.\<close>

type_synonym nodeaddr = "size_t \<times> size_t"

definition coord2node :: "coord \<Rightarrow> nodeaddr" where
  "coord2node x =
     (x ! 4 OR push_bit 1 (x ! 3) OR push_bit 7 (x ! 2) OR push_bit 13 (x ! 1) OR push_bit 19 (x ! 0), x ! 5)"

definition node2coord :: "nodeaddr \<Rightarrow> coord" where
  "node2coord = (\<lambda>(global, local).
     [drop_bit 19 global, drop_bit 13 global AND 0x3f, drop_bit 7 global AND 0x3f, drop_bit 1 global AND 0x3f,
      global AND 1, local])"

definition task2node_impl :: "bgq_map \<Rightarrow> size_t \<Rightarrow> nodeaddr" where
  "task2node_impl M task =
     (let coords = raw_of M task in
      (ucast ((drop_bit 5 coords AND 0x00fbe79e) OR drop_bit 31 coords), ucast (coords AND 0x3f)))"

definition node2task_impl :: "bgq_map \<Rightarrow> nodeaddr \<Rightarrow> pami_result + uint_t" where
  "node2task_impl M address =
     (let x = node2coord address in
      if list_ex (\<lambda>(x, sz). sz \<le> x) (zip x (bm_sizes M)) then Inl PAMI_INVAL
      else (let task = task_at M (ESTIMATED_TASK x (bm_sizes M)) in
            if task = - 1 then Inl PAMI_ERROR else Inr task))"

definition isLocal_impl :: "bgq_map \<Rightarrow> size_t \<Rightarrow> bool" where
  "isLocal_impl M task = bit (raw_of M task) 30"

definition isPeer_impl :: "bgq_map \<Rightarrow> size_t \<Rightarrow> size_t \<Rightarrow> bool" where
  "isPeer_impl M task1 task2 \<longleftrightarrow> raw_of M task1 AND 0x9f7cf3c0 = raw_of M task2 AND 0x9f7cf3c0"

text \<open>The entry for a local address: \<^verbatim>\<open>(unsigned) - 1\<close> is compared as a
  \<^verbatim>\<open>size_t\<close>.\<close>

definition node2peer_impl :: "bgq_map \<Rightarrow> nodeaddr \<Rightarrow> pami_result + size_t" where
  "node2peer_impl M address =
     (let tSize = bm_sizes M ! 5; tCoord = snd address in
      if tSize \<le> tCoord then Inl PAMI_INVAL
      else (let hash = unat (ESTIMATED_TASK [0, 0, 0, 0, 0, tCoord] [1, 1, 1, 1, 1, tSize]);
                peer = (if hash < length (bm_local2peer M) then bm_local2peer M ! hash else ucast (bm_beyond M hash)) in
            if peer = 0xffffffff then Inl PAMI_ERROR else Inr peer))"

definition task2peer_impl :: "bgq_map \<Rightarrow> size_t \<Rightarrow> pami_result + size_t" where
  "task2peer_impl M task = node2peer_impl M (task2node_impl M task)"

definition nodeAddr_impl :: "bgq_map \<Rightarrow> nodeaddr" where
  "nodeAddr_impl M = coord2node (bm_coords M)"

definition isLowestT :: "bgq_map \<Rightarrow> bool" where
  "isLowestT M \<longleftrightarrow> bm_lowestT M = bm_coords M ! 5"

definition nodePeers_impl :: "bgq_map \<Rightarrow> size_t" where
  "nodePeers_impl M = bm_local_size M"

definition torusSize_impl :: "bgq_map \<Rightarrow> nat \<Rightarrow> size_t option" where
  "torusSize_impl M i = (if i < 6 then Some (bm_sizes M ! i) else None)"

text \<open>\<^verbatim>\<open>abs\<close> is that of \<^verbatim>\<open>int\<close>.\<close>

definition int_abs :: "size_t \<Rightarrow> size_t" where
  "int_abs x = (let i = (ucast x :: uint_t) in ucast (if bit i 31 then - i else i))"

definition torusInformation_impl :: "bgq_map \<Rightarrow> coord \<Rightarrow> coord \<Rightarrow> bool list" where
  "torusInformation_impl M ll ur =
     map (\<lambda>i. bm_torusInfo M ! i \<and> int_abs (ur ! i - ll ! i) + 1 = bm_sizes M ! i) [0..<5]"

section \<open>Destinations of the messaging unit\<close>

text \<open>The destination, the t coordinate, the fifo pin, the pacing flag and the routing index.\<close>

definition getMuDestinationTask :: "bgq_map \<Rightarrow> size_t \<Rightarrow> uint_t \<times> size_t \<times> uint_t \<times> uint_t \<times> uint_t" where
  "getMuDestinationTask M task =
     (let raw = raw_of M task + bm_jobLL M in
      ((raw AND 0x1f7cf3c0) OR drop_bit 31 raw, ucast raw AND 0x3f,
       drop_bit 26 (raw AND 0x20000000) OR drop_bit 21 (raw AND 0x00800000) OR
       drop_bit 16 (raw AND 0x00020000) OR drop_bit 11 (raw AND 0x00000800),
       raw AND 0x00000400, drop_bit 16 (raw AND 0x00010000)))"

text \<open>The overloads with fewer results.\<close>

definition getMuDestinationTask_pin :: "bgq_map \<Rightarrow> size_t \<Rightarrow> uint_t \<times> size_t \<times> uint_t" where
  "getMuDestinationTask_pin M task =
     (let raw = raw_of M task + bm_jobLL M in
      ((raw AND 0x1f7cf3c0) OR drop_bit 31 raw, ucast raw AND 0x3f,
       drop_bit 26 (raw AND 0x20000000) OR drop_bit 21 (raw AND 0x00800000) OR
       drop_bit 16 (raw AND 0x00020000) OR drop_bit 11 (raw AND 0x00000800)))"

definition getMuDestinationTask_word :: "bgq_map \<Rightarrow> size_t \<Rightarrow> uint_t \<times> size_t \<times> uint_t" where
  "getMuDestinationTask_word M task =
     (let raw = raw_of M task + bm_jobLL M; tcoord = ucast raw AND 0x3f; dest = (raw AND 0x1f7cf3c0) OR drop_bit 31 raw in
      (dest, tcoord,
       drop_bit 26 (raw AND 0x20000000) OR drop_bit 21 (raw AND 0x00800000) OR
       drop_bit 16 (raw AND 0x00020000) OR drop_bit 11 (raw AND 0x00000800)))"

definition getMuDestinationTask_dest :: "bgq_map \<Rightarrow> size_t \<Rightarrow> uint_t" where
  "getMuDestinationTask_dest M task =
     (let raw = raw_of M task + bm_jobLL M in (raw AND 0x1f7cf3c0) OR drop_bit 31 raw)"

definition fifo_bits :: "uint_t \<Rightarrow> uint_t" where
  "fifo_bits fifo = push_bit 26 (fifo AND 8) OR push_bit 21 (fifo AND 4) OR push_bit 16 (fifo AND 2) OR push_bit 11 (fifo AND 1)"

definition setFifoPin :: "bgq_map \<Rightarrow> size_t \<Rightarrow> uint_t \<Rightarrow> bgq_map option" where
  "setFifoPin M task fifo =
     (if unat task < length (bm_task2coords M)
      then Some (M\<lparr>bm_task2coords := (bm_task2coords M)[unat task := raw_of M task OR fifo_bits fifo]\<rparr>)
      else None)"

section \<open>Filling the map cache\<close>

text \<open>The coordinates that the kernel reports: six bits for each of a, b, c, d and t, one for e.\<close>

definition mapped_coords :: "uint_t \<Rightarrow> coord" where
  "mapped_coords raw =
     map ucast [drop_bit 24 raw AND 0x3f, drop_bit 18 raw AND 0x3f, drop_bit 12 raw AND 0x3f,
                drop_bit 6 raw AND 0x3f, drop_bit 31 raw, raw AND 0x3f]"

text \<open>The variables of the loop over the tasks.\<close>

record fill =
  fi_task2coords :: "uint_t list"
  fi_coords2task :: "uint_t list"
  fi_lowestT :: size_t
  fi_narray :: "64 word list"
  fi_numActiveNodes :: size_t
  fi_ll :: coord
  fi_ur :: coord

text \<open>The hops in a dimension, the shorter way round the torus, and the decision to pace remote
  gets to a destination.\<close>

definition getHops :: "size_t \<Rightarrow> size_t \<Rightarrow> size_t \<Rightarrow> size_t" where
  "getHops source dest dimSize =
     (let signedHops = dest - source;
          unsignedHops = (if bit signedHops 63 then - signedHops else signedHops) in
      if drop_bit 1 dimSize < unsignedHops then dimSize - unsignedHops else unsignedHops)"

definition paceRgets :: "bool \<times> size_t \<times> size_t \<Rightarrow> coord \<Rightarrow> coord \<Rightarrow> coord \<Rightarrow> bool" where
  "paceRgets = (\<lambda>(doRgetPacing, hops, dims) source sizes dest.
     (let actualHops = foldl (\<lambda>h i. h + getHops (source ! i) (dest ! i) (sizes ! i)) 0 [0..<4];
          actualDims = foldl (\<lambda>n i. if source ! i \<noteq> dest ! i then n + 1 else n) 0 [0..<4] in
      doRgetPacing \<and> (hops < actualHops \<or> dims < actualDims)))"

text \<open>The flags that the loop adds to the coordinates of task \<open>i\<close>. \<open>pace\<close> and \<open>routing\<close> are the
  answers of \<^verbatim>\<open>paceRgets\<close> and \<^verbatim>\<open>getFlexability\<close> for the coordinates; the
  latter computes with \<^verbatim>\<open>float\<close> and stays a parameter.\<close>

definition fill_flags :: "coord \<Rightarrow> (coord \<Rightarrow> bool) \<Rightarrow> (coord \<Rightarrow> bool) \<Rightarrow> coord \<Rightarrow> uint_t" where
  "fill_flags self pace routing x =
     (if take 5 x = take 5 self then 0x40000000
      else (if pace x then 0x00000400 else 0) OR (if routing x then 0x00010000 else 0))"

definition fill_task ::
    "coord \<Rightarrow> coord \<Rightarrow> (coord \<Rightarrow> bool) \<Rightarrow> (coord \<Rightarrow> bool) \<Rightarrow> nat \<Rightarrow> fill \<Rightarrow> fill" where
  "fill_task sizes self pace routing i f =
     (let raw = fi_task2coords f ! i;
          x = mapped_coords raw;
          node = ESTIMATED_TASK (x[5 := 0]) sizes div (sizes ! 5);
          index = unat (drop_bit 6 node);
          mask = push_bit (63 - unat (node AND 63)) 1;
          fresh = (fi_narray f ! index AND mask = 0);
          hash = (ucast (ESTIMATED_TASK x sizes) :: uint_t) in
      \<lparr>fi_task2coords = (fi_task2coords f)[i := raw OR fill_flags self pace routing x],
       fi_coords2task = (fi_coords2task f)[unat hash := of_nat i],
       fi_lowestT = (if take 5 x = take 5 self \<and> x ! 5 < fi_lowestT f then x ! 5 else fi_lowestT f),
       fi_narray = (if fresh then (fi_narray f)[index := fi_narray f ! index OR mask] else fi_narray f),
       fi_numActiveNodes = (if fresh then fi_numActiveNodes f + 1 else fi_numActiveNodes f),
       fi_ll = map2 (\<lambda>v l. if v < l then v else l) x (fi_ll f),
       fi_ur = map2 (\<lambda>v u. if u < v then v else u) x (fi_ur f)\<rparr>)"

definition fill_loop ::
    "coord \<Rightarrow> coord \<Rightarrow> (coord \<Rightarrow> bool) \<Rightarrow> (coord \<Rightarrow> bool) \<Rightarrow> nat \<Rightarrow> fill \<Rightarrow> fill" where
  "fill_loop sizes self pace routing n = fold (fill_task sizes self pace routing) [0..<n]"

text \<open>The start: \<open>ks\<close> is the table of the kernel, of the size \<open>full\<close> of the partition.\<close>

definition fill_start :: "coord \<Rightarrow> coord \<Rightarrow> uint_t list \<Rightarrow> nat \<Rightarrow> fill" where
  "fill_start sizes self ks full =
     \<lparr>fi_task2coords = ks, fi_coords2task = replicate full (- 1), fi_lowestT = 999999999,
      fi_narray = replicate ((full div unat (sizes ! 5) + 63) div 64) 0, fi_numActiveNodes = 0,
      fi_ll = self, fi_ur = self\<rparr>"

text \<open>The local peers: the tasks of this node in the order of their t coordinate.\<close>

definition fill_peer :: "uint_t list \<Rightarrow> coord \<Rightarrow> coord \<Rightarrow> size_t \<Rightarrow> size_t list \<times> size_t list \<times> nat \<Rightarrow> size_t list \<times> size_t list \<times> nat" where
  "fill_peer coords2task sizes self t = (\<lambda>(local2peer, peer2task, peer).
     (let task = coords2task ! unat (ucast (ESTIMATED_TASK (self[5 := t]) sizes) :: uint_t) in
      if task \<noteq> - 1
      then (local2peer[unat t := of_nat peer], peer2task[peer := ucast task], Suc peer)
      else (local2peer, peer2task, peer)))"

definition fill_peers :: "uint_t list \<Rightarrow> coord \<Rightarrow> coord \<Rightarrow> size_t list \<Rightarrow> size_t list \<Rightarrow> size_t list \<times> size_t list \<times> nat" where
  "fill_peers coords2task sizes self local2peer peer2task =
     fold (fill_peer coords2task sizes self) (map of_nat [0..<unat (sizes ! 5)]) (local2peer, peer2task, 0)"

definition initializeMapCache ::
    "bool \<times> size_t \<times> size_t \<Rightarrow> (coord \<Rightarrow> bool) \<Rightarrow> uint_t list \<Rightarrow> nat \<Rightarrow> size_t list \<Rightarrow> size_t list \<Rightarrow> bgq_map \<Rightarrow>
     fill \<times> size_t list \<times> size_t list \<times> nat" where
  "initializeMapCache pacing routing ks numentries local2peer peer2task M =
     (let f = fill_loop (bm_sizes M) (bm_coords M) (paceRgets pacing (bm_coords M) (bm_sizes M)) routing numentries
                (fill_start (bm_sizes M) (bm_coords M) ks (prod_list (map unat (bm_sizes M)))) in
      (f, fill_peers (fi_coords2task f) (bm_sizes M) (bm_coords M) local2peer peer2task))"

text \<open>The mapping takes over the tables and looks its own task up.\<close>

definition init_impl :: "fill \<times> size_t list \<times> size_t list \<times> nat \<Rightarrow> nat \<Rightarrow> bgq_map \<Rightarrow> bgq_map" where
  "init_impl = (\<lambda>(f, local2peer, peer2task, peers) numentries M.
     (let M1 = M\<lparr>bm_task2coords := fi_task2coords f, bm_coords2task := fi_coords2task f, bm_local2peer := local2peer,
                 bm_peer2task := peer2task, bm_size := of_nat numentries, bm_local_size := of_nat peers,
                 bm_lowestT := fi_lowestT f, bm_numActiveNodes := fi_numActiveNodes f\<rparr> in
      M1\<lparr>bm_task := ucast (task_at M1 (ESTIMATED_TASK (bm_coords M1) (bm_sizes M1)))\<rparr>))"

end
