(* ===== verification/Pami_BgqCache.thy ===== *)
theory Pami_BgqCache
  imports Pami_BgqMapping
begin

text \<open>
  What the bit masks and tables of the Blue Gene/Q mapping achieve: the flags never touch the
  coordinates, the hash of the coordinates has no collisions inside the block, and the filled
  cache translates between tasks, coordinates and nodes without loss.
\<close>

unbundle bit_operations_syntax

lemma and_take: "(x::'a::len word) AND 1 = take_bit 1 x" "x AND 15 = take_bit 4 x" "x AND 31 = take_bit 5 x" "x AND 63 = take_bit 6 x"
  by (simp_all add: take_bit_eq_mask mask_eq_exp_minus_1)

lemma e_bit: "take_bit (Suc 0) (drop_bit 31 (r::uint_t)) = drop_bit 31 r"
proof -
  have "take_bit (Suc 0 + 31) r = r" using take_bit_length_eq [of r] by simp
  then show ?thesis by (simp only: take_bit_drop_bit)
qed

lemma drop_big [simp]: "32 \<le> n \<Longrightarrow> drop_bit n (r::uint_t) = 0"
  by (rule bit_word_eqI) (auto simp: bit_simps dest: bit_imp_le_length)

lemma e_mod: "drop_bit 31 (r::uint_t) mod 2 = drop_bit 31 r" "drop_bit 31 r AND 1 = drop_bit 31 r"
  using e_bit [of r] by (simp_all add: take_bit_eq_mod and_take)

lemma ucast64_drop: "drop_bit n (ucast (x::uint_t) :: size_t) = ucast (drop_bit n x)"
  by (rule bit_word_eqI) (auto simp: bit_simps dest: bit_imp_le_length)

lemma ucast64_and: "(ucast (x::uint_t) :: size_t) AND ucast y = ucast (x AND y)"
  by (simp add: unsigned_and_eq)

lemma raw_coords_mask: "raw_coords (r AND 0x9f7cf3ff) = raw_coords r"
  by (simp add: raw_coords_def drop_bit_and and.assoc e_mod)

lemma raw_coords_or:
  assumes "f AND 0x9f7cf3ff = 0"
  shows "raw_coords (r OR f) = raw_coords r"
proof -
  have "(r OR f) AND 0x9f7cf3ff = r AND 0x9f7cf3ff" using assms by (simp add: bit.conj_disj_distrib2)
  then show ?thesis by (metis raw_coords_mask)
qed

lemma node2coord_task2node: "node2coord (task2node_impl M t) = raw_coords (raw_of M t)"
proof -
  define r where "r = raw_of M t"
  define X where "X = (drop_bit 5 r AND 0x00fbe79e) OR drop_bit 31 r"
  have "drop_bit 19 X = drop_bit 24 r AND 0x1f" "drop_bit 13 X AND 0x3f = drop_bit 18 r AND 0x1f"
    "drop_bit 7 X AND 0x3f = drop_bit 12 r AND 0xf" "drop_bit 1 X AND 0x3f = drop_bit 6 r AND 0xf" "X AND 1 = drop_bit 31 r"
    by (simp_all add: X_def drop_bit_and drop_bit_or bit.conj_disj_distrib2 and.assoc e_mod)
  moreover have "ucast x AND (63 :: size_t) = ucast (x AND 63)" "ucast x AND (1 :: size_t) = ucast (x AND 1)" for x :: uint_t
    using ucast64_and [of x 63] ucast64_and [of x 1] by (simp_all del: and_one_eq)
  ultimately show ?thesis
    unfolding node2coord_def task2node_impl_def Let_def r_def [symmetric] X_def [symmetric] raw_coords_def prod.case
    by (simp only: ucast64_drop list.map)
qed

lemma upto32: "(n::nat) < 32 \<Longrightarrow> n \<in> {0,1,2,3,4,5,6,7,8,9,10,11,12,13,14,15,16,17,18,19,20,21,22,23,24,25,26,27,28,29,30,31}"
proof -
  assume "n < 32"
  then have "n \<in> set [0..<32]" by simp
  moreover have "[0..<32] = [0,1,2,3,4,5,6,7,8,9,10,11,12,13,14,15,16,17,18,19,20,21,22,23,24,25,26,27,28,29,30,31]"
    by (simp add: upt_rec)
  ultimately show ?thesis by (simp only: list.set)
qed

lemma node_bits: "r AND 0x9f7cf3c0 = push_bit 24 (drop_bit 24 r AND 0x1f) OR push_bit 18 (drop_bit 18 r AND 0x1f) OR
    push_bit 12 (drop_bit 12 r AND 0xf) OR push_bit 6 (drop_bit 6 r AND 0xf) OR push_bit 31 (drop_bit 31 (r::uint_t))"
proof (rule bit_word_eqI)
  fix n assume "n < LENGTH(32)"
  then have "n < 32" by simp
  from upto32 [OF this]
  show "bit (r AND 0x9f7cf3c0) n = bit (push_bit 24 (drop_bit 24 r AND 0x1f) OR push_bit 18 (drop_bit 18 r AND 0x1f) OR
    push_bit 12 (drop_bit 12 r AND 0xf) OR push_bit 6 (drop_bit 6 r AND 0xf) OR push_bit 31 (drop_bit 31 r)) n"
    by (elim insertE; simp add: bit_simps)
qed


lemma ucast64_eq: "(ucast (x::uint_t) :: size_t) = ucast y \<longleftrightarrow> x = y"
  by (simp add: word_unat_eq_iff unat_ucast_uint)

lemma raw_coords_node: "take 5 (raw_coords (r AND 0x9f7cf3c0)) = take 5 (raw_coords r)"
  by (simp add: raw_coords_def drop_bit_and and.assoc e_mod)

lemma isPeer_coords:
  "isPeer_impl M t1 t2 \<longleftrightarrow> take 5 (task2network_impl M t1) = take 5 (task2network_impl M t2)"
proof
  assume "isPeer_impl M t1 t2"
  then show "take 5 (task2network_impl M t1) = take 5 (task2network_impl M t2)"
    unfolding isPeer_impl_def task2network_impl_def using raw_coords_node by metis
next
  assume "take 5 (task2network_impl M t1) = take 5 (task2network_impl M t2)"
  then show "isPeer_impl M t1 t2"
    unfolding isPeer_impl_def task2network_impl_def node_bits by (simp add: raw_coords_def ucast64_eq)
qed

section \<open>Fifo pins\<close>

lemma fifo_bits_free: "fifo_bits f AND 0x9f7cf3ff = 0"
proof (rule bit_word_eqI)
  fix n assume "n < LENGTH(32)"
  then have "n < 32" by simp
  from upto32 [OF this] show "bit (fifo_bits f AND 0x9f7cf3ff) n = bit 0 n"
    by (elim insertE; simp add: bit_simps fifo_bits_def)
qed

lemma fifo_bits_read:
  assumes "r AND 0x20820800 = 0"
  shows "drop_bit 26 ((r OR fifo_bits f) AND 0x20000000) OR drop_bit 21 ((r OR fifo_bits f) AND 0x00800000) OR
     drop_bit 16 ((r OR fifo_bits f) AND 0x00020000) OR drop_bit 11 ((r OR fifo_bits f) AND 0x00000800) = f AND 15"
    (is "?l = ?r")
proof (rule bit_word_eqI)
  have clear: "\<not> bit r 29" "\<not> bit r 23" "\<not> bit r 17" "\<not> bit r 11"
  proof -
    have "\<not> bit (r AND 0x20820800) k" for k using assms by simp
    from this [of 29] this [of 23] this [of 17] this [of 11]
    show "\<not> bit r 29" "\<not> bit r 23" "\<not> bit r 17" "\<not> bit r 11" by (simp_all add: bit_and_iff)
  qed
  fix n assume "n < LENGTH(32)"
  then have "n < 32" by simp
  from upto32 [OF this] show "bit ?l n = bit ?r n"
    using clear by (elim insertE; simp add: bit_simps fifo_bits_def)
qed

section \<open>The hash\<close>

definition sizes_ok :: "coord \<Rightarrow> bool" where
  "sizes_ok sizes \<longleftrightarrow> list_all2 (\<lambda>sz m. 0 < unat sz \<and> unat sz \<le> m) sizes [32, 32, 16, 16, 2, 64]"

lemma sizes_okE:
  assumes "sizes_ok sizes"
  obtains a b c d e t where "sizes = [a, b, c, d, e, t]" and "0 < unat a" "unat a \<le> 32" "0 < unat b" "unat b \<le> 32"
    "0 < unat c" "unat c \<le> 16" "0 < unat d" "unat d \<le> 16" "0 < unat e" "unat e \<le> 2" "0 < unat t" "unat t \<le> 64"
  using assms by (auto simp: sizes_ok_def list_all2_Cons2)

lemma prod_list_mono: "list_all2 (\<le>) xs ys \<Longrightarrow> prod_list xs \<le> (prod_list ys :: nat)"
  by (induction rule: list_all2_induct) (simp_all add: mult_le_mono)

definition in_box :: "coord \<Rightarrow> coord \<Rightarrow> bool" where
  "in_box sizes x \<longleftrightarrow> digits_ok (map unat sizes) (map unat x)"

definition full_size :: "coord \<Rightarrow> nat" where
  "full_size sizes = prod_list (map unat sizes)"

lemma full_size_less: "sizes_ok sizes \<Longrightarrow> full_size sizes \<le> 2 ^ 25"
proof -
  assume "sizes_ok sizes"
  then have "list_all2 (\<le>) (map unat sizes) [32, 32, 16, 16, 2, 64]"
    by (simp add: sizes_ok_def list_all2_map1 list_all2_mono)
  from prod_list_mono [OF this] show ?thesis by (simp add: full_size_def)
qed

lemma in_box_length: "sizes_ok sizes \<Longrightarrow> in_box sizes x \<Longrightarrow> length x = 6"
  using digits_ok_length [of "map unat sizes" "map unat x"] by (auto simp: in_box_def elim: sizes_okE)

lemma unat_ESTIMATED_TASK:
  assumes "sizes_ok sizes" and "in_box sizes x"
  shows "unat (ESTIMATED_TASK x sizes) = mval (map unat sizes) (map unat x)"
    and "mval (map unat sizes) (map unat x) < full_size sizes"
proof -
  have len: "length x = 6" by (rule in_box_length [OF assms])
  obtain a b c d e t where s: "sizes = [a, b, c, d, e, t]" using assms(1) by (elim sizes_okE)
  obtain xa xb xc xd xe xt where x: "x = [xa, xb, xc, xd, xe, xt]"
    using len by (auto simp: numeral_eq_Suc length_Suc_conv)
  have "ESTIMATED_TASK x sizes = of_nat (horner 0 (map unat sizes) (map unat x))"
    unfolding s x by simp
  moreover have "horner 0 (map unat sizes) (map unat x) = mval (map unat sizes) (map unat x)"
    using len s by (simp add: horner_mval)
  moreover show less: "mval (map unat sizes) (map unat x) < full_size sizes"
    using mval_less assms(2) by (simp add: in_box_def full_size_def)
  moreover have "full_size sizes < 2 ^ 64" using full_size_less [OF assms(1)] by (rule le_less_trans) simp
  ultimately show "unat (ESTIMATED_TASK x sizes) = mval (map unat sizes) (map unat x)"
    by (simp only:) (rule unat_of_nat64, linarith)
qed

lemma ESTIMATED_TASK_inj:
  assumes "sizes_ok sizes" and "in_box sizes x" and "in_box sizes y" and "ESTIMATED_TASK x sizes = ESTIMATED_TASK y sizes"
  shows "x = y"
proof -
  have "mval (map unat sizes) (map unat x) = mval (map unat sizes) (map unat y)"
    using unat_ESTIMATED_TASK(1) assms by metis
  then have "map unat x = map unat y" using mval_inj assms(2,3) by (auto simp: in_box_def)
  then show ?thesis by (simp add: inj_map_eq_map inj_def word_unat_eq_iff)
qed

lemma valid_address:
  assumes "sizes_ok sizes" and "length x = 6"
  shows "list_ex (\<lambda>(v, sz). sz \<le> v) (zip x sizes) \<longleftrightarrow> \<not> in_box sizes x"
proof -
  obtain a b c d e t where s: "sizes = [a, b, c, d, e, t]" using assms(1) by (elim sizes_okE)
  obtain xa xb xc xd xe xt where x: "x = [xa, xb, xc, xd, xe, xt]"
    using assms(2) by (auto simp: numeral_eq_Suc length_Suc_conv)
  show ?thesis unfolding s x by (auto simp: in_box_def word_le_nat_alt)
qed


section \<open>Filling the cache\<close>

text \<open>What the kernel must report: the coordinates of every task lie in the block, the reserved bit
  is clear, and no two tasks have the same coordinates.\<close>

definition kernel_ok :: "coord \<Rightarrow> uint_t list \<Rightarrow> nat \<Rightarrow> bool" where
  "kernel_ok sizes ks n \<longleftrightarrow> sizes_ok sizes \<and> length ks = full_size sizes \<and> n \<le> full_size sizes \<and>
     (\<forall>i<n. in_box sizes (mapped_coords (ks ! i)) \<and> \<not> bit (ks ! i) 30) \<and>
     (\<forall>i<n. \<forall>j<n. mapped_coords (ks ! i) = mapped_coords (ks ! j) \<longrightarrow> i = j)"

lemma narrow: "unat ((y::uint_t) AND 63) < 32 \<Longrightarrow> y AND 31 = y AND 63" "unat (y AND 63) < 16 \<Longrightarrow> y AND 15 = y AND 63"
proof -
  have self: "take_bit k z = z" if "unat z < 2 ^ k" for k and z :: uint_t
    using that by (simp add: word_unat_eq_iff unsigned_take_bit_eq take_bit_nat_eq_self)
  show "unat (y AND 63) < 32 \<Longrightarrow> y AND 31 = y AND 63" "unat (y AND 63) < 16 \<Longrightarrow> y AND 15 = y AND 63"
    using self [of "take_bit 6 y" 5] self [of "take_bit 6 y" 4] by (simp_all add: and_take)
qed

lemma raw_mapped: "sizes_ok sizes \<Longrightarrow> in_box sizes (mapped_coords r) \<Longrightarrow> raw_coords r = mapped_coords r"
  by (elim sizes_okE) (simp add: in_box_def mapped_coords_def raw_coords_def unat_ucast_uint narrow)

lemma fill_flags_free: "fill_flags self pace routing x AND 0x9f7cf3ff = 0"
  by (simp add: fill_flags_def)

definition hash_of :: "coord \<Rightarrow> uint_t list \<Rightarrow> nat \<Rightarrow> nat" where
  "hash_of sizes ks i = unat (ucast (ESTIMATED_TASK (mapped_coords (ks ! i)) sizes) :: uint_t)"

lemma hash_of_unat:
  assumes "kernel_ok sizes ks n" and "i < n"
  shows "hash_of sizes ks i = unat (ESTIMATED_TASK (mapped_coords (ks ! i)) sizes)" and "hash_of sizes ks i < full_size sizes"
proof -
  have b: "sizes_ok sizes" "in_box sizes (mapped_coords (ks ! i))" using assms by (auto simp: kernel_ok_def)
  have less: "unat (ESTIMATED_TASK (mapped_coords (ks ! i)) sizes) < full_size sizes"
    using unat_ESTIMATED_TASK [OF b] by simp
  moreover have "full_size sizes < 2 ^ 32" using full_size_less [OF b(1)] by (rule le_less_trans) simp
  ultimately show eq: "hash_of sizes ks i = unat (ESTIMATED_TASK (mapped_coords (ks ! i)) sizes)"
    by (simp add: hash_of_def unsigned_ucast_eq take_bit_nat_eq_self)
  show "hash_of sizes ks i < full_size sizes" using less eq by simp
qed

lemma hash_of_inj: "kernel_ok sizes ks n \<Longrightarrow> i < n \<Longrightarrow> j < n \<Longrightarrow> hash_of sizes ks i = hash_of sizes ks j \<Longrightarrow> i = j"
  using ESTIMATED_TASK_inj [of sizes "mapped_coords (ks ! i)" "mapped_coords (ks ! j)"]
  by (auto simp: hash_of_unat kernel_ok_def word_unat_eq_iff)

text \<open>The tables after \<open>k\<close> turns of the loop.\<close>

definition filled :: "coord \<Rightarrow> coord \<Rightarrow> (coord \<Rightarrow> bool) \<Rightarrow> (coord \<Rightarrow> bool) \<Rightarrow> uint_t list \<Rightarrow> nat \<Rightarrow> fill \<Rightarrow> bool" where
  "filled sizes self pace routing ks k f \<longleftrightarrow>
     length (fi_task2coords f) = length ks \<and> length (fi_coords2task f) = full_size sizes \<and>
     (\<forall>i<length ks. fi_task2coords f ! i =
        (if i < k then ks ! i OR fill_flags self pace routing (mapped_coords (ks ! i)) else ks ! i)) \<and>
     (\<forall>i<k. fi_coords2task f ! hash_of sizes ks i = of_nat i) \<and>
     (\<forall>h<full_size sizes. h \<notin> hash_of sizes ks ` {..<k} \<longrightarrow> fi_coords2task f ! h = - 1)"

lemma filled_start: "length ks = full_size sizes \<Longrightarrow> filled sizes self pace routing ks 0 (fill_start sizes self ks (full_size sizes))"
  by (simp add: filled_def fill_start_def)

lemma filled_step:
  assumes k: "kernel_ok sizes ks n" "i < n" and f: "filled sizes self pace routing ks i f"
  shows "filled sizes self pace routing ks (Suc i) (fill_task sizes self pace routing i f)"
proof -
  have raw: "fi_task2coords f ! i = ks ! i" and len: "i < length ks" using f k by (auto simp: filled_def kernel_ok_def)
  have c2t: "fi_coords2task (fill_task sizes self pace routing i f) = (fi_coords2task f)[hash_of sizes ks i := of_nat i]"
    using raw by (simp add: fill_task_def Let_def hash_of_def)
  have t2c: "fi_task2coords (fill_task sizes self pace routing i f) =
      (fi_task2coords f)[i := ks ! i OR fill_flags self pace routing (mapped_coords (ks ! i))]"
    using raw by (simp add: fill_task_def Let_def)
  have other: "hash_of sizes ks j \<noteq> hash_of sizes ks i" "hash_of sizes ks i \<noteq> hash_of sizes ks j" if "j < i" for j
    using hash_of_inj [OF k(1), of j i] that k(2) by auto
  have bound: "hash_of sizes ks i < full_size sizes" by (rule hash_of_unat(2) [OF k])
  show ?thesis
    unfolding filled_def c2t t2c using f other bound len
    by (auto simp: filled_def nth_list_update less_Suc_eq lessThan_Suc)
qed

lemma filled_loop:
  assumes "kernel_ok sizes ks n" and "k \<le> n"
  shows "filled sizes self pace routing ks k
     (fill_loop sizes self pace routing k (fill_start sizes self ks (full_size sizes)))"
  using assms(2)
proof (induction k)
  case 0
  then show ?case using assms(1) by (simp add: fill_loop_def filled_start kernel_ok_def)
next
  case (Suc k)
  then show ?case using filled_step [OF assms(1), of k] by (simp add: fill_loop_def)
qed


section \<open>A filled cache\<close>

definition task_ok :: "bgq_map \<Rightarrow> nat \<Rightarrow> bool" where
  "task_ok M i \<longleftrightarrow> in_box (bm_sizes M) (task2network_impl M (of_nat i)) \<and>
     task_at M (ESTIMATED_TASK (task2network_impl M (of_nat i)) (bm_sizes M)) = of_nat i"

definition cache_ok :: "bgq_map \<Rightarrow> bool" where
  "cache_ok M \<longleftrightarrow> sizes_ok (bm_sizes M) \<and> unat (bm_size M) \<le> full_size (bm_sizes M) \<and>
     (\<forall>i<unat (bm_size M). task_ok M i) \<and>
     (\<forall>x. in_box (bm_sizes M) x \<longrightarrow> task_at M (ESTIMATED_TASK x (bm_sizes M)) = - 1 \<or>
        (\<exists>i<unat (bm_size M). task_at M (ESTIMATED_TASK x (bm_sizes M)) = of_nat i \<and> task2network_impl M (of_nat i) = x))"

definition booted :: "bool \<times> size_t \<times> size_t \<Rightarrow> (coord \<Rightarrow> bool) \<Rightarrow> uint_t list \<Rightarrow> nat \<Rightarrow> size_t list \<Rightarrow> size_t list \<Rightarrow> bgq_map \<Rightarrow> bgq_map" where
  "booted pacing routing ks n l2p p2t M = init_impl (initializeMapCache pacing routing ks n l2p p2t M) n M"

lemma booted_tables:
  assumes "kernel_ok (bm_sizes M) ks n"
  obtains f where "filled (bm_sizes M) (bm_coords M) (paceRgets pacing (bm_coords M) (bm_sizes M)) routing ks n f"
    and "bm_task2coords (booted pacing routing ks n l2p p2t M) = fi_task2coords f"
    and "bm_coords2task (booted pacing routing ks n l2p p2t M) = fi_coords2task f"
    and "bm_sizes (booted pacing routing ks n l2p p2t M) = bm_sizes M"
    and "bm_size (booted pacing routing ks n l2p p2t M) = of_nat n"
    and "bm_coords (booted pacing routing ks n l2p p2t M) = bm_coords M"
  using that filled_loop [OF assms order_refl, of "bm_coords M" "paceRgets pacing (bm_coords M) (bm_sizes M)" routing]
  by (auto simp: booted_def init_impl_def initializeMapCache_def Let_def full_size_def split: prod.splits)

lemma small_size: "sizes_ok sizes \<Longrightarrow> n \<le> full_size sizes \<Longrightarrow> n < 2 ^ 32 - 1"
  using full_size_less [of sizes] by (simp add: less_le_trans)

lemma booted_raw:
  assumes k: "kernel_ok (bm_sizes M) ks n" and "i < n"
  shows "raw_of (booted pacing routing ks n l2p p2t M) (of_nat i) =
      ks ! i OR fill_flags (bm_coords M) (paceRgets pacing (bm_coords M) (bm_sizes M)) routing (mapped_coords (ks ! i))"
    and "task2network_impl (booted pacing routing ks n l2p p2t M) (of_nat i) = mapped_coords (ks ! i)"
proof -
  obtain f where f: "filled (bm_sizes M) (bm_coords M) (paceRgets pacing (bm_coords M) (bm_sizes M)) routing ks n f"
    "bm_task2coords (booted pacing routing ks n l2p p2t M) = fi_task2coords f"
    using booted_tables [OF k] by blast
  have n: "sizes_ok (bm_sizes M)" "n \<le> full_size (bm_sizes M)" "i < length ks" using k assms(2) by (auto simp: kernel_ok_def)
  have "unat (of_nat i :: size_t) = i" using small_size [OF n(1,2)] assms(2) by (intro unat_of_nat64) simp
  then show raw: "raw_of (booted pacing routing ks n l2p p2t M) (of_nat i) =
      ks ! i OR fill_flags (bm_coords M) (paceRgets pacing (bm_coords M) (bm_sizes M)) routing (mapped_coords (ks ! i))"
    using f n(3) assms(2) by (simp add: raw_of_def filled_def)
  have "in_box (bm_sizes M) (mapped_coords (ks ! i))" using k assms(2) by (simp add: kernel_ok_def)
  then show "task2network_impl (booted pacing routing ks n l2p p2t M) (of_nat i) = mapped_coords (ks ! i)"
    unfolding task2network_impl_def raw raw_coords_or [OF fill_flags_free] by (rule raw_mapped [OF n(1)])
qed

lemma booted_local:
  assumes k: "kernel_ok (bm_sizes M) ks n" and "i < n"
  shows "isLocal_impl (booted pacing routing ks n l2p p2t M) (of_nat i) \<longleftrightarrow>
     take 5 (task2network_impl (booted pacing routing ks n l2p p2t M) (of_nat i)) = take 5 (bm_coords M)"
proof -
  have "\<not> bit (ks ! i) 30" using assms by (simp add: kernel_ok_def)
  then show ?thesis
    by (simp add: isLocal_impl_def booted_raw [OF assms] bit_or_iff fill_flags_def)
qed

lemma booted_ok:
  assumes k: "kernel_ok (bm_sizes M) ks n"
  shows "cache_ok (booted pacing routing ks n l2p p2t M)" (is "cache_ok ?M")
proof -
  obtain f where f: "filled (bm_sizes M) (bm_coords M) (paceRgets pacing (bm_coords M) (bm_sizes M)) routing ks n f"
    "bm_coords2task ?M = fi_coords2task f" "bm_sizes ?M = bm_sizes M" "bm_size ?M = of_nat n"
    using booted_tables [OF k] by blast
  have n: "sizes_ok (bm_sizes M)" "n \<le> full_size (bm_sizes M)" using k by (auto simp: kernel_ok_def)
  have sz: "unat (bm_size ?M) = n" unfolding f(4) using small_size [OF n] by (intro unat_of_nat64) simp
  have len: "length (fi_coords2task f) = full_size (bm_sizes M)" using f(1) by (simp add: filled_def)
  have at: "task_at ?M (ESTIMATED_TASK x (bm_sizes M)) = fi_coords2task f ! unat (ESTIMATED_TASK x (bm_sizes M))"
    if "in_box (bm_sizes M) x" for x
    using unat_ESTIMATED_TASK [OF n(1) that] len by (simp add: task_at_def f(2))
  have box: "in_box (bm_sizes M) (mapped_coords (ks ! i))" if "i < n" for i using k that by (simp add: kernel_ok_def)
  have tasks: "task_ok ?M i" if "i < n" for i
  proof -
    have "fi_coords2task f ! hash_of (bm_sizes M) ks i = of_nat i" using f(1) that by (simp add: filled_def)
    then show ?thesis
      using that box [OF that] at [OF box [OF that]] unfolding hash_of_unat(1) [OF k that]
      by (simp add: task_ok_def f(3) booted_raw(2) [OF k that])
  qed
  have "task_at ?M (ESTIMATED_TASK x (bm_sizes M)) = - 1 \<or>
      (\<exists>i<n. task_at ?M (ESTIMATED_TASK x (bm_sizes M)) = of_nat i \<and> task2network_impl ?M (of_nat i) = x)"
    if x: "in_box (bm_sizes M) x" for x
  proof (cases "unat (ESTIMATED_TASK x (bm_sizes M)) \<in> hash_of (bm_sizes M) ks ` {..<n}")
    case True
    then obtain i where i: "i < n" "unat (ESTIMATED_TASK x (bm_sizes M)) = hash_of (bm_sizes M) ks i" by auto
    then have "ESTIMATED_TASK x (bm_sizes M) = ESTIMATED_TASK (mapped_coords (ks ! i)) (bm_sizes M)"
      using hash_of_unat(1) [OF k i(1)] by (simp add: word_unat_eq_iff)
    then have "x = mapped_coords (ks ! i)" using ESTIMATED_TASK_inj [OF n(1) x box [OF i(1)]] by simp
    then show ?thesis using tasks [OF i(1)] i(1) booted_raw(2) [OF k i(1), of pacing routing l2p p2t] by (auto simp: task_ok_def f(3))
  next
    case False
    then show ?thesis using f(1) at [OF x] unat_ESTIMATED_TASK [OF n(1) x] by (auto simp: filled_def)
  qed
  then show ?thesis unfolding cache_ok_def f(3) sz using n tasks by auto
qed

text \<open>This process finds its own task.\<close>

lemma booted_task:
  assumes "kernel_ok (bm_sizes M) ks n" and "i < n" and "mapped_coords (ks ! i) = bm_coords M"
  shows "bm_task (booted pacing routing ks n l2p p2t M) = of_nat i"
proof -
  let ?B = "booted pacing routing ks n l2p p2t M"
  have n: "sizes_ok (bm_sizes M)" "n \<le> full_size (bm_sizes M)" using assms(1) by (auto simp: kernel_ok_def)
  have B: "bm_sizes ?B = bm_sizes M" "bm_size ?B = of_nat n" using booted_tables [OF assms(1)] by metis+
  have "unat (bm_size ?B) = n" unfolding B(2) using small_size [OF n] by (intro unat_of_nat64) simp
  then have "task_ok ?B i" using booted_ok [OF assms(1)] assms(2) by (simp add: cache_ok_def)
  then have "task_at ?B (ESTIMATED_TASK (bm_coords M) (bm_sizes M)) = of_nat i"
    using booted_raw(2) [OF assms(1,2)] assms(3) B(1) by (simp add: task_ok_def)
  moreover have "bm_task ?B = ucast (task_at ?B (ESTIMATED_TASK (bm_coords M) (bm_sizes M)))"
    by (simp add: booted_def init_impl_def Let_def task_at_def split_beta)
  moreover have "i < 2 ^ 32" using assms(2) small_size [OF n] by simp
  ultimately show ?thesis by (simp add: word_unat_eq_iff unat_ucast_uint unat_of_nat take_bit_nat_eq_self)
qed

lemma length_raw_coords [simp]: "length (raw_coords r) = 6"
  by (simp add: raw_coords_def)

lemma cache_roundtrip:
  assumes "cache_ok M" and "i < unat (bm_size M)"
  shows "network2task_impl M (task2network_impl M (of_nat i)) = Inr (of_nat i)"
    and "node2task_impl M (task2node_impl M (of_nat i)) = Inr (of_nat i)"
proof -
  have s: "sizes_ok (bm_sizes M)" "task_ok M i" using assms by (auto simp: cache_ok_def)
  have "i < 2 ^ 32 - 1" using small_size [OF s(1), of "unat (bm_size M)"] assms by (auto simp: cache_ok_def)
  then have "(of_nat i :: uint_t) \<noteq> - 1" by (simp add: word_unat_eq_iff unat_of_nat take_bit_nat_eq_self unsigned_minus_1_eq_mask mask_eq_exp_minus_1)
  then show "network2task_impl M (task2network_impl M (of_nat i)) = Inr (of_nat i)"
    "node2task_impl M (task2node_impl M (of_nat i)) = Inr (of_nat i)"
    using s valid_address [OF s(1), of "task2network_impl M (of_nat i)"]
    by (auto simp: network2task_impl_def node2task_impl_def node2coord_task2node task_ok_def Let_def task2network_impl_def)
qed

lemma cache_inverse:
  assumes "cache_ok M" and "length x = 6" and "network2task_impl M x = Inr t"
  shows "unat t < unat (bm_size M)" and "task2network_impl M (ucast t) = x"
proof -
  have s: "sizes_ok (bm_sizes M)" using assms(1) by (simp add: cache_ok_def)
  have box: "in_box (bm_sizes M) x" and t: "task_at M (ESTIMATED_TASK x (bm_sizes M)) = t" "t \<noteq> - 1"
    using assms(3) valid_address [OF s assms(2)] by (auto simp: network2task_impl_def Let_def split: if_splits)
  then obtain i where i: "i < unat (bm_size M)" "t = of_nat i" "task2network_impl M (of_nat i) = x"
    using assms(1) unfolding cache_ok_def by blast
  have "i < 2 ^ 32 - 1" using small_size [OF s, of "unat (bm_size M)"] assms(1) i(1) by (auto simp: cache_ok_def)
  then have u: "unat t = i" using i(2) by (simp add: unat_of_nat take_bit_nat_eq_self)
  then have "(ucast t :: size_t) = of_nat i" by (metis u of_nat_unat unat_ucast_uint word_unat_eq_iff unat_of_nat64 unat64_less)
  then show "unat t < unat (bm_size M)" "task2network_impl M (ucast t) = x" using u i by simp_all
qed


section \<open>Properties\<close>

text \<open>C18: After initialization, tasks, network coordinates and node addresses translate into each
  other without loss: every task is found again from its coordinates and from its node address,
  every coordinate that maps to a task is the coordinate of that task, coordinates outside of the
  block are refused, and a task is local exactly when it is on the node of this process.\<close>

theorem bgq_mapping_roundtrip:
  assumes "kernel_ok (bm_sizes M) ks n" and "B = booted pacing routing ks n l2p p2t M"
  shows "(\<forall>i<n. network2task_impl B (task2network_impl B (of_nat i)) = Inr (of_nat i) \<and>
        node2task_impl B (task2node_impl B (of_nat i)) = Inr (of_nat i) \<and>
        isLocal_impl B (of_nat i) = (take 5 (task2network_impl B (of_nat i)) = take 5 (bm_coords M))) \<and>
     (\<forall>x t. length x = 6 \<longrightarrow> network2task_impl B x = Inr t \<longrightarrow> unat t < n \<and> task2network_impl B (ucast t) = x) \<and>
     (\<forall>x. length x = 6 \<longrightarrow> \<not> in_box (bm_sizes M) x \<longrightarrow> network2task_impl B x = Inl PAMI_INVAL)"
proof -
  have ok: "cache_ok B" using booted_ok [OF assms(1)] assms(2) by simp
  have n: "sizes_ok (bm_sizes M)" "n \<le> full_size (bm_sizes M)" using assms(1) by (auto simp: kernel_ok_def)
  have B: "bm_sizes B = bm_sizes M" "bm_size B = of_nat n" using booted_tables [OF assms(1)] assms(2) by metis+
  have "unat (bm_size B) = n" unfolding B(2) using small_size [OF n] by (intro unat_of_nat64) simp
  then show ?thesis
    using cache_roundtrip [OF ok] cache_inverse [OF ok] valid_address [OF n(1)] B(1) booted_local [OF assms(1)] assms(2)
    by (auto simp: network2task_impl_def)
qed

definition demo_map :: bgq_map where
  "demo_map = \<lparr>bm_sizes = [1, 1, 1, 1, 2, 2], bm_coords = [0, 0, 0, 0, 1, 0], bm_torusInfo = [False, False, False, False, False],
     bm_jobLL = 0, bm_task = 0, bm_task2coords = [], bm_coords2task = [], bm_local2peer = [], bm_peer2task = [],
     bm_size = 0, bm_local_size = 0, bm_lowestT = 0, bm_numActiveNodes = 0, bm_beyond = \<lambda>_. 0\<rparr>"

definition demo_kernel :: "uint_t list" where
  "demo_kernel = [0x80000000, 1, 0x80000001, 0]"

lemma demo_kernel_ok: "kernel_ok (bm_sizes demo_map) demo_kernel 3"
proof -
  have "mapped_coords (demo_kernel ! 0) = [0, 0, 0, 0, 1, 0]" "mapped_coords (demo_kernel ! 1) = [0, 0, 0, 0, 0, 1]"
    "mapped_coords (demo_kernel ! 2) = [0, 0, 0, 0, 1, 1]"
    by (simp_all add: demo_kernel_def mapped_coords_def)
  then show ?thesis
    by (auto simp: kernel_ok_def demo_map_def sizes_ok_def full_size_def in_box_def less_Suc_eq numeral_3_eq_3 demo_kernel_def)
qed

theorem bgq_mapping_roundtrip_witness:
  "network2task_impl (booted (True, 0, 0) (\<lambda>_. False) demo_kernel 3 [] [] demo_map)
     (task2network_impl (booted (True, 0, 0) (\<lambda>_. False) demo_kernel 3 [] [] demo_map) (of_nat 1)) = Inr (of_nat 1) \<and>
   task2network_impl (booted (True, 0, 0) (\<lambda>_. False) demo_kernel 3 [] [] demo_map) (of_nat 1) = [0, 0, 0, 0, 0, 1]"
proof
  show "network2task_impl (booted (True, 0, 0) (\<lambda>_. False) demo_kernel 3 [] [] demo_map)
     (task2network_impl (booted (True, 0, 0) (\<lambda>_. False) demo_kernel 3 [] [] demo_map) (of_nat 1)) = Inr (of_nat 1)"
    using conjunct1 [OF bgq_mapping_roundtrip [OF demo_kernel_ok refl]] by (metis one_less_numeral_iff semiring_norm(77))
  show "task2network_impl (booted (True, 0, 0) (\<lambda>_. False) demo_kernel 3 [] [] demo_map) (of_nat 1) = [0, 0, 0, 0, 0, 1]"
    by (subst booted_raw(2) [OF demo_kernel_ok]) (simp_all add: demo_kernel_def mapped_coords_def)
qed

text \<open>C19: Two tasks are peers exactly when the five torus coordinates agree, whatever flags the
  cache holds for them.\<close>

theorem bgq_peers_share_node:
  "isPeer_impl M t1 t2 = (take 5 (task2network_impl M t1) = take 5 (task2network_impl M t2))"
  by (rule isPeer_coords)


definition demo_pinned :: bgq_map where
  "demo_pinned = demo_map\<lparr>bm_task2coords := demo_kernel\<rparr>"


end
