(* ===== verification/Pami_BgqPeers.thy ===== *)
theory Pami_BgqPeers
  imports Pami_BgqCache
begin

unbundle bit_operations_syntax

text \<open>
  The tables of the local peers that \<^verbatim>\<open>Global::initializeMapCache\<close> fills: one entry for
  each task on the node of this process, numbered in the order of their t coordinates.
\<close>

section \<open>The loop over the t coordinates\<close>

definition peer_at :: "uint_t list \<Rightarrow> coord \<Rightarrow> coord \<Rightarrow> nat \<Rightarrow> uint_t" where
  "peer_at c2t sizes self t = c2t ! unat (ucast (ESTIMATED_TASK (self[5 := of_nat t]) sizes) :: uint_t)"

definition present :: "uint_t list \<Rightarrow> coord \<Rightarrow> coord \<Rightarrow> nat \<Rightarrow> nat list" where
  "present c2t sizes self k = filter (\<lambda>t. peer_at c2t sizes self t \<noteq> - 1) [0..<k]"

lemma present_bound: "t \<in> set (present c2t sizes self k) \<Longrightarrow> t < k"
  by (simp add: present_def)

lemma present_Suc:
  "present c2t sizes self (Suc k) =
    present c2t sizes self k @ (if peer_at c2t sizes self k \<noteq> - 1 then [k] else [])"
  by (simp add: present_def)

lemma length_present: "length (present c2t sizes self k) \<le> k"
  using length_filter_le [of _ "[0..<k]"] by (simp add: present_def)

definition peers_filled :: "uint_t list \<Rightarrow> coord \<Rightarrow> coord \<Rightarrow> nat \<Rightarrow> size_t list \<times> size_t list \<times> nat \<Rightarrow> bool" where
  "peers_filled c2t sizes self k = (\<lambda>(l2p, p2t, peer).
     peer = length (present c2t sizes self k) \<and>
     (\<forall>p<peer. p2t ! p = ucast (peer_at c2t sizes self (present c2t sizes self k ! p)) \<and>
        l2p ! (present c2t sizes self k ! p) = of_nat p))"

lemma peers_filled_step:
  assumes "peers_filled c2t sizes self k (l2p, p2t, peer)" and "k < length l2p" and "k < length p2t" and "k < 2 ^ 64"
  shows "peers_filled c2t sizes self (Suc k) (fill_peer c2t sizes self (of_nat k) (l2p, p2t, peer))"
proof -
  let ?L = "present c2t sizes self k"
  have peer: "peer = length ?L" "peer < length p2t" "unat (of_nat k :: size_t) = k"
    using assms length_present [of c2t sizes self k] by (auto simp: peers_filled_def unat_of_nat64)
  have ne: "k \<noteq> ?L ! p" if "p < peer" for p using present_bound [of "?L ! p"] that peer(1) nth_mem by (metis less_irrefl)
  show ?thesis
  proof (cases "peer_at c2t sizes self k = - 1")
    case True
    then show ?thesis using assms(1) by (simp add: peers_filled_def fill_peer_def present_Suc peer_at_def Let_def)
  next
    case False
    then have "fill_peer c2t sizes self (of_nat k) (l2p, p2t, peer) =
        (l2p[k := of_nat peer], p2t[peer := ucast (peer_at c2t sizes self k)], Suc peer)"
      by (simp add: fill_peer_def peer_at_def Let_def peer(3))
    then show ?thesis
      using False assms(1,2) peer ne by (auto simp: peers_filled_def present_Suc nth_append less_Suc_eq)
  qed
qed

lemma fill_peer_length:
  "length (fst (fill_peer c2t sizes self t s)) = length (fst s)"
  "length (fst (snd (fill_peer c2t sizes self t s))) = length (fst (snd s))"
  by (simp_all add: fill_peer_def Let_def split_beta)

lemma fill_peers_filled:
  assumes "unat (sizes ! 5) \<le> length l2p" and "unat (sizes ! 5) \<le> length p2t"
  shows "peers_filled c2t sizes self (unat (sizes ! 5)) (fill_peers c2t sizes self l2p p2t)"
proof -
  have "peers_filled c2t sizes self k (fold (fill_peer c2t sizes self) (map of_nat [0..<k]) (l2p, p2t, 0)) \<and>
      length (fst (fold (fill_peer c2t sizes self) (map of_nat [0..<k]) (l2p, p2t, 0))) = length l2p \<and>
      length (fst (snd (fold (fill_peer c2t sizes self) (map of_nat [0..<k]) (l2p, p2t, 0)))) = length p2t"
    if "k \<le> unat (sizes ! 5)" for k
    using that
  proof (induction k)
    case (Suc k)
    obtain l p n where f: "fold (fill_peer c2t sizes self) (map of_nat [0..<k]) (l2p, p2t, 0) = (l, p, n)"
      by (metis prod_cases3)
    then show ?case
      using Suc peers_filled_step [of c2t sizes self k l p n] assms unat64_less [of "sizes ! 5"]
      by (simp add: fill_peer_length)
  qed (simp add: peers_filled_def present_def)
  then show ?thesis by (simp add: fill_peers_def)
qed

section \<open>The peers are the tasks of the node\<close>

lemma booted_peers_filled:
  assumes "unat (bm_sizes M ! 5) \<le> length l2p" and "unat (bm_sizes M ! 5) \<le> length p2t" and "B = booted pacing routing ks n l2p p2t M"
  obtains peers where "bm_local_size B = of_nat peers" and
    "peers_filled (bm_coords2task B) (bm_sizes M) (bm_coords M) (unat (bm_sizes M ! 5)) (bm_local2peer B, bm_peer2task B, peers)"
  using fill_peers_filled [OF assms(1,2), of "bm_coords2task B" "bm_coords M"] that
  by (auto simp: assms(3) booted_def init_impl_def initializeMapCache_def Let_def split_beta)

lemma fill_peers_length:
  "length (fst (fill_peers c2t sizes self l2p p2t)) = length l2p"
proof -
  have "length (fst (fold (fill_peer c2t sizes self) ts s)) = length (fst s)" for ts s
    by (induction ts arbitrary: s) (simp_all add: fill_peer_length)
  then show ?thesis by (simp add: fill_peers_def)
qed

lemma booted_lengths:
  "B = booted pacing routing ks n l2p p2t M \<Longrightarrow> length (bm_local2peer B) = length l2p"
  using fill_peers_length by (simp add: booted_def init_impl_def initializeMapCache_def Let_def split_beta)

lemma self_at:
  assumes "sizes_ok sizes" and "in_box sizes self" and "t < unat (sizes ! 5)"
  shows "in_box sizes (self[5 := of_nat t])" and "unat (self[5 := of_nat t] ! 5) = t"
proof -
  obtain a b c d e u where s: "sizes = [a, b, c, d, e, u]" "unat u \<le> 64" using assms(1) by (elim sizes_okE)
  obtain xa xb xc xd xe xt where x: "self = [xa, xb, xc, xd, xe, xt]"
    using in_box_length [OF assms(1,2)] by (auto simp: numeral_eq_Suc length_Suc_conv)
  have "unat (of_nat t :: size_t) = t" using assms(3) s by (intro unat_of_nat64) simp
  then show "in_box sizes (self[5 := of_nat t])" "unat (self[5 := of_nat t] ! 5) = t"
    using assms(2,3) unfolding s x by (simp_all add: in_box_def)
qed

lemma same_node:
  assumes "length x = 6" and "length self = 6" and "take 5 x = take 5 self"
  shows "x = self[5 := of_nat (unat (x ! 5))]"
proof (rule nth_equalityI)
  fix i assume "i < length x"
  then have "i < 5 \<or> i = 5" using assms(1) by auto
  then show "x ! i = self[5 := of_nat (unat (x ! 5))] ! i"
    using assms(2) arg_cong [OF assms(3), of "\<lambda>l. l ! i"] by auto
qed (use assms in simp)

lemma peer_at_task:
  assumes "kernel_ok (bm_sizes M) ks n" and "B = booted pacing routing ks n l2p p2t M"
    and "in_box (bm_sizes M) (bm_coords M)" and "t < unat (bm_sizes M ! 5)"
  shows "peer_at (bm_coords2task B) (bm_sizes M) (bm_coords M) t = task_at B (ESTIMATED_TASK ((bm_coords M)[5 := of_nat t]) (bm_sizes M))"
proof -
  obtain f where f: "filled (bm_sizes M) (bm_coords M) (paceRgets pacing (bm_coords M) (bm_sizes M)) routing ks n f"
    "bm_coords2task B = fi_coords2task f" unfolding assms(2) using booted_tables [OF assms(1)] by blast
  have sz: "sizes_ok (bm_sizes M)" using assms(1) by (simp add: kernel_ok_def)
  note est = unat_ESTIMATED_TASK [OF sz self_at(1) [OF sz assms(3,4)]]
  have "unat (ESTIMATED_TASK ((bm_coords M)[5 := of_nat t]) (bm_sizes M)) < full_size (bm_sizes M)" using est by simp
  moreover then have "unat (ucast (ESTIMATED_TASK ((bm_coords M)[5 := of_nat t]) (bm_sizes M)) :: uint_t) =
      unat (ESTIMATED_TASK ((bm_coords M)[5 := of_nat t]) (bm_sizes M))"
    using full_size_less [OF sz] by (simp add: unsigned_ucast_eq take_bit_nat_eq_self)
  ultimately show ?thesis using f by (simp add: peer_at_def task_at_def filled_def)
qed

lemma task2node_t: "snd (task2node_impl B i) = task2network_impl B i ! 5"
  by (simp add: task2node_impl_def task2network_impl_def raw_coords_def Let_def)

lemma t_hash: "t < u \<Longrightarrow> unat (ESTIMATED_TASK [0, 0, 0, 0, 0, t] [1, 1, 1, 1, 1, u]) = unat t"
  by (simp add: word_less_nat_alt)

definition local_tasks :: "bgq_map \<Rightarrow> nat \<Rightarrow> nat set" where
  "local_tasks B n = {i. i < n \<and> isLocal_impl B (of_nat i)}"

lemma local_task_present:
  assumes k: "kernel_ok (bm_sizes M) ks n" and B: "B = booted pacing routing ks n l2p p2t M"
    and "in_box (bm_sizes M) (bm_coords M)" and "i \<in> local_tasks B n"
  defines "t \<equiv> unat (task2network_impl B (of_nat i) ! 5)"
  shows "t < unat (bm_sizes M ! 5)" and "peer_at (bm_coords2task B) (bm_sizes M) (bm_coords M) t = of_nat i"
    and "task2network_impl B (of_nat i) = (bm_coords M)[5 := of_nat t]"
proof -
  have sz: "sizes_ok (bm_sizes M)" "n \<le> full_size (bm_sizes M)" using k by (auto simp: kernel_ok_def)
  have B': "bm_sizes B = bm_sizes M" "bm_size B = of_nat n" using booted_tables [OF k] B by metis+
  have "unat (bm_size B) = n" unfolding B'(2) using small_size [OF sz] by (intro unat_of_nat64) simp
  then have ok: "task_ok B i" using booted_ok [OF k] assms(4) by (simp add: cache_ok_def local_tasks_def B)
  then have box: "in_box (bm_sizes M) (task2network_impl B (of_nat i))" by (simp add: task_ok_def B')
  then show t: "t < unat (bm_sizes M ! 5)"
    using sz(1) in_box_length [OF sz(1) box]
    by (auto simp: in_box_def t_def numeral_eq_Suc length_Suc_conv elim!: sizes_okE)
  show eq: "task2network_impl B (of_nat i) = (bm_coords M)[5 := of_nat t]"
    using assms(3,4) booted_local [OF k, where i = i and pacing = pacing and routing = routing and l2p = l2p and p2t = p2t]
    unfolding t_def B [symmetric] by (intro same_node in_box_length [OF sz(1)] box) (simp_all add: local_tasks_def)
  show "peer_at (bm_coords2task B) (bm_sizes M) (bm_coords M) t = of_nat i"
    using peer_at_task [OF k B assms(3) t] ok by (simp add: task_ok_def eq B')
qed

lemma present_local_task:
  assumes k: "kernel_ok (bm_sizes M) ks n" and B: "B = booted pacing routing ks n l2p p2t M"
    and "in_box (bm_sizes M) (bm_coords M)" and "t < unat (bm_sizes M ! 5)"
    and "peer_at (bm_coords2task B) (bm_sizes M) (bm_coords M) t \<noteq> - 1"
  shows "\<exists>i \<in> local_tasks B n. unat (task2network_impl B (of_nat i) ! 5) = t"
proof -
  have sz: "sizes_ok (bm_sizes M)" "n \<le> full_size (bm_sizes M)" using k by (auto simp: kernel_ok_def)
  have B': "bm_sizes B = bm_sizes M" "bm_size B = of_nat n" using booted_tables [OF k] B by metis+
  have "unat (bm_size B) = n" unfolding B'(2) using small_size [OF sz] by (intro unat_of_nat64) simp
  then have "\<exists>i<n. task2network_impl B (of_nat i) = (bm_coords M)[5 := of_nat t]"
    using booted_ok [OF k, of pacing routing l2p p2t] assms(5) self_at(1) [OF sz(1) assms(3,4)]
      peer_at_task [OF k B assms(3,4)] unfolding cache_ok_def B [symmetric] B' by metis
  then obtain i where "i < n" "task2network_impl B (of_nat i) = (bm_coords M)[5 := of_nat t]" by blast
  then show ?thesis
    using self_at(2) [OF sz(1) assms(3,4)]
      booted_local [OF k, where i = i and pacing = pacing and routing = routing and l2p = l2p and p2t = p2t]
    unfolding local_tasks_def B [symmetric] by (intro bexI [of _ i]) simp_all
qed

lemma task_of_nat:
  assumes "kernel_ok sizes ks n" and "i < n"
  shows "unat (of_nat i :: uint_t) = i" and "(of_nat i :: uint_t) \<noteq> - 1"
proof -
  have "i < 2 ^ 32 - 1" using assms small_size [of sizes n] by (simp add: kernel_ok_def)
  then show "unat (of_nat i :: uint_t) = i" by (simp add: unat_of_nat take_bit_nat_eq_self)
  then show "(of_nat i :: uint_t) \<noteq> - 1" using \<open>i < 2 ^ 32 - 1\<close> by (auto simp: word_unat_eq_iff unsigned_minus_1_eq_mask mask_eq_exp_minus_1)
qed

lemma task_ucast: "kernel_ok sizes ks n \<Longrightarrow> i < n \<Longrightarrow> (ucast (of_nat i :: uint_t) :: size_t) = of_nat i"
  using task_of_nat(1) [of sizes ks n i] by (metis of_nat_unat)

text \<open>C21: after the boot the tables of the node peers (\<^verbatim>\<open>local2peer\<close>, \<^verbatim>\<open>peer2task\<close>, \<^verbatim>\<open>nodePeers\<close>)
  number exactly the tasks that the mapping calls local: as many peers as local tasks, and the peer
  number of each of them is below that count and leads back to the task.\<close>

theorem bgq_node_peers:
  assumes "kernel_ok (bm_sizes M) ks n" and "in_box (bm_sizes M) (bm_coords M)"
    and "length l2p = unat (bm_sizes M ! 5)" and "length p2t = unat (bm_sizes M ! 5)"
    and "B = booted pacing routing ks n l2p p2t M" and "Loc = {i. i < n \<and> isLocal_impl B (of_nat i)}"
  shows "unat (nodePeers_impl B) = card Loc \<and>
    (\<forall>i\<in>Loc. \<exists>p<card Loc. task2peer_impl B (of_nat i) = Inr (of_nat p) \<and> bm_peer2task B ! p = of_nat i)"
proof -
  let ?L = "present (bm_coords2task B) (bm_sizes M) (bm_coords M) (unat (bm_sizes M ! 5))"
  let ?t = "\<lambda>i. unat (task2network_impl B (of_nat i) ! 5)"
  have Loc: "Loc = local_tasks B n" using assms(6) by (simp add: local_tasks_def)
  note at = local_task_present [OF assms(1,5,2)]
  obtain peers where f: "bm_local_size B = of_nat peers"
    "peers_filled (bm_coords2task B) (bm_sizes M) (bm_coords M) (unat (bm_sizes M ! 5)) (bm_local2peer B, bm_peer2task B, peers)"
    using booted_peers_filled assms(3-5) by (metis order_refl)
  have B': "bm_sizes B = bm_sizes M" using booted_tables [OF assms(1)] assms(5) by metis
  have inj: "inj_on ?t Loc"
  proof (rule inj_onI)
    fix i j assume "i \<in> Loc" "j \<in> Loc" "?t i = ?t j"
    then have "(of_nat i :: uint_t) = of_nat j" using at(2) Loc by metis
    then show "i = j" using task_of_nat(1) [OF assms(1)] \<open>i \<in> Loc\<close> \<open>j \<in> Loc\<close> by (metis Loc local_tasks_def mem_Collect_eq)
  qed
  have img: "?t ` Loc = set ?L"
    using at(1,2) present_local_task [OF assms(1,5,2)] task_of_nat(2) [OF assms(1)]
    by (fastforce simp: present_def Loc local_tasks_def)
  have card: "card Loc = length ?L"
    using card_image [OF inj] img distinct_card [of ?L] by (simp add: present_def)
  have small: "unat (bm_sizes M ! 5) \<le> 64" "length (bm_sizes M) = 6"
    using assms(1) by (auto simp: kernel_ok_def elim!: sizes_okE)
  have peers: "peers = card Loc" "peers \<le> 64"
    using f(2) card small(1) length_present [of "bm_coords2task B" "bm_sizes M" "bm_coords M" "unat (bm_sizes M ! 5)"]
    by (auto simp: peers_filled_def)
  have "\<exists>p<card Loc. task2peer_impl B (of_nat i) = Inr (of_nat p) \<and> bm_peer2task B ! p = of_nat i" if "i \<in> Loc" for i
  proof -
    have "?t i \<in> set ?L" using img that by blast
    then obtain p where p: "p < card Loc" "?L ! p = ?t i" unfolding card in_set_conv_nth by blast
    have t: "?t i < length (bm_local2peer B)" "?t i < unat (bm_sizes M ! 5)"
      using at(1) that Loc assms(3) booted_lengths [OF assms(5)] by auto
    have "p < peers" using p(1) peers(1) by simp
    then have "bm_peer2task B ! p = ucast (peer_at (bm_coords2task B) (bm_sizes M) (bm_coords M) (?L ! p)) \<and> bm_local2peer B ! (?L ! p) = of_nat p"
      using f(2) unfolding peers_filled_def prod.case by blast
    then have tab: "bm_local2peer B ! ?t i = of_nat p" "bm_peer2task B ! p = ucast (of_nat i :: uint_t)"
      unfolding p(2) using at(2) that Loc by simp_all
    have "(of_nat p :: size_t) \<noteq> 0xffffffff"
      using p(1) peers unat_of_nat64 [of p] by (auto dest: arg_cong [of _ _ unat])
    then have "task2peer_impl B (of_nat i) = Inr (of_nat p)"
      using t tab(1) B' by (simp add: task2peer_impl_def node2peer_impl_def Let_def task2node_t t_hash word_le_nat_alt word_less_nat_alt)
    moreover have "i < n" using that Loc by (simp add: local_tasks_def)
    ultimately show ?thesis using p(1) tab(2) task_ucast [OF assms(1)] by metis
  qed
  then show ?thesis using f(1) peers unat_of_nat64 [of peers] by (simp add: nodePeers_impl_def)
qed

theorem bgq_node_peers_witness:
  "\<exists>B. B = booted (False, 0, 0) (\<lambda>_. False) demo_kernel 3 [0xffffffff, 0xffffffff] [0, 0] demo_map \<and>
     unat (nodePeers_impl B) = card {i. i < 3 \<and> isLocal_impl B (of_nat i)} \<and>
     (\<forall>i\<in>{i. i < 3 \<and> isLocal_impl B (of_nat i)}. \<exists>p<card {i. i < 3 \<and> isLocal_impl B (of_nat i)}.
        task2peer_impl B (of_nat i) = Inr (of_nat p) \<and> bm_peer2task B ! p = of_nat i)"
  using bgq_node_peers [OF demo_kernel_ok, of "[0xffffffff, 0xffffffff]" "[0, 0]"
      "booted (False, 0, 0) (\<lambda>_. False) demo_kernel 3 [0xffffffff, 0xffffffff] [0, 0] demo_map" "(False, 0, 0)" "\<lambda>_. False"]
  by (simp add: demo_map_def in_box_def)

end
