(* ===== verification/Pami_Topology.thy ===== *)
theory Pami_Topology
  imports Pami_BgqMapping
begin

text \<open>
  \<^verbatim>\<open>common/default/Topology.h\<close>: sets of tasks in five representations, with the operations
  that select, convert and combine them. The mapping is a parameter, a record with the calls that
  \<^verbatim>\<open>Topology\<close> makes; the Blue Gene/Q mapping is one. A coordinate is the list of its
  \<^verbatim>\<open>globalDims\<close> significant dimensions. \<open>None\<close> is undefined behaviour of the source: a
  loop that never ends, a division by zero, a write behind the end of a temporary list, a use of
  freed memory or of a member of the union that was not set. Failing allocations abort and are
  not modelled.
\<close>

section \<open>State\<close>

type_synonym endpoint = uint_t

record mapping =
  mp_task :: pami_task_t
  mp_globalDims :: nat
  mp_torusDims :: nat
  mp_torusSize :: "nat \<Rightarrow> size_t"
  mp_task2network :: "pami_task_t \<Rightarrow> coord"
  mp_network2task :: "coord \<Rightarrow> pami_task_t option"
  mp_isPeer :: "pami_task_t \<Rightarrow> pami_task_t \<Rightarrow> bool"
  mp_nodePeers :: size_t
  mp_torusInformation :: "coord \<Rightarrow> coord \<Rightarrow> bool list"
  mp_task2node :: "pami_task_t \<Rightarrow> nodeaddr"
  mp_numActiveNodes :: size_t
  mp_endpoint_init :: "pami_task_t \<Rightarrow> size_t \<Rightarrow> endpoint"
  mp_endpoint_info :: "endpoint \<Rightarrow> pami_task_t \<times> size_t"

record rectseg =
  rs_ll :: coord
  rs_ur :: coord
  rs_istorus :: "bool list"

datatype topo =
    T_empty
  | T_single pami_task_t
  | T_range pami_task_t pami_task_t
  | T_list "pami_task_t list"
  | T_eplist "endpoint list"
  | T_coord rectseg
  | T_axial rectseg coord

record topology =
  tp_size :: size_t
  tp_topo :: topo
  tp_offset :: size_t
  tp_all_contexts :: bool
  tp_free_ranklist :: bool

text \<open>\<^verbatim>\<open>COORDS2RANK\<close> leaves the variable \<open>rank\<close> alone when it fails.\<close>

definition COORDS2RANK :: "mapping \<Rightarrow> coord \<Rightarrow> pami_task_t \<Rightarrow> pami_task_t" where
  "COORDS2RANK M c rank = (case mp_network2task M c of Some r \<Rightarrow> r | None \<Rightarrow> rank)"

definition IS_LOCAL_PEER :: "mapping \<Rightarrow> pami_task_t \<Rightarrow> bool" where
  "IS_LOCAL_PEER M r = mp_isPeer M (mp_task M) r"

section \<open>Loops over tasks\<close>

text \<open>The tasks that \<^verbatim>\<open>for (r = first; r <= last; ++r)\<close> visits, and such a loop with an
  early exit. Neither ends when \<open>last\<close> is the largest task number.\<close>

partial_function (option) task_range :: "pami_task_t \<Rightarrow> pami_task_t \<Rightarrow> pami_task_t list option" where
  "task_range r hi = (if r \<le> hi then do { rs \<leftarrow> task_range (r + 1) hi; Some (r # rs) } else Some [])"

partial_function (option) range_all :: "(pami_task_t \<Rightarrow> bool) \<Rightarrow> pami_task_t \<Rightarrow> pami_task_t \<Rightarrow> bool option" where
  "range_all P r hi =
     (if r \<le> hi then (if P r then range_all P (r + 1) hi else Some False) else Some True)"

section \<open>Rectangles\<close>

definition isLocalCoord :: "mapping \<Rightarrow> coord \<Rightarrow> coord \<Rightarrow> bool" where
  "isLocalCoord M c0 c1 \<longleftrightarrow> list_all (\<lambda>x. c0 ! x = c1 ! x) [0..<mp_torusDims M]"

definition isMemberCoord :: "rectseg \<Rightarrow> coord \<Rightarrow> nat \<Rightarrow> bool" where
  "isMemberCoord r c0 ndims \<longleftrightarrow> list_all (\<lambda>x. \<not> (c0 ! x < rs_ll r ! x \<or> rs_ur r ! x < c0 ! x)) [0..<ndims]"

fun nextCoord :: "rectseg \<Rightarrow> coord \<Rightarrow> nat \<Rightarrow> coord \<times> bool" where
  "nextCoord r c0 0 = (c0, False)"
| "nextCoord r c0 (Suc x) =
     (let c1 = c0[x := c0 ! x + 1] in
      if c1 ! x \<le> rs_ur r ! x then (c1, True)
      else nextCoord r (c1[x := rs_ll r ! x]) x)"

definition initRange :: "coord \<Rightarrow> nat \<Rightarrow> coord \<times> coord" where
  "initRange c0 ndims = (take ndims c0, take ndims c0)"

definition dimSize :: "size_t \<Rightarrow> size_t \<Rightarrow> uint_t" where
  "dimSize l u = ucast (u - l + 1)"

definition sizeRange :: "coord \<Rightarrow> coord \<Rightarrow> nat \<Rightarrow> size_t" where
  "sizeRange ll ur ndims = foldl (\<lambda>s x. s * ucast (dimSize (ll ! x) (ur ! x))) 1 [0..<ndims]"

definition bumpRange :: "coord \<times> coord \<Rightarrow> coord \<Rightarrow> nat \<Rightarrow> coord \<times> coord" where
  "bumpRange lu c0 ndims =
     (map (\<lambda>x. if c0 ! x < fst lu ! x then c0 ! x else fst lu ! x) [0..<ndims],
      map (\<lambda>x. if \<not> c0 ! x < fst lu ! x \<and> snd lu ! x < c0 ! x then c0 ! x else snd lu ! x) [0..<ndims])"

definition coordLT :: "coord \<Rightarrow> coord \<Rightarrow> nat \<Rightarrow> bool" where
  "coordLT c0 c1 ndims \<longleftrightarrow> list_all (\<lambda>x. \<not> c1 ! x \<le> c0 ! x) [0..<ndims]"

definition coordMAX :: "coord \<Rightarrow> coord \<Rightarrow> nat \<Rightarrow> coord" where
  "coordMAX c0 c1 ndims = map (\<lambda>x. if c1 ! x < c0 ! x then c0 ! x else c1 ! x) [0..<ndims]"

definition coordMIN :: "coord \<Rightarrow> coord \<Rightarrow> nat \<Rightarrow> coord" where
  "coordMIN c0 c1 ndims = map (\<lambda>x. if c0 ! x < c1 ! x then c0 ! x else c1 ! x) [0..<ndims]"

text \<open>The coordinates that \<^verbatim>\<open>do ... while (__nextCoord (&c0, ndims))\<close> visits.\<close>

partial_function (option) coords_from :: "rectseg \<Rightarrow> nat \<Rightarrow> coord \<Rightarrow> coord list option" where
  "coords_from r ndims c0 =
     (let (c1, more) = nextCoord r c0 ndims in
      if more then do { cs \<leftarrow> coords_from r ndims c1; Some (c0 # cs) } else Some [c0])"

text \<open>The ranks of these coordinates: one variable \<open>rank\<close> for all of them.\<close>

fun ranks_of :: "mapping \<Rightarrow> pami_task_t \<Rightarrow> coord list \<Rightarrow> pami_task_t list" where
  "ranks_of M rank [] = []"
| "ranks_of M rank (c # cs) = (let r = COORDS2RANK M c rank in r # ranks_of M r cs)"

definition rect_ranks :: "mapping \<Rightarrow> rectseg \<Rightarrow> pami_task_t list option" where
  "rect_ranks M r = map_option (ranks_of M 0) (coords_from r (mp_globalDims M) (rs_ll r))"

section \<open>Constructors\<close>

definition Topology_empty :: topology where
  "Topology_empty = \<lparr>tp_size = 0, tp_topo = T_empty, tp_offset = 0, tp_all_contexts = False, tp_free_ranklist = False\<rparr>"

definition Topology_coord :: "mapping \<Rightarrow> coord \<Rightarrow> coord \<Rightarrow> bool list option \<Rightarrow> topology" where
  "Topology_coord M ll ur links =
     \<lparr>tp_size = sizeRange ll ur (mp_globalDims M),
      tp_topo = T_coord \<lparr>rs_ll = ll, rs_ur = ur,
         rs_istorus = (case links of Some f \<Rightarrow> take (mp_globalDims M) f | None \<Rightarrow> mp_torusInformation M ll ur)\<rparr>,
      tp_offset = 0, tp_all_contexts = False, tp_free_ranklist = False\<rparr>"

definition Topology_axial :: "mapping \<Rightarrow> coord \<Rightarrow> coord \<Rightarrow> coord \<Rightarrow> bool list option \<Rightarrow> topology" where
  "Topology_axial M ll ur ref links =
     \<lparr>tp_size = foldl (\<lambda>s i. s + (mp_torusSize M i + ur ! i - ll ! i) mod mp_torusSize M i) 1 [0..<mp_globalDims M],
      tp_topo = T_axial \<lparr>rs_ll = ll, rs_ur = ur,
         rs_istorus = (case links of Some f \<Rightarrow> take (mp_globalDims M) f | None \<Rightarrow> mp_torusInformation M ll ur)\<rparr> ref,
      tp_offset = 0, tp_all_contexts = False, tp_free_ranklist = False\<rparr>"

definition Topology_single :: "pami_task_t \<Rightarrow> topology" where
  "Topology_single rank =
     \<lparr>tp_size = 1, tp_topo = T_single rank, tp_offset = 0, tp_all_contexts = False, tp_free_ranklist = False\<rparr>"

definition Topology_range :: "pami_task_t \<Rightarrow> pami_task_t \<Rightarrow> topology" where
  "Topology_range rank0 rankn =
     \<lparr>tp_size = ucast (rankn - rank0 + 1), tp_topo = T_range rank0 rankn, tp_offset = 0, tp_all_contexts = False,
      tp_free_ranklist = False\<rparr>"

definition PAMI_ALL_CONTEXTS :: size_t where "PAMI_ALL_CONTEXTS = - 1"

definition Topology_eprange :: "pami_task_t \<Rightarrow> pami_task_t \<Rightarrow> size_t \<Rightarrow> size_t \<Rightarrow> topology" where
  "Topology_eprange rank0 rankn context_offset ncontexts =
     (Topology_range rank0 rankn)
       \<lparr>tp_all_contexts := (context_offset = PAMI_ALL_CONTEXTS),
        tp_offset := (if context_offset = PAMI_ALL_CONTEXTS then ncontexts else context_offset)\<rparr>"

definition Topology_list :: "pami_task_t list \<Rightarrow> size_t \<Rightarrow> size_t \<Rightarrow> topology" where
  "Topology_list ranks context_offset ncontexts =
     \<lparr>tp_size = of_nat (length ranks), tp_topo = T_list ranks,
      tp_offset = (if context_offset = PAMI_ALL_CONTEXTS then ncontexts else context_offset),
      tp_all_contexts = (context_offset = PAMI_ALL_CONTEXTS), tp_free_ranklist = False\<rparr>"

definition Topology_eplist :: "endpoint list \<Rightarrow> topology" where
  "Topology_eplist eps =
     \<lparr>tp_size = of_nat (length eps), tp_topo = T_eplist eps, tp_offset = 0, tp_all_contexts = False, tp_free_ranklist = False\<rparr>"

text \<open>The clone constructor, the copy constructor and the assignment copy the lists.\<close>

definition copy_topology :: "topology \<Rightarrow> topology" where
  "copy_topology t = t\<lparr>tp_free_ranklist := (case tp_topo t of T_list _ \<Rightarrow> True | T_eplist _ \<Rightarrow> True | _ \<Rightarrow> False)\<rparr>"

definition make_empty :: "topology \<Rightarrow> topology" where
  "make_empty new = new\<lparr>tp_topo := T_empty, tp_size := 0, tp_free_ranklist := False\<rparr>"

section \<open>Queries\<close>

definition topo_size_impl :: "topology \<Rightarrow> size_t" where
  "topo_size_impl t = (if tp_all_contexts t then tp_size t * tp_offset t else tp_size t)"

text \<open>The coordinate with index \<open>ix\<close> in a rectangle, the last dimension running fastest.\<close>

fun rect_coord :: "rectseg \<Rightarrow> size_t \<Rightarrow> coord \<Rightarrow> nat \<Rightarrow> coord option" where
  "rect_coord r ix c0 0 = Some c0"
| "rect_coord r ix c0 (Suc x) =
     (if ix = 0 then Some c0
      else (let ll = (ucast (rs_ll r ! x) :: uint_t);
                ur = (ucast (rs_ur r ! x) :: uint_t);
                nn = ur - ll + 1 in
            if nn = 0 then None
            else rect_coord r (ix div ucast nn) (c0[x := ucast ll + ix mod ucast nn]) x))"

text \<open>The coordinate with index \<open>ix\<close> on the axes: dimension by dimension from \<open>x\<close> on, first
  upwards from the centre, then downwards.\<close>

function axial_coord :: "mapping \<Rightarrow> rectseg \<Rightarrow> coord \<Rightarrow> size_t \<Rightarrow> nat \<Rightarrow> coord \<Rightarrow> coord option" where
  "axial_coord M r center ix x c0 =
     (if x < mp_globalDims M \<and> 0 < ix
      then (let ll = (ucast (rs_ll r ! x) :: uint_t);
                ur = (ucast (rs_ur r ! x) :: uint_t);
                ts = mp_torusSize M x;
                up = (ucast ((ts + ucast ur - center ! x) mod ts) :: uint_t);
                down = (ucast ((ts + center ! x - ucast ll) mod ts) :: uint_t) in
            if ts = 0 then None
            else if ix \<le> ucast up then Some (c0[x := (c0 ! x + ix) mod ts])
            else if ix - ucast up \<le> ucast down then Some (c0[x := (ts + c0 ! x - (ix - ucast up)) mod ts])
            else axial_coord M r center (ix - ucast up - ucast down) (Suc x) c0)
      else Some c0)"
  by auto
termination
  by (relation "measure (\<lambda>(M, r, center, ix, x, c0). mp_globalDims M - x)") auto

declare axial_coord.simps [simp del]

definition index2Rank_impl :: "mapping \<Rightarrow> topology \<Rightarrow> size_t \<Rightarrow> pami_task_t option" where
  "index2Rank_impl M t index =
     (let eplist = (case tp_topo t of T_eplist _ \<Rightarrow> True | _ \<Rightarrow> False) in
      if tp_all_contexts t \<and> \<not> eplist \<and> tp_offset t = 0 then None
      else (let ix = (if tp_all_contexts t \<and> \<not> eplist then index div tp_offset t else index) in
            if \<not> ix < tp_size t then Some (- 1)
            else (case tp_topo t of
                    T_eplist eps \<Rightarrow> Some (fst (mp_endpoint_info M (eps ! unat ix)))
                  | T_single r \<Rightarrow> Some r
                  | T_range f _ \<Rightarrow> Some (f + ucast ix)
                  | T_list rl \<Rightarrow> Some (rl ! unat ix)
                  | T_axial r center \<Rightarrow>
                      map_option (\<lambda>c. COORDS2RANK M c 0) (axial_coord M r center ix 0 center)
                  | T_coord r \<Rightarrow>
                      map_option (\<lambda>c. COORDS2RANK M c 0) (rect_coord r ix (rs_ll r) (mp_globalDims M))
                  | T_empty \<Rightarrow> Some (- 1))))"

text \<open>The search in a list, and the index of a coordinate in a rectangle from dimension \<open>x\<close> on.\<close>

fun list_index :: "'a \<Rightarrow> 'a list \<Rightarrow> nat \<Rightarrow> size_t" where
  "list_index r [] x = - 1"
| "list_index r (y # ys) x = (if r = y then of_nat x else list_index r ys (Suc x))"

fun rect_index :: "rectseg \<Rightarrow> coord \<Rightarrow> size_t \<Rightarrow> nat list \<Rightarrow> size_t" where
  "rect_index r c0 ix [] = ix"
| "rect_index r c0 ix (x # xs) =
     (let ll = (ucast (rs_ll r ! x) :: uint_t);
          ur = (ucast (rs_ur r ! x) :: uint_t) in
      if c0 ! x < ucast ll \<or> ucast ur < c0 ! x then - 1
      else rect_index r c0 (ix * ucast (ur - ll + 1) + (c0 ! x - ucast ll)) xs)"

fun axial_index :: "rectseg \<Rightarrow> coord \<Rightarrow> coord \<Rightarrow> size_t \<Rightarrow> nat list \<Rightarrow> size_t" where
  "axial_index r center c0 ix [] = 0"
| "axial_index r center c0 ix (x # xs) =
     (let ll = (ucast (rs_ll r ! x) :: uint_t);
          ur = (ucast (rs_ur r ! x) :: uint_t) in
      if c0 ! x = center ! x then axial_index r center c0 (ix + ucast (ur - ll)) xs
      else if center ! x < c0 ! x then ix + (c0 ! x - center ! x)
      else ix + ((ucast ur - center ! x) + (center ! x - c0 ! x)))"

definition rank2Index_impl :: "mapping \<Rightarrow> topology \<Rightarrow> pami_task_t \<Rightarrow> size_t" where
  "rank2Index_impl M t rank =
     (case tp_topo t of
        T_single r \<Rightarrow> if r = rank then 0 else - 1
      | T_range f l \<Rightarrow> if f \<le> rank \<and> rank \<le> l then ucast (rank - f) else - 1
      | T_list rl \<Rightarrow> list_index rank rl 0
      | T_axial r center \<Rightarrow> axial_index r center (mp_task2network M rank) 0 [0..<mp_globalDims M]
      | T_coord r \<Rightarrow> rect_index r (mp_task2network M rank) 0 [0..<mp_globalDims M]
      | _ \<Rightarrow> - 1)"

definition index2PermutedIndex_impl :: "mapping \<Rightarrow> topology \<Rightarrow> size_t \<Rightarrow> size_t" where
  "index2PermutedIndex_impl M t index =
     (if index < tp_size t
      then (let i = index + rank2Index_impl M t (mp_task M) in if i < tp_size t then i else i - tp_size t)
      else - 1)"

definition rankRange_impl :: "topology \<Rightarrow> pami_result \<times> (pami_task_t \<times> pami_task_t) option" where
  "rankRange_impl t = (case tp_topo t of T_range f l \<Rightarrow> (PAMI_SUCCESS, Some (f, l)) | _ \<Rightarrow> (PAMI_UNIMPL, None))"

text \<open>\<open>None\<close>: asking an endpoint list for its ranks aborts.\<close>

definition rankList_impl :: "topology \<Rightarrow> (pami_result \<times> pami_task_t list) option" where
  "rankList_impl t =
     (case tp_topo t of
        T_list rl \<Rightarrow> Some (PAMI_SUCCESS, rl)
      | T_single r \<Rightarrow> Some (PAMI_SUCCESS, [r])
      | T_eplist _ \<Rightarrow> None
      | _ \<Rightarrow> Some (PAMI_UNIMPL, []))"

definition list_impl :: "topology \<Rightarrow> pami_result \<times> uint_t list" where
  "list_impl t =
     (case tp_topo t of
        T_eplist eps \<Rightarrow> (PAMI_SUCCESS, eps)
      | T_list rl \<Rightarrow> (PAMI_SUCCESS, rl)
      | T_single r \<Rightarrow> (PAMI_SUCCESS, [r])
      | _ \<Rightarrow> (PAMI_UNIMPL, []))"

definition axial_impl :: "topology \<Rightarrow> pami_result \<times> (coord \<times> coord \<times> coord \<times> bool list) option" where
  "axial_impl t =
     (case tp_topo t of
        T_axial r center \<Rightarrow> (PAMI_SUCCESS, Some (rs_ll r, rs_ur r, center, rs_istorus r))
      | _ \<Rightarrow> (PAMI_UNIMPL, None))"

definition rectSeg_impl :: "topology \<Rightarrow> pami_result \<times> (coord \<times> coord \<times> bool list) option" where
  "rectSeg_impl t =
     (case tp_topo t of
        T_coord r \<Rightarrow> (PAMI_SUCCESS, Some (rs_ll r, rs_ur r, rs_istorus r))
      | _ \<Rightarrow> (PAMI_UNIMPL, None))"

definition isLocal_topology :: "mapping \<Rightarrow> topology \<Rightarrow> bool option" where
  "isLocal_topology M t =
     (case tp_topo t of
        T_coord r \<Rightarrow> Some (isLocalCoord M (rs_ll r) (rs_ur r))
      | T_single _ \<Rightarrow> Some True
      | T_range f l \<Rightarrow> range_all (\<lambda>r. isLocalCoord M (mp_task2network M f) (mp_task2network M r)) (f + 1) l
      | T_list rl \<Rightarrow> Some (list_all (\<lambda>r. isLocalCoord M (mp_task2network M (hd rl)) (mp_task2network M r)) (tl rl))
      | _ \<Rightarrow> Some False)"

definition isLocalToMe_impl :: "mapping \<Rightarrow> topology \<Rightarrow> bool option" where
  "isLocalToMe_impl M t =
     (case tp_topo t of
        T_coord r \<Rightarrow>
          Some (isLocalCoord M (rs_ll r) (rs_ur r) \<and> isLocalCoord M (mp_task2network M (mp_task M)) (rs_ll r))
      | T_single r \<Rightarrow> Some (IS_LOCAL_PEER M r)
      | T_range f l \<Rightarrow> range_all (IS_LOCAL_PEER M) f l
      | T_list rl \<Rightarrow> Some (list_all (IS_LOCAL_PEER M) rl)
      | _ \<Rightarrow> Some False)"

definition isRectSeg_impl :: "topology \<Rightarrow> bool" where
  "isRectSeg_impl t \<longleftrightarrow> (case tp_topo t of T_coord _ \<Rightarrow> True | _ \<Rightarrow> False)"

text \<open>The flag is \<open>None\<close> for a dimension for which none was ever stored.\<close>

definition getNthDims_impl :: "topology \<Rightarrow> nat \<Rightarrow> pami_result \<times> (uint_t \<times> uint_t \<times> bool option) option" where
  "getNthDims_impl t n =
     (case tp_topo t of
        T_coord r \<Rightarrow> (PAMI_SUCCESS, Some (ucast (rs_ll r ! n), ucast (rs_ur r ! n),
          if n < length (rs_istorus r) then Some (rs_istorus r ! n) else None))
      | _ \<Rightarrow> (PAMI_UNIMPL, None))"

definition isContextOffset_impl :: "topology \<Rightarrow> size_t \<Rightarrow> bool" where
  "isContextOffset_impl t slc \<longleftrightarrow>
     tp_offset t = slc \<and> (case tp_topo t of T_eplist _ \<Rightarrow> False | _ \<Rightarrow> True)"

definition isRankMember_impl :: "mapping \<Rightarrow> topology \<Rightarrow> pami_task_t \<Rightarrow> bool" where
  "isRankMember_impl M t rank =
     (case tp_topo t of
        T_coord r \<Rightarrow> isMemberCoord r (mp_task2network M rank) (mp_globalDims M)
      | T_axial r _ \<Rightarrow> isMemberCoord r (mp_task2network M rank) (mp_globalDims M)
      | T_single r \<Rightarrow> rank = r
      | T_range f l \<Rightarrow> f \<le> rank \<and> rank \<le> l
      | T_list rl \<Rightarrow> list_ex (\<lambda>r. rank = r) rl
      | T_eplist eps \<Rightarrow>
          (let ep = mp_endpoint_init M rank (if tp_all_contexts t then 0 else tp_offset t) in
           list_ex (\<lambda>e. ep = e) eps)
      | T_empty \<Rightarrow> False)"

definition isCoordMember_impl :: "mapping \<Rightarrow> topology \<Rightarrow> coord \<Rightarrow> bool" where
  "isCoordMember_impl M t c0 =
     (case tp_topo t of
        T_coord r \<Rightarrow> isMemberCoord r c0 (mp_globalDims M)
      | T_empty \<Rightarrow> False
      | _ \<Rightarrow> isRankMember_impl M t (COORDS2RANK M c0 0))"

text \<open>At most \<open>n\<close> ranks are written.\<close>

fun range_fill :: "nat \<Rightarrow> pami_task_t \<Rightarrow> pami_task_t \<Rightarrow> pami_task_t list" where
  "range_fill 0 r hi = []"
| "range_fill (Suc n) r hi = (if r \<le> hi then r # range_fill n (r + 1) hi else [])"

fun rect_fill :: "mapping \<Rightarrow> rectseg \<Rightarrow> nat \<Rightarrow> pami_task_t \<Rightarrow> coord \<Rightarrow> pami_task_t list" where
  "rect_fill M r 0 rank c0 = []"
| "rect_fill M r (Suc n) rank c0 =
     (let rank1 = COORDS2RANK M c0 rank; (c1, more) = nextCoord r c0 (mp_globalDims M) in
      rank1 # (if more then rect_fill M r n rank1 c1 else []))"

text \<open>The result: the ranks written and the number reported. An endpoint list writes the ranks
  of its endpoints.\<close>

definition getRankList_impl :: "mapping \<Rightarrow> topology \<Rightarrow> nat \<Rightarrow> pami_task_t list \<times> size_t" where
  "getRankList_impl M t mx =
     ((case tp_topo t of
         T_list rl \<Rightarrow> take mx rl
       | T_eplist eps \<Rightarrow> map (\<lambda>e. fst (mp_endpoint_info M e)) (take mx eps)
       | T_coord r \<Rightarrow> rect_fill M r (Suc (mx - 1)) 0 (take (mp_globalDims M) (rs_ll r))
       | T_single r \<Rightarrow> [r]
       | T_range f l \<Rightarrow> range_fill mx f l
       | _ \<Rightarrow> []), tp_size t)"

section \<open>Endpoints\<close>

definition index2Endpoint_impl :: "mapping \<Rightarrow> topology \<Rightarrow> size_t \<Rightarrow> endpoint option" where
  "index2Endpoint_impl M t ordinal =
     (case tp_topo t of
        T_eplist eps \<Rightarrow> if unat ordinal < length eps then Some (eps ! unat ordinal) else None
      | _ \<Rightarrow>
          do { task \<leftarrow> index2Rank_impl M t ordinal;
               Some (mp_endpoint_init M task (if tp_all_contexts t then ordinal mod tp_offset t else tp_offset t)) })"

definition endpoint2Index_impl :: "mapping \<Rightarrow> topology \<Rightarrow> endpoint \<Rightarrow> size_t" where
  "endpoint2Index_impl M t ep =
     (case tp_topo t of
        T_eplist eps \<Rightarrow> list_index ep eps 0
      | _ \<Rightarrow>
          (let (task, offset) = mp_endpoint_info M ep in
           if tp_all_contexts t then rank2Index_impl M t task * tp_offset t + offset else rank2Index_impl M t task))"

definition rankContext2Endpoint_impl :: "mapping \<Rightarrow> pami_task_t \<Rightarrow> size_t \<Rightarrow> endpoint" where
  "rankContext2Endpoint_impl M task offset = mp_endpoint_init M task offset"

fun endpoint_search :: "mapping \<Rightarrow> topology \<Rightarrow> endpoint \<Rightarrow> nat list \<Rightarrow> bool option" where
  "endpoint_search M t ep [] = Some False"
| "endpoint_search M t ep (i # is) =
     do { e \<leftarrow> index2Endpoint_impl M t (of_nat i);
          if ep = e then Some True else endpoint_search M t ep is }"

definition isEndpointMember_impl :: "mapping \<Rightarrow> topology \<Rightarrow> endpoint \<Rightarrow> bool option" where
  "isEndpointMember_impl M t ep = endpoint_search M t ep [0..<unat (topo_size_impl t)]"

end
