(* ===== verification/Pami_TopologyOps.thy ===== *)
theory Pami_TopologyOps
  imports Pami_Topology "HOL-Library.Signed_Division"
begin

text \<open>
  \<^verbatim>\<open>common/default/Topology.h\<close>, second part: the operations that build a topology from
  another one or from two. \<open>new\<close> is the topology that the caller passes for the result; fields
  that the source does not assign keep their values.
\<close>

section \<open>Parts of a topology\<close>

text \<open>The ranks on this node. The list of the result has room for \<^verbatim>\<open>nodePeers\<close> ranks. The
  axial result gets no new centre. An endpoint list without local endpoints allocates no bytes,
  which leaves open which topology results.\<close>

definition local_list :: "topology \<Rightarrow> topology \<Rightarrow> size_t \<Rightarrow> pami_task_t list \<Rightarrow> topology option" where
  "local_list t new z rl =
     (if unat z < length rl then None
      else if rl = [] then Some (make_empty new)
      else Some (new\<lparr>tp_topo := T_list rl, tp_size := of_nat (length rl), tp_free_ranklist := True,
                     tp_offset := tp_offset t, tp_all_contexts := tp_all_contexts t\<rparr>))"

definition local_rect :: "mapping \<Rightarrow> coord \<Rightarrow> rectseg \<Rightarrow> rectseg" where
  "local_rect M me r =
     (let td = mp_torusDims M in
      \<lparr>rs_ll = take td me @ drop td (rs_ll r), rs_ur = take td me @ drop td (rs_ur r),
       rs_istorus = replicate td False @ drop td (rs_istorus r)\<rparr>)"

definition subTopologyLocalToMe_impl :: "mapping \<Rightarrow> topology \<Rightarrow> topology \<Rightarrow> topology option" where
  "subTopologyLocalToMe_impl M t new =
     (let me = mp_task2network M (mp_task M); local_dims = [mp_torusDims M..<mp_globalDims M] in
      case tp_topo t of
        T_coord r \<Rightarrow>
          if isMemberCoord r me (mp_torusDims M)
          then Some (new\<lparr>tp_topo := T_coord (local_rect M me r),
                         tp_size := foldl (\<lambda>s x. s * (rs_ur r ! x - rs_ll r ! x + 1)) 1 local_dims,
                         tp_free_ranklist := False\<rparr>)
          else Some (make_empty new)
      | T_axial r _ \<Rightarrow>
          if isMemberCoord r me (mp_torusDims M)
          then (let s = foldl (\<lambda>s x. (if s = 0 then 1 else s) * (rs_ur r ! x - rs_ll r ! x + 1)) 0 local_dims in
                if s = 0 then Some (make_empty new)
                else (case tp_topo new of
                        T_axial _ center \<Rightarrow>
                          Some (new\<lparr>tp_topo := T_axial (local_rect M me r) center, tp_size := s, tp_free_ranklist := False\<rparr>)
                      | _ \<Rightarrow> None))
          else Some (make_empty new)
      | T_single r \<Rightarrow> if IS_LOCAL_PEER M r then Some (copy_topology t) else Some (make_empty new)
      | T_range f l \<Rightarrow> do { rs \<leftarrow> task_range f l; local_list t new (mp_nodePeers M) (filter (IS_LOCAL_PEER M) rs) }
      | T_list rl \<Rightarrow> local_list t new (mp_nodePeers M) (filter (IS_LOCAL_PEER M) rl)
      | T_eplist eps \<Rightarrow>
          (let epl = filter (\<lambda>e. IS_LOCAL_PEER M (fst (mp_endpoint_info M e))) eps in
           if epl = [] then None
           else Some (new\<lparr>tp_topo := T_eplist epl, tp_size := of_nat (length epl), tp_free_ranklist := True,
                          tp_offset := 0, tp_all_contexts := False\<rparr>))
      | T_empty \<Rightarrow> Some (make_empty new))"

text \<open>The Nth ranks of all nodes of a rectangle: \<open>n\<close> selects a point of the local dimensions.\<close>

fun nth_dims :: "rectseg \<Rightarrow> int \<Rightarrow> coord \<Rightarrow> nat list \<Rightarrow> (int \<times> coord) option" where
  "nth_dims r n c [] = Some (n, c)"
| "nth_dims r n c (x # xs) =
     (let ll = (ucast (rs_ll r ! x) :: uint_t);
          ur = (ucast (rs_ur r ! x) :: uint_t);
          nn = sint (ur - ll + 1) in
      if n < nn then nth_dims r 0 (c[x := ucast (ll + of_int n)]) xs
      else if nn = 0 then None
      else nth_dims r (n sdiv nn) (c[x := ucast (ll + of_int (n smod nn))]) xs)"

definition subTopologyNthGlobal :: "mapping \<Rightarrow> topology \<Rightarrow> rectseg \<Rightarrow> int \<Rightarrow> topology option" where
  "subTopologyNthGlobal M t r n =
     do { (n1, c) \<leftarrow> nth_dims r n (rs_ll r) [mp_torusDims M..<mp_globalDims M];
          let new = copy_topology t in
          if n1 = 0
          then Some (new\<lparr>tp_topo := T_coord (r\<lparr>rs_ll := c, rs_ur := take (mp_torusDims M) (rs_ur r) @ drop (mp_torusDims M) c\<rparr>),
                         tp_size := sizeRange (rs_ll r) (rs_ur r) (mp_torusDims M), tp_free_ranklist := False\<rparr>)
          else Some (make_empty new) }"

text \<open>The table of the nodes seen so far: the address of a node, how many of its ranks were seen,
  and the place of the rank selected for it in the result, or \<open>-1\<close>.\<close>

type_synonym tb_t = "size_t \<times> size_t \<times> size_t"

fun tb_find :: "size_t \<Rightarrow> tb_t list \<Rightarrow> nat" where
  "tb_find g [] = 0"
| "tb_find g (e # tb) = (if g = fst e then 0 else Suc (tb_find g tb))"

definition nth_step :: "size_t \<Rightarrow> nat \<Rightarrow> 'a \<Rightarrow> nodeaddr \<Rightarrow> tb_t list \<times> 'a list \<Rightarrow> (tb_t list \<times> 'a list) option" where
  "nth_step n cap r a = (\<lambda>(tb, rl).
     (let j = tb_find (fst a) tb;
          tb1 = (if j < length tb then tb else tb @ [(fst a, 0, - 1)]);
          (g, cnt, slot) = tb1 ! j;
          (slot1, rl1) =
            (if snd a = n
             then (if slot = - 1 then (of_nat (length rl), rl @ [r]) else (slot, rl[unat slot := r]))
             else (slot, rl));
          (slot2, rl2) = (if cnt = n \<and> slot1 = - 1 then (of_nat (length rl1), rl1 @ [r]) else (slot1, rl1)) in
      if cap < length rl2 then None else Some (tb1[j := (g, cnt + 1, slot2)], rl2)))"

fun nth_scan :: "size_t \<Rightarrow> nat \<Rightarrow> ('a \<Rightarrow> nodeaddr) \<Rightarrow> 'a list \<Rightarrow> tb_t list \<times> 'a list \<Rightarrow> 'a list option" where
  "nth_scan n cap node [] s = Some (snd s)"
| "nth_scan n cap node (r # rs) s = do { s1 \<leftarrow> nth_step n cap r (node r) s; nth_scan n cap node rs s1 }"

fun all_some :: "('a \<Rightarrow> 'b option) \<Rightarrow> 'a list \<Rightarrow> 'b list option" where
  "all_some f [] = Some []"
| "all_some f (x # xs) = do { y \<leftarrow> f x; ys \<leftarrow> all_some f xs; Some (y # ys) }"

definition num_nodes :: "mapping \<Rightarrow> size_t \<Rightarrow> nat" where
  "num_nodes M s = unat (if s \<le> mp_numActiveNodes M then s else mp_numActiveNodes M)"

definition subTopologyNthGlobal_impl :: "mapping \<Rightarrow> topology \<Rightarrow> topology \<Rightarrow> int \<Rightarrow> topology option" where
  "subTopologyNthGlobal_impl M t new n =
     (let new1 = new\<lparr>tp_offset := 0, tp_all_contexts := False\<rparr> in
      case tp_topo t of
        T_coord r \<Rightarrow> subTopologyNthGlobal M t r n
      | T_eplist _ \<Rightarrow>
          if tp_size t = 0 then None
          else do { eps \<leftarrow> all_some (\<lambda>i. index2Endpoint_impl M t (of_nat i)) [0..<unat (tp_size t)];
                    epl \<leftarrow> nth_scan (of_int n) (num_nodes M (tp_size t))
                             (\<lambda>e. mp_task2node M (fst (mp_endpoint_info M e))) eps ([], []);
                    Some (if epl = [] then make_empty new1
                          else new1\<lparr>tp_topo := T_eplist epl, tp_size := of_nat (length epl), tp_free_ranklist := True\<rparr>) }
      | _ \<Rightarrow>
          do { rs \<leftarrow> all_some (\<lambda>i. index2Rank_impl M t (of_nat i)) [0..<unat (topo_size_impl t)];
               rl \<leftarrow> nth_scan (of_int n) (num_nodes M (topo_size_impl t)) (mp_task2node M) rs ([], []);
               Some (case rl of
                       [] \<Rightarrow> make_empty new1
                     | [r] \<Rightarrow> new1\<lparr>tp_topo := T_single r, tp_size := 1, tp_free_ranklist := False\<rparr>
                     | _ \<Rightarrow> new1\<lparr>tp_topo := T_list rl, tp_size := of_nat (length rl), tp_free_ranklist := True\<rparr>) })"

text \<open>A rectangle squashed in the dimensions where \<open>fmt\<close> is not \<open>-1\<close>.\<close>

definition reduce_rect :: "mapping \<Rightarrow> rectseg \<Rightarrow> coord \<Rightarrow> rectseg" where
  "reduce_rect M r fmt =
     (let pick = (\<lambda>old. map (\<lambda>x. if fmt ! x = - 1 then old ! x else fmt ! x) [0..<mp_globalDims M]) in
      \<lparr>rs_ll = pick (rs_ll r), rs_ur = pick (rs_ur r),
       rs_istorus = map (\<lambda>x. if fmt ! x = - 1 then rs_istorus r ! x else False) [0..<length (rs_istorus r)]\<rparr>)"

definition subTopologyReduceDims_impl :: "mapping \<Rightarrow> topology \<Rightarrow> topology \<Rightarrow> coord \<Rightarrow> topology" where
  "subTopologyReduceDims_impl M t new fmt =
     (case tp_topo t of
        T_coord r \<Rightarrow>
          (copy_topology t)
            \<lparr>tp_topo := T_coord (reduce_rect M r fmt),
             tp_size := foldl (\<lambda>s x. if fmt ! x = - 1 then s * (rs_ur r ! x - rs_ll r ! x + 1) else s) 1 [0..<mp_globalDims M],
             tp_free_ranklist := False\<rparr>
      | _ \<Rightarrow> make_empty new)"

section \<open>Conversion\<close>

text \<open>The bounding box of coordinates, and the rectangle with torus flags from the mapping.\<close>

definition bounding_box :: "mapping \<Rightarrow> coord \<Rightarrow> coord list \<Rightarrow> coord \<times> coord" where
  "bounding_box M c cs =
     foldl (\<lambda>lu c. bumpRange lu c (mp_globalDims M)) (initRange c (mp_globalDims M)) cs"

definition rect_of :: "mapping \<Rightarrow> coord \<times> coord \<Rightarrow> rectseg" where
  "rect_of M = (\<lambda>(ll, ur). \<lparr>rs_ll = ll, rs_ur = ur, rs_istorus = mp_torusInformation M ll ur\<rparr>)"

text \<open>The analyses tell whether they changed the topology.\<close>

definition analyzeCoordsRange :: "mapping \<Rightarrow> topology \<Rightarrow> pami_task_t \<Rightarrow> pami_task_t \<Rightarrow> (bool \<times> topology) option" where
  "analyzeCoordsRange M t f l =
     do { rs \<leftarrow> task_range (f + 1) l;
          let (ll, ur) = bounding_box M (mp_task2network M f) (map (mp_task2network M) rs) in
          if sizeRange ll ur (mp_globalDims M) = tp_size t
          then Some (True, t\<lparr>tp_topo := T_coord (rect_of M (ll, ur))\<rparr>)
          else Some (False, t) }"

definition analyzeCoordsList :: "mapping \<Rightarrow> topology \<Rightarrow> pami_task_t list \<Rightarrow> (bool \<times> topology) option" where
  "analyzeCoordsList M t rl =
     (case rl of
        [] \<Rightarrow> None
      | r # rs \<Rightarrow>
          let (ll, ur) = bounding_box M (mp_task2network M r) (map (mp_task2network M) rs) in
          if sizeRange ll ur (mp_globalDims M) = tp_size t
          then Some (True, t\<lparr>tp_topo := T_coord (rect_of M (ll, ur)), tp_free_ranklist := False\<rparr>)
          else Some (False, t))"

definition rank_bounds :: "pami_task_t \<times> pami_task_t \<Rightarrow> pami_task_t list \<Rightarrow> pami_task_t \<times> pami_task_t" where
  "rank_bounds = foldl (\<lambda>(mn, mx) r. if r < mn then (r, mx) else if mx < r then (mn, r) else (mn, mx))"

definition analyzeRangeList :: "topology \<Rightarrow> pami_task_t list \<Rightarrow> (bool \<times> topology) option" where
  "analyzeRangeList t rl =
     (case rl of
        [] \<Rightarrow> None
      | r # rs \<Rightarrow>
          let (mn, mx) = rank_bounds (r, r) rs in
          if tp_size t = ucast (mx - mn + 1)
          then Some (True, t\<lparr>tp_topo := T_range mn mx, tp_free_ranklist := False\<rparr>)
          else Some (False, t))"

text \<open>A list of one rank is taken for a rectangle: its corner is not set.\<close>

definition analyzeTopology_impl :: "mapping \<Rightarrow> topology \<Rightarrow> (bool \<times> topology) option" where
  "analyzeTopology_impl M t =
     (case tp_topo t of
        T_single _ \<Rightarrow> Some (False, t)
      | T_list rl \<Rightarrow>
          if tp_size t = 1 then None
          else do { (changed, t1) \<leftarrow> analyzeCoordsList M t rl;
                    if changed then Some (True, t1) else analyzeRangeList t rl }
      | T_range f l \<Rightarrow>
          if tp_size t = 1 then Some (True, t\<lparr>tp_topo := T_single f\<rparr>) else analyzeCoordsRange M t f l
      | _ \<Rightarrow> Some (False, t))"

datatype topology_type =
    SINGLE_TOPOLOGY | RANGE_TOPOLOGY | LIST_TOPOLOGY | COORD_TOPOLOGY | EPLIST_TOPOLOGY | AXIAL_TOPOLOGY | EMPTY_TOPOLOGY

fun type_of :: "topo \<Rightarrow> topology_type" where
  "type_of T_empty = EMPTY_TOPOLOGY"
| "type_of (T_single _) = SINGLE_TOPOLOGY"
| "type_of (T_range _ _) = RANGE_TOPOLOGY"
| "type_of (T_list _) = LIST_TOPOLOGY"
| "type_of (T_eplist _) = EPLIST_TOPOLOGY"
| "type_of (T_coord _) = COORD_TOPOLOGY"
| "type_of (T_axial _ _) = AXIAL_TOPOLOGY"

definition type_impl :: "topology \<Rightarrow> topology_type" where
  "type_impl t = type_of (tp_topo t)"

text \<open>A list of ranks in place of the topology. It was allocated for \<open>tp_size\<close> ranks.\<close>

definition to_list :: "topology \<Rightarrow> pami_task_t list \<Rightarrow> (bool \<times> topology) option" where
  "to_list t rl =
     (if length rl = unat (tp_size t) then Some (True, t\<lparr>tp_topo := T_list rl, tp_free_ranklist := True\<rparr>) else None)"

text \<open>Converting a list to a single rank reads the list after it was freed.\<close>

definition convertTopology_impl :: "mapping \<Rightarrow> topology \<Rightarrow> topology_type \<Rightarrow> (bool \<times> topology) option" where
  "convertTopology_impl M t new_type =
     (case tp_topo t of
        T_single r \<Rightarrow>
          (case new_type of
             COORD_TOPOLOGY \<Rightarrow>
               Some (True, t\<lparr>tp_topo := T_coord (rect_of M (mp_task2network M r, mp_task2network M r))\<rparr>)
           | RANGE_TOPOLOGY \<Rightarrow> Some (True, t\<lparr>tp_topo := T_range r r\<rparr>)
           | LIST_TOPOLOGY \<Rightarrow> Some (True, t\<lparr>tp_topo := T_list [r], tp_free_ranklist := True\<rparr>)
           | _ \<Rightarrow> Some (False, t))
      | T_range f l \<Rightarrow>
          (case new_type of
             COORD_TOPOLOGY \<Rightarrow> analyzeCoordsRange M t f l
           | SINGLE_TOPOLOGY \<Rightarrow> if tp_size t = 1 then Some (True, t\<lparr>tp_topo := T_single f\<rparr>) else Some (False, t)
           | LIST_TOPOLOGY \<Rightarrow> do { rs \<leftarrow> task_range f l; to_list t rs }
           | _ \<Rightarrow> Some (False, t))
      | T_list rl \<Rightarrow>
          (case new_type of
             COORD_TOPOLOGY \<Rightarrow> analyzeCoordsList M t rl
           | SINGLE_TOPOLOGY \<Rightarrow>
               if tp_size t = 1
               then (if tp_free_ranklist t then None else Some (True, t\<lparr>tp_topo := T_single (rl ! 0)\<rparr>))
               else Some (False, t)
           | RANGE_TOPOLOGY \<Rightarrow> analyzeRangeList t rl
           | _ \<Rightarrow> Some (False, t))
      | T_coord r \<Rightarrow>
          (case new_type of
             SINGLE_TOPOLOGY \<Rightarrow>
               if tp_size t = 1 then Some (True, t\<lparr>tp_topo := T_single (COORDS2RANK M (rs_ll r) 0)\<rparr>) else Some (False, t)
           | LIST_TOPOLOGY \<Rightarrow> do { rs \<leftarrow> rect_ranks M r; to_list t rs }
           | RANGE_TOPOLOGY \<Rightarrow>
               do { rs \<leftarrow> rect_ranks M r;
                    let mn = foldl (\<lambda>m r. if r < m then r else m) (- 1) rs;
                        mx = foldl (\<lambda>m r. if m < r then r else m) 0 rs in
                    if tp_size t = ucast (mx - mn + 1) then Some (True, t\<lparr>tp_topo := T_range mn mx\<rparr>) else Some (False, t) }
           | _ \<Rightarrow> Some (False, t))
      | _ \<Rightarrow> Some (False, t))"

section \<open>Intersection and difference\<close>

text \<open>The result of one rank, and a list that has room for \<open>cap\<close> ranks.\<close>

definition single_new :: "topology \<Rightarrow> pami_task_t \<Rightarrow> topology" where
  "single_new new r = new\<lparr>tp_topo := T_single r, tp_size := 1, tp_free_ranklist := False\<rparr>"

definition list_new :: "topology \<Rightarrow> nat \<Rightarrow> pami_task_t list \<Rightarrow> topology option" where
  "list_new new cap rl =
     (if cap < length rl then None
      else Some (new\<lparr>tp_topo := T_list rl, tp_size := of_nat (length rl), tp_free_ranklist := True\<rparr>))"

definition intersectTopology_impl :: "mapping \<Rightarrow> topology \<Rightarrow> topology \<Rightarrow> topology \<Rightarrow> topology option" where
  "intersectTopology_impl M t other new =
     (let gd = mp_globalDims M in
      case (tp_topo t, tp_topo other) of
        (T_coord r, T_coord r') \<Rightarrow>
          if coordLT (rs_ur r) (rs_ll r') gd \<or> coordLT (rs_ur r') (rs_ll r) gd then Some (make_empty new)
          else (let ll = coordMAX (rs_ll r) (rs_ll r') gd; ur = coordMIN (rs_ur r) (rs_ur r') gd in
                Some (new\<lparr>tp_topo := T_coord (rect_of M (ll, ur)), tp_size := sizeRange ll ur gd, tp_free_ranklist := False\<rparr>))
      | (T_single r, T_single r') \<Rightarrow> if r' = r then Some (single_new new r) else Some (make_empty new)
      | (T_range f l, T_range f' l') \<Rightarrow>
          if l < f' \<or> l' < f then Some (make_empty new)
          else (let f1 = (if f' < f then f else f'); l1 = (if l < l' then l else l') in
                Some (new\<lparr>tp_topo := T_range f1 l1, tp_size := ucast (l1 - f1 + 1), tp_free_ranklist := False\<rparr>))
      | (T_list rl, T_list rl') \<Rightarrow>
          (let common = concat (map (\<lambda>x. filter (\<lambda>y. x = y) rl') rl) in
           if common = [] then Some (make_empty new)
           else list_new new (unat (if tp_size t < tp_size other then tp_size t else tp_size other)) common)
      | (T_single r, _) \<Rightarrow>
          if isRankMember_impl M other r then Some (single_new new r) else Some (make_empty new)
      | (_, T_single r') \<Rightarrow>
          if isRankMember_impl M t r' then Some (single_new new r') else Some (make_empty new)
      | _ \<Rightarrow> Some (make_empty new))"

text \<open>The final case of the source leaves the flag for the list alone. One or more remaining
  ranks give a single rank or a list.\<close>

definition subtract_empty :: "topology \<Rightarrow> topology" where
  "subtract_empty new = new\<lparr>tp_topo := T_empty, tp_size := 0\<rparr>"

definition remaining :: "topology \<Rightarrow> nat \<Rightarrow> pami_task_t list \<Rightarrow> topology option" where
  "remaining new cap rl =
     (if cap < length rl then None
      else (case rl of
              [] \<Rightarrow> Some (subtract_empty new)
            | [r] \<Rightarrow> Some (single_new new r)
            | _ \<Rightarrow> list_new new cap rl))"

definition subtract_rect :: "mapping \<Rightarrow> topology \<Rightarrow> rectseg \<Rightarrow> rectseg \<Rightarrow> topology \<Rightarrow> topology option" where
  "subtract_rect M t r r' new =
     do { cs \<leftarrow> coords_from r (mp_globalDims M) (rs_ll r);
          let kept = filter (\<lambda>c. \<not> isMemberCoord r' c (mp_globalDims M)) cs;
              rl = ranks_of M 0 kept;
              (ll, ur) = bounding_box M (rs_ll r) kept;
              mn = foldl (\<lambda>m r. if r < m then r else m) 0 rl;
              mx = foldl (\<lambda>m r. if m < r then r else m) 0 rl;
              new1 = new\<lparr>tp_size := of_nat (length rl), tp_free_ranklist := False\<rparr> in
          if unat (tp_size t) < length rl then None
          else if rl = [] then Some (subtract_empty new)
          else if sizeRange ll ur (mp_globalDims M) = of_nat (length rl)
          then Some (new1\<lparr>tp_topo := T_coord (rect_of M (ll, ur))\<rparr>)
          else if ucast (mx - mn + 1) = (of_nat (length rl) :: size_t)
          then Some (new1\<lparr>tp_topo := T_range mn mx\<rparr>)
          else Some (new1\<lparr>tp_topo := T_list rl, tp_free_ranklist := True\<rparr>) }"

text \<open>Removing the middle of a range fills a list and does not store it.\<close>

definition subtract_range ::
    "topology \<Rightarrow> pami_task_t \<Rightarrow> pami_task_t \<Rightarrow> pami_task_t \<Rightarrow> pami_task_t \<Rightarrow> topology \<Rightarrow> topology option" where
  "subtract_range t f l f' l' new =
     (let rest = (\<lambda>f1 l1. Some (new\<lparr>tp_topo := T_range f1 l1, tp_size := ucast (l1 - f1 + 1), tp_free_ranklist := False\<rparr>)) in
      case (f' \<le> f, f \<le> l', f' \<le> l, l \<le> l') of
        (False, True, True, False) \<Rightarrow> None
      | (False, True, True, True) \<Rightarrow> rest f (f' - 1)
      | (True, True, True, False) \<Rightarrow> rest (l' + 1) l
      | (True, True, True, True) \<Rightarrow> Some (subtract_empty new)
      | _ \<Rightarrow> Some (copy_topology t))"

definition subtract_one :: "mapping \<Rightarrow> topology \<Rightarrow> pami_task_t \<Rightarrow> topology \<Rightarrow> topology option" where
  "subtract_one M t r' new =
     (case tp_topo t of
        T_coord r \<Rightarrow>
          if isRankMember_impl M t r'
          then do { rs \<leftarrow> rect_ranks M r; remaining new (unat (tp_size t)) (filter (\<lambda>x. x \<noteq> r') rs) }
          else Some (copy_topology t)
      | T_range f l \<Rightarrow>
          if isRankMember_impl M t r'
          then remaining new (unat (tp_size t))
                 (map of_nat ([unat f..<unat r'] @ [Suc (unat r')..<Suc (unat l)]))
          else Some (copy_topology t)
      | T_list rl \<Rightarrow> remaining new (unat (tp_size t)) (filter (\<lambda>x. x \<noteq> r') rl)
      | _ \<Rightarrow> Some (subtract_empty new))"

definition subtractTopology_impl :: "mapping \<Rightarrow> topology \<Rightarrow> topology \<Rightarrow> topology \<Rightarrow> topology option" where
  "subtractTopology_impl M t other new =
     (case (tp_topo t, tp_topo other) of
        (T_coord r, T_coord r') \<Rightarrow> subtract_rect M t r r' new
      | (T_single r, T_single r') \<Rightarrow> if r' \<noteq> r then Some (copy_topology t) else Some (subtract_empty new)
      | (T_range f l, T_range f' l') \<Rightarrow> subtract_range t f l f' l' new
      | (T_list rl, T_list _) \<Rightarrow>
          (let kept = filter (\<lambda>r. \<not> isRankMember_impl M other r) rl in
           if kept = [] then Some (make_empty new) else list_new new (unat (tp_size t)) kept)
      | (T_single r, _) \<Rightarrow>
          if isRankMember_impl M other r then Some (single_new new r) else Some (subtract_empty new)
      | (_, T_single r') \<Rightarrow> subtract_one M t r' new
      | _ \<Rightarrow> Some (subtract_empty new))"

section \<open>The mapping of Blue Gene/Q\<close>

definition PAMI_ENDPOINT_INIT :: "pami_task_t \<Rightarrow> size_t \<Rightarrow> endpoint" where
  "PAMI_ENDPOINT_INIT task offset = ucast (push_bit 23 offset) OR task"

definition PAMI_ENDPOINT_INFO :: "endpoint \<Rightarrow> pami_task_t \<times> size_t" where
  "PAMI_ENDPOINT_INFO ep = (ep AND 0x7fffff, ucast (drop_bit 23 ep AND 0x3f))"

definition bgq_mapping :: "bgq_map \<Rightarrow> mapping" where
  "bgq_mapping B =
     \<lparr>mp_task = ucast (bm_task B), mp_globalDims = 6, mp_torusDims = 5, mp_torusSize = (!) (bm_sizes B),
      mp_task2network = (\<lambda>t. task2network_impl B (ucast t)),
      mp_network2task = (\<lambda>c. case network2task_impl B c of Inr t \<Rightarrow> Some t | Inl _ \<Rightarrow> None),
      mp_isPeer = (\<lambda>t1 t2. isPeer_impl B (ucast t1) (ucast t2)), mp_nodePeers = nodePeers_impl B,
      mp_torusInformation = torusInformation_impl B, mp_task2node = (\<lambda>t. task2node_impl B (ucast t)),
      mp_numActiveNodes = bm_numActiveNodes B, mp_endpoint_init = PAMI_ENDPOINT_INIT,
      mp_endpoint_info = PAMI_ENDPOINT_INFO\<rparr>"

end
