(* ===== verification/Pami_MultinomialMap.thy ===== *)
theory Pami_MultinomialMap
  imports Pami_TopologyOps
begin

unbundle bit_operations_syntax

text \<open>
  The maps of \<^verbatim>\<open>algorithms/schedule/MultinomialMap.h\<close>: which place a process has in
  the multinomial tree, and which endpoint stands at a place. A tree is built over the largest
  power of two that fits (\<^verbatim>\<open>_hnranks\<close>); the processes beyond it are auxiliary and
  hang off a peer inside the tree.

  \<^verbatim>\<open>MultinomialMap<T>\<close> forwards each call to the map it is instantiated with: \<open>mmap\<close>
  has one constructor per instance. Ranks are \<^verbatim>\<open>unsigned\<close>, indices and sizes
  \<^verbatim>\<open>size_t\<close>, and assignments truncate as in the source. \<open>None\<close> is an abort, a failed
  assertion, or an endpoint the topology does not have.
\<close>

section \<open>The number of bits of a size\<close>

text \<open>\<^verbatim>\<open>for (i = size; i > 1; i >>= 1) nph++\<close>: at most 31 steps.\<close>

function log_loop :: "uint_t \<Rightarrow> nat \<Rightarrow> nat" where
  "log_loop i nph = (if 1 < i then log_loop (drop_bit 1 i) (nph + 1) else nph)"
  by pat_completeness auto
termination
  by (relation "measure (\<lambda>(i, nph). unat i)") (auto simp: word_less_nat_alt unsigned_drop_bit_eq drop_bit_Suc unat_div)

declare log_loop.simps [simp del]

text \<open>\<^verbatim>\<open>1 << nph\<close> is an \<^verbatim>\<open>int\<close>, widened with its sign.\<close>

definition pow2_size :: "nat \<Rightarrow> size_t" where
  "pow2_size nph = signed_take_bit 31 (push_bit nph 1)"

section \<open>TopologyMap\<close>

record topology_map =
  tm_hnranks :: size_t
  tm_rootindex :: size_t
  tm_myindex :: size_t
  tm_topology :: topology

definition TopologyMap_new :: "mapping \<Rightarrow> endpoint \<Rightarrow> topology \<Rightarrow> topology_map" where
  "TopologyMap_new M myendpoint t =
     \<lparr>tm_hnranks = pow2_size (log_loop (ucast (topo_size_impl t)) 0), tm_rootindex = 0,
      tm_myindex = endpoint2Index_impl M t myendpoint, tm_topology = t\<rparr>"

definition tm_hasAuxPhases :: "topology_map \<Rightarrow> bool" where
  "tm_hasAuxPhases m = (let sz = topo_size_impl (tm_topology m) in sz AND (sz - 1) \<noteq> 0)"

definition tm_setRoot :: "mapping \<Rightarrow> uint_t \<Rightarrow> topology_map \<Rightarrow> topology_map" where
  "tm_setRoot M gr m = m\<lparr>tm_rootindex := endpoint2Index_impl M (tm_topology m) gr\<rparr>"

definition tm_getMyRank :: "topology_map \<Rightarrow> uint_t" where
  "tm_getMyRank m =
     (if tm_rootindex m \<le> tm_myindex m then ucast (tm_myindex m - tm_rootindex m)
      else ucast (tm_myindex m + topo_size_impl (tm_topology m) - tm_rootindex m))"

definition tm_isAuxProc :: "topology_map \<Rightarrow> bool" where
  "tm_isAuxProc m \<longleftrightarrow> tm_hnranks m \<le> ucast (tm_getMyRank m)"

definition tm_isPeerProc :: "topology_map \<Rightarrow> bool" where
  "tm_isPeerProc m \<longleftrightarrow> ucast (tm_getMyRank m) < topo_size_impl (tm_topology m) - tm_hnranks m"

definition tm_getAuxForPeer :: "topology_map \<Rightarrow> uint_t list" where
  "tm_getAuxForPeer m = [ucast (ucast (tm_getMyRank m) + tm_hnranks m)]"

definition tm_getPeerForAux :: "topology_map \<Rightarrow> uint_t" where
  "tm_getPeerForAux m = ucast (ucast (tm_getMyRank m) - tm_hnranks m)"

definition tm_getGlobalRank :: "mapping \<Rightarrow> topology_map \<Rightarrow> uint_t \<Rightarrow> endpoint option" where
  "tm_getGlobalRank M m relrank =
     (let sz = topo_size_impl (tm_topology m);
          relrank = (ucast (ucast relrank + tm_rootindex m) :: uint_t);
          relrank = (if sz \<le> ucast relrank then ucast (ucast relrank - sz) else relrank) in
      index2Endpoint_impl M (tm_topology m) (ucast relrank))"

definition tm_getNumRanks :: "topology_map \<Rightarrow> uint_t" where
  "tm_getNumRanks m = ucast (topo_size_impl (tm_topology m))"

section \<open>NodeOptTopoMap\<close>

text \<open>The tree runs over the masters of the nodes; the other processes of a node are auxiliary to
  its master. The constructor insists on a power of two.\<close>

record nodeopt_map =
  nm_hnranks :: uint_t
  nm_rootindex :: uint_t
  nm_myindex :: uint_t
  nm_myendpoint :: endpoint
  nm_master_index :: size_t
  nm_local_master :: endpoint
  nm_all_topology :: topology
  nm_master_topology :: topology
  nm_local_topology :: topology

definition NodeOptTopoMap_new ::
    "mapping \<Rightarrow> uint_t \<Rightarrow> endpoint \<Rightarrow> topology \<Rightarrow> topology \<Rightarrow> topology \<Rightarrow> nodeopt_map option" where
  "NodeOptTopoMap_new M myindex myendpoint all_t local_t master_t =
     do { local_master \<leftarrow> index2Endpoint_impl M local_t 0;
          let nph = log_loop (ucast (topo_size_impl master_t)) 0;
          if topo_size_impl master_t \<noteq> pow2_size nph then None
          else Some \<lparr>nm_hnranks = push_bit nph 1, nm_rootindex = 0, nm_myindex = myindex, nm_myendpoint = myendpoint,
                 nm_master_index = endpoint2Index_impl M master_t local_master, nm_local_master = local_master,
                 nm_all_topology = all_t, nm_master_topology = master_t, nm_local_topology = local_t\<rparr> }"

definition nm_hasAuxPhases :: "nodeopt_map \<Rightarrow> bool" where
  "nm_hasAuxPhases m \<longleftrightarrow> topo_size_impl (nm_master_topology m) \<noteq> topo_size_impl (nm_all_topology m)"

definition nm_isAuxProc :: "nodeopt_map \<Rightarrow> bool" where
  "nm_isAuxProc m \<longleftrightarrow> nm_myendpoint m \<noteq> nm_local_master m"

definition nm_isPeerProc :: "nodeopt_map \<Rightarrow> bool" where
  "nm_isPeerProc m \<longleftrightarrow> nm_myendpoint m = nm_local_master m \<and> 1 < topo_size_impl (nm_local_topology m)"

definition nm_getAuxForPeer :: "nodeopt_map \<Rightarrow> uint_t list" where
  "nm_getAuxForPeer m =
     map (\<lambda>i. ucast (topo_size_impl (nm_master_topology m) + of_nat i)) [1..<unat (topo_size_impl (nm_local_topology m))]"

definition nm_getPeerForAux :: "nodeopt_map \<Rightarrow> uint_t" where
  "nm_getPeerForAux m = ucast (nm_master_index m)"

definition nm_getGlobalRank :: "mapping \<Rightarrow> nodeopt_map \<Rightarrow> uint_t \<Rightarrow> uint_t option" where
  "nm_getGlobalRank M m relrank =
     (let sz = topo_size_impl (nm_master_topology m) in
      if ucast relrank < sz then index2Rank_impl M (nm_master_topology m) (ucast relrank)
      else index2Rank_impl M (nm_local_topology m) (ucast relrank - sz))"

definition nm_getMyRank :: "nodeopt_map \<Rightarrow> uint_t" where
  "nm_getMyRank m = ucast (nm_master_index m)"

definition nm_getNumRanks :: "nodeopt_map \<Rightarrow> uint_t" where
  "nm_getNumRanks m = ucast (topo_size_impl (nm_master_topology m))"

section \<open>The interface MultinomialMap\<close>

datatype mmap = TopologyMap topology_map | NodeOptTopoMap nodeopt_map

fun mm_setRoot :: "mapping \<Rightarrow> uint_t \<Rightarrow> mmap \<Rightarrow> mmap option" where
  "mm_setRoot M gr (TopologyMap m) = Some (TopologyMap (tm_setRoot M gr m))"
| "mm_setRoot M gr (NodeOptTopoMap m) = None"

fun mm_hasAuxPhases :: "mmap \<Rightarrow> bool" where
  "mm_hasAuxPhases (TopologyMap m) = tm_hasAuxPhases m"
| "mm_hasAuxPhases (NodeOptTopoMap m) = nm_hasAuxPhases m"

fun mm_isAuxProc :: "mmap \<Rightarrow> bool" where
  "mm_isAuxProc (TopologyMap m) = tm_isAuxProc m"
| "mm_isAuxProc (NodeOptTopoMap m) = nm_isAuxProc m"

fun mm_isPeerProc :: "mmap \<Rightarrow> bool" where
  "mm_isPeerProc (TopologyMap m) = tm_isPeerProc m"
| "mm_isPeerProc (NodeOptTopoMap m) = nm_isPeerProc m"

fun mm_getAuxForPeer :: "mmap \<Rightarrow> uint_t list" where
  "mm_getAuxForPeer (TopologyMap m) = tm_getAuxForPeer m"
| "mm_getAuxForPeer (NodeOptTopoMap m) = nm_getAuxForPeer m"

fun mm_getPeerForAux :: "mmap \<Rightarrow> uint_t" where
  "mm_getPeerForAux (TopologyMap m) = tm_getPeerForAux m"
| "mm_getPeerForAux (NodeOptTopoMap m) = nm_getPeerForAux m"

fun mm_getGlobalRank :: "mapping \<Rightarrow> mmap \<Rightarrow> uint_t \<Rightarrow> endpoint option" where
  "mm_getGlobalRank M (TopologyMap m) r = tm_getGlobalRank M m r"
| "mm_getGlobalRank M (NodeOptTopoMap m) r = nm_getGlobalRank M m r"

fun mm_getMyRank :: "mmap \<Rightarrow> uint_t" where
  "mm_getMyRank (TopologyMap m) = tm_getMyRank m"
| "mm_getMyRank (NodeOptTopoMap m) = nm_getMyRank m"

fun mm_getNumRanks :: "mmap \<Rightarrow> uint_t" where
  "mm_getNumRanks (TopologyMap m) = tm_getNumRanks m"
| "mm_getNumRanks (NodeOptTopoMap m) = nm_getNumRanks m"

end
