(* ===== verification/Pami_MultinomialTree.thy ===== *)
theory Pami_MultinomialTree
  imports Pami_MultinomialMap "HOL-Library.While_Combinator"
begin

unbundle bit_operations_syntax

text \<open>
  The schedule \<^verbatim>\<open>MultinomialTreeT<M, T_MaxRadix>\<close> of
  \<^verbatim>\<open>algorithms/schedule/MultinomialTree.h\<close>: in which phase a process sends to which
  others and receives from which. The fields keep the names and the width of the source; a
  constructor fills those it sets and leaves the others of the record alone. \<open>None\<close> is an abort, a
  loop that does not end, or an endpoint that the topology does not have.
\<close>

section \<open>The schedule object\<close>

definition BROADCAST_OP :: uint_t where "BROADCAST_OP = 1"
definition BARRIER_OP :: uint_t where "BARRIER_OP = 2"
definition ALLREDUCE_OP :: uint_t where "ALLREDUCE_OP = 4"
definition REDUCE_OP :: uint_t where "REDUCE_OP = 8"

definition UNDEFINED_PHASE :: uint_t where "UNDEFINED_PHASE = - 1"
definition ALL_PHASES :: uint_t where "ALL_PHASES = - 2"
definition NO_PHASES :: uint_t where "NO_PHASES = - 3"
definition NOT_RECV_PHASE :: uint_t where "NOT_RECV_PHASE = - 4"
definition NOT_SEND_PHASE :: uint_t where "NOT_SEND_PHASE = NOT_RECV_PHASE"

lemmas phase_codes = UNDEFINED_PHASE_def ALL_PHASES_def NO_PHASES_def NOT_RECV_PHASE_def NOT_SEND_PHASE_def
lemmas op_codes = BROADCAST_OP_def BARRIER_OP_def ALLREDUCE_OP_def REDUCE_OP_def

record mtree =
  mt_maxphases :: uint_t
  mt_nphbino :: uint_t
  mt_op :: uint_t
  mt_radix :: uint_t
  mt_logradix :: uint_t
  mt_nranks :: uint_t
  mt_hnranks :: uint_t
  mt_sendph :: uint_t
  mt_recvph :: uint_t
  mt_auxsendph :: uint_t
  mt_auxrecvph :: uint_t
  mt_startphase :: uint_t
  mt_nphases :: uint_t
  mt_lastrdcph :: uint_t
  mt_map :: mmap

section \<open>Construction\<close>

definition getRadix :: "nat \<Rightarrow> uint_t \<Rightarrow> uint_t" where
  "getRadix T_MaxRadix nranks =
     (let nph = log_loop nranks 0 in
      if 8 \<le> T_MaxRadix \<and> nranks \<le> 4096 \<and> nph mod 3 = 0 then 8
      else if 4 \<le> T_MaxRadix \<and> nph mod 2 = 0 then 4
      else 2)"

text \<open>The number of phases and, through \<^verbatim>\<open>nbino\<close>, that of the power-of-two part.\<close>

definition getMaxPhases :: "nat \<Rightarrow> uint_t \<Rightarrow> uint_t \<times> uint_t" where
  "getMaxPhases T_MaxRadix nranks =
     (let radix = getRadix T_MaxRadix nranks;
          nph = (if nranks \<noteq> 0
                 then (let nph = log_loop nranks 0 in
                       if radix = 8 then nph div 3 else if radix = 4 then nph div 2 else nph)
                 else 0) in
      (of_nat nph + 1, of_nat nph))"

definition initBinoSched :: "nat \<Rightarrow> mtree \<Rightarrow> mtree" where
  "initBinoSched T_MaxRadix s =
     (let nranks = mm_getNumRanks (mt_map s);
          radix = getRadix T_MaxRadix nranks;
          logradix = (if radix = 8 then 3 else if radix = 4 then 2 else 1);
          (maxphases, nphbino) = getMaxPhases T_MaxRadix nranks in
      s\<lparr>mt_nranks := nranks, mt_op := - 1, mt_radix := radix, mt_logradix := logradix,
        mt_maxphases := maxphases + (if mm_hasAuxPhases (mt_map s) then 1 else 0),
        mt_nphbino := nphbino, mt_hnranks := push_bit (unat (nphbino * logradix)) 1\<rparr>)"

definition MultinomialTreeT :: "nat \<Rightarrow> mapping \<Rightarrow> endpoint \<Rightarrow> topology \<Rightarrow> mtree \<Rightarrow> mtree" where
  "MultinomialTreeT T_MaxRadix M myendpoint t s =
     initBinoSched T_MaxRadix (s\<lparr>mt_map := TopologyMap (TopologyMap_new M myendpoint t)\<rparr>)"

section \<open>The phases of a process\<close>

definition ffs :: "uint_t \<Rightarrow> nat" where
  "ffs x = (case filter (bit x) [0..<32] of [] \<Rightarrow> 0 | i # _ \<Rightarrow> Suc i)"

text \<open>\<^verbatim>\<open>while (d < distance) { d *= _radix; n++; }\<close> on \<^verbatim>\<open>int\<close>s: the number of digits
  of a rank. The products stay below the largest \<^verbatim>\<open>int\<close> because a process in the tree has
  a rank below the power of two.\<close>

definition log_distance :: "uint_t \<Rightarrow> uint_t \<Rightarrow> nat option" where
  "log_distance radix distance =
     map_option snd (while_option (\<lambda>(d, n). d < sint distance) (\<lambda>(d, n). (d * uint radix, Suc n)) (1, 0))"

text \<open>The non-power-of-two part of \<^verbatim>\<open>setupContext\<close>, for a peer: the phase window and the phases
  in which the auxiliary processes take part.\<close>

definition setup_peer :: "mtree \<Rightarrow> uint_t \<times> uint_t \<times> mtree \<Rightarrow> uint_t \<times> uint_t \<times> mtree" where
  "setup_peer s = (\<lambda>(st, np, r).
     if \<not> mm_isPeerProc (mt_map s) then (st, np, r)
     else if mt_op s = BARRIER_OP \<or> mt_op s = ALLREDUCE_OP then
       (0, np + 2, r\<lparr>mt_auxrecvph := 0, mt_auxsendph := mt_maxphases s - 1\<rparr>)
     else if mt_op s = REDUCE_OP then (0, np + 1, r\<lparr>mt_auxrecvph := 0\<rparr>)
     else if mt_op s = BROADCAST_OP then (1, np + 1, r\<lparr>mt_auxsendph := mt_maxphases s - 1\<rparr>)
     else (st, np, r))"

definition setup_aux :: "mtree \<Rightarrow> uint_t \<times> uint_t \<times> mtree \<Rightarrow> uint_t \<times> uint_t \<times> mtree" where
  "setup_aux s = (\<lambda>(st, np, r).
     if mt_op s = ALLREDUCE_OP then
       (0, np + 2, r\<lparr>mt_lastrdcph := mt_maxphases s - 2, mt_auxsendph := 0, mt_auxrecvph := mt_maxphases s - 1\<rparr>)
     else if mt_op s = BARRIER_OP then
       (0, np + 2, r\<lparr>mt_auxsendph := 0, mt_auxrecvph := mt_maxphases s - 1\<rparr>)
     else if mt_op s = REDUCE_OP then (0, 1, r\<lparr>mt_auxsendph := 0\<rparr>)
     else if mt_op s = BROADCAST_OP then (mt_maxphases s - 1, 1, r\<lparr>mt_auxrecvph := mt_maxphases s - 1\<rparr>)
     else (st, np, r))"

definition setup_tree :: "mtree \<Rightarrow> uint_t \<times> uint_t \<times> mtree \<Rightarrow> (uint_t \<times> uint_t \<times> mtree) option" where
  "setup_tree s = (\<lambda>(st, np, r).
     let me = mm_getMyRank (mt_map s) in
     if mt_op s = BARRIER_OP \<or> mt_op s = ALLREDUCE_OP then
       Some (st, np, r\<lparr>mt_sendph := ALL_PHASES, mt_recvph := ALL_PHASES\<rparr>)
     else if mt_op s = REDUCE_OP then
       (if me = 0 then Some (st, np, r\<lparr>mt_recvph := ALL_PHASES, mt_sendph := NO_PHASES\<rparr>)
        else (let np = of_nat (ffs me) + 1 - st in
              Some (st, np, r\<lparr>mt_sendph := st + np - 1, mt_recvph := NOT_SEND_PHASE\<rparr>)))
     else if mt_op s = BROADCAST_OP then
       (if me = 0 then Some (st, np, r\<lparr>mt_recvph := NO_PHASES, mt_sendph := ALL_PHASES\<rparr>)
        else do { n \<leftarrow> log_distance (mt_radix s) (me + 1);
                  let n = of_nat n - 1;
                  Some (st + n, np - n, r\<lparr>mt_recvph := st + n, mt_sendph := NOT_RECV_PHASE\<rparr>) })
     else Some (st, np, r))"

definition setupContext :: "mtree \<Rightarrow> (uint_t \<times> uint_t \<times> mtree) option" where
  "setupContext s =
     (let r = s\<lparr>mt_recvph := NO_PHASES, mt_sendph := NO_PHASES, mt_lastrdcph := UNDEFINED_PHASE,
                mt_auxrecvph := NO_PHASES, mt_auxsendph := NO_PHASES\<rparr>;
          x = setup_peer s (1, mt_nphbino s, r) in
      if mm_isAuxProc (mt_map s) then Some (setup_aux s x) else setup_tree s x)"

text \<open>\<^verbatim>\<open>init\<close> also reports the window \<^verbatim>\<open>start\<close> and \<^verbatim>\<open>nph\<close>, which are the
  fields \<^verbatim>\<open>_startphase\<close> and \<^verbatim>\<open>_nphases\<close>.\<close>

definition mt_init :: "mapping \<Rightarrow> uint_t \<Rightarrow> uint_t \<Rightarrow> mtree \<Rightarrow> mtree option" where
  "mt_init M root comm_op s =
     (if \<not> (comm_op = BARRIER_OP \<or> comm_op = ALLREDUCE_OP \<or> comm_op = REDUCE_OP \<or> comm_op = BROADCAST_OP) then None
      else do { map \<leftarrow> (if comm_op = REDUCE_OP \<or> comm_op = BROADCAST_OP then mm_setRoot M root (mt_map s) else Some (mt_map s));
                (st, np, r) \<leftarrow> setupContext (s\<lparr>mt_op := comm_op, mt_map := map\<rparr>);
                Some (r\<lparr>mt_startphase := st, mt_nphases := np\<rparr>) })"

section \<open>The partners of a phase\<close>

definition BINO :: "uint_t \<Rightarrow> uint_t \<Rightarrow> uint_t \<Rightarrow> uint_t \<Rightarrow> uint_t list" where
  "BINO mynode phase radix lradix =
     map (\<lambda>r. mynode XOR push_bit (unat (phase * lradix)) (of_nat r)) [1..<unat radix]"

definition NEXT_NODES :: "mtree \<Rightarrow> bool \<Rightarrow> uint_t \<Rightarrow> uint_t list" where
  "NEXT_NODES s parent ph =
     (if ph = mt_auxsendph s \<and> \<not> parent \<or> ph = mt_auxrecvph s \<and> parent then
        (if mm_isAuxProc (mt_map s) then [mm_getPeerForAux (mt_map s)]
         else if mm_isPeerProc (mt_map s) then mm_getAuxForPeer (mt_map s)
         else [])
      else if ph \<noteq> mt_auxrecvph s \<and> ph \<noteq> mt_auxsendph s then
        BINO (mm_getMyRank (mt_map s)) (ph - 1) (mt_radix s) (mt_logradix s)
      else [])"

definition receives :: "mtree \<Rightarrow> uint_t \<Rightarrow> bool" where
  "receives s phase \<longleftrightarrow>
     1 \<le> phase \<and> phase \<le> mt_nphbino s \<and>
       (mt_recvph s = ALL_PHASES \<or> mt_recvph s = NOT_SEND_PHASE \<and> phase \<noteq> mt_sendph s \<or> phase = mt_recvph s) \<or>
     phase = mt_auxrecvph s"

definition sends :: "mtree \<Rightarrow> uint_t \<Rightarrow> bool" where
  "sends s phase \<longleftrightarrow>
     1 \<le> phase \<and> phase \<le> mt_nphbino s \<and>
       (mt_sendph s = ALL_PHASES \<or> mt_sendph s = NOT_RECV_PHASE \<and> phase \<noteq> mt_recvph s \<or> phase = mt_sendph s) \<or>
     phase = mt_auxsendph s"

definition src_nodes :: "mtree \<Rightarrow> uint_t \<Rightarrow> uint_t list" where
  "src_nodes s phase = (if receives s phase then NEXT_NODES s True phase else [])"

definition dst_nodes :: "mtree \<Rightarrow> uint_t \<Rightarrow> uint_t list" where
  "dst_nodes s phase = (if sends s phase then NEXT_NODES s False phase else [])"

definition getSrcTopology :: "mapping \<Rightarrow> mtree \<Rightarrow> uint_t \<Rightarrow> topology option" where
  "getSrcTopology M s phase = map_option Topology_eplist (all_some (mm_getGlobalRank M (mt_map s)) (src_nodes s phase))"

definition getDstTopology :: "mapping \<Rightarrow> mtree \<Rightarrow> uint_t \<Rightarrow> topology option" where
  "getDstTopology M s phase = map_option Topology_eplist (all_some (mm_getGlobalRank M (mt_map s)) (dst_nodes s phase))"

text \<open>The phases of the window, the sum taken with wrap-around.\<close>

definition window :: "mtree \<Rightarrow> uint_t list" where
  "window s = map of_nat [unat (mt_startphase s)..<unat (mt_startphase s + mt_nphases s)]"

definition getSrcUnionTopology :: "mapping \<Rightarrow> mtree \<Rightarrow> topology option" where
  "getSrcUnionTopology M s =
     map_option Topology_eplist (all_some (mm_getGlobalRank M (mt_map s)) (concat (map (src_nodes s) (window s))))"

text \<open>The destinations are collected while each phase finds room for \<^verbatim>\<open>_radix\<close> more.\<close>

fun dst_union :: "mtree \<Rightarrow> nat \<Rightarrow> uint_t list \<Rightarrow> uint_t list \<Rightarrow> uint_t list option" where
  "dst_union s num_eps acc [] = Some acc"
| "dst_union s num_eps acc (ph # phs) =
     (if sends s ph \<and> num_eps < unat (mt_radix s) + length acc then None
      else dst_union s num_eps (acc @ dst_nodes s ph) phs)"

definition getDstUnionTopology :: "mapping \<Rightarrow> mtree \<Rightarrow> nat \<Rightarrow> (pami_result + topology) option" where
  "getDstUnionTopology M s num_eps =
     (case dst_union s num_eps [] (window s) of
        None \<Rightarrow> Some (Inl PAMI_ENOMEM)
      | Some ns \<Rightarrow> map_option (Inr \<circ> Topology_eplist) (all_some (mm_getGlobalRank M (mt_map s)) ns))"

end
