(* ===== verification/Pami_Digits.thy ===== *)
theory Pami_Digits
  imports Pami_Prelude
begin

unbundle bit_operations_syntax

text \<open>
  The arithmetic behind the multinomial tree: a rank is a number in radix \<open>2 ^ lr\<close>, the partners in
  phase \<open>p\<close> are the ranks that differ from it in digit \<open>p\<close> only, and the ranks that agree from a
  digit on form a class. The classes of the partners partition the class one digit up.
\<close>

definition partners :: "nat \<Rightarrow> nat \<Rightarrow> nat \<Rightarrow> nat list" where
  "partners lr me p = map (\<lambda>r. me XOR push_bit (p * lr) r) [1..<2 ^ lr]"

definition same_above :: "nat \<Rightarrow> nat \<Rightarrow> nat \<Rightarrow> bool" where
  "same_above k x y \<longleftrightarrow> drop_bit k x = drop_bit k y"

definition same_below :: "nat \<Rightarrow> nat \<Rightarrow> nat \<Rightarrow> bool" where
  "same_below k x y \<longleftrightarrow> take_bit k x = take_bit k y"

lemma same_above_bits: "same_above k x y \<longleftrightarrow> (\<forall>b\<ge>k. bit x b = bit y b)"
  by (auto simp: same_above_def bit_eq_iff bit_drop_bit_eq) (metis le_add_diff_inverse)+

lemma same_below_bits: "same_below k x y \<longleftrightarrow> (\<forall>b<k. bit x b = bit y b)"
  by (auto simp: same_below_def bit_eq_iff bit_take_bit_iff)

lemma same_above_below: "same_above k x y \<Longrightarrow> same_below k x y \<Longrightarrow> x = y"
  by (auto simp: same_above_bits same_below_bits bit_eq_iff) (metis not_le)+

lemma same_above_refl [simp]: "same_above k x x"
  by (simp add: same_above_def)

lemma same_above_less: "x < 2 ^ k \<Longrightarrow> same_above k x y \<longleftrightarrow> y < 2 ^ k"
  by (auto simp: same_above_def drop_bit_eq_div div_eq_0_iff)

lemma same_above_div: "same_above k x y \<longleftrightarrow> x div 2 ^ k = y div 2 ^ k"
  by (simp add: same_above_def drop_bit_eq_div)

lemma same_above_mono: "same_above k x y \<Longrightarrow> k \<le> m \<Longrightarrow> same_above m x y"
  by (auto simp: same_above_bits)

lemma partner_bits:
  fixes r me :: nat
  assumes "r < 2 ^ lr"
  shows "bit (me XOR push_bit (p * lr) r) b \<longleftrightarrow>
    (if b < p * lr \<or> Suc p * lr \<le> b then bit me b else bit me b \<noteq> bit r (b - p * lr))"
proof -
  have "\<not> bit r (b - p * lr)" if "Suc p * lr \<le> b"
  proof -
    have "lr \<le> b - p * lr" using that by simp
    then have "take_bit lr r = r \<Longrightarrow> \<not> bit r (b - p * lr)" by (metis bit_take_bit_iff not_le)
    then show ?thesis using assms by (simp add: take_bit_nat_eq_self)
  qed
  then show ?thesis by (auto simp: bit_xor_iff bit_push_bit_iff)
qed

lemma drop_push: "drop_bit k (push_bit k (r :: nat)) = r"
  by (simp add: bit_eq_iff bit_drop_bit_eq bit_push_bit_iff)

lemma partners_iff:
  "x \<in> set (partners lr me p) \<longleftrightarrow> x \<noteq> me \<and> same_below (p * lr) x me \<and> same_above (Suc p * lr) x me"
proof
  assume "x \<in> set (partners lr me p)"
  then obtain r where r: "r < 2 ^ lr" "r \<noteq> 0" "x = me XOR push_bit (p * lr) r" by (auto simp: partners_def)
  have "drop_bit (p * lr) (me XOR (me XOR push_bit (p * lr) r)) = r" by (simp add: xor.assoc [symmetric] drop_push)
  then have "x \<noteq> me" using r(2,3) by (metis drop_bit_of_0 xor_self_eq)
  then show "x \<noteq> me \<and> same_below (p * lr) x me \<and> same_above (Suc p * lr) x me"
    using partner_bits [OF r(1)] r(3) by (simp add: same_below_bits same_above_bits)
next
  assume x: "x \<noteq> me \<and> same_below (p * lr) x me \<and> same_above (Suc p * lr) x me"
  define r where "r = drop_bit (p * lr) (x XOR me)"
  have "\<not> bit r b" if "lr \<le> b" for b
  proof -
    have "Suc p * lr \<le> p * lr + b" using that by simp
    then show ?thesis using x by (simp add: r_def same_above_bits bit_drop_bit_eq bit_xor_iff)
  qed
  then have "take_bit lr r = r" by (auto simp: bit_eq_iff bit_take_bit_iff) (metis not_le)
  then have "r < 2 ^ lr" by (simp add: take_bit_nat_eq_self_iff)
  moreover have eq: "x = me XOR push_bit (p * lr) r"
  proof (rule bit_eqI)
    fix b
    show "bit x b = bit (me XOR push_bit (p * lr) r) b"
      using x by (cases "b < p * lr") (auto simp: r_def bit_xor_iff bit_push_bit_iff bit_drop_bit_eq same_below_bits)
  qed
  moreover have "r \<noteq> 0" using x eq by (metis push_bit_of_0 xor.right_neutral)
  ultimately show "x \<in> set (partners lr me p)" by (auto simp: partners_def image_iff)
qed

lemma partners_distinct: "distinct (partners lr me p)"
proof -
  have "inj_on (\<lambda>r. me XOR push_bit (p * lr) r) A" for A :: "nat set"
  proof (rule inj_onI)
    fix a b assume "me XOR push_bit (p * lr) a = me XOR push_bit (p * lr) b"
    then have "drop_bit (p * lr) (me XOR (me XOR push_bit (p * lr) a)) = drop_bit (p * lr) (me XOR (me XOR push_bit (p * lr) b))" by simp
    then show "a = b" by (simp add: xor.assoc [symmetric] drop_push)
  qed
  then show ?thesis by (simp add: partners_def distinct_map)
qed

lemma partners_sym: "x \<in> set (partners lr me p) \<longleftrightarrow> me \<in> set (partners lr x p)"
  by (auto simp: partners_iff same_below_def same_above_def)

lemma partners_less:
  assumes "x \<in> set (partners lr me p)" and "me < 2 ^ K" and "Suc p * lr \<le> K"
  shows "x < 2 ^ K"
  using assms same_above_mono [of "Suc p * lr" x me K] same_above_less [of me K x]
  by (auto simp: partners_iff same_above_def)

lemma class_step:
  "same_above (Suc p * lr) x me \<longleftrightarrow> (\<exists>y \<in> insert me (set (partners lr me p)). same_above (p * lr) x y)" (is "?l \<longleftrightarrow> ?r")
proof
  assume l: ?l
  define y where "y = push_bit (p * lr) (drop_bit (p * lr) x) OR take_bit (p * lr) me"
  have b: "bit y b = (if b < p * lr then bit me b else bit x b)" for b
    by (auto simp: y_def bit_or_iff bit_push_bit_iff bit_drop_bit_eq bit_take_bit_iff)
  have "same_above (p * lr) x y" "same_below (p * lr) y me" by (simp_all add: same_above_bits same_below_bits b)
  moreover have "same_above (Suc p * lr) y me" using l by (auto simp: same_above_bits b)
  ultimately show ?r by (auto simp: partners_iff)
next
  assume ?r
  then obtain y where "y \<in> insert me (set (partners lr me p))" "same_above (p * lr) x y" ..
  then have "y = me \<or> same_above (Suc p * lr) y me" "same_above (p * lr) x y" unfolding insert_iff partners_iff by blast+
  then show ?l using same_above_mono [of "p * lr" x y "Suc p * lr"] by (auto simp: same_above_def)
qed

lemma class_disjoint:
  assumes "y \<in> insert me (set (partners lr me p))" and "z \<in> insert me (set (partners lr me p))"
    and "same_above (p * lr) x y" and "same_above (p * lr) x z"
  shows "y = z"
  using assms by (intro same_above_below [of "p * lr"]) (auto simp: partners_iff same_below_def same_above_def)

end
