(* ===== verification/Pami_MultinomialPlace.thy ===== *)
theory Pami_MultinomialPlace
  imports Pami_MultinomialTree Pami_Digits
begin

unbundle bit_operations_syntax

text \<open>
  The words of the multinomial tree read as natural numbers: for a topology of \<open>n\<close> endpoints with
  \<open>2 ^ K \<le> n < 2 ^ (K + 1)\<close>, what each field and each answer of the map stands for. From here on the
  schedule is a matter of digits.
\<close>

section \<open>Sizes and powers of two\<close>

lemma log_loop_bounds: "0 < unat i \<Longrightarrow> \<exists>K. log_loop i k = k + K \<and> 2 ^ K \<le> unat i \<and> unat i < 2 ^ Suc K"
proof (induction i k rule: log_loop.induct)
  case (1 i k)
  show ?case
  proof (cases "1 < i")
    case True
    then have i: "1 < unat i" "unat (drop_bit 1 i) = unat i div 2"
      by (simp_all add: word_less_nat_alt unsigned_drop_bit_eq drop_bit_Suc unat_div)
    then obtain K where "log_loop (drop_bit 1 i) (k + 1) = k + 1 + K" "2 ^ K \<le> unat i div 2" "unat i div 2 < 2 ^ Suc K"
      using "1.IH" [OF True] by auto
    moreover then have "2 ^ Suc K \<le> unat i" "unat i < 2 ^ Suc (Suc K)" by simp_all
    ultimately show ?thesis using True by (intro exI [of _ "Suc K"]) (simp add: log_loop.simps [of i])
  next
    case False
    then have "unat i = 1" using 1(2) by (simp add: word_less_nat_alt)
    then show ?thesis using False by (intro exI [of _ 0]) (simp add: log_loop.simps [of i])
  qed
qed

lemma log_bounds_unique:
  assumes "2 ^ K \<le> (n::nat)" and "n < 2 ^ Suc K" and "2 ^ J \<le> n" and "n < 2 ^ Suc J"
  shows "J = K"
proof -
  have "2 ^ J < (2 ^ Suc K :: nat)" "2 ^ K < (2 ^ Suc J :: nat)" using assms by simp_all
  then show ?thesis by (simp only: power_strict_increasing_iff one_less_numeral_iff num.simps semiring_norm)
qed

lemma log_loop_eq:
  assumes "unat i = n" and "2 ^ K \<le> n" and "n < 2 ^ Suc K"
  shows "log_loop i 0 = K"
proof -
  have "0 < unat i" using assms(1,2) by (metis gr0I not_less power_eq_0_iff zero_neq_numeral le_zero_eq)
  then show ?thesis using log_loop_bounds [of i 0] log_bounds_unique [OF assms(2,3)] assms(1) by auto
qed

lemma pow2_size_unat: "K < 31 \<Longrightarrow> unat (pow2_size K) = 2 ^ K"
proof -
  assume K: "K < 31"
  have "(push_bit K 1 :: size_t) = 2 ^ K" by (simp add: push_bit_eq_mult)
  moreover have "signed_take_bit 31 (2 ^ K :: size_t) = 2 ^ K"
    using K by (intro bit_word_eqI) (auto simp: bit_signed_take_bit_iff bit_exp_iff min_def)
  moreover have "unat (2 ^ K :: size_t) = 2 ^ K"
    using K unat_of_nat64 [of "2 ^ K"] power_strict_increasing [of K 64 "2::nat"] by simp
  ultimately show ?thesis by (simp add: pow2_size_def)
qed

lemma power_of_two_test:
  assumes "2 ^ K \<le> n" and "n < 2 ^ Suc K"
  shows "n AND (n - 1) = 0 \<longleftrightarrow> n = (2 ^ K :: nat)"
proof (cases "n = 2 ^ K")
  case True
  have "2 ^ K AND (2 ^ K - 1 :: nat) = take_bit K (2 ^ K)"
    by (simp add: take_bit_eq_mask mask_eq_exp_minus_1)
  then show ?thesis using True by simp
next
  case False
  have "bit m K" if "2 ^ K \<le> m" "m < 2 ^ Suc K" for m :: nat
  proof -
    have "m div 2 ^ K = 1" using that by (intro div_nat_eqI) simp_all
    then show ?thesis by (simp add: bit_iff_odd)
  qed
  then have "bit (n AND (n - 1)) K" using assms False by (simp add: bit_and_iff)
  then have "n AND (n - 1) \<noteq> 0" by (metis bit_0_eq bot_apply bot_bool_def)
  then show ?thesis using False by simp
qed

section \<open>The place of a process\<close>

definition placed :: "topology_map \<Rightarrow> nat \<Rightarrow> nat \<Rightarrow> nat \<Rightarrow> bool" where
  "placed m n K me \<longleftrightarrow> 2 ^ K \<le> n \<and> n < 2 ^ Suc K \<and> n < 2 ^ 31 \<and> me < n \<and>
     unat (topo_size_impl (tm_topology m)) = n \<and> unat (tm_hnranks m) = 2 ^ K \<and> unat (tm_getMyRank m) = me"

lemma unat_ucast_down: "unat (x :: size_t) < 2 ^ 32 \<Longrightarrow> unat (ucast x :: uint_t) = unat x"
  by (simp add: unsigned_ucast_eq take_bit_nat_eq_self)

lemma placed_facts:
  assumes "placed m n K me"
  shows "tm_hasAuxPhases m \<longleftrightarrow> n \<noteq> 2 ^ K" and "tm_isAuxProc m \<longleftrightarrow> 2 ^ K \<le> me" and "tm_isPeerProc m \<longleftrightarrow> me + 2 ^ K < n"
    and "unat (tm_getNumRanks m) = n" and "tm_getMyRank m = of_nat me"
    and "me + 2 ^ K < n \<Longrightarrow> tm_getAuxForPeer m = [of_nat (me + 2 ^ K)]"
    and "2 ^ K \<le> me \<Longrightarrow> tm_getPeerForAux m = of_nat (me - 2 ^ K)"
proof -
  let ?sz = "topo_size_impl (tm_topology m)"
  have p: "2 ^ K \<le> n" "n < 2 ^ Suc K" "n < 2 ^ 31" "me < n" "unat ?sz = n" "unat (tm_hnranks m) = 2 ^ K" "unat (tm_getMyRank m) = me"
    using assms by (auto simp: placed_def)
  have me: "unat (ucast (tm_getMyRank m) :: size_t) = me" by (simp add: unat_ucast_uint p(7))
  have "unat (?sz AND (?sz - 1)) = n AND (n - 1)"
  proof -
    have "unat (?sz - 1) = n - 1" using p(1,5) by (metis unat_minus_one less_numeral_extra(3) power_not_zero unat_0 zero_neq_numeral le_zero_eq)
    then show ?thesis by (simp add: unsigned_and_eq p(5))
  qed
  then have "?sz AND (?sz - 1) = 0 \<longleftrightarrow> n AND (n - 1) = 0" by (metis unat_eq_zero unat_0)
  then show "tm_hasAuxPhases m \<longleftrightarrow> n \<noteq> 2 ^ K"
    using power_of_two_test [OF p(1,2)] by (simp add: tm_hasAuxPhases_def Let_def)
  show "tm_isAuxProc m \<longleftrightarrow> 2 ^ K \<le> me" by (simp add: tm_isAuxProc_def word_le_nat_alt me p(6))
  have "unat (?sz - tm_hnranks m) = n - 2 ^ K" using p by (simp add: unat_diff_le word_le_nat_alt)
  then show "tm_isPeerProc m \<longleftrightarrow> me + 2 ^ K < n" by (auto simp: tm_isPeerProc_def word_less_nat_alt me)
  show "unat (tm_getNumRanks m) = n" using p(3) by (simp add: tm_getNumRanks_def unat_ucast_down p(5))
  show "tm_getMyRank m = of_nat me" by (simp add: p(7) [symmetric])
  show "tm_getAuxForPeer m = [of_nat (me + 2 ^ K)]" if "me + 2 ^ K < n"
  proof -
    have "unat (ucast (tm_getMyRank m) + tm_hnranks m) = me + 2 ^ K"
      using that p(3) me p(6) unat_add_lem [of "ucast (tm_getMyRank m)" "tm_hnranks m"] by simp
    then have "unat (ucast (ucast (tm_getMyRank m) + tm_hnranks m) :: uint_t) = me + 2 ^ K"
      using that p(3) by (subst unat_ucast_down) simp_all
    then show ?thesis unfolding tm_getAuxForPeer_def by (metis of_nat_unat ucast_id)
  qed
  show "tm_getPeerForAux m = of_nat (me - 2 ^ K)" if "2 ^ K \<le> me"
  proof -
    have "unat (ucast (tm_getMyRank m) - tm_hnranks m) = me - 2 ^ K"
      using that me p(6) by (simp add: unat_diff_le word_le_nat_alt)
    then have "unat (ucast (ucast (tm_getMyRank m) - tm_hnranks m) :: uint_t) = me - 2 ^ K"
      using that p(3,4) by (subst unat_ucast_down) simp_all
    then show ?thesis unfolding tm_getPeerForAux_def by (metis of_nat_unat ucast_id)
  qed
qed

section \<open>Groups of endpoints\<close>

text \<open>What the map needs of a topology: its indices and its endpoints translate into each other.\<close>

definition endpoint_group :: "mapping \<Rightarrow> topology \<Rightarrow> nat \<Rightarrow> bool" where
  "endpoint_group M t n \<longleftrightarrow> unat (topo_size_impl t) = n \<and> 0 < n \<and> n < 2 ^ 31 \<and>
     (\<forall>i<n. \<exists>e. index2Endpoint_impl M t (of_nat i) = Some e \<and> endpoint2Index_impl M t e = of_nat i)"

definition ep :: "mapping \<Rightarrow> topology \<Rightarrow> nat \<Rightarrow> endpoint" where
  "ep M t i = the (index2Endpoint_impl M t (of_nat i))"

lemma endpoint_group_ep:
  assumes "endpoint_group M t n" and "i < n"
  shows "index2Endpoint_impl M t (of_nat i) = Some (ep M t i)" and "endpoint2Index_impl M t (ep M t i) = of_nat i"
  using assms by (auto simp: endpoint_group_def ep_def)

lemma ep_inj:
  assumes "endpoint_group M t n" and "i < n" and "j < n" and "ep M t i = ep M t j"
  shows "i = j"
proof -
  have "(of_nat i :: size_t) = of_nat j" using endpoint_group_ep(2) assms by metis
  then have "unat (of_nat i :: size_t) = unat (of_nat j :: size_t)" by simp
  then show ?thesis using assms(1-3) by (simp add: endpoint_group_def unat_of_nat64)
qed

text \<open>Ranks relative to the root, and back.\<close>

definition rel :: "nat \<Rightarrow> nat \<Rightarrow> nat \<Rightarrow> nat" where
  "rel n root i = (if root \<le> i then i - root else i + n - root)"

definition unrel :: "nat \<Rightarrow> nat \<Rightarrow> nat \<Rightarrow> nat" where
  "unrel n root r = (if r + root < n then r + root else r + root - n)"

lemma rel_unrel:
  assumes "root < n"
  shows "r < n \<Longrightarrow> unrel n root r < n \<and> rel n root (unrel n root r) = r"
    and "i < n \<Longrightarrow> rel n root i < n \<and> unrel n root (rel n root i) = i"
    and "rel n root root = 0" and "unrel n 0 r' = (if r' < n then r' else r' - n)" and "rel n 0 r' = r'"
  using assms by (auto simp: rel_def unrel_def)

lemma log_exists:
  assumes "0 < (n::nat)"
  obtains K where "2 ^ K \<le> n" "n < 2 ^ Suc K"
proof -
  have "\<exists>K. 2 ^ K \<le> n \<and> n < 2 ^ Suc K" using assms
  proof (induction n rule: less_induct)
    case (less n)
    show ?case
    proof (cases "n = 1")
      case False
      then obtain K where "2 ^ K \<le> n div 2" "n div 2 < 2 ^ Suc K" using less.IH [of "n div 2"] less.prems by auto
      then have "2 ^ Suc K \<le> n" "n < 2 ^ Suc (Suc K)" by simp_all
      then show ?thesis by blast
    qed (auto intro: exI [of _ 0])
  qed
  then show ?thesis using that by blast
qed

definition rooted :: "mapping \<Rightarrow> topology \<Rightarrow> nat \<Rightarrow> nat \<Rightarrow> topology_map" where
  "rooted M t root i = tm_setRoot M (ep M t root) (TopologyMap_new M (ep M t i) t)"

lemma unrooted:
  assumes "endpoint_group M t n"
  shows "TopologyMap_new M (ep M t i) t = rooted M t 0 i"
  using endpoint_group_ep(2) [OF assms, of 0] assms
  by (simp add: rooted_def tm_setRoot_def TopologyMap_new_def endpoint_group_def)

lemma rooted_placed:
  assumes g: "endpoint_group M t n" and "i < n" and "root < n" and "2 ^ K \<le> n" and "n < 2 ^ Suc K"
  shows "placed (rooted M t root i) n K (rel n root i)"
proof -
  have n: "unat (topo_size_impl t) = n" "n < 2 ^ 31" using g by (auto simp: endpoint_group_def)
  have "unat (ucast (topo_size_impl t) :: uint_t) = n" using n by (simp add: unat_ucast_down)
  then have log: "log_loop (ucast (topo_size_impl t)) 0 = K" using assms(4,5) by (rule log_loop_eq)
  have "2 ^ K < (2 ^ 31 :: nat)" using assms(4) n(2) by linarith
  then have K: "K < 31" by (simp only: power_strict_increasing_iff one_less_numeral_iff num.simps semiring_norm)
  have idx: "unat (tm_myindex (rooted M t root i)) = i" "unat (tm_rootindex (rooted M t root i)) = root"
    using endpoint_group_ep(2) [OF g] assms(2,3) n(2)
    by (simp_all add: rooted_def tm_setRoot_def TopologyMap_new_def unat_of_nat64)
  have topo: "tm_topology (rooted M t root i) = t" by (simp add: rooted_def tm_setRoot_def TopologyMap_new_def)
  have "unat (tm_getMyRank (rooted M t root i)) = rel n root i"
  proof (cases "root \<le> i")
    case True
    then show ?thesis
      using idx assms(2) n(2) by (simp add: tm_getMyRank_def word_le_nat_alt unat_ucast_down unat_diff_le rel_def)
  next
    case False
    have s: "unat (tm_myindex (rooted M t root i) + topo_size_impl t) = i + n"
      using idx assms(2) n unat_add_lem [of "tm_myindex (rooted M t root i)" "topo_size_impl t"] by simp
    then have "unat (tm_myindex (rooted M t root i) + topo_size_impl t - tm_rootindex (rooted M t root i)) = i + n - root"
      using assms(3) idx by (simp add: unat_diff_le word_le_nat_alt)
    then show ?thesis
      using False idx assms(2,3) n(2) by (simp add: tm_getMyRank_def word_le_nat_alt unat_ucast_down rel_def topo)
  qed
  then show ?thesis
    using assms rel_unrel(2) [OF assms(3,2)] n topo pow2_size_unat [OF K]
    by (simp add: placed_def rooted_def tm_setRoot_def TopologyMap_new_def log)
qed

lemma rooted_global:
  assumes g: "endpoint_group M t n" and "root < n" and "r < n"
  shows "tm_getGlobalRank M (rooted M t root i) (of_nat r) = Some (ep M t (unrel n root r))"
proof -
  have n: "unat (topo_size_impl t) = n" "n < 2 ^ 31" using g by (auto simp: endpoint_group_def)
  have topo: "tm_topology (rooted M t root i) = t" by (simp add: rooted_def tm_setRoot_def TopologyMap_new_def)
  have root: "unat (tm_rootindex (rooted M t root i)) = root"
    using endpoint_group_ep(2) [OF g] assms(2) n(2) by (simp add: rooted_def tm_setRoot_def TopologyMap_new_def unat_of_nat64)
  define a :: uint_t where "a = ucast (ucast (of_nat r :: uint_t) + tm_rootindex (rooted M t root i))"
  have r: "unat (ucast (of_nat r :: uint_t) :: size_t) = r" using assms(3) n(2) by (simp add: unat_ucast_uint unat_of_nat take_bit_nat_eq_self)
  then have "unat (ucast (of_nat r :: uint_t) + tm_rootindex (rooted M t root i)) = r + root"
    using root assms(2,3) n(2) unat_add_lem [of "ucast (of_nat r :: uint_t)" "tm_rootindex (rooted M t root i)"] by simp
  then have a: "unat a = r + root" using assms(2,3) n(2) by (simp add: a_def unat_ucast_down)
  define b :: uint_t where "b = (if topo_size_impl t \<le> ucast a then ucast (ucast a - topo_size_impl t) else a)"
  have "unat b = unrel n root r"
    using a n assms(2,3) by (auto simp: b_def unrel_def word_le_nat_alt unat_ucast_uint unat_diff_le unat_ucast_down)
  then have "ucast b = (of_nat (unrel n root r) :: size_t)" by (metis unat_ucast_uint of_nat_unat ucast_id)
  then have "tm_getGlobalRank M (rooted M t root i) (of_nat r) = index2Endpoint_impl M t (of_nat (unrel n root r))"
    by (simp add: tm_getGlobalRank_def Let_def topo a_def [symmetric] b_def [symmetric])
  then show ?thesis using endpoint_group_ep(1) [OF g] rel_unrel(1) [OF assms(2,3)] by simp
qed

section \<open>The shape of the tree\<close>

definition shaped :: "mtree \<Rightarrow> topology_map \<Rightarrow> nat \<Rightarrow> nat \<Rightarrow> nat \<Rightarrow> nat \<Rightarrow> nat \<Rightarrow> bool" where
  "shaped s m n K lr N me \<longleftrightarrow> mt_map s = TopologyMap m \<and> placed m n K me \<and> 1 \<le> lr \<and> lr \<le> 3 \<and> N * lr = K \<and>
     mt_radix s = of_nat (2 ^ lr) \<and> mt_logradix s = of_nat lr \<and> mt_nphbino s = of_nat N \<and>
     mt_maxphases s = of_nat (if n = 2 ^ K then N + 1 else N + 2)"

definition tree_lr :: "nat \<Rightarrow> nat \<Rightarrow> nat" where
  "tree_lr T_MaxRadix n = (let r = getRadix T_MaxRadix (of_nat n) in if r = 8 then 3 else if r = 4 then 2 else 1)"

lemma placed_K: "placed m n K me \<Longrightarrow> K < 31"
proof -
  assume "placed m n K me"
  then have "2 ^ K < (2 ^ 31 :: nat)" by (auto simp: placed_def)
  then show ?thesis by (simp only: power_strict_increasing_iff one_less_numeral_iff num.simps semiring_norm)
qed

lemma initBinoSched_shaped:
  assumes "mt_map s = TopologyMap m" and "placed m n K me"
  shows "shaped (initBinoSched mx s) m n K (tree_lr mx n) (K div tree_lr mx n) me"
proof -
  have n: "2 ^ K \<le> n" "n < 2 ^ Suc K" "unat (tm_getNumRanks m) = n" using assms(2) placed_facts(4) [OF assms(2)] by (auto simp: placed_def)
  have nr: "tm_getNumRanks m = of_nat n" using n(3) by auto
  have log: "log_loop (of_nat n) 0 = K" using log_loop_eq [OF n(3,1,2)] nr by simp
  have nz: "(of_nat n :: uint_t) \<noteq> 0" using n(1,3) nr by (metis le_zero_eq power_not_zero unat_0 zero_neq_numeral)
  consider "getRadix mx (of_nat n) = 8" "K mod 3 = 0" | "getRadix mx (of_nat n) = 4" "K mod 2 = 0" | "getRadix mx (of_nat n) = 2"
    unfolding getRadix_def Let_def log by presburger
  then show ?thesis
    using assms placed_facts(1) [OF assms(2)] nz
    by cases (simp_all add: shaped_def initBinoSched_def getMaxPhases_def tree_lr_def Let_def nr log minus_mod_eq_div_mult [symmetric])
qed

lemma shaped_N: "shaped s m n K lr N me \<Longrightarrow> N < 31"
proof -
  assume s: "shaped s m n K lr N me"
  then have "N * 1 \<le> K" unfolding shaped_def by (metis mult_le_mono2)
  then show ?thesis using s placed_K by (fastforce simp: shaped_def)
qed

lemma BINO_partners:
  assumes "me < 2 ^ K" and "Suc p * lr \<le> K" and "K < 31" and "1 \<le> lr" and "lr \<le> 3"
  shows "BINO (of_nat me) (of_nat p) (of_nat (2 ^ lr)) (of_nat lr) = map of_nat (partners lr me p)"
proof -
  have "p * lr < 2 ^ 32" using assms(2-4) by simp
  then have u: "unat (of_nat p * of_nat lr :: uint_t) = p * lr"
    unfolding of_nat_mult [symmetric] by (intro unat_of_nat_small) simp
  have "unat (of_nat (2 ^ lr) :: uint_t) = 2 ^ lr"
    using assms(4,5) power_increasing [of lr 3 "2::nat"] by (intro unat_of_nat_small) simp
  moreover have "(of_nat me XOR push_bit (p * lr) (of_nat r) :: uint_t) = of_nat (me XOR push_bit (p * lr) r)" for r
    by (rule bit_word_eqI) (auto simp: bit_xor_iff bit_push_bit_iff bit_of_nat_iff)
  ultimately show ?thesis by (simp add: BINO_def partners_def u)
qed

end
