(* ===== verification/Pami_MultinomialPhases.thy ===== *)
theory Pami_MultinomialPhases
  imports Pami_MultinomialPlace
begin

unbundle bit_operations_syntax

text \<open>
  The partners of every phase, for each collective operation: what \<^verbatim>\<open>init\<close>,
  \<^verbatim>\<open>setupContext\<close> and \<^verbatim>\<open>NEXT_NODES\<close> compute, as functions of the rank \<open>me\<close>
  relative to the root. \<open>n\<close> is the number of processes, \<open>2 ^ K\<close> that of the tree, \<open>lr\<close> the number of
  bits of a digit; the phases \<open>1 .. K div lr\<close> are those of the tree, \<open>0\<close> and \<open>K div lr + 1\<close> those of the
  auxiliary processes.
\<close>

section \<open>Partners as numbers\<close>

definition all_src :: "nat \<Rightarrow> nat \<Rightarrow> nat \<Rightarrow> nat \<Rightarrow> nat \<Rightarrow> nat list" where
  "all_src n K lr me p =
     (if 2 ^ K \<le> me then (if p = K div lr + 1 then [me - 2 ^ K] else [])
      else if p = 0 then (if me + 2 ^ K < n then [me + 2 ^ K] else [])
      else if p \<le> K div lr then partners lr me (p - 1) else [])"

definition all_dst :: "nat \<Rightarrow> nat \<Rightarrow> nat \<Rightarrow> nat \<Rightarrow> nat \<Rightarrow> nat list" where
  "all_dst n K lr me p =
     (if 2 ^ K \<le> me then (if p = 0 then [me - 2 ^ K] else [])
      else if p = 0 then []
      else if p \<le> K div lr then partners lr me (p - 1)
      else if p = K div lr + 1 \<and> me + 2 ^ K < n then [me + 2 ^ K] else [])"

text \<open>The number of digits of a rank: the phase in which it receives a broadcast.\<close>

function digits :: "nat \<Rightarrow> nat \<Rightarrow> nat" where
  "digits lr me = (if me = 0 \<or> lr = 0 then 0 else Suc (digits lr (me div 2 ^ lr)))"
  by pat_completeness auto
termination
  by (relation "measure snd") (auto intro!: div_less_dividend one_less_power)

declare digits.simps [simp del]

definition bcast_src :: "nat \<Rightarrow> nat \<Rightarrow> nat \<Rightarrow> nat \<Rightarrow> nat \<Rightarrow> nat list" where
  "bcast_src n K lr me p =
     (if 2 ^ K \<le> me then (if p = K div lr + 1 then [me - 2 ^ K] else [])
      else if me \<noteq> 0 \<and> p = digits lr me then partners lr me (p - 1) else [])"

definition bcast_dst :: "nat \<Rightarrow> nat \<Rightarrow> nat \<Rightarrow> nat \<Rightarrow> nat \<Rightarrow> nat list" where
  "bcast_dst n K lr me p =
     (if 2 ^ K \<le> me then []
      else if digits lr me < p \<and> p \<le> K div lr then partners lr me (p - 1)
      else if p = K div lr + 1 \<and> me + 2 ^ K < n then [me + 2 ^ K] else [])"

text \<open>For a reduction in radix two the phase of sending is the place of the lowest bit.\<close>

function low_bit :: "nat \<Rightarrow> nat" where
  "low_bit me = (if me = 0 then 0 else if odd me then 1 else Suc (low_bit (me div 2)))"
  by pat_completeness auto
termination
  by (relation "measure id") auto

declare low_bit.simps [simp del]

definition reduce_src :: "nat \<Rightarrow> nat \<Rightarrow> nat \<Rightarrow> nat \<Rightarrow> nat list" where
  "reduce_src n K me p =
     (if 2 ^ K \<le> me then []
      else if p = 0 then (if me + 2 ^ K < n then [me + 2 ^ K] else [])
      else if p \<le> K \<and> (me = 0 \<or> p < low_bit me) then partners 1 me (p - 1) else [])"

definition reduce_dst :: "nat \<Rightarrow> nat \<Rightarrow> nat \<Rightarrow> nat \<Rightarrow> nat list" where
  "reduce_dst n K me p =
     (if 2 ^ K \<le> me then (if p = 0 then [me - 2 ^ K] else [])
      else if me \<noteq> 0 \<and> p = low_bit me then partners 1 me (p - 1) else [])"

section \<open>Small phase numbers\<close>

lemma not_code: "p + k < 2 ^ 32 \<Longrightarrow> 0 < k \<Longrightarrow> (of_nat p :: uint_t) \<noteq> - of_nat k"
proof
  assume k: "p + k < 2 ^ 32" "0 < k" and "(of_nat p :: uint_t) = - of_nat k"
  then have "(of_nat (p + k) :: uint_t) = of_nat 0" by simp
  then have "unat (of_nat (p + k) :: uint_t) = unat (of_nat 0 :: uint_t)" by simp
  then show False using k unat_of_nat_small [of "p + k", where 'a = 32] by simp
qed

lemma small_phase:
  assumes "p < 64"
  shows "unat (of_nat p :: uint_t) = p"
    and "of_nat p \<noteq> (- 1 :: uint_t)" "of_nat p \<noteq> (- 2 :: uint_t)" "of_nat p \<noteq> (- 3 :: uint_t)" "of_nat p \<noteq> (- 4 :: uint_t)"
  using assms not_code [of p 1] not_code [of p 2] not_code [of p 3] not_code [of p 4]
  by (simp_all add: unat_of_nat_small)

lemma small_phase_cmp:
  assumes "p < 64" and "q < 64"
  shows "(of_nat p :: uint_t) = of_nat q \<longleftrightarrow> p = q" and "(of_nat p :: uint_t) \<le> of_nat q \<longleftrightarrow> p \<le> q"
  using small_phase(1) [OF assms(1)] small_phase(1) [OF assms(2)] by (metis, simp add: word_le_nat_alt)

lemma one_le_phase: "p < 64 \<Longrightarrow> (1 :: uint_t) \<le> of_nat p \<longleftrightarrow> 1 \<le> p"
  using small_phase_cmp(2) [of 1 p] by simp

lemma zero_phase: "p < 64 \<Longrightarrow> of_nat p = (0 :: uint_t) \<longleftrightarrow> p = 0"
  using small_phase_cmp(1) [of p 0] by simp

lemma phase_minus_one: "1 \<le> p \<Longrightarrow> (of_nat p - 1 :: uint_t) = of_nat (p - 1)"
  by (simp add: of_nat_diff)

section \<open>Barrier and allreduce\<close>

definition all_window :: "nat \<Rightarrow> nat \<Rightarrow> nat \<Rightarrow> nat \<Rightarrow> nat \<times> nat" where
  "all_window n K lr me = (if 2 ^ K \<le> me \<or> me + 2 ^ K < n then (0, K div lr + 2) else (1, K div lr))"

definition all_context :: "uint_t \<Rightarrow> nat \<Rightarrow> nat \<Rightarrow> nat \<Rightarrow> nat \<Rightarrow> nat \<Rightarrow> mtree \<Rightarrow> bool" where
  "all_context op n K lr N me r \<longleftrightarrow>
     mt_startphase r = of_nat (fst (all_window n K lr me)) \<and> mt_nphases r = of_nat (snd (all_window n K lr me)) \<and>
     mt_auxsendph r = (if 2 ^ K \<le> me then 0 else if me + 2 ^ K < n then of_nat (N + 1) else - 3) \<and>
     mt_auxrecvph r = (if 2 ^ K \<le> me then of_nat (N + 1) else if me + 2 ^ K < n then 0 else - 3) \<and>
     mt_sendph r = (if 2 ^ K \<le> me then - 3 else - 2) \<and> mt_recvph r = (if 2 ^ K \<le> me then - 3 else - 2) \<and>
     mt_lastrdcph r = (if 2 ^ K \<le> me \<and> op = ALLREDUCE_OP then of_nat N else - 1)"

lemma all_init:
  assumes s: "shaped s m n K lr N me" and "op = BARRIER_OP \<or> op = ALLREDUCE_OP"
  shows "\<exists>r. mt_init M root op s = Some r \<and> shaped r m n K lr N me \<and> all_context op n K lr N me r"
proof -
  have m: "mt_map s = TopologyMap m" and p: "placed m n K me" and N: "mt_nphbino s = of_nat N" "K div lr = N"
    and mp: "mt_maxphases s = of_nat (if n = 2 ^ K then N + 1 else N + 2)" using s by (auto simp: shaped_def)
  note f = placed_facts [OF p]
  have "me < n" "me < 2 ^ K \<or> me + 2 ^ K \<ge> n" using p by (auto simp: placed_def)
  then show ?thesis
    using assms(2) s
    by (cases "2 ^ K \<le> me"; cases "me + 2 ^ K < n")
      (auto simp: mt_init_def setupContext_def setup_peer_def setup_aux_def setup_tree_def op_codes phase_codes Let_def
        m f(2,3) N mp all_window_def shaped_def all_context_def)
qed

text \<open>The partners of a phase of the tree.\<close>

lemma tree_nodes:
  assumes s: "shaped r m n K lr N me" and "1 \<le> p" and "p \<le> N" and "me < 2 ^ K"
    and "mt_auxsendph r \<noteq> of_nat p" and "mt_auxrecvph r \<noteq> of_nat p"
  shows "NEXT_NODES r b (of_nat p) = map of_nat (partners lr me (p - 1))"
proof -
  have N: "N * lr = K" "1 \<le> lr" "lr \<le> 3" "mt_map r = TopologyMap m" "placed m n K me" using s by (auto simp: shaped_def)
  have "Suc (p - 1) * lr \<le> K" using assms(2,3) N(1) mult_le_mono1 [of p N lr] by simp
  then have "BINO (of_nat me) (of_nat (p - 1)) (mt_radix r) (mt_logradix r) = map of_nat (partners lr me (p - 1))"
    using BINO_partners [OF assms(4) _ placed_K [OF N(5)] N(2,3)] s by (simp add: shaped_def)
  then show ?thesis
    using assms(5,6) placed_facts(5) [OF N(5)] N(4) unfolding NEXT_NODES_def phase_minus_one [OF assms(2)] by simp
qed

text \<open>The partners of a phase of the auxiliary processes.\<close>

lemma aux_nodes:
  assumes s: "shaped r m n K lr N me" and "ph = (if b then mt_auxrecvph r else mt_auxsendph r)"
  shows "NEXT_NODES r b ph =
    (if 2 ^ K \<le> me then [of_nat (me - 2 ^ K)] else if me + 2 ^ K < n then [of_nat (me + 2 ^ K)] else [])"
  using assms placed_facts(2,3,6,7) [of m n K me] by (auto simp: shaped_def NEXT_NODES_def)

lemma shaped_phases:
  assumes "shaped r m n K lr N me"
  shows "mt_nphbino r = of_nat N" and "K div lr = N" and "N < 31"
  using assms shaped_N [OF assms] by (auto simp: shaped_def)

lemma all_nodes:
  assumes s: "shaped s m n K lr N me" and op: "op = BARRIER_OP \<or> op = ALLREDUCE_OP"
    and r: "mt_init M root op s = Some r" and p: "p \<le> N + 1"
  shows "src_nodes r (of_nat p) = map of_nat (all_src n K lr me p)" and "dst_nodes r (of_nat p) = map of_nat (all_dst n K lr me p)"
proof -
  have sh: "shaped r m n K lr N me" and c: "all_context op n K lr N me r" using all_init [OF s op, of M root] r by auto
  have aux: "mt_auxsendph r = (if 2 ^ K \<le> me then 0 else if me + 2 ^ K < n then of_nat (N + 1) else - 3)"
      "mt_auxrecvph r = (if 2 ^ K \<le> me then of_nat (N + 1) else if me + 2 ^ K < n then 0 else - 3)"
    and ph: "mt_sendph r = (if 2 ^ K \<le> me then - 3 else - 2)" "mt_recvph r = (if 2 ^ K \<le> me then - 3 else - 2)"
    using c unfolding all_context_def by blast+
  note N = shaped_phases [OF sh]
  have lt: "p < 64" "N < 64" "N + 1 < 64" using p N(3) by simp_all
  note q = small_phase [OF lt(1)] small_phase_cmp [OF lt(1,2)] small_phase_cmp [OF lt(1,3)] one_le_phase [OF lt(1)] zero_phase [OF lt(1)]
  have tree: "1 \<le> p \<Longrightarrow> p \<le> N \<Longrightarrow> \<not> 2 ^ K \<le> me \<Longrightarrow> NEXT_NODES r b (of_nat p) = map of_nat (partners lr me (p - 1))" for b
    using q aux by (intro tree_nodes [OF sh]) (auto simp: eq_commute [of _ "of_nat p"] simp flip: of_nat_Suc)
  note an = aux_nodes [OF sh, of "of_nat p"]
  show "src_nodes r (of_nat p) = map of_nat (all_src n K lr me p)"
    using tree [of True] an [of True] aux ph p q N(1,2)
    by (auto simp: src_nodes_def receives_def all_src_def phase_codes simp flip: of_nat_Suc)
  show "dst_nodes r (of_nat p) = map of_nat (all_dst n K lr me p)"
    using tree [of False] an [of False] aux ph p q N(1,2)
    by (auto simp: dst_nodes_def sends_def all_dst_def phase_codes simp flip: of_nat_Suc)
qed

section \<open>Broadcast\<close>

lemma digits_le: "1 \<le> lr \<Longrightarrow> digits lr me \<le> j \<longleftrightarrow> me < 2 ^ (j * lr)"
proof (induction lr me arbitrary: j rule: digits.induct)
  case (1 lr me)
  show ?case
  proof (cases "me = 0")
    case False
    show ?thesis
    proof (cases j)
      case 0
      then show ?thesis using False "1.prems" by (simp add: digits.simps [of lr me])
    next
      case (Suc k)
      have "me div 2 ^ lr < 2 ^ (k * lr) \<longleftrightarrow> me < 2 ^ (Suc k * lr)"
        by (simp add: less_mult_imp_div_less div_less_iff_less_mult power_add mult.commute)
      then show ?thesis using False "1.prems" "1.IH" [of k] Suc by (simp add: digits.simps [of lr me])
    qed
  qed (simp add: digits.simps)
qed

lemma digits_0 [simp]: "digits lr 0 = 0"
  by (simp add: digits.simps)

lemma digits_pos: "1 \<le> lr \<Longrightarrow> 0 < digits lr me \<longleftrightarrow> 0 < me"
  using digits_le [of lr me 0] by auto

lemma while_digits:
  assumes "1 \<le> lr" and "j \<le> digits lr me"
  shows "while_option (\<lambda>(d, k). d < int me + 1) (\<lambda>(d, k). (d * 2 ^ lr, Suc k)) (2 ^ (j * lr), j) =
    Some (2 ^ (digits lr me * lr), digits lr me)"
  using assms(2)
proof (induction "digits lr me - j" arbitrary: j)
  case 0
  then have j: "j = digits lr me" by simp
  then have "me < 2 ^ (j * lr)" using digits_le [OF assms(1)] by blast
  then have "int me < int (2 ^ (j * lr))" by (rule of_nat_less_iff [THEN iffD2])
  then have "\<not> (2 ^ (j * lr) < int me + 1)" by simp
  then show ?case using j by (subst while_option_unfold) simp
next
  case (Suc x)
  then have "\<not> digits lr me \<le> j" by simp
  then have "\<not> me < 2 ^ (j * lr)" using digits_le [OF assms(1)] by blast
  then have "int (2 ^ (j * lr)) \<le> int me" by (intro of_nat_mono) simp
  then have "2 ^ (j * lr) < int me + 1" by simp
  moreover have "x = digits lr me - Suc j" "Suc j \<le> digits lr me" using Suc.hyps(2) by simp_all
  ultimately show ?case using Suc.hyps(1) [of "Suc j"] by (subst while_option_unfold) (simp add: power_add mult.commute)
qed

lemma log_distance_digits:
  assumes "1 \<le> lr" and "lr \<le> 3" and "me < 2 ^ 30"
  shows "log_distance (of_nat (2 ^ lr)) (of_nat me + 1) = Some (digits lr me)"
proof -
  have "sint (of_nat (Suc me) :: uint_t) = int (Suc me)"
    using assms(3) by (subst signed_of_nat) (simp add: signed_take_bit_int_eq_self_iff [THEN iffD2])
  moreover have "(2::nat) ^ lr \<le> 2 ^ 3" using assms(2) by (intro power_increasing) simp_all
  then have "unat (of_nat (2 ^ lr) :: uint_t) = 2 ^ lr" by (intro unat_of_nat_small) simp
  then have "uint (of_nat (2 ^ lr) :: uint_t) = 2 ^ lr" by (metis of_nat_numeral of_nat_power uint_nat)
  ultimately show ?thesis
    using while_digits [OF assms(1), of 0 me] by (simp add: log_distance_def add.commute)
qed

definition bcast_window :: "nat \<Rightarrow> nat \<Rightarrow> nat \<Rightarrow> nat \<Rightarrow> nat \<times> nat" where
  "bcast_window n K lr me =
     (if 2 ^ K \<le> me then (K div lr + 1, 1)
      else (let st = max 1 (digits lr me) in (st, K div lr + (if me + 2 ^ K < n then 2 else 1) - st)))"

definition bcast_context :: "nat \<Rightarrow> nat \<Rightarrow> nat \<Rightarrow> nat \<Rightarrow> nat \<Rightarrow> mtree \<Rightarrow> bool" where
  "bcast_context n K lr N me r \<longleftrightarrow>
     mt_startphase r = of_nat (fst (bcast_window n K lr me)) \<and> mt_nphases r = of_nat (snd (bcast_window n K lr me)) \<and>
     mt_auxsendph r = (if me + 2 ^ K < n then of_nat (N + 1) else - 3) \<and>
     mt_auxrecvph r = (if 2 ^ K \<le> me then of_nat (N + 1) else - 3) \<and>
     mt_sendph r = (if 2 ^ K \<le> me then - 3 else if me = 0 then - 2 else - 4) \<and>
     mt_recvph r = (if 2 ^ K \<le> me \<or> me = 0 then - 3 else of_nat (digits lr me))"

lemma digits_tree:
  assumes "shaped s m n K lr N me" and "me < 2 ^ K"
  shows "digits lr me \<le> N"
  using assms digits_le [of lr me N] by (auto simp: shaped_def)

lemma bcast_setup:
  assumes s: "shaped s m n K lr N me" and op: "mt_op s = BROADCAST_OP"
  shows "\<exists>st np r. setupContext s = Some (st, np, r) \<and> shaped r m n K lr N me \<and> bcast_context n K lr N me (r\<lparr>mt_startphase := st, mt_nphases := np\<rparr>)"
proof -
  have m: "mt_map s = TopologyMap m" and p: "placed m n K me" and N: "mt_nphbino s = of_nat N" "K div lr = N"
    and lr: "1 \<le> lr" "lr \<le> 3" and rx: "mt_radix s = of_nat (2 ^ lr)"
    and mp: "mt_maxphases s = of_nat (if n = 2 ^ K then N + 1 else N + 2)" using s by (auto simp: shaped_def)
  note f = placed_facts [OF p]
  show ?thesis
  proof (cases "2 ^ K \<le> me")
    case True
    then have "\<not> me + 2 ^ K < n" "n \<noteq> 2 ^ K" using p by (auto simp: placed_def)
    then show ?thesis
      using True op s
      by (simp add: setupContext_def setup_peer_def setup_aux_def op_codes phase_codes m f(2,3) N mp
          bcast_window_def shaped_def bcast_context_def)
  next
    case False
    have "(2::nat) ^ K \<le> 2 ^ 30" using placed_K [OF p] by (intro power_increasing) simp_all
    then have me: "me < 2 ^ 30" using False by simp
    then have z: "(of_nat me :: uint_t) = 0 \<longleftrightarrow> me = 0" using unat_of_nat_small [of me, where 'a = 32] by force
    have d: "me \<noteq> 0 \<Longrightarrow> 1 \<le> digits lr me" "digits lr me \<le> N"
      using digits_pos [OF lr(1), of me] digits_tree [OF s] False by (simp_all add: not_le)
    have n: "me + 2 ^ K < n \<Longrightarrow> n \<noteq> 2 ^ K" by auto
    have w: "of_nat N - (of_nat (digits lr me) - 1) = (of_nat (N + 1 - digits lr me) :: uint_t)"
      "of_nat N + 1 - (of_nat (digits lr me) - 1) = (of_nat (N + 2 - digits lr me) :: uint_t)"
      using d(2) by (simp_all add: of_nat_diff)
    show ?thesis
      using False op s d n w
      by (cases "me = 0"; cases "me + 2 ^ K < n")
        (simp_all add: setupContext_def setup_peer_def setup_tree_def op_codes phase_codes m f(2,3,5) N mp z max_def
          log_distance_digits [OF lr me, unfolded of_nat_power of_nat_numeral] bcast_window_def shaped_def bcast_context_def rx Let_def)
  qed
qed

lemma bcast_nodes:
  assumes sh: "shaped r m n K lr N me" and c: "bcast_context n K lr N me r"
    and p: "fst (bcast_window n K lr me) \<le> p" "p < fst (bcast_window n K lr me) + snd (bcast_window n K lr me)"
  shows "src_nodes r (of_nat p) = map of_nat (bcast_src n K lr me p)" and "dst_nodes r (of_nat p) = map of_nat (bcast_dst n K lr me p)"
proof -
  have aux: "mt_auxsendph r = (if me + 2 ^ K < n then of_nat (N + 1) else - 3)"
      "mt_auxrecvph r = (if 2 ^ K \<le> me then of_nat (N + 1) else - 3)"
    and ph: "mt_sendph r = (if 2 ^ K \<le> me then - 3 else if me = 0 then - 2 else - 4)"
      "mt_recvph r = (if 2 ^ K \<le> me \<or> me = 0 then - 3 else of_nat (digits lr me))"
    using c unfolding bcast_context_def by blast+
  note N = shaped_phases [OF sh]
  have me: "me + 2 ^ K < n \<Longrightarrow> me < 2 ^ K" using sh by (auto simp: shaped_def placed_def)
  have win: "2 ^ K \<le> me \<Longrightarrow> p = N + 1" "\<not> 2 ^ K \<le> me \<Longrightarrow> 1 \<le> p \<and> digits lr me \<le> p \<and> (p \<le> N \<or> p = N + 1 \<and> me + 2 ^ K < n)"
    using p N(2) by (auto simp: bcast_window_def Let_def max_def split: if_splits)
  have D: "\<not> 2 ^ K \<le> me \<Longrightarrow> digits lr me \<le> N" using digits_tree [OF sh] by simp
  have lt: "p < 64" "N < 64" "N + 1 < 64" using win N(3) by (cases "2 ^ K \<le> me"; force)+
  note q = small_phase [OF lt(1)] small_phase_cmp [OF lt(1,2)] small_phase_cmp [OF lt(1,3)] one_le_phase [OF lt(1)] zero_phase [OF lt(1)]
  have dq: "\<not> 2 ^ K \<le> me \<Longrightarrow> (of_nat p :: uint_t) = of_nat (digits lr me) \<longleftrightarrow> p = digits lr me"
    "\<not> 2 ^ K \<le> me \<Longrightarrow> of_nat (digits lr me) \<noteq> (- 2 :: uint_t) \<and> of_nat (digits lr me) \<noteq> (- 4 :: uint_t)"
    using D N(3) small_phase [of "digits lr me"] small_phase_cmp(1) [OF lt(1), of "digits lr me"] by simp_all
  have tree: "1 \<le> p \<Longrightarrow> p \<le> N \<Longrightarrow> \<not> 2 ^ K \<le> me \<Longrightarrow> NEXT_NODES r b (of_nat p) = map of_nat (partners lr me (p - 1))" for b
    using q aux by (intro tree_nodes [OF sh]) (auto simp: eq_commute [of _ "of_nat p"] simp flip: of_nat_Suc)
  note an = aux_nodes [OF sh, of "of_nat p"]
  show "src_nodes r (of_nat p) = map of_nat (bcast_src n K lr me p)"
    using tree [of True] an [of True] aux ph q dq N(1,2) win D me
    by (cases "2 ^ K \<le> me"; cases "me = 0") (auto simp: src_nodes_def receives_def bcast_src_def phase_codes simp flip: of_nat_Suc)
  show "dst_nodes r (of_nat p) = map of_nat (bcast_dst n K lr me p)"
    using tree [of False] an [of False] aux ph q dq N(1,2) win D me
    by (cases "2 ^ K \<le> me"; cases "me = 0") (auto simp: dst_nodes_def sends_def bcast_dst_def phase_codes simp flip: of_nat_Suc)
qed

section \<open>Reduction in radix two\<close>

lemma low_bit_le: "me < 2 ^ K \<Longrightarrow> low_bit me \<le> K"
proof (induction K arbitrary: me)
  case (Suc K)
  then show ?case by (subst low_bit.simps) auto
qed (simp add: low_bit.simps)

lemma low_bit_pos: "0 < low_bit me \<longleftrightarrow> 0 < me"
  by (subst low_bit.simps) simp

lemma low_bit_bits: "0 < me \<Longrightarrow> bit me (low_bit me - 1) \<and> (\<forall>b<low_bit me - 1. \<not> bit me b)"
proof (induction me rule: low_bit.induct)
  case (1 me)
  show ?case
  proof (cases "odd me")
    case True
    then show ?thesis using "1.prems" by (simp add: low_bit.simps [of me] bit_0)
  next
    case False
    then have pos: "0 < me div 2" using "1.prems" by (auto elim!: evenE)
    have ih: "bit (me div 2) (low_bit (me div 2) - 1)" "\<forall>b<low_bit (me div 2) - 1. \<not> bit (me div 2) b"
      using "1.IH" "1.prems" False pos by auto
    have l: "low_bit me = Suc (low_bit (me div 2))" "0 < low_bit (me div 2)"
      using False "1.prems" pos low_bit_pos [of "me div 2"] by (simp_all add: low_bit.simps [of me])
    have "bit me (low_bit me - 1)" using ih(1) l bit_Suc [of me "low_bit (me div 2) - 1"] by simp
    moreover have "\<not> bit me b" if "b < low_bit me - 1" for b
      using that ih(2) l False by (cases b) (auto simp: bit_0 bit_Suc)
    ultimately show ?thesis by blast
  qed
qed

lemma filter_head: "j < k \<Longrightarrow> P j \<Longrightarrow> \<forall>b<j. \<not> P b \<Longrightarrow> \<exists>xs. filter P [0..<k] = j # xs"
proof -
  assume j: "j < k" "P j" "\<forall>b<j. \<not> P b"
  then have "[0..<k] = [0..<j] @ j # [Suc j..<k]" by (metis less_imp_le_nat upt_conv_Cons upt_split zero_le)
  then show ?thesis using j by (simp add: filter_False)
qed

lemma ffs_low_bit:
  assumes "0 < me" and "me < 2 ^ 31"
  shows "ffs (of_nat me) = low_bit me"
proof -
  have l: "0 < low_bit me" "low_bit me \<le> 31" using assms low_bit_pos low_bit_le [of me 31] by auto
  have "bit (of_nat me :: uint_t) b = bit me b" if "b < 32" for b using that by (simp add: bit_of_nat_iff)
  then have "\<exists>xs. filter (bit (of_nat me :: uint_t)) [0..<32] = (low_bit me - 1) # xs"
    using l low_bit_bits [OF assms(1)] by (intro filter_head) auto
  then show ?thesis using l by (auto simp: ffs_def)
qed

definition reduce_window :: "nat \<Rightarrow> nat \<Rightarrow> nat \<Rightarrow> nat \<times> nat" where
  "reduce_window n K me =
     (if 2 ^ K \<le> me then (0, 1)
      else (let st = (if me + 2 ^ K < n then 0 else 1) in (st, (if me = 0 then K else low_bit me) + 1 - st)))"

definition reduce_context :: "nat \<Rightarrow> nat \<Rightarrow> nat \<Rightarrow> mtree \<Rightarrow> bool" where
  "reduce_context n K me r \<longleftrightarrow>
     mt_startphase r = of_nat (fst (reduce_window n K me)) \<and> mt_nphases r = of_nat (snd (reduce_window n K me)) \<and>
     mt_auxsendph r = (if 2 ^ K \<le> me then 0 else - 3) \<and>
     mt_auxrecvph r = (if me + 2 ^ K < n then 0 else - 3) \<and>
     mt_recvph r = (if 2 ^ K \<le> me then - 3 else if me = 0 then - 2 else - 4) \<and>
     mt_sendph r = (if 2 ^ K \<le> me \<or> me = 0 then - 3 else of_nat (low_bit me)) \<and> mt_lastrdcph r = - 1"

lemma reduce_setup:
  assumes s: "shaped s m n K 1 K me" and op: "mt_op s = REDUCE_OP"
  shows "\<exists>st np r. setupContext s = Some (st, np, r) \<and> shaped r m n K 1 K me \<and> reduce_context n K me (r\<lparr>mt_startphase := st, mt_nphases := np\<rparr>)"
proof -
  have m: "mt_map s = TopologyMap m" and p: "placed m n K me" and N: "mt_nphbino s = of_nat K"
    and mp: "mt_maxphases s = of_nat (if n = 2 ^ K then K + 1 else K + 2)" using s by (auto simp: shaped_def)
  note f = placed_facts [OF p]
  show ?thesis
  proof (cases "2 ^ K \<le> me")
    case True
    then have "\<not> me + 2 ^ K < n" using p by (auto simp: placed_def)
    then show ?thesis
      using True op s
      by (simp add: setupContext_def setup_peer_def setup_aux_def op_codes phase_codes m f(2,3) N mp
          reduce_window_def shaped_def reduce_context_def)
  next
    case False
    have "(2::nat) ^ K \<le> 2 ^ 30" using placed_K [OF p] by (intro power_increasing) simp_all
    then have me: "me < 2 ^ 31" using False by simp
    then have z: "(of_nat me :: uint_t) = 0 \<longleftrightarrow> me = 0" using unat_of_nat_small [of me, where 'a = 32] by force
    have l: "me \<noteq> 0 \<Longrightarrow> ffs (of_nat me) = low_bit me" "me \<noteq> 0 \<Longrightarrow> 1 \<le> low_bit me" using ffs_low_bit me low_bit_pos [of me] by auto
    show ?thesis
      using False op s l
      by (cases "me = 0"; cases "me + 2 ^ K < n")
        (simp_all add: setupContext_def setup_peer_def setup_tree_def op_codes phase_codes m f(2,3,5) N mp z
          reduce_window_def shaped_def reduce_context_def Let_def)
  qed
qed

lemma reduce_nodes:
  assumes sh: "shaped r m n K 1 K me" and c: "reduce_context n K me r"
    and p: "fst (reduce_window n K me) \<le> p" "p < fst (reduce_window n K me) + snd (reduce_window n K me)"
  shows "src_nodes r (of_nat p) = map of_nat (reduce_src n K me p)" and "dst_nodes r (of_nat p) = map of_nat (reduce_dst n K me p)"
proof -
  have aux: "mt_auxsendph r = (if 2 ^ K \<le> me then 0 else - 3)" "mt_auxrecvph r = (if me + 2 ^ K < n then 0 else - 3)"
    and ph: "mt_recvph r = (if 2 ^ K \<le> me then - 3 else if me = 0 then - 2 else - 4)"
      "mt_sendph r = (if 2 ^ K \<le> me \<or> me = 0 then - 3 else of_nat (low_bit me))"
    using c unfolding reduce_context_def by blast+
  note N = shaped_phases [OF sh]
  have me: "me + 2 ^ K < n \<Longrightarrow> me < 2 ^ K" using sh by (auto simp: shaped_def placed_def)
  have L: "\<not> 2 ^ K \<le> me \<Longrightarrow> low_bit me \<le> K" using low_bit_le by simp
  have win: "2 ^ K \<le> me \<Longrightarrow> p = 0" "\<not> 2 ^ K \<le> me \<Longrightarrow> p \<le> K \<and> (me \<noteq> 0 \<longrightarrow> p \<le> low_bit me) \<and> (p = 0 \<longrightarrow> me + 2 ^ K < n)"
    using p L by (auto simp: reduce_window_def Let_def split: if_splits)
  have lt: "p < 64" "K < 64" using win N(3) by (cases "2 ^ K \<le> me"; force)+
  note q = small_phase [OF lt(1)] small_phase_cmp [OF lt(1,2)] one_le_phase [OF lt(1)] zero_phase [OF lt(1)]
  have lq: "\<not> 2 ^ K \<le> me \<Longrightarrow> (of_nat p :: uint_t) = of_nat (low_bit me) \<longleftrightarrow> p = low_bit me"
    "\<not> 2 ^ K \<le> me \<Longrightarrow> of_nat (low_bit me) \<noteq> (- 2 :: uint_t) \<and> of_nat (low_bit me) \<noteq> (- 4 :: uint_t)"
    using L N(3) small_phase [of "low_bit me"] small_phase_cmp(1) [OF lt(1), of "low_bit me"] by simp_all
  have tree: "1 \<le> p \<Longrightarrow> p \<le> K \<Longrightarrow> \<not> 2 ^ K \<le> me \<Longrightarrow> NEXT_NODES r b (of_nat p) = map of_nat (partners 1 me (p - 1))" for b
    using q aux by (intro tree_nodes [OF sh]) (auto simp: eq_commute [of _ "of_nat p"])
  note an = aux_nodes [OF sh, of "of_nat p"]
  have pos: "me \<noteq> 0 \<Longrightarrow> 1 \<le> low_bit me" using low_bit_pos [of me] by simp
  show "src_nodes r (of_nat p) = map of_nat (reduce_src n K me p)"
    using tree [of True] an [of True] aux ph q lq N(1) win L me pos
    by (cases "2 ^ K \<le> me"; cases "me = 0") (auto simp: src_nodes_def receives_def reduce_src_def phase_codes)
  show "dst_nodes r (of_nat p) = map of_nat (reduce_dst n K me p)"
    using tree [of False] an [of False] aux ph q lq N(1) win L me pos
    by (cases "2 ^ K \<le> me"; cases "me = 0") (auto simp: dst_nodes_def sends_def reduce_dst_def phase_codes)
qed

end
