(* ===== verification/Pami_ScheduleSpec.thy ===== *)
theory Pami_ScheduleSpec
  imports Pami_MultinomialPhases "HOL-Library.Multiset"
begin

unbundle bit_operations_syntax

text \<open>
  What a collective schedule is for, on any type of processes. A schedule says from whom a process
  receives in each phase. \<open>contribs\<close> is what a process has combined after a number of phases of a
  reduction (with the phases after its last reduce phase overwriting instead of combining), \<open>heard\<close>
  is from whom it has heard in a barrier, \<open>informed\<close> is who has the data of a broadcast.
\<close>

section \<open>The meaning of a schedule\<close>

primrec contribs :: "('a \<Rightarrow> nat \<Rightarrow> 'a list) \<Rightarrow> ('a \<Rightarrow> nat) \<Rightarrow> nat \<Rightarrow> 'a \<Rightarrow> 'a multiset" where
  "contribs src lst 0 i = {#i#}"
| "contribs src lst (Suc p) i =
     (if src i p = [] then contribs src lst p i
      else if lst i < p then contribs src lst p (hd (src i p))
      else contribs src lst p i + (\<Sum>j\<leftarrow>src i p. contribs src lst p j))"

primrec heard :: "('a \<Rightarrow> nat \<Rightarrow> 'a list) \<Rightarrow> nat \<Rightarrow> 'a \<Rightarrow> 'a set" where
  "heard src 0 i = {i}"
| "heard src (Suc p) i = heard src p i \<union> (\<Union>j\<in>set (src i p). heard src p j)"

primrec informed :: "('a \<Rightarrow> nat \<Rightarrow> 'a list) \<Rightarrow> 'a \<Rightarrow> nat \<Rightarrow> 'a set" where
  "informed dst root 0 = {root}"
| "informed dst root (Suc p) = informed dst root p \<union> (\<Union>i\<in>informed dst root p. set (dst i p))"

text \<open>Renaming the processes renames the meaning.\<close>

lemma contribs_rename:
  assumes "\<And>i p. i \<in> A \<Longrightarrow> src' (f i) p = map f (src i p) \<and> set (src i p) \<subseteq> A" and "\<And>i. i \<in> A \<Longrightarrow> lst' (f i) = lst i" and "i \<in> A"
  shows "contribs src' lst' p (f i) = image_mset f (contribs src lst p i)"
  using assms(3)
proof (induction p arbitrary: i)
  case (Suc p)
  have "(\<Sum>j\<leftarrow>xs. contribs src' lst' p (f j)) = image_mset f (\<Sum>j\<leftarrow>xs. contribs src lst p j)" if "set xs \<subseteq> A" for xs
    using that by (induction xs) (simp_all add: Suc.IH)
  then show ?case using Suc assms(1) [OF Suc.prems, of p] assms(2) [OF Suc.prems]
    by (cases "src i p") (auto simp: comp_def)
qed simp

lemma heard_rename:
  assumes "\<And>i p. i \<in> A \<Longrightarrow> src' (f i) p = map f (src i p) \<and> set (src i p) \<subseteq> A" and "i \<in> A"
  shows "heard src' p (f i) = f ` heard src p i"
  using assms(2)
proof (induction p arbitrary: i)
  case (Suc p)
  then show ?case using assms(1) [OF Suc.prems, of p] by (force simp: image_UN)
qed simp

lemma informed_rename:
  assumes "\<And>i p. i \<in> A \<Longrightarrow> dst' (f i) p = map f (dst i p) \<and> set (dst i p) \<subseteq> A" and "root \<in> A"
  shows "informed dst' (f root) p = f ` informed dst root p \<and> informed dst root p \<subseteq> A"
proof (induction p)
  case (Suc p)
  then show ?case using assms(1) by (fastforce simp: image_UN image_Un)
qed (use assms(2) in simp)

section \<open>Barrier and allreduce\<close>

text \<open>The member of the tree that speaks for a rank, and the ranks whose contribution a member of the
  tree has after \<open>p\<close> of its phases.\<close>

definition core :: "nat \<Rightarrow> nat \<Rightarrow> nat" where
  "core K y = (if y < 2 ^ K then y else y - 2 ^ K)"

definition cls :: "nat \<Rightarrow> nat \<Rightarrow> nat \<Rightarrow> nat \<Rightarrow> nat \<Rightarrow> nat set" where
  "cls n K lr p x = {y. y < n \<and> same_above (p * lr) (core K y) x}"

lemma cls_finite [simp]: "finite (cls n K lr p x)"
  by (simp add: cls_def)

lemma cls_step: "cls n K lr (Suc p) x = cls n K lr p x \<union> (\<Union>j\<in>set (partners lr x p). cls n K lr p j)"
  unfolding cls_def by (subst class_step) auto

lemma cls_disjoint:
  "i \<in> insert x (set (partners lr x p)) \<Longrightarrow> j \<in> insert x (set (partners lr x p)) \<Longrightarrow> i \<noteq> j \<Longrightarrow> cls n K lr p i \<inter> cls n K lr p j = {}"
  using class_disjoint [of i x lr p j] by (auto simp: cls_def)

lemma sum_mset_set:
  assumes "distinct xs" and "\<And>x. x \<in> set xs \<Longrightarrow> finite (C x)"
    and "\<And>x y. x \<in> set xs \<Longrightarrow> y \<in> set xs \<Longrightarrow> x \<noteq> y \<Longrightarrow> C x \<inter> C y = {}"
  shows "(\<Sum>x\<leftarrow>xs. mset_set (C x)) = mset_set (\<Union>x\<in>set xs. C x)"
  using assms
proof (induction xs)
  case (Cons x xs)
  have "C x \<inter> (\<Union>y\<in>set xs. C y) = {}" using Cons.prems(1,3) by fastforce
  then show ?case using Cons by (simp add: mset_set_Union)
qed simp

lemma cls_sum:
  "mset_set (cls n K lr p x) + (\<Sum>j\<leftarrow>partners lr x p. mset_set (cls n K lr p j)) = mset_set (cls n K lr (Suc p) x)"
  using sum_mset_set [of "x # partners lr x p" "cls n K lr p"] cls_disjoint [of _ x lr p _ n K] partners_distinct [of lr x p]
  by (simp add: cls_step partners_iff)

lemma cls_all: "2 ^ K \<le> n \<Longrightarrow> n < 2 ^ Suc K \<Longrightarrow> N * lr = K \<Longrightarrow> x < 2 ^ K \<Longrightarrow> cls n K lr N x = {..<n}"
  using same_above_less [of _ K x] by (auto simp: cls_def core_def)

lemma cls_zero: "2 ^ K \<le> n \<Longrightarrow> n < 2 ^ Suc K \<Longrightarrow> x < 2 ^ K \<Longrightarrow>
    cls n K lr 0 x = (if x + 2 ^ K < n then {x, x + 2 ^ K} else {x})"
  by (auto simp: cls_def core_def same_above_def)

lemma all_src_tree: "p < K div lr \<Longrightarrow> x < 2 ^ K \<Longrightarrow> all_src n K lr x (Suc p) = partners lr x p"
  by (simp add: all_src_def)

lemma partner_in_tree:
  "p < K div lr \<Longrightarrow> x < 2 ^ K \<Longrightarrow> j \<in> set (partners lr x p) \<Longrightarrow> j < 2 ^ K"
  using order_trans [OF mult_le_mono1 [of "Suc p" "K div lr" lr] div_times_less_eq_dividend [of K lr]]
  by (intro partners_less [of j lr x p K]) (simp_all add: Suc_leI)

lemma all_contribs:
  assumes "2 ^ K \<le> n" and "n < 2 ^ Suc K" and "p \<le> K div lr" and "x < 2 ^ K"
    and "\<And>x. x < 2 ^ K \<Longrightarrow> K div lr < lst x"
  shows "contribs (all_src n K lr) lst (Suc p) x = mset_set (cls n K lr p x)"
  using assms(3,4)
proof (induction p arbitrary: x)
  case 0
  then show ?case using assms(1,2,5) cls_zero [OF assms(1,2) 0(2)] by (simp add: all_src_def)
next
  case (Suc p)
  then have p: "p < K div lr" by simp
  have "(\<Sum>j\<leftarrow>partners lr x p. contribs (all_src n K lr) lst (Suc p) j) = (\<Sum>j\<leftarrow>partners lr x p. mset_set (cls n K lr p j))"
    using Suc.IH p partner_in_tree [OF p Suc.prems(2)] by (intro arg_cong [of _ _ sum_list] map_cong) auto
  moreover have "\<not> lst x < Suc p" using assms(5) [OF Suc.prems(2)] p by simp
  ultimately show ?case
    using Suc.IH [of x] Suc.prems p cls_sum [of n K lr p x] all_src_tree [OF p Suc.prems(2), of n] 
    by (cases "partners lr x p") (simp_all add: contribs.simps(2) [of _ _ "Suc p"] del: contribs.simps(2))
qed

lemma all_reduced:
  assumes "2 ^ K \<le> n" and "n < 2 ^ Suc K" and "1 \<le> lr" and "lr dvd K" and "y < n"
    and lst: "\<And>x. x < 2 ^ K \<Longrightarrow> K div lr < lst x" "\<And>x. 2 ^ K \<le> x \<Longrightarrow> x < n \<Longrightarrow> lst x \<le> K div lr"
  shows "contribs (all_src n K lr) lst (K div lr + 2) y = mset_set {..<n}"
proof -
  have N: "K div lr * lr = K" using assms(4) by simp
  have core: "contribs (all_src n K lr) lst (Suc (K div lr)) x = mset_set {..<n}" if "x < 2 ^ K" for x
    using all_contribs [OF assms(1,2) order_refl that, where lst = lst and lr = lr] lst(1) cls_all [OF assms(1,2) N that]
    by (simp del: contribs.simps)
  show ?thesis
  proof (cases "y < 2 ^ K")
    case True
    then have "all_src n K lr y (Suc (K div lr)) = []" by (simp add: all_src_def)
    then show ?thesis using core [OF True] by (simp del: contribs.simps add: contribs.simps(2) [of _ _ "Suc (K div lr)"] numeral_2_eq_2)
  next
    case False
    then have "all_src n K lr y (Suc (K div lr)) = [y - 2 ^ K]" "lst y < Suc (K div lr)" "y - 2 ^ K < 2 ^ K"
      using assms(2,5) lst(2) [of y] by (simp_all add: all_src_def)
    then show ?thesis using core by (simp del: contribs.simps add: contribs.simps(2) [of _ _ "Suc (K div lr)"] numeral_2_eq_2)
  qed
qed

lemma heard_contribs: "(\<And>i. p \<le> lst i) \<Longrightarrow> heard src p i = set_mset (contribs src lst p i)"
proof (induction p arbitrary: i)
  case (Suc p)
  have "\<Union> (set_mset ` set xs) = set_mset (sum_list xs)" for xs :: "'a multiset list" by (induction xs) simp_all
  from this [of "map (contribs src lst p) xs" for xs]
  have "(\<Union>j\<in>set xs. set_mset (contribs src lst p j)) = set_mset (\<Sum>j\<leftarrow>xs. contribs src lst p j)" for xs
    by (simp add: image_image)
  moreover have "p \<le> lst i" "\<not> lst i < p" for i using Suc.prems [of i] by simp_all
  ultimately show ?case using Suc.IH by (cases "src i p") simp_all
qed simp

lemma all_lists:
  assumes "2 ^ K \<le> n" and "i < n"
  shows "distinct (all_src n K lr i p)" "distinct (all_dst n K lr i p)" "set (all_src n K lr i p) \<subseteq> {..<n}" "set (all_dst n K lr i p) \<subseteq> {..<n}"
proof -
  have "set (partners lr i (p - 1)) \<subseteq> {..<n}" if "p \<noteq> 0" "p \<le> K div lr" "i < 2 ^ K"
    using that partner_in_tree [of "p - 1" K lr i] assms(1) by fastforce
  then show "distinct (all_src n K lr i p)" "distinct (all_dst n K lr i p)" "set (all_src n K lr i p) \<subseteq> {..<n}" "set (all_dst n K lr i p) \<subseteq> {..<n}"
    using assms partners_distinct by (auto simp: all_src_def all_dst_def)
qed

lemma all_heard:
  assumes "2 ^ K \<le> n" and "n < 2 ^ Suc K" and "1 \<le> lr" and "lr dvd K" and "y < n"
  shows "heard (all_src n K lr) (K div lr + 2) y = {..<n}"
proof -
  have N: "K div lr * lr = K" using assms(4) by simp
  have core: "heard (all_src n K lr) (Suc (K div lr)) x = {..<n}" if "x < 2 ^ K" for x
    using heard_contribs [of "Suc (K div lr)" "\<lambda>_. Suc (K div lr)" "all_src n K lr" x]
      all_contribs [OF assms(1,2) order_refl that, where lst = "\<lambda>_. Suc (K div lr)"] cls_all [OF assms(1,2) N that] by simp
  show ?thesis
  proof (cases "y < 2 ^ K")
    case True
    then have "all_src n K lr y (Suc (K div lr)) = []" by (simp add: all_src_def)
    then show ?thesis using core [OF True] by (simp del: heard.simps add: heard.simps(2) [of _ "Suc (K div lr)"] numeral_2_eq_2)
  next
    case False
    have inside: "heard (all_src n K lr) p z \<subseteq> {..<n}" if "z < n" for z p
      using that
    proof (induction p arbitrary: z)
      case (Suc p)
      have "set (all_src n K lr z p) \<subseteq> {..<n}" using all_lists(3) [OF assms(1) Suc.prems] .
      then show ?case using Suc.IH [OF Suc.prems] Suc.IH by auto
    qed simp
    have "all_src n K lr y (Suc (K div lr)) = [y - 2 ^ K]" "y - 2 ^ K < 2 ^ K" using False assms(2,5) by (simp_all add: all_src_def)
    then have "heard (all_src n K lr) (K div lr + 2) y = heard (all_src n K lr) (Suc (K div lr)) y \<union> {..<n}"
      using core by (simp del: heard.simps add: heard.simps(2) [of _ "Suc (K div lr)"] numeral_2_eq_2)
    then show ?thesis using inside [OF assms(5)] by blast
  qed
qed

lemma all_match:
  assumes "2 ^ K \<le> n" and "n < 2 ^ Suc K" and "i < n" and "j < n"
  shows "j \<in> set (all_dst n K lr i p) \<longleftrightarrow> i \<in> set (all_src n K lr j p)"
proof (cases "1 \<le> p \<and> p \<le> K div lr")
  case True
  then have "p - 1 < K div lr" "p \<noteq> 0" by auto
  then show ?thesis
    using True partner_in_tree [of "p - 1" K lr i j] partner_in_tree [of "p - 1" K lr j i] partners_sym [of i lr j "p - 1"]
    by (auto simp: all_dst_def all_src_def)
next
  case False
  then show ?thesis using assms by (auto simp: all_dst_def all_src_def)
qed

section \<open>Broadcast\<close>

text \<open>From whom, and in which phase, a rank receives the data.\<close>

definition bcast_parent :: "nat \<Rightarrow> nat \<Rightarrow> nat \<Rightarrow> nat" where
  "bcast_parent K lr y = (if 2 ^ K \<le> y then y - 2 ^ K else take_bit ((digits lr y - 1) * lr) y)"

definition bcast_phase :: "nat \<Rightarrow> nat \<Rightarrow> nat \<Rightarrow> nat" where
  "bcast_phase K lr y = (if 2 ^ K \<le> y then K div lr + 1 else digits lr y)"

lemma child_digits:
  assumes "1 \<le> lr" and "1 \<le> p"
  shows "digits lr x < p \<and> y \<in> set (partners lr x (p - 1)) \<longleftrightarrow> 0 < y \<and> p = digits lr y \<and> x = take_bit ((p - 1) * lr) y" (is "?l \<longleftrightarrow> ?r")
proof -
  have p: "Suc (p - 1) = p" using assms(2) by simp
  have less: "digits lr x < p \<longleftrightarrow> x < 2 ^ ((p - 1) * lr)" using digits_le [OF assms(1), of x "p - 1"] assms(2) by (auto simp: less_eq_Suc_le)
  have part: "y \<in> set (partners lr x (p - 1)) \<longleftrightarrow> y \<noteq> x \<and> same_below ((p - 1) * lr) y x \<and> same_above (p * lr) y x"
    using partners_iff [of y lr x "p - 1"] by (simp only: p)
  have mono: "2 ^ ((p - 1) * lr) \<le> (2 ^ (p * lr) :: nat)" by (intro power_increasing mult_le_mono1) simp_all
  show ?thesis
  proof
    assume l: ?l
    then have x: "x < 2 ^ ((p - 1) * lr)" "x < 2 ^ (p * lr)" using less less_le_trans [OF _ mono] by blast+
    have "take_bit ((p - 1) * lr) y = x" using l part x by (simp add: same_below_def take_bit_nat_eq_self)
    moreover have "y < 2 ^ (p * lr)" using l part x(2) same_above_less [of x "p * lr" y] by (simp add: same_above_def)
    moreover then have "\<not> y < 2 ^ ((p - 1) * lr)" using l part calculation(1) by (auto simp: take_bit_nat_eq_self)
    ultimately show ?r
      using digits_le [OF assms(1), of y p] digits_le [OF assms(1), of y "p - 1"] assms(2) by (cases "y = 0") auto
  next
    assume r: ?r
    then have "digits lr y \<le> p" "\<not> digits lr y \<le> p - 1" using assms(2) by simp_all
    then have y: "y < 2 ^ (p * lr)" "\<not> y < 2 ^ ((p - 1) * lr)" using digits_le [OF assms(1)] by blast+
    have x: "x < 2 ^ ((p - 1) * lr)" using r by simp
    then have "same_above (p * lr) y x" using y(1) less_le_trans [OF x mono] same_above_less [of y "p * lr" x] by simp
    moreover have "same_below ((p - 1) * lr) y x" using r by (simp add: same_below_def)
    moreover have "y \<noteq> x" using x y(2) by auto
    ultimately show ?l using less part x by simp
  qed
qed

lemma bcast_child:
  assumes "2 ^ K \<le> n" and "n < 2 ^ Suc K" and "1 \<le> lr" and "lr dvd K" and "x < n" and "y < n"
  shows "y \<in> set (bcast_dst n K lr x p) \<longleftrightarrow> 0 < y \<and> x = bcast_parent K lr y \<and> p = bcast_phase K lr y"
proof -
  have N: "K div lr * lr = K" using assms(4) by simp
  have Dle: "digits lr z \<le> K div lr" if "z < 2 ^ K" for z using that digits_le [OF assms(3), of z "K div lr"] N by simp
  have par: "bcast_parent K lr y < 2 ^ K" if "\<not> 2 ^ K \<le> y"
    using that le_less_trans [OF take_bit_nat_less_eq_self, of y "2 ^ K"] by (simp add: bcast_parent_def not_le)
  consider "2 ^ K \<le> x" | "x < 2 ^ K" "p = 0" | "x < 2 ^ K" "1 \<le> p" "p \<le> K div lr" | "x < 2 ^ K" "p = K div lr + 1" | "x < 2 ^ K" "K div lr + 1 < p" by linarith
  then show ?thesis
  proof cases
    case 1
    then show ?thesis using par assms(2,6) by (auto simp: bcast_dst_def bcast_parent_def)
  next
    case 2
    then show ?thesis using digits_pos [OF assms(3), of y] by (auto simp: bcast_dst_def bcast_phase_def)
  next
    case 3
    have y: "y < 2 ^ K" if "y \<in> set (partners lr x (p - 1))" using partner_in_tree [OF _ 3(1) that] 3(2,3) by simp
    have dst: "y \<in> set (bcast_dst n K lr x p) \<longleftrightarrow> digits lr x < p \<and> y \<in> set (partners lr x (p - 1))"
      using 3 by (simp add: bcast_dst_def)
    show ?thesis
    proof (cases "2 ^ K \<le> y")
      case True
      then show ?thesis using dst y 3(3) by (auto simp: bcast_phase_def)
    next
      case False
      then show ?thesis unfolding dst child_digits [OF assms(3) 3(2)] by (auto simp: bcast_parent_def bcast_phase_def)
    qed
  next
    case 4
    define h :: nat where "h = 2 ^ K"
    have h: "bcast_dst n K lr x p = (if x + h < n then [x + h] else [])" "0 < h" using 4 by (simp_all add: bcast_dst_def h_def)
    have D: "digits lr y \<noteq> p" if "\<not> h \<le> y" using Dle [of y] that 4(2) by (simp add: h_def)
    have "y \<in> set (bcast_dst n K lr x p) \<longleftrightarrow> x + h = y" unfolding h(1) using assms(6) by (cases "x + h < n") (simp_all, blast+)
    moreover have "x + h = y \<longleftrightarrow> 0 < y \<and> h \<le> y \<and> x = y - h" using h(2) by presburger
    ultimately have "y \<in> set (bcast_dst n K lr x p) \<longleftrightarrow> 0 < y \<and> h \<le> y \<and> x = y - h" by blast
    then show ?thesis using 4(2) D unfolding bcast_parent_def bcast_phase_def h_def [symmetric] by auto
  next
    case 5
    then show ?thesis using Dle [of y] by (auto simp: bcast_dst_def bcast_phase_def)
  qed
qed

lemma bcast_parent_phase:
  assumes "2 ^ K \<le> n" and "n < 2 ^ Suc K" and "1 \<le> lr" and "lr dvd K" and "0 < y" and "y < n"
  shows "bcast_parent K lr y < n" and "bcast_parent K lr y = 0 \<or> bcast_phase K lr (bcast_parent K lr y) < bcast_phase K lr y"
proof -
  have N: "K div lr * lr = K" using assms(4) by simp
  have Dle: "digits lr z \<le> K div lr" if "z < 2 ^ K" for z using that digits_le [OF assms(3), of z "K div lr"] N by simp
  show "bcast_parent K lr y < n"
    using assms(6) le_less_trans [OF take_bit_nat_less_eq_self] by (auto simp: bcast_parent_def)
  show "bcast_parent K lr y = 0 \<or> bcast_phase K lr (bcast_parent K lr y) < bcast_phase K lr y"
  proof (cases "2 ^ K \<le> y")
    case True
    then have "y - 2 ^ K < 2 ^ K" using assms(2,6) by simp
    then show ?thesis using True Dle [of "y - 2 ^ K"] by (simp add: bcast_parent_def bcast_phase_def)
  next
    case False
    have D: "1 \<le> digits lr y" using digits_pos [OF assms(3), of y] assms(5) by simp
    have "digits lr (take_bit ((digits lr y - 1) * lr) y) \<le> digits lr y - 1" using digits_le [OF assms(3)] by simp
    moreover have "take_bit ((digits lr y - 1) * lr) y < 2 ^ K" 
      using False le_less_trans [OF take_bit_nat_less_eq_self, of y "2 ^ K"] by (simp add: not_le)
    moreover have "digits lr y - 1 < digits lr y" using D by simp
    ultimately show ?thesis using False by (simp add: bcast_parent_def bcast_phase_def)
  qed
qed

lemma bcast_lists:
  assumes "2 ^ K \<le> n" and "i < n"
  shows "distinct (bcast_dst n K lr i p)" "set (bcast_dst n K lr i p) \<subseteq> {..<n}" "lr dvd K \<Longrightarrow> 1 \<le> lr \<Longrightarrow> set (bcast_src n K lr i p) \<subseteq> {..<n}"
proof -
  have in_tree: "set (partners lr i (p - 1)) \<subseteq> {..<n}" if "1 \<le> p" "p \<le> K div lr" "i < 2 ^ K"
    using that partner_in_tree [of "p - 1" K lr i] assms(1) by fastforce
  show "distinct (bcast_dst n K lr i p)" "set (bcast_dst n K lr i p) \<subseteq> {..<n}"
    using assms partners_distinct in_tree by (auto simp: bcast_dst_def)
  show "set (bcast_src n K lr i p) \<subseteq> {..<n}" if "lr dvd K" "1 \<le> lr"
  proof -
    have "digits lr i \<le> K div lr" if "i < 2 ^ K" using that digits_le [OF \<open>1 \<le> lr\<close>, of i "K div lr"] \<open>lr dvd K\<close> by simp
    then show ?thesis using assms in_tree digits_pos [OF that(2), of i] by (auto simp: bcast_src_def)
  qed
qed

lemma bcast_expected:
  assumes "2 ^ K \<le> n" and "n < 2 ^ Suc K" and "1 \<le> lr" and "lr dvd K" and "x < n" and "y < n" and "y \<in> set (bcast_dst n K lr x p)"
  shows "x \<in> set (bcast_src n K lr y p)"
proof -
  have y: "0 < y" "x = bcast_parent K lr y" "p = bcast_phase K lr y" using bcast_child [OF assms(1-6)] assms(7) by auto
  show ?thesis
  proof (cases "2 ^ K \<le> y")
    case True
    then show ?thesis using y by (simp add: bcast_src_def bcast_parent_def bcast_phase_def)
  next
    case False
    have "1 \<le> p" using False y digits_pos [OF assms(3), of y] by (simp add: bcast_phase_def)
    then have "y \<in> set (partners lr x (p - 1))"
      using child_digits [OF assms(3), of p x y] y False by (simp add: bcast_parent_def bcast_phase_def)
    then show ?thesis using False y partners_sym [of y lr x "p - 1"] by (simp add: bcast_src_def bcast_phase_def)
  qed
qed

lemma bcast_informed:
  assumes "2 ^ K \<le> n" and "n < 2 ^ Suc K" and "1 \<le> lr" and "lr dvd K"
  shows "informed (bcast_dst n K lr) 0 p = insert 0 {y. 0 < y \<and> y < n \<and> bcast_phase K lr y < p}"
proof (induction p)
  case (Suc p)
  note child = bcast_child [OF assms] and parent = bcast_parent_phase [OF assms]
  have n: "0 < n" using assms(1) by (metis gr0I le_zero_eq power_not_zero zero_neq_numeral)
  have "y \<in> (\<Union>i\<in>insert 0 {y. 0 < y \<and> y < n \<and> bcast_phase K lr y < p}. set (bcast_dst n K lr i p)) \<longleftrightarrow>
      0 < y \<and> y < n \<and> bcast_phase K lr y = p" (is "?l \<longleftrightarrow> ?r") for y
  proof
    assume ?l
    then obtain i where i: "i < n" "y \<in> set (bcast_dst n K lr i p)" using n by auto
    then have "y < n" using bcast_lists(2) [OF assms(1) i(1)] by auto
    then show ?r using child [OF i(1)] i(2) by auto
  next
    assume r: ?r
    then have "y \<in> set (bcast_dst n K lr (bcast_parent K lr y) p)" using child [of "bcast_parent K lr y" y p] parent [of y] by auto
    moreover have "bcast_parent K lr y \<in> insert 0 {y. 0 < y \<and> y < n \<and> bcast_phase K lr y < p}" using parent [of y] r by auto
    ultimately show ?l by blast
  qed
  then show ?case unfolding informed.simps(2) Suc.IH by (auto simp: less_Suc_eq)
qed simp

text \<open>A schedule delivers a broadcast: every process but the root is reached by exactly one send, of a
  sender that has the data and that the receiver expects.\<close>

definition delivers :: "'a set \<Rightarrow> ('a \<Rightarrow> nat \<Rightarrow> 'a list) \<Rightarrow> ('a \<Rightarrow> nat \<Rightarrow> 'a list) \<Rightarrow> 'a \<Rightarrow> nat \<Rightarrow> bool" where
  "delivers E src dst root P \<longleftrightarrow>
    (\<forall>e\<in>E - {root}. \<exists>!fp. fst fp \<in> E \<and> e \<in> set (dst (fst fp) (snd fp))) \<and>
    (\<forall>f\<in>E. \<forall>p. distinct (dst f p) \<and> root \<notin> set (dst f p) \<and>
       (\<forall>e\<in>set (dst f p). e \<in> E \<and> f \<in> set (src e p) \<and> f \<in> informed dst root p)) \<and>
    informed dst root P = E"

lemma delivers_rename:
  assumes inj: "inj_on g A" and "root \<in> A" and src: "\<And>i p. i \<in> A \<Longrightarrow> src' (g i) p = map g (src i p)"
    and dst: "\<And>i p. i \<in> A \<Longrightarrow> dst' (g i) p = map g (dst i p) \<and> set (dst i p) \<subseteq> A"
    and d: "delivers A src dst root P"
  shows "delivers (g ` A) src' dst' (g root) P"
proof -
  have inf: "informed dst' (g root) p = g ` informed dst root p" for p 
    using informed_rename [of A dst' g dst root p, OF dst assms(2)] by blast
  have mem: "g e \<in> set (dst' (g f) p) \<longleftrightarrow> e \<in> set (dst f p)" if "e \<in> A" "f \<in> A" for e f p
    using dst [OF that(2), of p] that inj by (auto dest: inj_onD)
  have ne: "g e \<noteq> g root \<longleftrightarrow> e \<noteq> root" if "e \<in> A" for e using that assms(2) inj by (auto dest: inj_onD)
  have one: "\<exists>!fp. fst fp \<in> g ` A \<and> g e \<in> set (dst' (fst fp) (snd fp))" if e: "e \<in> A" "e \<noteq> root" for e
  proof -
    have "\<exists>!fp. fst fp \<in> A \<and> e \<in> set (dst (fst fp) (snd fp))" using d e by (simp add: delivers_def)
    then obtain fp where fp: "fst fp \<in> A" "e \<in> set (dst (fst fp) (snd fp))"
      and u: "\<And>q. fst q \<in> A \<Longrightarrow> e \<in> set (dst (fst q) (snd q)) \<Longrightarrow> q = fp" by blast
    show ?thesis
    proof (rule ex1I [of _ "(g (fst fp), snd fp)"])
      show "fst (g (fst fp), snd fp) \<in> g ` A \<and> g e \<in> set (dst' (fst (g (fst fp), snd fp)) (snd (g (fst fp), snd fp)))"
        using fp mem [OF e(1)] by simp
    next
      fix q assume q: "fst q \<in> g ` A \<and> g e \<in> set (dst' (fst q) (snd q))"
      then obtain f where f: "f \<in> A" "fst q = g f" by blast
      then have "(f, snd q) = fp" using q mem [OF e(1)] u [of "(f, snd q)"] by simp
      then show "q = (g (fst fp), snd fp)" using f(2) by (simp add: prod_eq_iff)
    qed
  qed
  have sent: "distinct (dst' (g f) p) \<and> g root \<notin> set (dst' (g f) p) \<and>
     (\<forall>e\<in>set (dst' (g f) p). e \<in> g ` A \<and> g f \<in> set (src' e p) \<and> g f \<in> informed dst' (g root) p)" if "f \<in> A" for f p
    using d that dst [OF that, of p] inj mem [OF assms(2) that, of p] src unfolding inf delivers_def
    by (auto simp: distinct_map intro: inj_on_subset)
  have all: "informed dst' (g root) P = g ` A" using inf d by (simp add: delivers_def)
  show ?thesis
    unfolding delivers_def
  proof (intro conjI ballI all)
    show "\<exists>!fp. fst fp \<in> g ` A \<and> e \<in> set (dst' (fst fp) (snd fp))" if e: "e \<in> g ` A - {g root}" for e
    proof -
      obtain x where x: "x \<in> A" "x \<noteq> root" "e = g x" using e ne by auto
      then show ?thesis using one by simp
    qed
  qed (use sent in auto)
qed

lemma bcast_delivers:
  assumes K: "2 ^ K \<le> n" "n < 2 ^ Suc K" and lr: "1 \<le> lr" "lr dvd K"
  shows "delivers {..<n} (bcast_src n K lr) (bcast_dst n K lr) 0 (Suc (K div lr + 1))"
proof -
  have n: "0 < n" using K(1) by (metis gr0I le_zero_eq power_not_zero zero_neq_numeral)
  note child = bcast_child [OF K lr] and inf = bcast_informed [OF K lr]
  have parent: "bcast_parent K lr y < n" "bcast_parent K lr y \<in> insert 0 {x. 0 < x \<and> x < n \<and> bcast_phase K lr x < bcast_phase K lr y}"
    if "0 < y" "y < n" for y using bcast_parent_phase [OF K lr that] by auto
  have one: "\<exists>!fp. fst fp \<in> {..<n} \<and> y \<in> set (bcast_dst n K lr (fst fp) (snd fp))" if "0 < y" "y < n" for y
    using that child [OF _ that(2)] parent(1) [OF that]
    by (intro ex1I [of _ "(bcast_parent K lr y, bcast_phase K lr y)"]) (auto simp: prod_eq_iff)
  have sent: "y \<in> {..<n} \<and> f \<in> set (bcast_src n K lr y p) \<and> f \<in> informed (bcast_dst n K lr) 0 p \<and> 0 < y"
    if "f < n" "y \<in> set (bcast_dst n K lr f p)" for f y p
  proof -
    have y: "y < n" using bcast_lists(2) [OF K(1) that(1)] that(2) by auto
    then have "0 < y" "f = bcast_parent K lr y" "p = bcast_phase K lr y" using child [OF that(1) y] that(2) by auto
    then show ?thesis using y bcast_expected [OF K lr that(1) y that(2)] parent(2) [of y] unfolding inf by auto
  qed
  have D: "digits lr y \<le> K div lr" if "y < 2 ^ K" for y using that digits_le [OF lr(1), of y "K div lr"] lr(2) by simp
  have "bcast_phase K lr y < Suc (K div lr + 1)" for y using D [of y] by (auto simp: bcast_phase_def not_le intro: le_imp_less_Suc le_SucI)
  then have all: "informed (bcast_dst n K lr) 0 (Suc (K div lr + 1)) = {..<n}" unfolding inf using n by auto
  show ?thesis
    unfolding delivers_def
  proof (intro conjI ballI allI all)
    show "\<exists>!fp. fst fp \<in> {..<n} \<and> y \<in> set (bcast_dst n K lr (fst fp) (snd fp))" if "y \<in> {..<n} - {0}" for y
      using one [of y] that by simp
    show "0 \<notin> set (bcast_dst n K lr f p)" if "f \<in> {..<n}" for f p using sent [of f 0 p] that by auto
  qed (use sent bcast_lists(1) [OF K(1)] in auto)
qed

section \<open>Reduction in radix two\<close>

lemma low_bit_above: "x = 0 \<or> p < low_bit x \<longleftrightarrow> same_below p x 0"
proof (cases "x = 0")
  case False
  then have x: "0 < x" "0 < low_bit x" using low_bit_pos by auto
  note b = low_bit_bits [OF x(1)]
  show ?thesis
  proof (cases "p < low_bit x")
    case True
    then show ?thesis using b by (auto simp: same_below_bits)
  next
    case f: False
    then have "low_bit x - 1 < p" using x(2) by simp
    then show ?thesis using b f False by (auto simp: same_below_bits)
  qed
qed (simp add: same_below_def)

lemma low_bit_eq: "0 < x \<and> low_bit x = Suc q \<longleftrightarrow> same_below q x 0 \<and> bit x q"
proof -
  have "low_bit x = Suc q \<longleftrightarrow> \<not> Suc q < low_bit x \<and> q < low_bit x" by auto
  moreover have "same_below (Suc q) x 0 \<longleftrightarrow> same_below q x 0 \<and> \<not> bit x q" by (auto simp: same_below_bits less_Suc_eq)
  ultimately show ?thesis using low_bit_above [of x q] low_bit_above [of x "Suc q"] by (cases "x = 0") auto
qed

lemma partner_bit: "j \<in> set (partners 1 i q) \<longleftrightarrow> (\<forall>b. bit j b = (if b = q then \<not> bit i b else bit i b))" (is "?l \<longleftrightarrow> ?r")
proof
  assume l: ?l
  then have "j \<noteq> i" and same: "b \<noteq> q \<Longrightarrow> bit j b = bit i b" for b
    by (cases b q rule: linorder_cases; simp add: partners_iff same_below_bits same_above_bits)+
  then have "bit j q \<noteq> bit i q" by (metis bit_eq_iff)
  then show ?r using same by auto
next
  assume r: ?r
  then have "j \<noteq> i" by metis
  then show ?l using r by (auto simp: partners_iff same_below_bits same_above_bits)
qed

lemma reduce_pair:
  assumes "j \<in> set (partners 1 i q)"
  shows "0 < i \<and> low_bit i = Suc q \<longleftrightarrow> j = 0 \<or> Suc q < low_bit j"
proof -
  have "same_below (Suc q) j 0 \<longleftrightarrow> same_below q j 0 \<and> \<not> bit j q" by (auto simp: same_below_bits less_Suc_eq)
  moreover have "same_below q j 0 \<longleftrightarrow> same_below q i 0" using assms by (auto simp: partners_iff same_below_def)
  moreover have "bit j q \<longleftrightarrow> \<not> bit i q" using assms unfolding partner_bit by simp
  ultimately show ?thesis unfolding low_bit_above low_bit_eq by simp
qed

lemma reduce_match:
  assumes "2 ^ K \<le> n" and "n < 2 ^ Suc K" and "i < n" and "j < n"
  shows "j \<in> set (reduce_dst n K i p) \<longleftrightarrow> i \<in> set (reduce_src n K j p)"
proof (cases "p = 0")
  case True
  then show ?thesis using assms low_bit_pos [of i] by (auto simp: reduce_dst_def reduce_src_def)
next
  case False
  then obtain q where q: "p = Suc q" by (cases p) auto
  have le: "q < K div 1" if "i < 2 ^ K" "low_bit i = Suc q" using low_bit_le [OF that(1)] that(2) by simp
  show ?thesis
    using q le partners_sym [of j 1 i q] reduce_pair [of j i q] partner_in_tree [of q K 1 i j] partner_in_tree [of q K 1 j i]
    by (auto simp: reduce_dst_def reduce_src_def)
qed

lemma reduce_lists:
  assumes "2 ^ K \<le> n" and "i < n"
  shows "distinct (reduce_src n K i p)" "set (reduce_src n K i p) \<subseteq> {..<n}" "set (reduce_dst n K i p) \<subseteq> {..<n}"
proof -
  have in_tree: "set (partners 1 i (p - 1)) \<subseteq> {..<n}" if "1 \<le> p" "p \<le> K" "i < 2 ^ K"
    using that partner_in_tree [of "p - 1" K 1 i] assms(1) by fastforce
  show "distinct (reduce_src n K i p)" "set (reduce_src n K i p) \<subseteq> {..<n}"
    using assms partners_distinct [of 1] in_tree by (auto simp: reduce_src_def)
  show "set (reduce_dst n K i p) \<subseteq> {..<n}"
    using assms in_tree low_bit_le [of i K] low_bit_pos [of i] by (auto simp: reduce_dst_def)
qed

lemma reduce_contribs:
  assumes "2 ^ K \<le> n" and "n < 2 ^ Suc K" and "p \<le> K" and "x < 2 ^ K" and "x = 0 \<or> p < low_bit x"
    and "\<And>x. K < lst x"
  shows "contribs (reduce_src n K) lst (Suc p) x = mset_set (cls n K 1 p x)"
  using assms(3,4,5)
proof (induction p arbitrary: x)
  case 0
  then show ?case using assms(6) [of x] cls_zero [OF assms(1,2) 0(2)] by (simp add: reduce_src_def)
next
  case (Suc p)
  then have p: "p < K div 1" "x = 0 \<or> p < low_bit x" by auto
  have src: "reduce_src n K x (Suc p) = partners 1 x p" using Suc.prems by (auto simp: reduce_src_def)
  have "contribs (reduce_src n K) lst (Suc p) j = mset_set (cls n K 1 p j)" if "j \<in> set (partners 1 x p)" for j
    using Suc.IH [of j] Suc.prems partner_in_tree [OF p(1) Suc.prems(2) that] reduce_pair [of x j p] partners_sym [of j 1 x p] that by auto
  then have "(\<Sum>j\<leftarrow>partners 1 x p. contribs (reduce_src n K) lst (Suc p) j) = (\<Sum>j\<leftarrow>partners 1 x p. mset_set (cls n K 1 p j))"
    by (intro arg_cong [of _ _ sum_list] map_cong) auto
  moreover have "\<not> lst x < Suc p" using assms(6) [of x] p by simp
  ultimately show ?case
    using Suc.IH [of x] Suc.prems p cls_sum [of n K 1 p x] src
    by (cases "partners 1 x p") (simp_all add: contribs.simps(2) [of _ _ "Suc p"] del: contribs.simps(2))
qed

lemma reduced:
  assumes "2 ^ K \<le> n" and "n < 2 ^ Suc K" and "\<And>x. K < lst x"
  shows "contribs (reduce_src n K) lst (Suc K) 0 = mset_set {..<n}"
  using reduce_contribs [OF assms(1,2) order_refl, of 0 lst] cls_all [OF assms(1,2), of K 1 0] assms(3) by simp

end
