(* ===== verification/Pami_Rectangle.thy ===== *)
theory Pami_Rectangle
  imports Pami_TopologyOps
begin

text \<open>
  The rectangles of \<^verbatim>\<open>Topology.h\<close> as boxes of mixed radix numbers: walking a rectangle
  with \<^verbatim>\<open>__nextCoord\<close>, the coordinate of an index and the index of a coordinate all agree
  with counting.
\<close>

section \<open>Boxes\<close>

definition rect_dims :: "rectseg \<Rightarrow> nat list" where
  "rect_dims r = map2 (\<lambda>l u. Suc (unat u - unat l)) (rs_ll r) (rs_ur r)"

definition rect_digits :: "rectseg \<Rightarrow> coord \<Rightarrow> nat list" where
  "rect_digits r c = map2 (\<lambda>l x. unat x - unat l) (rs_ll r) c"

definition rect_point :: "rectseg \<Rightarrow> nat list \<Rightarrow> coord" where
  "rect_point r ds = map2 (\<lambda>l d. l + of_nat d) (rs_ll r) ds"

text \<open>A rectangle with its corners in order and with edges shorter than \<open>2 ^ 32\<close>.\<close>

definition rect_ok :: "nat \<Rightarrow> rectseg \<Rightarrow> bool" where
  "rect_ok n r \<longleftrightarrow> length (rs_ll r) = n \<and> length (rs_ur r) = n \<and>
     (\<forall>i<n. rs_ll r ! i \<le> rs_ur r ! i \<and> unat (rs_ur r ! i) < 2 ^ 32 - 1) \<and> prod_list (rect_dims r) < 2 ^ 64"

definition in_rect :: "rectseg \<Rightarrow> coord \<Rightarrow> bool" where
  "in_rect r c \<longleftrightarrow> length c = length (rs_ll r) \<and> (\<forall>i<length c. rs_ll r ! i \<le> c ! i \<and> c ! i \<le> rs_ur r ! i)"

definition rect_points :: "rectseg \<Rightarrow> coord list" where
  "rect_points r = map (\<lambda>i. rect_point r (mdigits (rect_dims r) i)) [0..<prod_list (rect_dims r)]"

lemma rect_okD:
  assumes "rect_ok n r"
  shows "length (rs_ll r) = n" "length (rs_ur r) = n" "length (rect_dims r) = n" "prod_list (rect_dims r) < 2 ^ 64"
    and "i < n \<Longrightarrow> rs_ll r ! i \<le> rs_ur r ! i" "i < n \<Longrightarrow> unat (rs_ur r ! i) < 2 ^ 32 - 1"
    and "i < n \<Longrightarrow> rect_dims r ! i = Suc (unat (rs_ur r ! i) - unat (rs_ll r ! i))"
  using assms by (auto simp: rect_ok_def rect_dims_def)

lemma digits_ok_iff: "digits_ok ss xs \<longleftrightarrow> length xs = length ss \<and> (\<forall>i<length ss. xs ! i < ss ! i)"
  by (auto simp: digits_ok_def list_all2_conv_all_nth)

lemma length_mdigits [simp]: "length (mdigits ss n) = length ss"
proof -
  have "length (ldigits ss n) = length ss" for ss n by (induction ss arbitrary: n) auto
  then show ?thesis by (simp add: mdigits_def)
qed

lemma rect_digits_ok: "rect_ok n r \<Longrightarrow> in_rect r c \<Longrightarrow> digits_ok (rect_dims r) (rect_digits r c)"
  by (auto simp: digits_ok_iff in_rect_def rect_digits_def rect_okD word_le_nat_alt dest: spec)

lemma rect_point_digits: "in_rect r c \<Longrightarrow> rect_point r (rect_digits r c) = c"
  by (rule nth_equalityI) (auto simp: in_rect_def rect_point_def rect_digits_def word_le_nat_alt simp flip: of_nat_diff unat_sub)

lemma unat_rect_point:
  assumes "rect_ok n r" and "digits_ok (rect_dims r) ds" and "i < n"
  shows "unat (rect_point r ds ! i) = unat (rs_ll r ! i) + ds ! i"
proof -
  have "ds ! i \<le> unat (rs_ur r ! i) - unat (rs_ll r ! i)" "unat (rs_ll r ! i) \<le> unat (rs_ur r ! i)"
    using assms by (auto simp: digits_ok_iff rect_okD less_Suc_eq_le word_le_nat_alt [symmetric])
  then have "unat (rs_ll r ! i) + ds ! i < 2 ^ 64" using unat64_less [of "rs_ur r ! i"] by linarith
  moreover have "rect_point r ds ! i = of_nat (unat (rs_ll r ! i) + ds ! i)"
    using assms by (auto simp: rect_point_def digits_ok_iff rect_okD)
  ultimately show ?thesis by (simp only: unat_of_nat64)
qed

lemma rect_point_in:
  assumes "rect_ok n r" and "digits_ok (rect_dims r) ds"
  shows "in_rect r (rect_point r ds)" and "rect_digits r (rect_point r ds) = ds"
proof -
  have len: "length (rect_point r ds) = n" "length ds = n"
    using assms by (auto simp: rect_point_def digits_ok_iff rect_okD)
  have le: "ds ! i \<le> unat (rs_ur r ! i) - unat (rs_ll r ! i)" "unat (rs_ll r ! i) \<le> unat (rs_ur r ! i)" if "i < n" for i
    using assms that by (auto simp: digits_ok_iff rect_okD less_Suc_eq_le word_le_nat_alt [symmetric])
  show "in_rect r (rect_point r ds)"
    unfolding in_rect_def using len le rect_okD(1) [OF assms(1)] unat_rect_point [OF assms]
    by (fastforce simp: word_le_nat_alt)
  show "rect_digits r (rect_point r ds) = ds"
    by (rule nth_equalityI) (use len rect_okD(1) [OF assms(1)] unat_rect_point [OF assms] in \<open>auto simp: rect_digits_def\<close>)
qed

lemma isMemberCoord_iff: "rect_ok n r \<Longrightarrow> length c = n \<Longrightarrow> isMemberCoord r c n \<longleftrightarrow> in_rect r c"
  by (auto simp: isMemberCoord_def in_rect_def rect_okD list_all_iff not_less)

text \<open>The points are exactly the coordinates in the rectangle, each once.\<close>

lemma length_rect_points [simp]: "length (rect_points r) = prod_list (rect_dims r)"
  by (simp add: rect_points_def)

lemma set_rect_points:
  assumes "rect_ok n r"
  shows "set (rect_points r) = {c. in_rect r c}"
proof (intro equalityI subsetI)
  fix c assume "c \<in> set (rect_points r)"
  then show "c \<in> {c. in_rect r c}" using rect_point_in [OF assms] mdigits_ok by (auto simp: rect_points_def)
next
  fix c assume "c \<in> {c. in_rect r c}"
  then have "c = rect_point r (mdigits (rect_dims r) (mval (rect_dims r) (rect_digits r c)))"
    and "mval (rect_dims r) (rect_digits r c) < prod_list (rect_dims r)"
    using rect_digits_ok [OF assms] by (auto simp: mdigits_mval rect_point_digits mval_less)
  then show "c \<in> set (rect_points r)" by (auto simp: rect_points_def)
qed

lemma distinct_rect_points:
  assumes "rect_ok n r"
  shows "distinct (rect_points r)"
proof -
  have "inj_on (\<lambda>i. rect_point r (mdigits (rect_dims r) i)) {0..<prod_list (rect_dims r)}"
  proof (rule inj_onI)
    fix i j assume ij: "i \<in> {0..<prod_list (rect_dims r)}" "j \<in> {0..<prod_list (rect_dims r)}"
      and "rect_point r (mdigits (rect_dims r) i) = rect_point r (mdigits (rect_dims r) j)"
    then have "mdigits (rect_dims r) i = mdigits (rect_dims r) j"
      using rect_point_in(2) [OF assms] mdigits_ok by (metis atLeastLessThan_iff)
    then show "i = j" using ij mval_mdigits by (metis atLeastLessThan_iff)
  qed
  then show ?thesis by (simp add: rect_points_def distinct_map)
qed

section \<open>Walking\<close>

lemma mval_snoc: "mval (ss @ [s]) (xs @ [d]) = d + s * mval ss xs"
  by (simp add: mval_def)

lemma mdigits_snoc: "mdigits (ss @ [s]) v = mdigits ss (v div s) @ [v mod s]"
  by (simp add: mdigits_def)

lemma mdigits_0: "0 < prod_list ss \<Longrightarrow> mdigits ss 0 = replicate (length ss) 0"
proof -
  have "ldigits ss 0 = replicate (length ss) 0" for ss by (induction ss) auto
  then show ?thesis by (simp add: mdigits_def)
qed

lemma carry:
  assumes "d < s" "0 < (s::nat)"
  shows "Suc (d + s * w) = (if Suc d < s then Suc d + s * w else 0 + s * Suc w)"
  using assms by auto

text \<open>The part of a rectangle in its first \<open>x\<close> dimensions.\<close>

definition prefix_point :: "rectseg \<Rightarrow> nat \<Rightarrow> nat \<Rightarrow> coord" where
  "prefix_point r x v = map2 (\<lambda>l d. l + of_nat d) (take x (rs_ll r)) (mdigits (take x (rect_dims r)) v)"

lemma prefix_point_all: "rect_ok n r \<Longrightarrow> prefix_point r n v = rect_point r (mdigits (rect_dims r) v)"
  by (simp add: prefix_point_def rect_point_def rect_okD)

lemma length_prefix_point: "rect_ok n r \<Longrightarrow> x \<le> n \<Longrightarrow> length (prefix_point r x v) = x"
  by (simp add: prefix_point_def rect_okD)

lemma take_Suc_dims: "rect_ok n r \<Longrightarrow> x < n \<Longrightarrow> take (Suc x) (rect_dims r) = take x (rect_dims r) @ [rect_dims r ! x]"
  by (simp add: take_Suc_conv_app_nth rect_okD)

lemma prefix_point_Suc:
  assumes "rect_ok n r" and "x < n"
  shows "prefix_point r (Suc x) v = prefix_point r x (v div rect_dims r ! x) @ [rs_ll r ! x + of_nat (v mod rect_dims r ! x)]"
  using assms by (simp add: prefix_point_def take_Suc_dims mdigits_snoc take_Suc_conv_app_nth rect_okD)

lemma dims_pos: "rect_ok n r \<Longrightarrow> x < n \<Longrightarrow> 0 < rect_dims r ! x"
  by (simp add: rect_okD)

lemma prod_take_Suc: "rect_ok n r \<Longrightarrow> x < n \<Longrightarrow> prod_list (take (Suc x) (rect_dims r)) = prod_list (take x (rect_dims r)) * rect_dims r ! x"
  by (simp add: take_Suc_dims)

lemma prod_pos: "rect_ok n r \<Longrightarrow> 0 < prod_list (rect_dims r)"
  by (auto simp: rect_dims_def prod_list_zero_iff set_zip intro: Nat.gr0I)

text \<open>The point with number 0 is the lower left corner.\<close>

lemma prefix_point_0: "rect_ok n r \<Longrightarrow> x \<le> n \<Longrightarrow> prefix_point r x 0 = take x (rs_ll r)"
proof (induction x)
  case (Suc x)
  then show ?case by (simp add: prefix_point_Suc take_Suc_conv_app_nth rect_okD)
qed (simp add: prefix_point_def)

lemma digit_step:
  assumes "rect_ok n r" and "x < n" and "d < rect_dims r ! x"
  shows "rs_ll r ! x + of_nat d + 1 \<le> rs_ur r ! x \<longleftrightarrow> Suc d < rect_dims r ! x"
proof -
  have "rs_ll r ! x \<le> rs_ur r ! x" "rect_dims r ! x = Suc (unat (rs_ur r ! x) - unat (rs_ll r ! x))"
    and u: "unat (rs_ur r ! x) < 2 ^ 32 - 1" using rect_okD [OF assms(1)] assms(2) by auto
  then have "Suc (unat (rs_ll r ! x) + d) < 2 ^ 64" using assms(3) by (simp add: word_le_nat_alt)
  then have "unat (of_nat (Suc (unat (rs_ll r ! x) + d)) :: size_t) = Suc (unat (rs_ll r ! x) + d)" by (rule unat_of_nat64)
  moreover have "rs_ll r ! x + of_nat d + 1 = of_nat (Suc (unat (rs_ll r ! x) + d))" by (simp add: add.commute)
  ultimately have "unat (rs_ll r ! x + of_nat d + 1) = Suc (unat (rs_ll r ! x) + d)" by (simp only:)
  then show ?thesis
    using \<open>rs_ll r ! x \<le> rs_ur r ! x\<close> \<open>rect_dims r ! x = _\<close> by (auto simp: word_le_nat_alt)
qed

text \<open>\<^verbatim>\<open>__nextCoord\<close> counts.\<close>

lemma nextCoord_prefix:
  assumes "rect_ok n r" and "x \<le> n" and "v < prod_list (take x (rect_dims r))" and "c = prefix_point r x v @ ys"
  shows "nextCoord r c x =
    (if Suc v < prod_list (take x (rect_dims r)) then (prefix_point r x (Suc v) @ ys, True) else (take x (rs_ll r) @ ys, False))"
  using assms(2-)
proof (induction x arbitrary: v c ys)
  case 0
  then show ?case by (simp add: prefix_point_def)
next
  case (Suc x)
  define s w d where "s = rect_dims r ! x" and "w = v div s" and "d = v mod s"
  have x: "x < n" using Suc.prems by simp
  have s: "0 < s" unfolding s_def using dims_pos [OF assms(1) x] .
  then have d: "d < s" by (simp add: d_def)
  have v: "v = d + s * w" unfolding d_def w_def by simp
  have P: "prod_list (take (Suc x) (rect_dims r)) = prod_list (take x (rect_dims r)) * s"
    unfolding s_def by (rule prod_take_Suc [OF assms(1) x])
  then have w: "w < prod_list (take x (rect_dims r))" using Suc.prems(2) unfolding w_def by (simp add: less_mult_imp_div_less)
  have len: "length (prefix_point r x w) = x" using length_prefix_point [OF assms(1)] x by simp
  have c: "c = prefix_point r x w @ (rs_ll r ! x + of_nat d) # ys"
    using Suc.prems(3) prefix_point_Suc [OF assms(1) x, of v] by (simp add: s_def w_def d_def)
  have step: "rs_ll r ! x + of_nat d + 1 \<le> rs_ur r ! x \<longleftrightarrow> Suc d < s"
    using digit_step [OF assms(1) x] d unfolding s_def by simp
  show ?case
  proof (cases "Suc d < s")
    case True
    then have "Suc v = Suc d + s * w" using v by simp
    then have "Suc v div s = w" "Suc v mod s = Suc d"
      using True s div_mult_self2 [of s "Suc d" w] mod_mult_self2 [of "Suc d" s w] by simp_all
    moreover have "Suc v < prod_list (take x (rect_dims r)) * s"
    proof -
      have "Suc v < s * Suc w" using \<open>Suc v = _\<close> True by simp
      also have "\<dots> \<le> s * prod_list (take x (rect_dims r))" using w by (intro mult_le_mono2) simp
      finally show ?thesis by (simp add: mult.commute)
    qed
    ultimately show ?thesis
      using True step prefix_point_Suc [OF assms(1) x, of "Suc v"] len
      by (simp add: c P s_def nth_append list_update_append add.assoc add.commute)
  next
    case False
    then have sd: "Suc d = s" using d by simp
    then have Sv: "Suc v = s * Suc w" using v by simp
    then have dm: "Suc v div s = Suc w" "Suc v mod s = 0" using s by simp_all
    have "Suc v < prod_list (take x (rect_dims r)) * s \<longleftrightarrow> Suc w < prod_list (take x (rect_dims r))"
      unfolding Sv using s by (simp only: mult.commute [of _ s] nat_mult_less_cancel1)
    moreover have "nextCoord r (prefix_point r x w @ rs_ll r ! x # ys) x =
        (if Suc w < prod_list (take x (rect_dims r)) then (prefix_point r x (Suc w) @ rs_ll r ! x # ys, True)
         else (take x (rs_ll r) @ rs_ll r ! x # ys, False))"
      using Suc.IH [OF _ w refl, of "rs_ll r ! x # ys"] x by simp
    ultimately show ?thesis
      using False step prefix_point_Suc [OF assms(1) x, of "Suc v"] len dm x
      by (simp add: c P s_def nth_append list_update_append take_Suc_conv_app_nth rect_okD [OF assms(1)])
  qed
qed

lemma nextCoord_counts:
  assumes "rect_ok n r" and "v < prod_list (rect_dims r)"
  shows "nextCoord r (rect_point r (mdigits (rect_dims r) v)) n =
    (if Suc v < prod_list (rect_dims r) then (rect_point r (mdigits (rect_dims r) (Suc v)), True) else (rs_ll r, False))"
  using nextCoord_prefix [OF assms(1) order_refl, of v _ "[]"] assms
  by (simp add: prefix_point_all rect_okD)

lemma rect_point_0: "rect_ok n r \<Longrightarrow> rect_point r (mdigits (rect_dims r) 0) = rs_ll r"
  using prefix_point_0 [of n r n] by (simp add: prefix_point_all rect_okD)

lemma coords_from_counts:
  assumes "rect_ok n r" and "v < prod_list (rect_dims r)"
  shows "coords_from r n (rect_point r (mdigits (rect_dims r) v)) =
     Some (map (\<lambda>i. rect_point r (mdigits (rect_dims r) i)) [v..<prod_list (rect_dims r)])"
  using assms(2)
proof (induction "prod_list (rect_dims r) - v" arbitrary: v rule: less_induct)
  case less
  show ?case
  proof (cases "Suc v < prod_list (rect_dims r)")
    case True
    then show ?thesis using less nextCoord_counts [OF assms(1) less.prems]
      by (subst coords_from.simps) (simp add: upt_conv_Cons)
  next
    case False
    then have "prod_list (rect_dims r) = Suc v" using less.prems by simp
    then show ?thesis using nextCoord_counts [OF assms(1) less.prems] by (subst coords_from.simps) simp
  qed
qed

text \<open>The walk from the lower left corner ends, and visits every coordinate once.\<close>

lemma coords_from_points: "rect_ok n r \<Longrightarrow> coords_from r n (rs_ll r) = Some (rect_points r)"
  using coords_from_counts [of n r 0] prod_pos [of n r] by (simp add: rect_point_0 rect_points_def)

section \<open>Indices\<close>

lemma unat_ucast_narrow: "unat (y::size_t) < 2 ^ 32 \<Longrightarrow> unat (ucast y :: uint_t) = unat y"
  by (simp add: unsigned_ucast_eq take_bit_nat_eq_self)

lemma dim_size:
  assumes "rect_ok n r" and "x < n"
  shows "unat ((ucast (rs_ur r ! x) :: uint_t) - ucast (rs_ll r ! x) + 1) = rect_dims r ! x"
    and "(ucast (ucast (rs_ll r ! x) :: uint_t) :: size_t) = rs_ll r ! x"
    and "(ucast (ucast (rs_ur r ! x) :: uint_t) :: size_t) = rs_ur r ! x"
proof -
  have u: "unat (rs_ur r ! x) < 2 ^ 32 - 1" "unat (rs_ll r ! x) \<le> unat (rs_ur r ! x)"
    using rect_okD [OF assms(1)] assms(2) by (auto simp: word_le_nat_alt)
  have l: "unat (ucast (rs_ll r ! x) :: uint_t) = unat (rs_ll r ! x)" "unat (ucast (rs_ur r ! x) :: uint_t) = unat (rs_ur r ! x)"
    using u by (simp_all add: unat_ucast_narrow)
  then have "(ucast (rs_ll r ! x) :: uint_t) \<le> ucast (rs_ur r ! x)" using u by (simp add: word_le_nat_alt)
  then have "unat ((ucast (rs_ur r ! x) :: uint_t) - ucast (rs_ll r ! x)) = unat (rs_ur r ! x) - unat (rs_ll r ! x)"
    using l by (simp add: unat_sub)
  then show "unat ((ucast (rs_ur r ! x) :: uint_t) - ucast (rs_ll r ! x) + 1) = rect_dims r ! x"
    using u rect_okD(7) [OF assms] by (simp add: unat_add_lem [THEN iffD1])
  show "(ucast (ucast (rs_ll r ! x) :: uint_t) :: size_t) = rs_ll r ! x" "(ucast (ucast (rs_ur r ! x) :: uint_t) :: size_t) = rs_ur r ! x"
    by (simp_all add: word_unat_eq_iff unat_ucast_uint l)
qed

lemma ucast_dim:
  assumes "rect_ok n r" and "x < n"
  shows "(ucast ((ucast (rs_ur r ! x) :: uint_t) - ucast (rs_ll r ! x) + 1) :: size_t) = of_nat (rect_dims r ! x)"
proof -
  have "unat (ucast ((ucast (rs_ur r ! x) :: uint_t) - ucast (rs_ll r ! x) + 1) :: size_t) = rect_dims r ! x"
    by (simp add: unat_ucast_uint dim_size [OF assms])
  then show ?thesis by (metis unat64_less unat_of_nat64 word_unat_eq_iff)
qed

lemma dimSize_of_nat: "rect_ok n r \<Longrightarrow> x < n \<Longrightarrow> (ucast (dimSize (rs_ll r ! x) (rs_ur r ! x)) :: size_t) = of_nat (rect_dims r ! x)"
proof -
  assume a: "rect_ok n r" "x < n"
  have u: "unat (rs_ur r ! x) < 2 ^ 32 - 1" "rs_ll r ! x \<le> rs_ur r ! x" using rect_okD [OF a(1)] a(2) by auto
  have "unat (rs_ur r ! x - rs_ll r ! x) = unat (rs_ur r ! x) - unat (rs_ll r ! x)" using u(2) by (rule unat_sub)
  then have "unat (rs_ur r ! x - rs_ll r ! x + 1) = rect_dims r ! x"
    using u a rect_okD(7) [OF a] by (simp add: unat_add_lem [THEN iffD1])
  moreover have "rect_dims r ! x < 2 ^ 32" using rect_okD(7) [OF a] u(1) by simp
  ultimately have "unat (ucast (dimSize (rs_ll r ! x) (rs_ur r ! x)) :: size_t) = rect_dims r ! x"
    by (simp add: unat_ucast_uint dimSize_def unat_ucast_narrow)
  then show ?thesis by (metis unat64_less unat_of_nat64 word_unat_eq_iff)
qed

lemma sizeRange_prod:
  assumes "rect_ok n r" and "k \<le> n"
  shows "sizeRange (rs_ll r) (rs_ur r) k = of_nat (prod_list (take k (rect_dims r)))"
  using assms(2)
proof (induction k)
  case (Suc k)
  then show ?case
    using dimSize_of_nat [OF assms(1), of k] prod_take_Suc [OF assms(1), of k] by (simp add: sizeRange_def)
qed (simp add: sizeRange_def)

text \<open>From an index to a coordinate.\<close>

lemma rect_coord_prefix:
  assumes "rect_ok n r" and "x \<le> n" and "unat ix < prod_list (take x (rect_dims r))" and "c = take x (rs_ll r) @ ys"
  shows "rect_coord r ix c x = Some (prefix_point r x (unat ix) @ ys)"
  using assms(2-)
proof (induction x arbitrary: ix c ys)
  case 0
  then show ?case by (simp add: prefix_point_def)
next
  case (Suc x)
  define s where "s = rect_dims r ! x"
  have x: "x < n" using Suc.prems by simp
  have P: "prod_list (take (Suc x) (rect_dims r)) = prod_list (take x (rect_dims r)) * s"
    unfolding s_def by (rule prod_take_Suc [OF assms(1) x])
  have c: "c = take x (rs_ll r) @ rs_ll r ! x # ys" using Suc.prems(3) x by (simp add: take_Suc_conv_app_nth rect_okD [OF assms(1)])
  note nn = dim_size(1) [OF assms(1) x] ucast_dim [OF assms(1) x]
  have s: "0 < s" "s < 2 ^ 32" unfolding s_def using dims_pos [OF assms(1) x] nn(1) unat32_less by (simp, metis)
  have un: "unat (ix div of_nat s) = unat ix div s" "ix mod of_nat s = of_nat (unat ix mod s)"
    using s by (simp_all add: unat_div unat_of_nat64 word_unat_eq_iff unat_mod) (metis mod_less_eq_dividend order_le_less_trans unat64_less unat_of_nat64)
  have ix: "unat ix div s < prod_list (take x (rect_dims r))" using Suc.prems(2) P by (simp add: less_mult_imp_div_less)
  have z: "(ucast (rs_ur r ! x) :: uint_t) - ucast (rs_ll r ! x) + 1 \<noteq> 0"
    using nn(1) s(1) unfolding s_def by (metis less_irrefl unsigned_0)
  show ?case
  proof (cases "ix = 0")
    case True
    then show ?thesis using Suc.prems prefix_point_0 [OF assms(1), of "Suc x"] by simp
  next
    case False
    then show ?thesis
      using Suc.IH [of "ix div of_nat s" "take x (rs_ll r) @ (rs_ll r ! x + of_nat (unat ix mod s)) # ys"] x ix un z
        prefix_point_Suc [OF assms(1) x, of "unat ix"] rect_okD(1) [OF assms(1)]
      by (simp add: c Let_def nn dim_size(2) [OF assms(1) x] s_def [symmetric] list_update_append)
  qed
qed

lemma rect_coord_point:
  assumes "rect_ok n r" and "unat ix < prod_list (rect_dims r)"
  shows "rect_coord r ix (rs_ll r) n = Some (rect_points r ! unat ix)"
  using rect_coord_prefix [OF assms(1) order_refl, of ix _ "[]"] assms
  by (simp add: rect_okD prefix_point_all rect_points_def)

text \<open>From a coordinate to its index.\<close>

lemma rect_index_horner:
  assumes "rect_ok n r" and "length c = n" and "k \<le> n"
  shows "rect_index r c (of_nat h) [k..<n] =
    (if \<forall>i\<in>{k..<n}. rs_ll r ! i \<le> c ! i \<and> c ! i \<le> rs_ur r ! i
     then of_nat (horner h (drop k (rect_dims r)) (drop k (rect_digits r c))) else - 1)"
  using assms(3)
proof (induction "n - k" arbitrary: k h)
  case 0
  then show ?case by (simp add: rect_okD [OF assms(1)])
next
  case (Suc m)
  then have k: "k < n" by simp
  have split: "{k..<n} = insert k {Suc k..<n}" using k by auto
  have len: "length (rect_digits r c) = n" using assms by (simp add: rect_digits_def rect_okD)
  have dk: "rect_digits r c ! k = unat (c ! k) - unat (rs_ll r ! k)"
    using assms k by (simp add: rect_digits_def rect_okD)
  show ?case
  proof (cases "rs_ll r ! k \<le> c ! k \<and> c ! k \<le> rs_ur r ! k")
    case True
    then have "c ! k - rs_ll r ! k = of_nat (unat (c ! k) - unat (rs_ll r ! k))"
      by (simp add: word_le_nat_alt of_nat_diff)
    then have "rect_index r c (of_nat h) [k..<n] =
        rect_index r c (of_nat (h * rect_dims r ! k + (unat (c ! k) - unat (rs_ll r ! k)))) [Suc k..<n]"
      using True k by (auto simp: upt_conv_Cons Let_def dim_size(2,3) [OF assms(1)] ucast_dim [OF assms(1)] dest: leD)
    then show ?thesis
      using Suc(1) [of "Suc k" "h * rect_dims r ! k + (unat (c ! k) - unat (rs_ll r ! k))"] Suc(2) True split k len dk
      by (simp add: Cons_nth_drop_Suc [symmetric] rect_okD(3) [OF assms(1)])
  next
    case False
    then have "rect_index r c (of_nat h) [k..<n] = - 1"
      using k by (auto simp: upt_conv_Cons Let_def dim_size(2,3) [OF assms(1)] not_le)
    then show ?thesis using False split by auto
  qed
qed

lemma rect_index_mval:
  assumes "rect_ok n r" and "length c = n"
  shows "rect_index r c 0 [0..<n] = (if in_rect r c then of_nat (mval (rect_dims r) (rect_digits r c)) else - 1)"
proof -
  have "length (rect_digits r c) = length (rect_dims r)" using assms by (simp add: rect_digits_def rect_okD)
  then show ?thesis
    using rect_index_horner [OF assms, of 0 0] assms by (auto simp: horner_mval in_rect_def rect_okD)
qed

text \<open>The two are inverse to each other.\<close>

lemma rect_index_points:
  assumes "rect_ok n r" and "i < prod_list (rect_dims r)"
  shows "rect_index r (rect_points r ! i) 0 [0..<n] = of_nat i"
proof -
  have "in_rect r (rect_points r ! i)" using set_rect_points [OF assms(1)] assms(2) by (metis length_rect_points mem_Collect_eq nth_mem)
  moreover have "rect_digits r (rect_points r ! i) = mdigits (rect_dims r) i"
    using rect_point_in(2) [OF assms(1)] mdigits_ok assms(2) by (simp add: rect_points_def)
  ultimately show ?thesis
    using rect_index_mval [OF assms(1)] assms by (simp add: mval_mdigits in_rect_def rect_okD)
qed

end
