(* ===== verification/Pami_TopologySets.thy ===== *)
theory Pami_TopologySets
  imports Pami_Rectangle Pami_BgqCache
begin

text \<open>
  A topology is a list of tasks: the queries of \<^verbatim>\<open>Topology.h\<close> read that list in every
  representation but the axial one. What the mapping has to promise for this is the locale
  \<open>torus_mapping\<close>; the Blue Gene/Q mapping keeps it once its cache is filled.
\<close>

section \<open>The tasks of a topology\<close>

definition span :: "pami_task_t \<Rightarrow> pami_task_t \<Rightarrow> pami_task_t list" where
  "span f l = map of_nat [unat f..<Suc (unat l)]"

definition ranks :: "mapping \<Rightarrow> topology \<Rightarrow> pami_task_t list" where
  "ranks M t =
     (case tp_topo t of
        T_single r \<Rightarrow> [r]
      | T_range f l \<Rightarrow> span f l
      | T_list rl \<Rightarrow> rl
      | T_coord r \<Rightarrow> map (\<lambda>c. COORDS2RANK M c 0) (rect_points r)
      | T_eplist eps \<Rightarrow> map (\<lambda>e. fst (mp_endpoint_info M e)) eps
      | _ \<Rightarrow> [])"

text \<open>A topology that agrees with its size and consists of the tasks \<open>T\<close>.\<close>

definition topo_ok :: "mapping \<Rightarrow> pami_task_t set \<Rightarrow> topology \<Rightarrow> bool" where
  "topo_ok M T t \<longleftrightarrow> set (ranks M t) \<subseteq> T \<and>
     (case tp_topo t of
        T_empty \<Rightarrow> tp_size t = 0
      | T_single _ \<Rightarrow> tp_size t = 1
      | T_range f l \<Rightarrow> f \<le> l \<and> l \<noteq> - 1 \<and> tp_size t = ucast (l - f + 1)
      | T_list rl \<Rightarrow> rl \<noteq> [] \<and> distinct rl \<and> length rl < 2 ^ 32 \<and> tp_size t = of_nat (length rl)
      | T_coord r \<Rightarrow> rect_ok (mp_globalDims M) r \<and> (\<forall>c. in_rect r c \<longrightarrow> mp_network2task M c \<noteq> None) \<and>
          tp_size t = of_nat (prod_list (rect_dims r))
      | _ \<Rightarrow> False)"

section \<open>Ranges of tasks\<close>

lemma unat_not_max: "(l::uint_t) \<noteq> - 1 \<longleftrightarrow> unat l < 2 ^ 32 - 1"
  using unat32_less [of l] by (simp add: word_unat_eq_iff unsigned_minus_1_eq_mask mask_eq_exp_minus_1) linarith

lemma unat_of_nat32: "n < 2 ^ 32 \<Longrightarrow> unat (of_nat n :: uint_t) = n"
  by (simp add: unat_of_nat take_bit_nat_eq_self)

lemma unat_Suc32: "(l::uint_t) \<noteq> - 1 \<Longrightarrow> unat (l + 1) = Suc (unat l)"
  using unat_of_nat32 [of "Suc (unat l)"] by (simp add: unat_not_max add.commute)

lemma length_span [simp]: "length (span f l) = Suc (unat l) - unat f"
  by (simp add: span_def del: upt_Suc)

lemma span_Nil: "\<not> f \<le> l \<Longrightarrow> span f l = []"
  by (simp add: span_def word_le_nat_alt)

lemma set_span: "set (span f l) = {f..l}"
proof (intro equalityI subsetI)
  fix x assume "x \<in> set (span f l)"
  then obtain i where i: "x = of_nat i" "unat f \<le> i" "i \<le> unat l" by (auto simp: span_def)
  then have "unat x = i" using unat32_less [of l] by (simp add: unat_of_nat32)
  then show "x \<in> {f..l}" using i by (simp add: word_le_nat_alt)
next
  fix x assume "x \<in> {f..l}"
  then have "x = of_nat (unat x)" "unat x \<in> {unat f..<Suc (unat l)}" by (auto simp: word_le_nat_alt)
  then show "x \<in> set (span f l)" unfolding span_def set_map set_upt by (rule image_eqI)
qed

lemma distinct_span: "distinct (span f l)"
proof -
  have "inj_on (of_nat :: nat \<Rightarrow> uint_t) {unat f..<Suc (unat l)}"
  proof (rule inj_onI)
    fix x y assume "x \<in> {unat f..<Suc (unat l)}" "y \<in> {unat f..<Suc (unat l)}" and e: "(of_nat x :: uint_t) = of_nat y"
    then have "x < 2 ^ 32" "y < 2 ^ 32" using unat32_less [of l] by auto
    then show "x = y" using e unat_of_nat32 by metis
  qed
  then show ?thesis by (simp add: span_def distinct_map del: upt_Suc)
qed

lemma span_nth: "i < length (span f l) \<Longrightarrow> span f l ! i = f + of_nat i"
  by (simp add: span_def del: upt_Suc)

lemma span_Cons: "f \<le> l \<Longrightarrow> l \<noteq> - 1 \<Longrightarrow> span f l = f # span (f + 1) l"
  using unat_Suc32 [of f] by (cases "f = - 1") (auto simp: span_def word_le_nat_alt upt_conv_Cons unat_not_max unsigned_minus_1_eq_mask mask_eq_exp_minus_1
      simp del: upt_Suc)

lemma task_range_span:
  assumes "l \<noteq> - 1"
  shows "task_range f l = Some (span f l)"
proof (induction "Suc (unat l) - unat f" arbitrary: f rule: less_induct)
  case less
  show ?case
  proof (cases "f \<le> l")
    case True
    then have "f \<noteq> - 1" using assms by (auto simp: unat_not_max word_le_nat_alt unsigned_minus_1_eq_mask mask_eq_exp_minus_1)
    then have "unat (f + 1) = Suc (unat f)" by (rule unat_Suc32)
    then have "task_range (f + 1) l = Some (span (f + 1) l)" using less True by (simp add: word_le_nat_alt)
    then show ?thesis using True assms by (subst task_range.simps) (simp add: span_Cons)
  next
    case False
    then show ?thesis by (subst task_range.simps) (simp add: span_Nil)
  qed
qed

text \<open>With the largest task number the loop of the source never ends.\<close>

lemma task_range_endless: "task_range f (- 1) = None"
proof -
  have "hi \<noteq> - 1" if "task_range r hi = Some y" for r hi y
    using that by (rule task_range.raw_induct [where P = "\<lambda>r hi y. hi \<noteq> - 1", rotated])
      (auto split: if_splits bind_splits)
  then show ?thesis by (cases "task_range f (- 1)") auto
qed

lemma range_size:
  assumes "f \<le> l" and "l \<noteq> - 1"
  shows "(ucast (l - f + 1) :: size_t) = of_nat (length (span f l))"
proof -
  have "unat (l - f) = unat l - unat f" using assms(1) by (rule unat_sub)
  moreover then have "l - f \<noteq> - 1" using assms by (simp add: unat_not_max)
  ultimately have "unat (l - f + 1) = Suc (unat l) - unat f"
    using assms(1) by (simp add: unat_Suc32 word_le_nat_alt Suc_diff_le)
  then have "unat (ucast (l - f + 1) :: size_t) = length (span f l)" by (simp add: unat_ucast_uint)
  then show ?thesis by (metis unat64_less unat_of_nat64 word_unat_eq_iff)
qed

lemma range_fill_take: "l \<noteq> - 1 \<Longrightarrow> range_fill mx f l = take mx (span f l)"
proof (induction mx arbitrary: f)
  case (Suc mx)
  then show ?case by (cases "f \<le> l") (simp_all add: span_Cons span_Nil)
qed simp

lemma range_all_span:
  assumes "l \<noteq> - 1"
  shows "range_all P f l = Some (list_all P (span f l))"
proof (induction "Suc (unat l) - unat f" arbitrary: f rule: less_induct)
  case less
  show ?case
  proof (cases "f \<le> l")
    case True
    then have "f \<noteq> - 1" using assms by (auto simp: unat_not_max word_le_nat_alt unsigned_minus_1_eq_mask mask_eq_exp_minus_1)
    then have "unat (f + 1) = Suc (unat f)" by (rule unat_Suc32)
    then have "range_all P (f + 1) l = Some (list_all P (span (f + 1) l))" using less True by (simp add: word_le_nat_alt)
    then show ?thesis using True assms by (subst range_all.simps) (simp add: span_Cons)
  next
    case False
    then show ?thesis by (subst range_all.simps) (simp add: span_Nil)
  qed
qed

section \<open>Searching\<close>

lemma list_index_iff: "list_index r xs k = (if r \<in> set xs then of_nat (k + length (takeWhile (\<lambda>x. r \<noteq> x) xs)) else - 1)"
  by (induction xs arbitrary: k) auto

lemma takeWhile_nth: "distinct xs \<Longrightarrow> i < length xs \<Longrightarrow> length (takeWhile (\<lambda>x. xs ! i \<noteq> x) xs) = i"
proof (induction xs arbitrary: i)
  case (Cons x xs)
  then show ?case by (cases i) (auto simp: nth_mem)
qed simp

lemma list_index_nth: "distinct xs \<Longrightarrow> i < length xs \<Longrightarrow> list_index (xs ! i) xs 0 = of_nat i"
  by (simp add: list_index_iff takeWhile_nth)

section \<open>What a topology needs of the mapping\<close>

text \<open>A family of mappings: each is consistent for a set of tasks whose coordinates lie in a box
  of fewer than \<open>2 ^ 32\<close> points. Tasks with the same torus coordinates are peers. No task has the number \<open>-1\<close>, which stands for no task.\<close>

locale torus_mapping =
  fixes mapping_of :: "'b \<Rightarrow> mapping"
    and map_ok :: "'b \<Rightarrow> bool"
    and tasks :: "'b \<Rightarrow> pami_task_t set"
    and dims :: "'b \<Rightarrow> nat list"
  assumes dims_nonempty: "map_ok b \<Longrightarrow> dims b \<noteq> []"
    and task_valid: "map_ok b \<Longrightarrow> t \<in> tasks b \<Longrightarrow> t \<noteq> - 1"
    and dims_length: "map_ok b \<Longrightarrow> length (dims b) = mp_globalDims (mapping_of b)"
    and dims_small: "map_ok b \<Longrightarrow> prod_list (dims b) < 2 ^ 32"
    and task_coords: "map_ok b \<Longrightarrow> t \<in> tasks b \<Longrightarrow> digits_ok (dims b) (map unat (mp_task2network (mapping_of b) t))"
    and task_found: "map_ok b \<Longrightarrow> t \<in> tasks b \<Longrightarrow>
      mp_network2task (mapping_of b) (mp_task2network (mapping_of b) t) = Some t"
    and task_inverse: "map_ok b \<Longrightarrow> length c = mp_globalDims (mapping_of b) \<Longrightarrow>
      mp_network2task (mapping_of b) c = Some t \<Longrightarrow> t \<in> tasks b \<and> mp_task2network (mapping_of b) t = c"
    and torus_dims: "map_ok b \<Longrightarrow> mp_torusDims (mapping_of b) \<le> mp_globalDims (mapping_of b)"
    and peer_coords: "map_ok b \<Longrightarrow> mp_isPeer (mapping_of b) t1 t2 \<longleftrightarrow>
      take (mp_torusDims (mapping_of b)) (mp_task2network (mapping_of b) t1) =
      take (mp_torusDims (mapping_of b)) (mp_task2network (mapping_of b) t2)"
begin

lemma coords_length: "map_ok b \<Longrightarrow> t \<in> tasks b \<Longrightarrow> length (mp_task2network (mapping_of b) t) = mp_globalDims (mapping_of b)"
  using task_coords dims_length digits_ok_length by (metis length_map)

lemma task_of_coord:
  assumes "map_ok b" and "rect_ok (mp_globalDims (mapping_of b)) r" and "in_rect r c"
    and "\<forall>c. in_rect r c \<longrightarrow> mp_network2task (mapping_of b) c \<noteq> None"
  shows "COORDS2RANK (mapping_of b) c k \<in> tasks b"
    and "mp_task2network (mapping_of b) (COORDS2RANK (mapping_of b) c k) = c"
    and "COORDS2RANK (mapping_of b) c k = COORDS2RANK (mapping_of b) c 0"
proof -
  obtain t where "mp_network2task (mapping_of b) c = Some t" using assms(3,4) by auto
  moreover have "length c = mp_globalDims (mapping_of b)" using assms(2,3) by (simp add: in_rect_def rect_okD)
  ultimately show "COORDS2RANK (mapping_of b) c k \<in> tasks b"
    "mp_task2network (mapping_of b) (COORDS2RANK (mapping_of b) c k) = c"
    "COORDS2RANK (mapping_of b) c k = COORDS2RANK (mapping_of b) c 0"
    using task_inverse [OF assms(1)] by (auto simp: COORDS2RANK_def)
qed

lemma ranks_of_mapped:
  assumes "map_ok b" and "rect_ok (mp_globalDims (mapping_of b)) r" and "\<forall>c\<in>set cs. in_rect r c"
    and "\<forall>c. in_rect r c \<longrightarrow> mp_network2task (mapping_of b) c \<noteq> None"
  shows "ranks_of (mapping_of b) k cs = map (\<lambda>c. COORDS2RANK (mapping_of b) c 0) cs"
  using assms(3)
proof (induction cs arbitrary: k)
  case (Cons c cs)
  then show ?case using task_of_coord(3) [OF assms(1,2) _ assms(4), of c k] by (simp add: Let_def)
qed simp

lemma rect_ranks_points:
  assumes "map_ok b" and "rect_ok (mp_globalDims (mapping_of b)) r"
    and "\<forall>c. in_rect r c \<longrightarrow> mp_network2task (mapping_of b) c \<noteq> None"
  shows "rect_ranks (mapping_of b) r = Some (map (\<lambda>c. COORDS2RANK (mapping_of b) c 0) (rect_points r))"
  using ranks_of_mapped [OF assms(1,2) _ assms(3)] set_rect_points [OF assms(2)]
  by (simp add: rect_ranks_def coords_from_points [OF assms(2)])

lemma rank_in_rect:
  assumes "map_ok b" and "rect_ok (mp_globalDims (mapping_of b)) r" and "t \<in> tasks b"
    and "\<forall>c. in_rect r c \<longrightarrow> mp_network2task (mapping_of b) c \<noteq> None"
  shows "t \<in> (\<lambda>c. COORDS2RANK (mapping_of b) c 0) ` set (rect_points r) \<longleftrightarrow> in_rect r (mp_task2network (mapping_of b) t)"
proof
  assume "t \<in> (\<lambda>c. COORDS2RANK (mapping_of b) c 0) ` set (rect_points r)"
  then show "in_rect r (mp_task2network (mapping_of b) t)"
    using task_of_coord(2) [OF assms(1,2) _ assms(4)] set_rect_points [OF assms(2)] by auto
next
  assume "in_rect r (mp_task2network (mapping_of b) t)"
  moreover have "t = COORDS2RANK (mapping_of b) (mp_task2network (mapping_of b) t) 0"
    using task_found [OF assms(1,3)] by (simp add: COORDS2RANK_def)
  ultimately show "t \<in> (\<lambda>c. COORDS2RANK (mapping_of b) c 0) ` set (rect_points r)"
    using set_rect_points [OF assms(2)] by blast
qed

lemma ranks_distinct:
  assumes "map_ok b" and "topo_ok (mapping_of b) (tasks b) t"
  shows "distinct (ranks (mapping_of b) t)" and "length (ranks (mapping_of b) t) = unat (tp_size t)"
proof -
  have "distinct (ranks (mapping_of b) t) \<and> length (ranks (mapping_of b) t) = unat (tp_size t)"
  proof (cases "tp_topo t")
    case (T_coord r)
    then have r: "rect_ok (mp_globalDims (mapping_of b)) r" "\<forall>c. in_rect r c \<longrightarrow> mp_network2task (mapping_of b) c \<noteq> None"
      "tp_size t = of_nat (prod_list (rect_dims r))" using assms(2) by (auto simp: topo_ok_def)
    have "inj_on (\<lambda>c. COORDS2RANK (mapping_of b) c 0) (set (rect_points r))"
      using task_of_coord(2) [OF assms(1) r(1) _ r(2)] set_rect_points [OF r(1)]
      by (intro inj_on_inverseI [where g = "mp_task2network (mapping_of b)"]) simp
    then show ?thesis using T_coord r distinct_rect_points [OF r(1)] rect_okD(4) [OF r(1)]
      by (simp add: ranks_def distinct_map unat_of_nat64)
  next
    case (T_range f l)
    have "length (span f l) < 2 ^ 64" using unat32_less [of l] by simp
    then show ?thesis using assms(2) T_range by (auto simp: topo_ok_def ranks_def distinct_span range_size unat_of_nat64 simp del: length_span)
  qed (use assms in \<open>auto simp: topo_ok_def ranks_def unat_of_nat64\<close>)
  then show "distinct (ranks (mapping_of b) t)" "length (ranks (mapping_of b) t) = unat (tp_size t)" by auto
qed

lemma index2Rank_ranks:
  assumes "map_ok b" and "topo_ok (mapping_of b) (tasks b) t" and "\<not> tp_all_contexts t"
  shows "index2Rank_impl (mapping_of b) t i =
    Some (if unat i < length (ranks (mapping_of b) t) then ranks (mapping_of b) t ! unat i else - 1)"
proof (cases "unat i < length (ranks (mapping_of b) t)")
  case True
  then have "i < tp_size t" using ranks_distinct(2) [OF assms(1,2)] by (simp add: word_less_nat_alt)
  then show ?thesis using True assms(2,3)
  proof (cases "tp_topo t")
    case (T_coord r)
    then have r: "rect_ok (mp_globalDims (mapping_of b)) r" using assms(2) by (auto simp: topo_ok_def)
    then show ?thesis using True \<open>i < tp_size t\<close> assms(3) T_coord rect_coord_point [OF r, of i]
      by (simp add: index2Rank_impl_def ranks_def)
  next
    case (T_range f l)
    then show ?thesis using True \<open>i < tp_size t\<close> assms(3) span_nth [of "unat i" f l]
      by (simp add: index2Rank_impl_def ranks_def del: length_span)
  qed (auto simp: index2Rank_impl_def ranks_def topo_ok_def)
next
  case False
  then have "\<not> i < tp_size t" using ranks_distinct(2) [OF assms(1,2)] by (simp add: word_less_nat_alt)
  then show ?thesis using False assms(3) by (simp add: index2Rank_impl_def)
qed

lemma rank2Index_ranks:
  assumes "map_ok b" and "topo_ok (mapping_of b) (tasks b) t"
  shows "i < length (ranks (mapping_of b) t) \<Longrightarrow> rank2Index_impl (mapping_of b) t (ranks (mapping_of b) t ! i) = of_nat i"
    and "x \<in> tasks b \<Longrightarrow> x \<notin> set (ranks (mapping_of b) t) \<Longrightarrow> rank2Index_impl (mapping_of b) t x = - 1"
proof -
  show "rank2Index_impl (mapping_of b) t (ranks (mapping_of b) t ! i) = of_nat i" if i: "i < length (ranks (mapping_of b) t)"
  proof (cases "tp_topo t")
    case (T_coord r)
    then have r: "rect_ok (mp_globalDims (mapping_of b)) r" "\<forall>c. in_rect r c \<longrightarrow> mp_network2task (mapping_of b) c \<noteq> None"
      using assms(2) by (auto simp: topo_ok_def)
    have i: "i < prod_list (rect_dims r)" using i T_coord by (simp add: ranks_def)
    then have "in_rect r (rect_points r ! i)" using set_rect_points [OF r(1)] by (metis length_rect_points mem_Collect_eq nth_mem)
    then show ?thesis using i T_coord task_of_coord(2) [OF assms(1) r(1) _ r(2)] rect_index_points [OF r(1) i]
      by (simp add: rank2Index_impl_def ranks_def)
  next
    case (T_range f l)
    then have i: "i < length (span f l)" using i by (simp add: ranks_def)
    then have "span f l ! i \<in> set (span f l)" and e: "span f l ! i = f + of_nat i" by (rule nth_mem, rule span_nth)
    moreover have "i < 2 ^ 32" using i unat32_less [of l] by simp
    ultimately have "f \<le> f + of_nat i \<and> f + of_nat i \<le> l" and "(ucast (of_nat i :: uint_t) :: size_t) = of_nat i"
      by (simp_all add: set_span word_unat_eq_iff unat_ucast_uint unat_of_nat32 unat_of_nat64)
    then show ?thesis using T_range by (simp add: rank2Index_impl_def ranks_def e)
  qed (use assms(2) i in \<open>auto simp: rank2Index_impl_def ranks_def topo_ok_def list_index_nth\<close>)
  show "rank2Index_impl (mapping_of b) t x = - 1" if x: "x \<in> tasks b" "x \<notin> set (ranks (mapping_of b) t)"
  proof (cases "tp_topo t")
    case (T_coord r)
    then have r: "rect_ok (mp_globalDims (mapping_of b)) r" "\<forall>c. in_rect r c \<longrightarrow> mp_network2task (mapping_of b) c \<noteq> None"
      using assms(2) by (auto simp: topo_ok_def)
    then have "\<not> in_rect r (mp_task2network (mapping_of b) x)" using rank_in_rect [OF assms(1) r(1) x(1) r(2)] x(2) T_coord by (simp add: ranks_def)
    then show ?thesis using T_coord rect_index_mval [OF r(1) coords_length [OF assms(1) x(1)]]
      by (simp add: rank2Index_impl_def)
  qed (use assms(2) x in \<open>auto simp: rank2Index_impl_def ranks_def topo_ok_def list_index_iff set_span\<close>)
qed

lemma isRankMember_ranks:
  assumes "map_ok b" and "topo_ok (mapping_of b) (tasks b) t" and "x \<in> tasks b"
  shows "isRankMember_impl (mapping_of b) t x \<longleftrightarrow> x \<in> set (ranks (mapping_of b) t)"
proof (cases "tp_topo t")
  case (T_coord r)
  then have r: "rect_ok (mp_globalDims (mapping_of b)) r" "\<forall>c. in_rect r c \<longrightarrow> mp_network2task (mapping_of b) c \<noteq> None"
    using assms(2) by (auto simp: topo_ok_def)
  then show ?thesis
    using T_coord rank_in_rect [OF assms(1) r(1) assms(3) r(2)] isMemberCoord_iff [OF r(1) coords_length [OF assms(1,3)]]
    by (simp add: isRankMember_impl_def ranks_def)
qed (use assms(2) in \<open>auto simp: isRankMember_impl_def ranks_def topo_ok_def list_ex_iff set_span\<close>)

lemma rect_fill_take:
  assumes "map_ok b" and "rect_ok (mp_globalDims (mapping_of b)) r" and "v < prod_list (rect_dims r)"
    and "\<forall>c. in_rect r c \<longrightarrow> mp_network2task (mapping_of b) c \<noteq> None"
  shows "rect_fill (mapping_of b) r m k (rect_points r ! v) =
    take m (map (\<lambda>c. COORDS2RANK (mapping_of b) c 0) (drop v (rect_points r)))"
  using assms(3)
proof (induction m arbitrary: v k)
  case (Suc m)
  have v: "in_rect r (rect_points r ! v)" using set_rect_points [OF assms(2)] Suc.prems by (metis length_rect_points mem_Collect_eq nth_mem)
  have d: "drop v (rect_points r) = rect_points r ! v # drop (Suc v) (rect_points r)" using Suc.prems by (simp add: Cons_nth_drop_Suc)
  have "nextCoord r (rect_points r ! v) (mp_globalDims (mapping_of b)) =
      (if Suc v < prod_list (rect_dims r) then (rect_points r ! Suc v, True) else (rs_ll r, False))"
    using nextCoord_counts [OF assms(2) Suc.prems] Suc.prems by (simp add: rect_points_def)
  then show ?case using Suc.IH [of "Suc v"] task_of_coord(3) [OF assms(1,2) v assms(4), of k] by (simp add: Let_def d)
qed simp

lemma getRankList_ranks:
  assumes "map_ok b" and "topo_ok (mapping_of b) (tasks b) t" and "0 < mx"
  shows "getRankList_impl (mapping_of b) t mx = (take mx (ranks (mapping_of b) t), tp_size t)"
proof (cases "tp_topo t")
  case (T_coord r)
  then have r: "rect_ok (mp_globalDims (mapping_of b)) r" "\<forall>c. in_rect r c \<longrightarrow> mp_network2task (mapping_of b) c \<noteq> None"
    using assms(2) by (auto simp: topo_ok_def)
  have "rect_points r ! 0 = rs_ll r" using prod_pos [OF r(1)] rect_point_0 [OF r(1)] by (simp add: rect_points_def)
  then show ?thesis
    using T_coord rect_fill_take [OF assms(1) r(1) prod_pos [OF r(1)] r(2), of mx 0] assms(3) rect_okD(1) [OF r(1)]
    by (simp add: getRankList_impl_def ranks_def)
next
  case (T_range f l)
  then show ?thesis using assms(2) by (simp add: getRankList_impl_def ranks_def range_fill_take topo_ok_def)
qed (use assms(2,3) in \<open>auto simp: getRankList_impl_def ranks_def topo_ok_def\<close>)

text \<open>Locality.\<close>

lemma isLocalCoord_take:
  assumes "map_ok b" and "length c0 = mp_globalDims (mapping_of b)" and "length c1 = mp_globalDims (mapping_of b)"
  shows "isLocalCoord (mapping_of b) c0 c1 \<longleftrightarrow> take (mp_torusDims (mapping_of b)) c0 = take (mp_torusDims (mapping_of b)) c1"
  using torus_dims [OF assms(1)] assms(2,3) by (auto simp: isLocalCoord_def list_all_iff list_eq_iff_nth_eq)

lemma rect_one_node:
  assumes "map_ok b" and "rect_ok (mp_globalDims (mapping_of b)) r"
  shows "isLocalCoord (mapping_of b) (rs_ll r) (rs_ur r) \<longleftrightarrow>
    (\<forall>c. in_rect r c \<longrightarrow> take (mp_torusDims (mapping_of b)) (rs_ll r) = take (mp_torusDims (mapping_of b)) c)"
proof -
  have len: "length (rs_ll r) = mp_globalDims (mapping_of b)" "length (rs_ur r) = mp_globalDims (mapping_of b)"
    using rect_okD [OF assms(2)] by simp_all
  have ur: "in_rect r (rs_ur r)" using rect_okD(5) [OF assms(2)] len by (simp add: in_rect_def)
  have "take (mp_torusDims (mapping_of b)) (rs_ll r) = take (mp_torusDims (mapping_of b)) c"
    if "isLocalCoord (mapping_of b) (rs_ll r) (rs_ur r)" "in_rect r c" for c
    using that torus_dims [OF assms(1)] len
    by (auto simp: isLocalCoord_def list_all_iff in_rect_def intro!: nth_equalityI order_antisym)
  then show ?thesis using ur isLocalCoord_take [OF assms(1) len] by metis
qed

lemma peers_in_rect:
  assumes "map_ok b" and "tp_topo t = T_coord r" and "rect_ok (mp_globalDims (mapping_of b)) r"
    and "\<forall>c. in_rect r c \<longrightarrow> mp_network2task (mapping_of b) c \<noteq> None"
  shows "(\<forall>x\<in>set (ranks (mapping_of b) t). mp_isPeer (mapping_of b) y x) \<longleftrightarrow>
    (\<forall>c. in_rect r c \<longrightarrow> take (mp_torusDims (mapping_of b)) (mp_task2network (mapping_of b) y) = take (mp_torusDims (mapping_of b)) c)"
proof -
  have "set (ranks (mapping_of b) t) = (\<lambda>c. COORDS2RANK (mapping_of b) c 0) ` {c. in_rect r c}"
    using assms(2) by (simp add: ranks_def set_rect_points [OF assms(3)])
  moreover have "mp_isPeer (mapping_of b) y (COORDS2RANK (mapping_of b) c 0) \<longleftrightarrow>
      take (mp_torusDims (mapping_of b)) (mp_task2network (mapping_of b) y) = take (mp_torusDims (mapping_of b)) c" if "in_rect r c" for c
    using task_of_coord(2) [OF assms(1,3) that assms(4), of 0] by (simp add: peer_coords [OF assms(1)])
  ultimately show ?thesis by auto
qed

lemma isLocal_ranks:
  assumes "map_ok b" and "topo_ok (mapping_of b) (tasks b) t" and "tp_topo t \<noteq> T_empty"
  shows "isLocal_topology (mapping_of b) t =
    Some (\<forall>x\<in>set (ranks (mapping_of b) t). mp_isPeer (mapping_of b) (ranks (mapping_of b) t ! 0) x)"
proof -
  have sub: "set (ranks (mapping_of b) t) \<subseteq> tasks b" using assms(2) by (simp add: topo_ok_def)
  have local: "isLocalCoord (mapping_of b) (mp_task2network (mapping_of b) x) (mp_task2network (mapping_of b) y) \<longleftrightarrow> mp_isPeer (mapping_of b) x y"
    if "x \<in> tasks b" "y \<in> tasks b" for x y
    using isLocalCoord_take [OF assms(1) coords_length [OF assms(1) that(1)] coords_length [OF assms(1) that(2)]]
    by (simp add: peer_coords [OF assms(1)])
  have all: "(\<forall>y\<in>set ys. isLocalCoord (mapping_of b) (mp_task2network (mapping_of b) x) (mp_task2network (mapping_of b) y)) \<longleftrightarrow>
      (\<forall>y\<in>set ys. mp_isPeer (mapping_of b) x y)" if "x \<in> tasks b" "set ys \<subseteq> tasks b" for x ys
    using that by (intro ball_cong refl local) auto
  have self: "mp_isPeer (mapping_of b) x x" for x by (simp add: peer_coords [OF assms(1)])
  show ?thesis
  proof (cases "tp_topo t")
    case (T_coord r)
    then have r: "rect_ok (mp_globalDims (mapping_of b)) r" "\<forall>c. in_rect r c \<longrightarrow> mp_network2task (mapping_of b) c \<noteq> None"
      using assms(2) by (auto simp: topo_ok_def)
    have z: "rect_points r ! 0 = rs_ll r" using prod_pos [OF r(1)] rect_point_0 [OF r(1)] by (simp add: rect_points_def)
    have "in_rect r (rs_ll r)" using rect_okD(1,5) [OF r(1)] by (simp add: in_rect_def)
    then have "mp_task2network (mapping_of b) (ranks (mapping_of b) t ! 0) = rs_ll r"
      using T_coord z prod_pos [OF r(1)] task_of_coord(2) [OF assms(1) r(1) _ r(2)] by (simp add: ranks_def)
    then show ?thesis unfolding peers_in_rect [OF assms(1) T_coord r]
      using T_coord rect_one_node [OF assms(1) r(1)] by (simp add: isLocal_topology_def)
  next
    case (T_range f l)
    then have fl: "f \<le> l" "l \<noteq> - 1" using assms(2) by (auto simp: topo_ok_def)
    then have R: "ranks (mapping_of b) t = f # span (f + 1) l" using T_range span_Cons by (simp add: ranks_def)
    then show ?thesis using T_range self sub all [of f "span (f + 1) l"]
      by (simp add: isLocal_topology_def range_all_span [OF fl(2)] list_all_iff)
  next
    case (T_list rl)
    then obtain x xs where "ranks (mapping_of b) t = x # xs" "rl = x # xs"
      using assms(2) by (cases rl) (auto simp: ranks_def topo_ok_def)
    then show ?thesis using T_list sub all [of x xs] self by (simp add: isLocal_topology_def list_all_iff)
  qed (use assms(2,3) self in \<open>auto simp: isLocal_topology_def ranks_def topo_ok_def\<close>)
qed

lemma isLocalToMe_ranks:
  assumes "map_ok b" and "topo_ok (mapping_of b) (tasks b) t" and "tp_topo t \<noteq> T_empty" and "mp_task (mapping_of b) \<in> tasks b"
  shows "isLocalToMe_impl (mapping_of b) t =
    Some (\<forall>x\<in>set (ranks (mapping_of b) t). mp_isPeer (mapping_of b) (mp_task (mapping_of b)) x)"
proof (cases "tp_topo t")
  case (T_coord r)
  then have r: "rect_ok (mp_globalDims (mapping_of b)) r" "\<forall>c. in_rect r c \<longrightarrow> mp_network2task (mapping_of b) c \<noteq> None"
    using assms(2) by (auto simp: topo_ok_def)
  have ll: "in_rect r (rs_ll r)" using rect_okD(1,5) [OF r(1)] by (simp add: in_rect_def)
  have "isLocalToMe_impl (mapping_of b) t = Some (isLocalCoord (mapping_of b) (rs_ll r) (rs_ur r) \<and>
      isLocalCoord (mapping_of b) (mp_task2network (mapping_of b) (mp_task (mapping_of b))) (rs_ll r))"
    using T_coord by (simp add: isLocalToMe_impl_def)
  moreover have "(\<forall>c. in_rect r c \<longrightarrow> take n (rs_ll r) = take n c) \<and> x = take n (rs_ll r) \<longleftrightarrow> (\<forall>c. in_rect r c \<longrightarrow> x = take n c)" for n x
    using ll by metis
  ultimately show ?thesis unfolding peers_in_rect [OF assms(1) T_coord r] rect_one_node [OF assms(1) r(1)]
      isLocalCoord_take [OF assms(1) coords_length [OF assms(1,4)] rect_okD(1) [OF r(1)]] by simp
next
  case (T_range f l)
  then show ?thesis using assms(2) range_all_span [of l]
    by (auto simp: isLocalToMe_impl_def ranks_def list_all_iff IS_LOCAL_PEER_def [abs_def] topo_ok_def)
qed (use assms(2,3) in \<open>auto simp: isLocalToMe_impl_def ranks_def topo_ok_def list_all_iff IS_LOCAL_PEER_def\<close>)

end

section \<open>Blue Gene/Q\<close>

definition bgq_tasks :: "bgq_map \<Rightarrow> pami_task_t set" where
  "bgq_tasks B = {t. unat t < unat (bm_size B)}"

definition bgq_dims :: "bgq_map \<Rightarrow> nat list" where
  "bgq_dims B = map unat (bm_sizes B)"

interpretation bgq: torus_mapping bgq_mapping cache_ok bgq_tasks bgq_dims
proof
  fix B :: bgq_map assume ok: "cache_ok B"
  then have s: "sizes_ok (bm_sizes B)" and n: "unat (bm_size B) \<le> full_size (bm_sizes B)" by (auto simp: cache_ok_def)
  show "bgq_dims B \<noteq> []" using s by (auto simp: bgq_dims_def elim: sizes_okE)
  show "length (bgq_dims B) = mp_globalDims (bgq_mapping B)" using s by (auto simp: bgq_dims_def bgq_mapping_def elim: sizes_okE)
  show "prod_list (bgq_dims B) < 2 ^ 32" using full_size_less [OF s] by (simp add: bgq_dims_def full_size_def)
  show "mp_torusDims (bgq_mapping B) \<le> mp_globalDims (bgq_mapping B)" by (simp add: bgq_mapping_def)
  show "mp_isPeer (bgq_mapping B) t1 t2 = (take (mp_torusDims (bgq_mapping B)) (mp_task2network (bgq_mapping B) t1) =
      take (mp_torusDims (bgq_mapping B)) (mp_task2network (bgq_mapping B) t2))" for t1 t2
    by (simp add: bgq_mapping_def isPeer_coords)
  fix t :: uint_t
  {
    assume "t \<in> bgq_tasks B"
    then have t: "unat t < unat (bm_size B)" by (simp add: bgq_tasks_def)
    then show "t \<noteq> - 1" using n full_size_less [OF s] by (simp add: unat_not_max)
    have "task_ok B (unat t)" using ok t by (simp add: cache_ok_def)
    then have "in_box (bm_sizes B) (task2network_impl B (ucast t))" by (simp add: task_ok_def)
    then show "digits_ok (bgq_dims B) (map unat (mp_task2network (bgq_mapping B) t))"
      by (simp add: bgq_mapping_def bgq_dims_def in_box_def)
    show "mp_network2task (bgq_mapping B) (mp_task2network (bgq_mapping B) t) = Some t"
      using cache_roundtrip(1) [OF ok t] by (simp add: bgq_mapping_def)
  }
  fix c assume "length c = mp_globalDims (bgq_mapping B)" and "mp_network2task (bgq_mapping B) c = Some t"
  then show "t \<in> bgq_tasks B \<and> mp_task2network (bgq_mapping B) t = c"
    using cache_inverse [OF ok, of c t] by (simp add: bgq_mapping_def bgq_tasks_def split: sum.splits)
qed

end
