(* ===== verification/Pami_TopologyAlgebra.thy ===== *)
theory Pami_TopologyAlgebra
  imports Pami_TopologySets
begin

text \<open>
  Conversions between the representations of a topology keep its tasks; intersection and
  difference are those of the sets of tasks, in the cases that the source handles.
\<close>

section \<open>Bounding boxes\<close>

text \<open>Tight bounds of a set of coordinates.\<close>

definition bounds_of :: "nat \<Rightarrow> coord \<times> coord \<Rightarrow> coord set \<Rightarrow> bool" where
  "bounds_of n lu C \<longleftrightarrow> length (fst lu) = n \<and> length (snd lu) = n \<and>
     (\<forall>i<n. (\<forall>c\<in>C. fst lu ! i \<le> c ! i \<and> c ! i \<le> snd lu ! i) \<and>
       fst lu ! i \<in> (\<lambda>c. c ! i) ` C \<and> snd lu ! i \<in> (\<lambda>c. c ! i) ` C)"

lemma bounds_of_init: "length c = n \<Longrightarrow> bounds_of n (initRange c n) {c}"
  by (simp add: bounds_of_def initRange_def)

lemma bounds_of_bump:
  assumes "bounds_of n lu C"
  shows "bounds_of n (bumpRange lu c n) (insert c C)"
proof -
  have "(\<forall>c'\<in>insert c C. fst (bumpRange lu c n) ! i \<le> c' ! i \<and> c' ! i \<le> snd (bumpRange lu c n) ! i) \<and>
      fst (bumpRange lu c n) ! i \<in> (\<lambda>c. c ! i) ` insert c C \<and> snd (bumpRange lu c n) ! i \<in> (\<lambda>c. c ! i) ` insert c C"
    if i: "i < n" for i
  proof -
    have b: "\<forall>c\<in>C. fst lu ! i \<le> c ! i \<and> c ! i \<le> snd lu ! i" "fst lu ! i \<in> (\<lambda>c. c ! i) ` C" "snd lu ! i \<in> (\<lambda>c. c ! i) ` C"
      using assms i by (auto simp: bounds_of_def)
    then have "fst lu ! i \<le> snd lu ! i" by auto
    then show ?thesis using b i by (auto simp: bumpRange_def)
  qed
  then show ?thesis by (simp add: bounds_of_def) (simp add: bumpRange_def)
qed

lemma bounding_box_bounds:
  assumes "length c = mp_globalDims M"
  shows "bounds_of (mp_globalDims M) (bounding_box M c cs) (insert c (set cs))"
proof -
  have "bounds_of n (foldl (\<lambda>lu c. bumpRange lu c n) lu cs) (C \<union> set cs)" if "bounds_of n lu C" for n lu C
    using that
  proof (induction cs arbitrary: lu C)
    case (Cons c cs)
    then show ?case using Cons.IH [OF bounds_of_bump [OF Cons.prems, of c]] by simp
  qed simp
  from this [OF bounds_of_init [OF assms]] show ?thesis by (simp add: bounding_box_def)
qed

text \<open>A box around coordinates of a larger box is a rectangle within it.\<close>

lemma rect_of_bounds:
  assumes "bounds_of n lu C" and "\<forall>c\<in>C. digits_ok ds (map unat c)" and "length ds = n" and "prod_list ds < 2 ^ 32"
  shows "rect_ok n (rect_of M lu)" and "C \<subseteq> {c. length c = n} \<Longrightarrow> C \<subseteq> {c. in_rect (rect_of M lu) c}"
    and "prod_list (rect_dims (rect_of M lu)) \<le> prod_list ds"
proof -
  obtain ll ur where lu: "lu = (ll, ur)" by (cases lu)
  have b: "length ll = n" "length ur = n" using assms(1) by (auto simp: bounds_of_def lu)
  have i: "ll ! i \<le> ur ! i" "unat (ur ! i) < ds ! i" "ds ! i < 2 ^ 32" if n: "i < n" for i
  proof -
    obtain c where c: "c \<in> C" "ur ! i = c ! i" "ll ! i \<le> c ! i" using assms(1) n by (fastforce simp: bounds_of_def lu)
    then have d: "digits_ok ds (map unat c)" using assms(2) by simp
    then have "length c = n" using digits_ok_length assms(3) by fastforce
    then show "ll ! i \<le> ur ! i" "unat (ur ! i) < ds ! i" using c d n assms(3) by (auto simp: digits_ok_iff)
    have "0 < prod_list ds" using mval_less [OF d] by simp
    then have "ds ! i \<le> prod_list ds" using n assms(3) by (intro dvd_imp_le) (auto intro: prod_list_dvd)
    then show "ds ! i < 2 ^ 32" using assms(4) by simp
  qed
  have le: "prod_list (rect_dims (rect_of M lu)) \<le> prod_list ds"
  proof (rule prod_list_mono)
    show "list_all2 (\<le>) (rect_dims (rect_of M lu)) ds"
      using b i assms(3) by (auto simp: list_all2_conv_all_nth rect_dims_def rect_of_def lu word_le_nat_alt) (metis Suc_leI diff_le_self order_le_less_trans)
  qed
  then show "prod_list (rect_dims (rect_of M lu)) \<le> prod_list ds" .
  show "rect_ok n (rect_of M lu)" unfolding rect_ok_def
    using b i le assms(4) by (fastforce simp: rect_of_def lu)
  show "C \<subseteq> {c. in_rect (rect_of M lu) c}" if "C \<subseteq> {c. length c = n}"
    using assms(1) that b by (auto simp: in_rect_def rect_of_def lu bounds_of_def)
qed

text \<open>A rectangle with no more points than it must contain consists of these.\<close>

lemma full_rect:
  assumes "rect_ok n r" and "C \<subseteq> {c. in_rect r c}" and "card C = prod_list (rect_dims r)"
  shows "{c. in_rect r c} = C"
proof -
  have "card {c. in_rect r c} = prod_list (rect_dims r)"
    using distinct_card [OF distinct_rect_points [OF assms(1)]] by (simp add: set_rect_points [OF assms(1)])
  moreover have "finite {c. in_rect r c}" using set_rect_points [OF assms(1)] by (metis List.finite_set)
  ultimately show ?thesis using assms(2,3) card_subset_eq by metis
qed

lemma full_span:
  assumes "set rs \<subseteq> {f..l}" and "distinct rs" and "length rs = length (span f l)"
  shows "set rs = {f..l}"
proof -
  have "card {f..l} = length rs" using distinct_card [OF distinct_span] assms(3) set_span by metis
  then show ?thesis using assms(1) card_subset_eq [OF _ assms(1)] distinct_card [OF assms(2)] set_span [of f l] by (metis List.finite_set)
qed

section \<open>Least and greatest ranks\<close>

lemma rank_bounds_ok:
  assumes "fst mm \<le> snd mm"
  shows "fst (rank_bounds mm rs) \<in> insert (fst mm) (set rs)" "snd (rank_bounds mm rs) \<in> insert (snd mm) (set rs)"
    "\<forall>r\<in>insert (fst mm) (insert (snd mm) (set rs)). fst (rank_bounds mm rs) \<le> r \<and> r \<le> snd (rank_bounds mm rs)"
proof -
  have "fst (rank_bounds mm rs) \<in> insert (fst mm) (set rs) \<and> snd (rank_bounds mm rs) \<in> insert (snd mm) (set rs) \<and>
    (\<forall>r\<in>insert (fst mm) (insert (snd mm) (set rs)). fst (rank_bounds mm rs) \<le> r \<and> r \<le> snd (rank_bounds mm rs))"
    using assms
  proof (induction rs arbitrary: mm)
    case Nil
    then show ?case by (simp add: rank_bounds_def)
  next
    case (Cons x rs)
    define m1 where "m1 = (if x < fst mm then (x, snd mm) else if snd mm < x then (fst mm, x) else mm)"
    have "rank_bounds mm (x # rs) = rank_bounds m1 rs" by (simp add: rank_bounds_def m1_def split_beta)
    moreover have "fst m1 \<le> snd m1" "fst m1 \<in> {fst mm, x}" "snd m1 \<in> {snd mm, x}" "fst m1 \<le> x" "x \<le> snd m1"
      "fst m1 \<le> fst mm" "snd mm \<le> snd m1" using Cons.prems by (auto simp: m1_def)
    ultimately show ?case using Cons.IH [of m1] Cons.prems by (auto intro: order_trans)
  qed
  then show "fst (rank_bounds mm rs) \<in> insert (fst mm) (set rs)" "snd (rank_bounds mm rs) \<in> insert (snd mm) (set rs)"
    "\<forall>r\<in>insert (fst mm) (insert (snd mm) (set rs)). fst (rank_bounds mm rs) \<le> r \<and> r \<le> snd (rank_bounds mm rs)" by auto
qed

lemma least_rank:
  "foldl (\<lambda>m r. if r < m then r else m) m rs \<in> insert m (set rs)"
  "\<forall>r\<in>insert m (set rs). foldl (\<lambda>m r. if r < m then r else m) m rs \<le> (r::pami_task_t)"
  by (induction rs arbitrary: m) (auto, (meson less_imp_le not_less order_trans)+)

lemma greatest_rank:
  "foldl (\<lambda>m r. if m < r then r else m) m rs \<in> insert m (set rs)"
  "\<forall>r\<in>insert m (set rs). (r::pami_task_t) \<le> foldl (\<lambda>m r. if m < r then r else m) m rs"
  by (induction rs arbitrary: m) (auto, (meson less_imp_le not_less order_trans)+)

lemma of_nat64_inj: "(of_nat m :: size_t) = of_nat n \<Longrightarrow> m < 2 ^ 32 \<Longrightarrow> n < 2 ^ 32 \<Longrightarrow> m = n"
proof -
  assume eq: "(of_nat m :: size_t) = of_nat n" and "m < 2 ^ 32" "n < 2 ^ 32"
  then have "m < 2 ^ 64" "n < 2 ^ 64" by simp_all
  then have "m = unat (of_nat m :: size_t)" "n = unat (of_nat n :: size_t)" by (simp_all add: unat_of_nat64)
  with eq show "m = n" by metis
qed

text \<open>A function that separates two sets keeps their difference.\<close>

lemma image_difference:
  assumes "\<And>x y. x \<in> A \<Longrightarrow> y \<in> B \<Longrightarrow> f x = f y \<Longrightarrow> x = y"
  shows "f ` (A - B) = f ` A - f ` B"
proof (intro equalityI subsetI)
  fix z assume "z \<in> f ` (A - B)"
  then obtain x where x: "x \<in> A" "x \<notin> B" "z = f x" by auto
  then have "z \<notin> f ` B" using assms [OF x(1)] by auto
  then show "z \<in> f ` A - f ` B" using x by simp
qed auto

lemma few_tasks:
  assumes "distinct xs" and "(- 1 :: pami_task_t) \<notin> set xs"
  shows "length xs < 2 ^ 32"
proof -
  have "set xs \<subseteq> of_nat ` {..<2 ^ 32 - 1 :: nat}"
  proof
    fix x assume "x \<in> set xs"
    then have "unat x < 2 ^ 32 - 1" using assms(2) by (metis unat_not_max)
    then show "x \<in> of_nat ` {..<2 ^ 32 - 1 :: nat}" by (intro image_eqI [of _ _ "unat x"]) simp_all
  qed
  then have "card (set xs) \<le> card {..<2 ^ 32 - 1 :: nat}" by (rule surj_card_le [rotated]) simp
  then show ?thesis using distinct_card [OF assms(1)] by simp
qed

section \<open>Conversion\<close>

text \<open>The result of a conversion: the same tasks and the same size in a well-formed topology.\<close>

definition keeps :: "mapping \<Rightarrow> pami_task_t set \<Rightarrow> topology \<Rightarrow> topology \<Rightarrow> bool" where
  "keeps M T t t' \<longleftrightarrow> topo_ok M T t' \<and> set (ranks M t') = set (ranks M t) \<and> tp_size t' = tp_size t"

text \<open>A conversion answers, and if the answer is yes, the topology has the new type.\<close>

definition converts :: "mapping \<Rightarrow> pami_task_t set \<Rightarrow> topology \<Rightarrow> topology_type \<Rightarrow> (bool \<times> topology) option \<Rightarrow> bool" where
  "converts M T t ty res \<longleftrightarrow>
     (\<exists>c t'. res = Some (c, t') \<and> keeps M T t t' \<and> (if c then type_impl t' = ty else t' = t))"

lemma sizeRange_same: "sizeRange c c n = 1"
  by (induction n) (simp_all add: sizeRange_def dimSize_def)

context torus_mapping
begin

lemma to_rect:
  assumes "map_ok b" and "set (r # rs) \<subseteq> tasks b" and "distinct (r # rs)"
    and "lu = bounding_box (mapping_of b) (mp_task2network (mapping_of b) r) (map (mp_task2network (mapping_of b)) rs)"
    and "R = rect_of (mapping_of b) lu"
  shows "rect_ok (mp_globalDims (mapping_of b)) R" and "prod_list (rect_dims R) < 2 ^ 32"
    and "sizeRange (fst lu) (snd lu) (mp_globalDims (mapping_of b)) = of_nat (prod_list (rect_dims R))"
    and "length (r # rs) = prod_list (rect_dims R) \<Longrightarrow>
      (\<forall>c. in_rect R c \<longrightarrow> mp_network2task (mapping_of b) c \<noteq> None) \<and>
      (\<lambda>c. COORDS2RANK (mapping_of b) c 0) ` set (rect_points R) = set (r # rs)"
proof -
  define C where "C = mp_task2network (mapping_of b) ` set (r # rs)"
  have bo: "bounds_of (mp_globalDims (mapping_of b)) lu C"
    using bounding_box_bounds [of "mp_task2network (mapping_of b) r" "mapping_of b" "map (mp_task2network (mapping_of b)) rs"]
      coords_length [OF assms(1)] assms(2,4) by (simp add: C_def)
  have dg: "\<forall>c\<in>C. digits_ok (dims b) (map unat c)" using task_coords [OF assms(1)] assms(2) by (auto simp: C_def)
  have ln: "C \<subseteq> {c. length c = mp_globalDims (mapping_of b)}" using coords_length [OF assms(1)] assms(2) by (auto simp: C_def)
  note rb = rect_of_bounds [OF bo dg dims_length [OF assms(1)] dims_small [OF assms(1)], of "mapping_of b", folded assms(5)]
  show ok: "rect_ok (mp_globalDims (mapping_of b)) R" by (rule rb(1))
  show "prod_list (rect_dims R) < 2 ^ 32" using rb(3) dims_small [OF assms(1)] by simp
  show "sizeRange (fst lu) (snd lu) (mp_globalDims (mapping_of b)) = of_nat (prod_list (rect_dims R))"
    using sizeRange_prod [OF ok order_refl] rect_okD(3) [OF ok] by (simp add: assms(5) rect_of_def split_beta)
  assume full: "length (r # rs) = prod_list (rect_dims R)"
  have "inj_on (mp_task2network (mapping_of b)) (set (r # rs))"
    using task_found [OF assms(1)] assms(2)
    by (intro inj_on_inverseI [where g = "\<lambda>c. the (mp_network2task (mapping_of b) c)"]) auto
  then have "card C = prod_list (rect_dims R)" unfolding C_def using distinct_card [OF assms(3)] full card_image by metis
  then have pts: "{c. in_rect R c} = C" by (rule full_rect [OF ok rb(2) [OF ln]])
  have found: "\<forall>t\<in>set (r # rs). mp_network2task (mapping_of b) (mp_task2network (mapping_of b) t) = Some t"
    using task_found [OF assms(1)] assms(2) by auto
  then have "\<forall>c. in_rect R c \<longrightarrow> mp_network2task (mapping_of b) c \<noteq> None"
    using set_eq_iff [THEN iffD1, OF pts] by (auto simp: C_def)
  moreover have "(\<lambda>c. COORDS2RANK (mapping_of b) c 0) ` C = set (r # rs)"
    using found by (auto simp: C_def COORDS2RANK_def image_iff)
  ultimately show "(\<forall>c. in_rect R c \<longrightarrow> mp_network2task (mapping_of b) c \<noteq> None) \<and>
      (\<lambda>c. COORDS2RANK (mapping_of b) c 0) ` set (rect_points R) = set (r # rs)"
    by (simp add: set_rect_points [OF ok] pts)
qed

lemma keeps_rect:
  assumes "map_ok b" and "topo_ok (mapping_of b) (tasks b) t" and "ranks (mapping_of b) t = r # rs"
    and "lu = bounding_box (mapping_of b) (mp_task2network (mapping_of b) r) (map (mp_task2network (mapping_of b)) rs)"
    and "sizeRange (fst lu) (snd lu) (mp_globalDims (mapping_of b)) = tp_size t"
  shows "keeps (mapping_of b) (tasks b) t (t\<lparr>tp_topo := T_coord (rect_of (mapping_of b) lu)\<rparr>)"
    and "keeps (mapping_of b) (tasks b) t (t\<lparr>tp_topo := T_coord (rect_of (mapping_of b) lu), tp_free_ranklist := False\<rparr>)"
proof -
  have sub: "set (r # rs) \<subseteq> tasks b" using assms(2,3) by (simp add: topo_ok_def)
  have d: "distinct (r # rs)" "length (r # rs) = unat (tp_size t)" using ranks_distinct [OF assms(1,2)] assms(3) by simp_all
  note tr = to_rect [OF assms(1) sub d(1) assms(4) refl]
  have "tp_size t = of_nat (prod_list (rect_dims (rect_of (mapping_of b) lu)))" using tr(3) assms(5) by simp
  moreover then have "length (r # rs) = prod_list (rect_dims (rect_of (mapping_of b) lu))" using d(2) tr(2) by (simp add: unat_of_nat64)
  ultimately show "keeps (mapping_of b) (tasks b) t (t\<lparr>tp_topo := T_coord (rect_of (mapping_of b) lu)\<rparr>)"
    "keeps (mapping_of b) (tasks b) t (t\<lparr>tp_topo := T_coord (rect_of (mapping_of b) lu), tp_free_ranklist := False\<rparr>)"
    using tr(1,4) assms(3) sub by (auto simp: keeps_def topo_ok_def ranks_def)
qed

lemma keeps_range:
  assumes "map_ok b" and "topo_ok (mapping_of b) (tasks b) t" and "set (ranks (mapping_of b) t) \<subseteq> {f..l}"
    and "f \<le> l" and "l \<noteq> - 1" and "tp_size t = ucast (l - f + 1)"
  shows "keeps (mapping_of b) (tasks b) t (t\<lparr>tp_topo := T_range f l\<rparr>)" and "keeps (mapping_of b) (tasks b) t (t\<lparr>tp_topo := T_range f l, tp_free_ranklist := False\<rparr>)"
proof -
  have d: "distinct (ranks (mapping_of b) t)" "length (ranks (mapping_of b) t) = unat (tp_size t)"
    using ranks_distinct [OF assms(1,2)] by simp_all
  have "length (span f l) < 2 ^ 64" using unat32_less [of l] by simp
  then have "length (ranks (mapping_of b) t) = length (span f l)"
    using d(2) assms(6) range_size [OF assms(4,5)] by (simp add: unat_of_nat64 del: length_span)
  then have "set (ranks (mapping_of b) t) = {f..l}" by (rule full_span [OF assms(3) d(1)])
  then show "keeps (mapping_of b) (tasks b) t (t\<lparr>tp_topo := T_range f l\<rparr>)" "keeps (mapping_of b) (tasks b) t (t\<lparr>tp_topo := T_range f l, tp_free_ranklist := False\<rparr>)"
    using assms(2,4-6) by (auto simp: keeps_def topo_ok_def ranks_def set_span)
qed

lemma keeps_list:
  assumes "map_ok b" and "topo_ok (mapping_of b) (tasks b) t" and "ranks (mapping_of b) t \<noteq> []"
    and "length (ranks (mapping_of b) t) < 2 ^ 32"
  shows "to_list t (ranks (mapping_of b) t) =
      Some (True, t\<lparr>tp_topo := T_list (ranks (mapping_of b) t), tp_free_ranklist := True\<rparr>)"
    and "keeps (mapping_of b) (tasks b) t (t\<lparr>tp_topo := T_list (ranks (mapping_of b) t), tp_free_ranklist := True\<rparr>)"
  using ranks_distinct [OF assms(1,2)] assms(2-4)
  by (auto simp: to_list_def keeps_def topo_ok_def ranks_def)

lemma keeps_single:
  assumes "topo_ok (mapping_of b) (tasks b) t" and "ranks (mapping_of b) t = [r]" and "tp_size t = 1"
  shows "keeps (mapping_of b) (tasks b) t (t\<lparr>tp_topo := T_single r\<rparr>)"
  using assms by (auto simp: keeps_def topo_ok_def ranks_def)

lemma analyzeCoordsRange_keeps:
  assumes "map_ok b" and "topo_ok (mapping_of b) (tasks b) t" and "tp_topo t = T_range f l"
  shows "converts (mapping_of b) (tasks b) t COORD_TOPOLOGY (analyzeCoordsRange (mapping_of b) t f l)"
proof -
  have fl: "f \<le> l" "l \<noteq> - 1" using assms(2,3) by (auto simp: topo_ok_def)
  have "ranks (mapping_of b) t = f # span (f + 1) l" using assms(3) span_Cons [OF fl] by (simp add: ranks_def)
  note kr = keeps_rect(1) [OF assms(1,2) this refl]
  show ?thesis using kr assms(2)
    by (auto simp: analyzeCoordsRange_def task_range_span [OF fl(2)] split_beta type_impl_def converts_def keeps_def)
qed

lemma analyzeCoordsList_keeps:
  assumes "map_ok b" and "topo_ok (mapping_of b) (tasks b) t" and "tp_topo t = T_list rl"
  shows "converts (mapping_of b) (tasks b) t COORD_TOPOLOGY (analyzeCoordsList (mapping_of b) t rl)"
proof -
  obtain r rs where rl: "rl = r # rs" using assms(2,3) by (cases rl) (auto simp: topo_ok_def)
  then have "ranks (mapping_of b) t = r # rs" using assms(3) by (simp add: ranks_def)
  note kr = keeps_rect(2) [OF assms(1,2) this refl]
  show ?thesis using kr assms(2) by (auto simp: analyzeCoordsList_def rl split_beta type_impl_def converts_def keeps_def Let_def)
qed

lemma analyzeRangeList_keeps:
  assumes "map_ok b" and "topo_ok (mapping_of b) (tasks b) t" and "tp_topo t = T_list rl"
  shows "converts (mapping_of b) (tasks b) t RANGE_TOPOLOGY (analyzeRangeList t rl)"
proof -
  obtain r rs where rl: "rl = r # rs" using assms(2,3) by (cases rl) (auto simp: topo_ok_def)
  then have ra: "ranks (mapping_of b) t = r # rs" using assms(3) by (simp add: ranks_def)
  obtain mn mx where m: "rank_bounds (r, r) rs = (mn, mx)" by (cases "rank_bounds (r, r) rs")
  have b: "mn \<in> set (r # rs)" "mx \<in> set (r # rs)" "\<forall>x\<in>set (r # rs). mn \<le> x \<and> x \<le> mx"
    using rank_bounds_ok [of "(r, r)" rs] m by simp_all
  then have "mn \<le> mx" "mx \<noteq> - 1" "set (ranks (mapping_of b) t) \<subseteq> {mn..mx}"
    using ra assms(2) task_valid [OF assms(1)] by (auto simp: topo_ok_def)
  note kr = keeps_range(2) [OF assms(1,2) this(3,1,2)]
  show ?thesis using kr assms(2) by (auto simp: analyzeRangeList_def rl m type_impl_def converts_def keeps_def)
qed

lemma coord_to_range_keeps:
  assumes "map_ok b" and "topo_ok (mapping_of b) (tasks b) t" and "ranks (mapping_of b) t \<noteq> []"
    and "mn = foldl (\<lambda>m r. if r < m then r else m) (- 1) (ranks (mapping_of b) t)"
    and "mx = foldl (\<lambda>m r. if m < r then r else m) 0 (ranks (mapping_of b) t)"
    and "tp_size t = ucast (mx - mn + 1)"
  shows "keeps (mapping_of b) (tasks b) t (t\<lparr>tp_topo := T_range mn mx\<rparr>)"
proof -
  let ?R = "ranks (mapping_of b) t"
  have "mx \<in> insert 0 (set ?R)" "\<forall>r\<in>set ?R. mn \<le> r \<and> r \<le> mx"
    using least_rank [of "- 1" ?R] greatest_rank [of 0 ?R] by (auto simp: assms(4,5))
  moreover then have "mn \<le> mx" using assms(3) by (cases ?R) (auto intro: order_trans)
  moreover have "\<forall>r\<in>set ?R. r \<noteq> - 1" using task_valid [OF assms(1)] assms(2) by (auto simp: topo_ok_def)
  ultimately show ?thesis using keeps_range(1) [OF assms(1,2) _ _ _ assms(6)] by fastforce
qed

lemma ranks_few:
  assumes "map_ok b" and "topo_ok (mapping_of b) (tasks b) t"
  shows "length (ranks (mapping_of b) t) < 2 ^ 32"
  using few_tasks [OF ranks_distinct(1) [OF assms]] task_valid [OF assms(1)] assms(2) by (auto simp: topo_ok_def)

lemma rect_nonempty: "rect_ok n r \<Longrightarrow> rect_points r \<noteq> []"
  using prod_pos [of n r] by (metis length_rect_points less_irrefl list.size(3))

lemma keeps_self: "topo_ok M T t \<Longrightarrow> keeps M T t t"
  by (simp add: keeps_def)

lemma convert_from_single:
  assumes "map_ok b" and "topo_ok (mapping_of b) (tasks b) t" and "tp_topo t = T_single r"
  shows "converts (mapping_of b) (tasks b) t ty (convertTopology_impl (mapping_of b) t ty)"
proof -
  have r: "ranks (mapping_of b) t = [r]" "tp_size t = 1" "r \<in> tasks b" using assms(2,3) by (auto simp: ranks_def topo_ok_def)
  have c: "length (mp_task2network (mapping_of b) r) = mp_globalDims (mapping_of b)" by (rule coords_length [OF assms(1) r(3)])
  have "keeps (mapping_of b) (tasks b) t
      (t\<lparr>tp_topo := T_coord (rect_of (mapping_of b) (mp_task2network (mapping_of b) r, mp_task2network (mapping_of b) r))\<rparr>)"
    using keeps_rect(1) [OF assms(1,2) r(1), of "(mp_task2network (mapping_of b) r, mp_task2network (mapping_of b) r)"] c r(2)
    by (simp add: bounding_box_def initRange_def sizeRange_same)
  moreover have "keeps (mapping_of b) (tasks b) t (t\<lparr>tp_topo := T_range r r\<rparr>)"
    using keeps_range(1) [OF assms(1,2), of r r] r task_valid [OF assms(1)] by simp
  moreover have "keeps (mapping_of b) (tasks b) t (t\<lparr>tp_topo := T_list [r], tp_free_ranklist := True\<rparr>)"
    using keeps_list(2) [OF assms(1,2)] r by simp
  ultimately show ?thesis using assms(3) keeps_self [OF assms(2)]
    by (cases ty) (auto simp: convertTopology_impl_def type_impl_def converts_def)
qed

lemma convert_from_range:
  assumes "map_ok b" and "topo_ok (mapping_of b) (tasks b) t" and "tp_topo t = T_range f l"
  shows "converts (mapping_of b) (tasks b) t ty (convertTopology_impl (mapping_of b) t ty)"
proof -
  have fl: "f \<le> l" "l \<noteq> - 1" using assms(2,3) by (auto simp: topo_ok_def)
  then have r: "ranks (mapping_of b) t = span f l" "span f l \<noteq> []" using assms(3) span_Cons [OF fl] by (simp_all add: ranks_def)
  have "keeps (mapping_of b) (tasks b) t (t\<lparr>tp_topo := T_single f\<rparr>)" if "tp_size t = 1"
  proof -
    have "length (span f l) = 1" using ranks_distinct(2) [OF assms(1,2)] that r(1) by simp
    then have "span f l = [f]" unfolding span_Cons [OF fl] by (simp del: length_span)
    then show ?thesis using keeps_single assms(2) r(1) that by simp
  qed
  moreover note analyzeCoordsRange_keeps [OF assms] and keeps_list [OF assms(1,2)] and ranks_few [OF assms(1,2)]
  ultimately show ?thesis using assms(3) keeps_self [OF assms(2)] r task_range_span [OF fl(2)]
    by (cases ty) (auto simp: convertTopology_impl_def type_impl_def converts_def)
qed

lemma convert_from_list:
  assumes "map_ok b" and "topo_ok (mapping_of b) (tasks b) t" and "tp_topo t = T_list rl"
    and "\<not> (ty = SINGLE_TOPOLOGY \<and> tp_size t = 1 \<and> tp_free_ranklist t)"
  shows "converts (mapping_of b) (tasks b) t ty (convertTopology_impl (mapping_of b) t ty)"
proof -
  have "keeps (mapping_of b) (tasks b) t (t\<lparr>tp_topo := T_single (rl ! 0)\<rparr>)" if "tp_size t = 1"
  proof -
    have "length rl = 1" using ranks_distinct(2) [OF assms(1,2)] that assms(3) by (simp add: ranks_def)
    then have "rl = [rl ! 0]" by (cases rl) auto
    then show ?thesis using keeps_single assms(2) that assms(3) by (simp add: ranks_def)
  qed
  moreover note analyzeCoordsList_keeps [OF assms(1-3)] and analyzeRangeList_keeps [OF assms(1-3)]
  ultimately show ?thesis using assms(3,4) keeps_self [OF assms(2)]
    by (cases ty) (auto simp: convertTopology_impl_def type_impl_def converts_def)
qed

lemma convert_from_coord:
  assumes "map_ok b" and "topo_ok (mapping_of b) (tasks b) t" and "tp_topo t = T_coord r"
  shows "converts (mapping_of b) (tasks b) t ty (convertTopology_impl (mapping_of b) t ty)"
proof -
  have r: "rect_ok (mp_globalDims (mapping_of b)) r" "\<forall>c. in_rect r c \<longrightarrow> mp_network2task (mapping_of b) c \<noteq> None"
    using assms(2,3) by (auto simp: topo_ok_def)
  have ra: "rect_ranks (mapping_of b) r = Some (ranks (mapping_of b) t)"
    using rect_ranks_points [OF assms(1) r] assms(3) by (simp add: ranks_def)
  have ne: "ranks (mapping_of b) t \<noteq> []" using rect_nonempty [OF r(1)] assms(3) by (simp add: ranks_def)
  have "rect_points r ! 0 = rs_ll r" using prod_pos [OF r(1)] rect_point_0 [OF r(1)] by (simp add: rect_points_def)
  then have "ranks (mapping_of b) t ! 0 = COORDS2RANK (mapping_of b) (rs_ll r) 0"
    using prod_pos [OF r(1)] assms(3) by (simp add: ranks_def)
  then have "keeps (mapping_of b) (tasks b) t (t\<lparr>tp_topo := T_single (COORDS2RANK (mapping_of b) (rs_ll r) 0)\<rparr>)" if "tp_size t = 1"
    using keeps_single [OF assms(2)] ranks_distinct(2) [OF assms(1,2)] that by (cases "ranks (mapping_of b) t") auto
  moreover note keeps_list [OF assms(1,2) ne ranks_few [OF assms(1,2)]] and coord_to_range_keeps [OF assms(1,2) ne refl refl]
  ultimately show ?thesis using assms(3) keeps_self [OF assms(2)] ra
    by (cases ty) (auto simp: convertTopology_impl_def type_impl_def Let_def converts_def)
qed

lemma convert_keeps:
  assumes "map_ok b" and "topo_ok (mapping_of b) (tasks b) t"
    and "\<not> (type_impl t = LIST_TOPOLOGY \<and> ty = SINGLE_TOPOLOGY \<and> tp_size t = 1 \<and> tp_free_ranklist t)"
  shows "converts (mapping_of b) (tasks b) t ty (convertTopology_impl (mapping_of b) t ty)"
proof (cases "tp_topo t")
  case T_empty
  then show ?thesis using keeps_self [OF assms(2)] by (auto simp: convertTopology_impl_def converts_def)
qed (use assms convert_from_single convert_from_range convert_from_list convert_from_coord
    in \<open>auto simp: topo_ok_def type_impl_def\<close>)

lemma analyze_keeps:
  assumes "map_ok b" and "topo_ok (mapping_of b) (tasks b) t" and "\<not> (type_impl t = LIST_TOPOLOGY \<and> tp_size t = 1)"
  shows "\<exists>c t'. analyzeTopology_impl (mapping_of b) t = Some (c, t') \<and> keeps (mapping_of b) (tasks b) t t' \<and> (\<not> c \<longrightarrow> t' = t)"
proof (cases "tp_topo t")
  case (T_range f l)
  have "converts (mapping_of b) (tasks b) t SINGLE_TOPOLOGY (convertTopology_impl (mapping_of b) t SINGLE_TOPOLOGY)"
    by (rule convert_from_range [OF assms(1,2) T_range])
  then show ?thesis using T_range analyzeCoordsRange_keeps [OF assms(1,2) T_range]
    by (auto simp: analyzeTopology_impl_def converts_def convertTopology_impl_def split: if_splits)
next
  case (T_list rl)
  then show ?thesis
    using analyzeCoordsList_keeps [OF assms(1,2) T_list] analyzeRangeList_keeps [OF assms(1,2) T_list] assms(3)
    by (auto simp: analyzeTopology_impl_def converts_def type_impl_def split: if_splits)
qed (use keeps_self [OF assms(2)] in \<open>auto simp: analyzeTopology_impl_def\<close>)

end

section \<open>Intersection\<close>

text \<open>The result represents the set \<open>S\<close>.\<close>

definition yields :: "mapping \<Rightarrow> pami_task_t set \<Rightarrow> pami_task_t set \<Rightarrow> topology option \<Rightarrow> bool" where
  "yields M T S res \<longleftrightarrow> (\<exists>t'. res = Some t' \<and> topo_ok M T t' \<and> set (ranks M t') = S)"

lemma yields_empty: "S = {} \<Longrightarrow> yields M T S (Some (make_empty new))" "S = {} \<Longrightarrow> yields M T S (Some (subtract_empty new))"
  by (auto simp: yields_def make_empty_def subtract_empty_def topo_ok_def ranks_def)

lemma yields_single: "r \<in> T \<Longrightarrow> S = {r} \<Longrightarrow> yields M T S (Some (single_new new r))"
  by (auto simp: yields_def single_new_def topo_ok_def ranks_def)

lemma yields_list:
  assumes "set rl \<subseteq> T" and "distinct rl" and "rl \<noteq> []" and "length rl < 2 ^ 32" and "length rl \<le> cap" and "set rl = S"
  shows "yields M T S (list_new new cap rl)"
  using assms by (auto simp: yields_def list_new_def topo_ok_def ranks_def)

lemma yields_filtered:
  assumes "set k \<subseteq> T" and "distinct k" and "length k < 2 ^ 32" and "length k \<le> cap" and "set k = S"
  shows "yields M T S (if k = [] then Some (make_empty new) else list_new new cap k)"
  using assms(5) yields_list [OF assms(1,2) _ assms(3-5)] yields_empty(1) [of S] by auto

lemma yields_range:
  assumes "f \<le> l" and "l \<noteq> - 1" and "{f..l} \<subseteq> T" and "S = {f..l}"
  shows "yields M T S (Some (new\<lparr>tp_topo := T_range f l, tp_size := ucast (l - f + 1), tp_free_ranklist := x\<rparr>))"
  using assms by (auto simp: yields_def topo_ok_def ranks_def set_span)

lemma yields_remaining:
  assumes "set rl \<subseteq> T" and "distinct rl" and "length rl < 2 ^ 32" and "length rl \<le> cap" and "set rl = S"
  shows "yields M T S (remaining new cap rl)"
proof (cases rl)
  case (Cons r rs)
  then show ?thesis
    using assms yields_single [of r T S M new] yields_list [OF assms(1,2) _ assms(3-5), of M new]
    by (cases rs) (auto simp: remaining_def)
qed (use assms yields_empty in \<open>simp add: remaining_def\<close>)

text \<open>Two rectangles that overlap.\<close>

definition overlap :: "nat \<Rightarrow> rectseg \<Rightarrow> rectseg \<Rightarrow> bool" where
  "overlap n r r' \<longleftrightarrow> (\<forall>i<n. rs_ll r ! i \<le> rs_ur r' ! i \<and> rs_ll r' ! i \<le> rs_ur r ! i)"

lemma meet_rect:
  assumes "rect_ok n r" and "rect_ok n r'" and "overlap n r r'"
    and "ll = coordMAX (rs_ll r) (rs_ll r') n" and "ur = coordMIN (rs_ur r) (rs_ur r') n"
  shows "rect_ok n (rect_of M (ll, ur))" and "in_rect (rect_of M (ll, ur)) c \<longleftrightarrow> in_rect r c \<and> in_rect r' c"
proof -
  have len: "length ll = n" "length ur = n" by (simp_all add: assms(4,5) coordMAX_def coordMIN_def)
  have nth: "ll ! i = max (rs_ll r ! i) (rs_ll r' ! i)" "ur ! i = min (rs_ur r ! i) (rs_ur r' ! i)" if "i < n" for i
    using that by (auto simp: assms(4,5) coordMAX_def coordMIN_def max_def min_def)
  have le: "ll ! i \<le> ur ! i" "unat (ur ! i) < 2 ^ 32 - 1" "unat (ur ! i) - unat (ll ! i) \<le> unat (rs_ur r ! i) - unat (rs_ll r ! i)"
    if "i < n" for i
    using nth [OF that] rect_okD(5,6) [OF assms(1) that] rect_okD(5,6) [OF assms(2) that] assms(3) that
    by (auto simp: overlap_def max_def min_def word_le_nat_alt)
  have "prod_list (rect_dims (rect_of M (ll, ur))) \<le> prod_list (rect_dims r)"
    using le len by (intro prod_list_mono) (auto simp: list_all2_conv_all_nth rect_okD(1,2) [OF assms(1)] rect_dims_def rect_of_def)
  then show "rect_ok n (rect_of M (ll, ur))"
    using le len rect_okD(4) [OF assms(1)] unfolding rect_ok_def by (simp add: rect_of_def)
  show "in_rect (rect_of M (ll, ur)) c \<longleftrightarrow> in_rect r c \<and> in_rect r' c"
    using nth len rect_okD(1) [OF assms(1)] rect_okD(1) [OF assms(2)] by (auto simp: in_rect_def rect_of_def)
qed

lemma common_filter:
  "distinct ys \<Longrightarrow> concat (map (\<lambda>x. filter (\<lambda>y. x = y) ys) xs) = filter (\<lambda>x. x \<in> set ys) xs"
proof (induction xs)
  case (Cons x xs)
  have "filter (\<lambda>y. x = y) ys = (if x \<in> set ys then [x] else [])"
    using Cons.prems by (induction ys) auto
  then show ?case using Cons by simp
qed simp

context torus_mapping
begin

lemma meet_ranks:
  assumes "map_ok b" and "rect_ok n r" and "rect_ok n r'" and "n = mp_globalDims (mapping_of b)"
    and "\<forall>c. in_rect r c \<longrightarrow> mp_network2task (mapping_of b) c \<noteq> None"
    and "\<forall>c. in_rect r' c \<longrightarrow> mp_network2task (mapping_of b) c \<noteq> None"
  shows "(\<lambda>c. COORDS2RANK (mapping_of b) c 0) ` {c. in_rect r c} \<inter> (\<lambda>c. COORDS2RANK (mapping_of b) c 0) ` {c. in_rect r' c} =
    (\<lambda>c. COORDS2RANK (mapping_of b) c 0) ` {c. in_rect r c \<and> in_rect r' c}"
proof -
  have "c = c'" if "in_rect r c" "in_rect r' c'" "COORDS2RANK (mapping_of b) c 0 = COORDS2RANK (mapping_of b) c' 0" for c c'
    using task_of_coord(2) [OF assms(1) _ that(1) assms(5)] task_of_coord(2) [OF assms(1) _ that(2) assms(6)] that(3) assms(2-4)
    by metis
  then show ?thesis by blast
qed

lemma intersect_coords:
  assumes "map_ok b" and "topo_ok (mapping_of b) (tasks b) t" and "topo_ok (mapping_of b) (tasks b) t'"
    and "tp_topo t = T_coord r" and "tp_topo t' = T_coord r'"
    and "overlap (mp_globalDims (mapping_of b)) r r' \<or> coordLT (rs_ur r) (rs_ll r') (mp_globalDims (mapping_of b)) \<or>
      coordLT (rs_ur r') (rs_ll r) (mp_globalDims (mapping_of b))"
  shows "yields (mapping_of b) (tasks b) (set (ranks (mapping_of b) t) \<inter> set (ranks (mapping_of b) t'))
    (intersectTopology_impl (mapping_of b) t t' new)"
proof -
  let ?M = "mapping_of b" and ?n = "mp_globalDims (mapping_of b)"
  have r: "rect_ok ?n r" "\<forall>c. in_rect r c \<longrightarrow> mp_network2task ?M c \<noteq> None"
    and r': "rect_ok ?n r'" "\<forall>c. in_rect r' c \<longrightarrow> mp_network2task ?M c \<noteq> None"
    using assms(2-5) by (auto simp: topo_ok_def)
  have S: "set (ranks ?M t) \<inter> set (ranks ?M t') = (\<lambda>c. COORDS2RANK ?M c 0) ` {c. in_rect r c \<and> in_rect r' c}"
    using meet_ranks [OF assms(1) r(1) r'(1) refl r(2) r'(2)] assms(4,5)
    by (simp add: ranks_def set_rect_points [OF r(1)] set_rect_points [OF r'(1)])
  have pos: "0 < ?n" using dims_nonempty [OF assms(1)] dims_length [OF assms(1)] by (metis length_greater_0_conv)
  show ?thesis
  proof (cases "coordLT (rs_ur r) (rs_ll r') ?n \<or> coordLT (rs_ur r') (rs_ll r) ?n")
    case True
    then have "rs_ur r ! 0 < rs_ll r' ! 0 \<or> rs_ur r' ! 0 < rs_ll r ! 0" using pos by (auto simp: coordLT_def list_all_iff not_le)
    moreover have "rs_ll r ! 0 \<le> c ! 0 \<and> c ! 0 \<le> rs_ur r ! 0 \<and> rs_ll r' ! 0 \<le> c ! 0 \<and> c ! 0 \<le> rs_ur r' ! 0"
      if "in_rect r c" "in_rect r' c" for c using that pos rect_okD(1) [OF r(1)] by (simp add: in_rect_def)
    ultimately have "{c. in_rect r c \<and> in_rect r' c} = {}" by (auto dest: order_trans [THEN leD])
    then have "set (ranks ?M t) \<inter> set (ranks ?M t') = {}" using S by simp
    then show ?thesis using True assms(4,5) yields_empty(1) by (simp add: intersectTopology_impl_def)
  next
    case False
    define ll ur where "ll = coordMAX (rs_ll r) (rs_ll r') ?n" and "ur = coordMIN (rs_ur r) (rs_ur r') ?n"
    have ov: "overlap ?n r r'" using False assms(6) by simp
    note m = meet_rect [OF r(1) r'(1) ov ll_def ur_def, of ?M]
    have "sizeRange ll ur ?n = of_nat (prod_list (rect_dims (rect_of ?M (ll, ur))))"
      using sizeRange_prod [OF m(1) order_refl] rect_okD(3) [OF m(1)] by (simp add: rect_of_def)
    moreover have "set (ranks ?M t) \<inter> set (ranks ?M t') \<subseteq> tasks b" using assms(2) by (auto simp: topo_ok_def)
    ultimately show ?thesis using False m r S assms(4,5) unfolding intersectTopology_impl_def yields_def
      by (auto simp: topo_ok_def ranks_def set_rect_points [OF m(1)] Let_def simp flip: ll_def ur_def)
  qed
qed

lemma intersect_lists:
  assumes "map_ok b" and "topo_ok (mapping_of b) (tasks b) t" and "topo_ok (mapping_of b) (tasks b) t'"
    and "tp_topo t = T_list rl" and "tp_topo t' = T_list rl'"
  shows "yields (mapping_of b) (tasks b) (set rl \<inter> set rl') (intersectTopology_impl (mapping_of b) t t' new)"
proof -
  let ?c = "filter (\<lambda>x. x \<in> set rl') rl"
  have rl: "distinct rl" "distinct rl'" "length rl < 2 ^ 32" "length rl' < 2 ^ 32" "set rl \<subseteq> tasks b"
    "tp_size t = of_nat (length rl)" "tp_size t' = of_nat (length rl')" using assms(2-5) by (auto simp: topo_ok_def ranks_def)
  have "set ?c \<subseteq> set rl'" "distinct ?c" using rl by auto
  then have "length ?c \<le> length rl'" using distinct_card card_mono by (metis List.finite_set rl(2))
  then have cap: "length ?c \<le> unat (if tp_size t < tp_size t' then tp_size t else tp_size t')"
    using rl by (simp add: unat_of_nat64)
  have few: "length ?c < 2 ^ 32" using rl(3) length_filter_le [of _ rl] by (rule order_le_less_trans [rotated])
  have "yields (mapping_of b) (tasks b) (set rl \<inter> set rl') (if ?c = [] then Some (make_empty new)
      else list_new new (unat (if tp_size t < tp_size t' then tp_size t else tp_size t')) ?c)"
    using cap few rl by (intro yields_filtered) auto
  then show ?thesis using assms(4,5) common_filter [OF rl(2), of rl]
    by (simp add: intersectTopology_impl_def Let_def del: concat_eq_Nil_conv)
qed

lemma intersect_ranges:
  assumes "map_ok b" and "topo_ok (mapping_of b) (tasks b) t" and "topo_ok (mapping_of b) (tasks b) t'"
    and "tp_topo t = T_range f l" and "tp_topo t' = T_range f' l'"
  shows "yields (mapping_of b) (tasks b) ({f..l} \<inter> {f'..l'}) (intersectTopology_impl (mapping_of b) t t' new)"
proof (cases "l < f' \<or> l' < f")
  case True
  then have "{f..l} \<inter> {f'..l'} = {}" by auto
  then show ?thesis using True assms(4,5) yields_empty(1) by (simp add: intersectTopology_impl_def)
next
  case False
  have r: "f \<le> l" "l \<noteq> - 1" "f' \<le> l'" "l' \<noteq> - 1" "{f..l} \<subseteq> tasks b"
    using assms(2-5) by (auto simp: topo_ok_def ranks_def set_span)
  define f1 l1 where "f1 = (if f' < f then f else f')" and "l1 = (if l < l' then l else l')"
  have m: "{f..l} \<inter> {f'..l'} = {f1..l1}" "f1 \<le> l1" "l1 \<noteq> - 1" using r False by (auto simp: f1_def l1_def)
  then have "{f1..l1} \<subseteq> tasks b" using r(5) by auto
  from yields_range [OF m(2,3) this m(1), of "mapping_of b" False new] show ?thesis
    using False assms(4,5) by (simp add: intersectTopology_impl_def Let_def f1_def l1_def)
qed

end

text \<open>The pairs of representations that the intersection handles: the same one, with rectangles that
  overlap or are apart in every dimension, or a single task or nothing on one side.\<close>

definition intersectable :: "nat \<Rightarrow> topology \<Rightarrow> topology \<Rightarrow> bool" where
  "intersectable n t t' \<longleftrightarrow>
     (case (tp_topo t, tp_topo t') of
        (T_coord r, T_coord r') \<Rightarrow>
          overlap n r r' \<or> coordLT (rs_ur r) (rs_ll r') n \<or> coordLT (rs_ur r') (rs_ll r) n
      | (T_range _ _, T_range _ _) \<Rightarrow> True
      | (T_list _, T_list _) \<Rightarrow> True
      | (a, b) \<Rightarrow> type_of a \<in> {SINGLE_TOPOLOGY, EMPTY_TOPOLOGY} \<or> type_of b \<in> {SINGLE_TOPOLOGY, EMPTY_TOPOLOGY})"

context torus_mapping
begin

lemma intersect_yields:
  assumes "map_ok b" and "topo_ok (mapping_of b) (tasks b) t" and "topo_ok (mapping_of b) (tasks b) t'"
    and "intersectable (mp_globalDims (mapping_of b)) t t'"
  shows "yields (mapping_of b) (tasks b) (set (ranks (mapping_of b) t) \<inter> set (ranks (mapping_of b) t'))
    (intersectTopology_impl (mapping_of b) t t' new)"
proof -
  note one = isRankMember_ranks [OF assms(1)] and sub = assms(2,3) [unfolded topo_ok_def]
  consider (coords) r r' where "tp_topo t = T_coord r" "tp_topo t' = T_coord r'"
    | (lists) rl rl' where "tp_topo t = T_list rl" "tp_topo t' = T_list rl'"
    | (ranges) f l f' l' where "tp_topo t = T_range f l" "tp_topo t' = T_range f' l'"
    | (left) r where "tp_topo t = T_single r"
    | (right) r where "tp_topo t' = T_single r" "\<forall>x. tp_topo t \<noteq> T_single x"
    | (empty) "tp_topo t = T_empty \<or> tp_topo t' = T_empty" "\<forall>x. tp_topo t \<noteq> T_single x" "\<forall>x. tp_topo t' \<noteq> T_single x"
    using assms(4) sub by (cases "tp_topo t"; cases "tp_topo t'") (auto simp: intersectable_def)
  then show ?thesis
  proof cases
    case coords
    then show ?thesis using intersect_coords [OF assms(1-3)] assms(4) by (auto simp: intersectable_def)
  next
    case lists
    then show ?thesis using intersect_lists [OF assms(1-3)] by (simp add: ranks_def)
  next
    case ranges
    then show ?thesis using intersect_ranges [OF assms(1-3)] by (simp add: ranks_def set_span)
  next
    case left
    then have r: "r \<in> tasks b" "set (ranks (mapping_of b) t) = {r}" using sub by (auto simp: ranks_def)
    show ?thesis using left r one [OF assms(3) r(1)] yields_single [OF r(1)] yields_empty(1)
      by (cases "tp_topo t'") (auto simp: intersectTopology_impl_def ranks_def)
  next
    case right
    then have r: "r \<in> tasks b" "set (ranks (mapping_of b) t') = {r}" using sub by (auto simp: ranks_def)
    show ?thesis using right r one [OF assms(2) r(1)] yields_single [OF r(1)] yields_empty(1)
      by (cases "tp_topo t") (auto simp: intersectTopology_impl_def)
  next
    case empty
    then have "set (ranks (mapping_of b) t) \<inter> set (ranks (mapping_of b) t') = {}" by (auto simp: ranks_def)
    then show ?thesis using empty yields_empty(1)
      by (cases "tp_topo t"; cases "tp_topo t'") (auto simp: intersectTopology_impl_def)
  qed
qed

end

section \<open>Difference\<close>

text \<open>The pairs that the difference handles. The source gets the others wrong: a single task minus
  anything but a single task, a range minus its middle, and anything minus nothing.\<close>

definition subtractable :: "topology \<Rightarrow> topology \<Rightarrow> bool" where
  "subtractable t t' \<longleftrightarrow>
     (case (tp_topo t, tp_topo t') of
        (T_empty, _) \<Rightarrow> True
      | (T_coord _, T_coord _) \<Rightarrow> True
      | (T_list _, T_list _) \<Rightarrow> True
      | (T_range f l, T_range f' l') \<Rightarrow> \<not> (f < f' \<and> l' < l)
      | (_, T_single _) \<Rightarrow> True
      | _ \<Rightarrow> False)"

lemma yields_copy: "topo_ok M T t \<Longrightarrow> set (ranks M t) = S \<Longrightarrow> yields M T S (Some (copy_topology t))"
  by (auto simp: yields_def copy_topology_def topo_ok_def ranks_def split: topo.splits)

lemma subtract_range_yields:
  assumes "f \<le> l" and "l \<noteq> - 1" and "f' \<le> l'" and "l' \<noteq> - 1" and "\<not> (f < f' \<and> l' < l)"
    and "topo_ok M T t" and "tp_topo t = T_range f l"
  shows "yields M T ({f..l} - {f'..l'}) (subtract_range t f l f' l' new)"
proof -
  have sub: "{f..l} \<subseteq> T" and ra: "set (ranks M t) = {f..l}" using assms(6,7) by (auto simp: topo_ok_def ranks_def set_span)
  consider (apart) "l < f' \<or> l' < f" | (inside) "f' \<le> f" "l \<le> l'" | (top) "f < f'" "f' \<le> l" "l \<le> l'" | (bottom) "f' \<le> f" "f \<le> l'" "l' < l"
    using assms(5) by fastforce
  then show ?thesis
  proof cases
    case apart
    then have "{f..l} - {f'..l'} = {f..l}" by auto
    then show ?thesis using apart yields_copy [OF assms(6) ra] assms(1,3) by (auto simp: subtract_range_def split: bool.splits)
  next
    case inside
    then have "{f..l} - {f'..l'} = {}" by auto
    from yields_empty(2) [OF this] show ?thesis using inside assms(1,3) by (auto simp: subtract_range_def split: bool.splits)
  next
    case top
    have u: "unat (f' - 1) = unat f' - 1" using top by (metis not_less unat_minus_one unsigned_0 word_coorder.extremum)
    then have eq: "{f..l} - {f'..l'} = {f..f' - 1}" "f \<le> f' - 1" "f' - 1 \<noteq> - 1"
      using top assms(2) by (auto simp: word_le_nat_alt word_less_nat_alt unat_not_max)
    moreover have "{f..f' - 1} \<subseteq> T" unfolding eq(1) [symmetric] using sub by auto
    ultimately show ?thesis using top yields_range [of f "f' - 1" T] assms(1,3) by (auto simp: subtract_range_def not_le split: bool.splits)
  next
    case bottom
    have u: "unat (l' + 1) = Suc (unat l')" using assms(4) by (rule unat_Suc32)
    then have eq: "{f..l} - {f'..l'} = {l' + 1..l}" "l' + 1 \<le> l"
      using bottom by (auto simp: word_le_nat_alt word_less_nat_alt)
    moreover have "{l' + 1..l} \<subseteq> T" unfolding eq(1) [symmetric] using sub by auto
    ultimately show ?thesis using bottom yields_range [of "l' + 1" l T] assms(1-3) by (auto simp: subtract_range_def not_le split: bool.splits)
  qed
qed

lemma range_without:
  assumes "r \<in> {f..l}" and "l \<noteq> - 1"
  shows "(map of_nat ([unat f..<unat r] @ [Suc (unat r)..<Suc (unat l)]) :: pami_task_t list) = filter (\<lambda>x. x \<noteq> r) (span f l)"
proof -
  have le: "unat f \<le> unat r" "unat r < Suc (unat l)" using assms by (auto simp: word_le_nat_alt)
  have "[unat f..<Suc (unat l)] = [unat f..<unat r] @ unat r # [Suc (unat r)..<Suc (unat l)]"
    using le upt_split [of "unat f" "unat r" "Suc (unat l)"] upt_conv_Cons [of "unat r" "Suc (unat l)"] by simp
  moreover have "(of_nat i :: pami_task_t) \<noteq> r" if "i \<noteq> unat r" "i < Suc (unat l)" for i
    using that unat_of_nat32 [of i] unat32_less [of l] by auto
  ultimately show ?thesis using le by (simp add: span_def filter_map comp_def del: upt_Suc)
qed

context torus_mapping
begin

lemma subtract_one_yields:
  assumes "map_ok b" and "topo_ok (mapping_of b) (tasks b) t" and "r' \<in> tasks b" and "\<forall>x. tp_topo t \<noteq> T_single x"
  shows "yields (mapping_of b) (tasks b) (set (ranks (mapping_of b) t) - {r'}) (subtract_one (mapping_of b) t r' new)"
proof -
  let ?R = "ranks (mapping_of b) t"
  note d = ranks_distinct [OF assms(1,2)] and few = ranks_few [OF assms(1,2)]
    and mem = isRankMember_ranks [OF assms(1,2,3)]
  have le: "length (filter (\<lambda>x. x \<noteq> r') ?R) \<le> length ?R" by simp
  have rest: "yields (mapping_of b) (tasks b) (set ?R - {r'}) (remaining new (unat (tp_size t)) (filter (\<lambda>x. x \<noteq> r') ?R))"
  proof (rule yields_remaining)
    show "set (filter (\<lambda>x. x \<noteq> r') ?R) \<subseteq> tasks b" using assms(2) by (auto simp: topo_ok_def)
  qed (use d few le in \<open>auto simp: order_le_less_trans\<close>)
  have copy: "yields (mapping_of b) (tasks b) (set ?R - {r'}) (Some (copy_topology t))" if "r' \<notin> set ?R"
    using that yields_copy [OF assms(2)] by simp
  show ?thesis
  proof (cases "tp_topo t")
    case (T_coord r)
    then have "rect_ranks (mapping_of b) r = Some ?R"
      using rect_ranks_points [OF assms(1), of r] assms(2) by (simp add: topo_ok_def ranks_def)
    then show ?thesis using T_coord rest copy mem by (simp add: subtract_one_def)
  next
    case (T_range f l)
    then have "?R = span f l" "l \<noteq> - 1" using assms(2) by (auto simp: ranks_def topo_ok_def)
    then show ?thesis using T_range rest copy mem range_without [of r' f l] by (simp add: subtract_one_def set_span)
  next
    case (T_list rl)
    then show ?thesis using rest by (simp add: subtract_one_def ranks_def)
  qed (use assms yields_empty(2) in \<open>auto simp: subtract_one_def ranks_def topo_ok_def\<close>)
qed

lemma mapped_digits:
  assumes "map_ok b" and "rect_ok (mp_globalDims (mapping_of b)) r" and "in_rect r c"
    and "\<forall>c. in_rect r c \<longrightarrow> mp_network2task (mapping_of b) c \<noteq> None"
  shows "digits_ok (dims b) (map unat c)"
  using task_coords [OF assms(1) task_of_coord(1) [OF assms, of 0]] task_of_coord(2) [OF assms, of 0] by simp

lemma rect_is_kept:
  assumes "map_ok b" and "rect_ok (mp_globalDims (mapping_of b)) r" and "\<forall>c. in_rect r c \<longrightarrow> mp_network2task (mapping_of b) c \<noteq> None"
    and "distinct kept" and "set kept \<subseteq> {c. in_rect r c}" and "lu = bounding_box (mapping_of b) (rs_ll r) kept"
  shows "rect_ok (mp_globalDims (mapping_of b)) (rect_of (mapping_of b) lu)"
    and "sizeRange (fst lu) (snd lu) (mp_globalDims (mapping_of b)) = of_nat (length kept) \<Longrightarrow> length kept < 2 ^ 32 \<Longrightarrow>
      prod_list (rect_dims (rect_of (mapping_of b) lu)) = length kept \<and> {c. in_rect (rect_of (mapping_of b) lu) c} = set kept"
proof -
  let ?n = "mp_globalDims (mapping_of b)" and ?C = "insert (rs_ll r) (set kept)" and ?R = "rect_of (mapping_of b) lu"
  have ll: "in_rect r (rs_ll r)" using rect_okD(1,5) [OF assms(2)] by (simp add: in_rect_def)
  then have C: "?C \<subseteq> {c. in_rect r c}" using assms(5) by simp
  have bo: "bounds_of ?n lu ?C" unfolding assms(6) by (rule bounding_box_bounds) (rule rect_okD(1) [OF assms(2)])
  have dg: "\<forall>c\<in>?C. digits_ok (dims b) (map unat c)" using mapped_digits [OF assms(1,2) _ assms(3)] C by auto
  note rb = rect_of_bounds [OF bo dg dims_length [OF assms(1)] dims_small [OF assms(1)], of "mapping_of b"]
  show ok: "rect_ok ?n ?R" by (rule rb(1))
  assume size: "sizeRange (fst lu) (snd lu) ?n = of_nat (length kept)" "length kept < 2 ^ 32"
  have "prod_list (rect_dims ?R) < 2 ^ 32" using rb(3) dims_small [OF assms(1)] by simp
  moreover have "of_nat (prod_list (rect_dims ?R)) = (of_nat (length kept) :: size_t)"
    using size(1) sizeRange_prod [OF ok order_refl] rect_okD(3) [OF ok] by (simp add: rect_of_def split_beta)
  ultimately have eq: "prod_list (rect_dims ?R) = length kept"
    using size(2) by (intro of_nat64_inj)
  have "?C \<subseteq> {c. length c = ?n}" using C rect_okD(1) [OF assms(2)] by (auto simp: in_rect_def)
  from rb(2) [OF this] have "set kept \<subseteq> {c. in_rect ?R c}" by simp
  from full_rect [OF ok this] eq show "prod_list (rect_dims ?R) = length kept \<and> {c. in_rect ?R c} = set kept"
    using distinct_card [OF assms(4)] by simp
qed

lemma kept_ranks:
  assumes "map_ok b" and "rect_ok (mp_globalDims (mapping_of b)) r" and "\<forall>c. in_rect r c \<longrightarrow> mp_network2task (mapping_of b) c \<noteq> None"
    and "distinct kept" and "set kept \<subseteq> {c. in_rect r c}" and "rl = map (\<lambda>c. COORDS2RANK (mapping_of b) c 0) kept"
  shows "distinct rl" and "set rl \<subseteq> tasks b" and "ranks_of (mapping_of b) 0 kept = rl" and "length rl < 2 ^ 32"
proof -
  have orig: "mp_task2network (mapping_of b) (COORDS2RANK (mapping_of b) c 0) = c" "COORDS2RANK (mapping_of b) c 0 \<in> tasks b"
    if "c \<in> set kept" for c using task_of_coord(1,2) [OF assms(1,2) _ assms(3), of c 0] that assms(5) by auto
  then have "inj_on (\<lambda>c. COORDS2RANK (mapping_of b) c 0) (set kept)"
    by (intro inj_on_inverseI [where g = "mp_task2network (mapping_of b)"]) simp
  then show d: "distinct rl" using assms(4,6) by (simp add: distinct_map)
  show t: "set rl \<subseteq> tasks b" using orig(2) assms(6) by auto
  show "ranks_of (mapping_of b) 0 kept = rl" using ranks_of_mapped [OF assms(1,2) _ assms(3)] assms(5,6) by auto
  show "length rl < 2 ^ 32" using few_tasks [OF d] t task_valid [OF assms(1)] by auto
qed

lemma range_is_kept:
  assumes "map_ok b" and "distinct rl" and "set rl \<subseteq> tasks b" and "length rl < 2 ^ 32"
    and mn: "mn = foldl (\<lambda>m r. if r < m then r else m) 0 rl" and mx: "mx = foldl (\<lambda>m r. if m < r then r else m) 0 rl"
    and "ucast (mx - mn + 1) = (of_nat (length rl) :: size_t)"
  shows "set rl = {mn..mx} \<and> mn \<le> mx \<and> mx \<noteq> - 1"
proof -
  have m: "mx \<in> insert 0 (set rl)" "\<forall>r\<in>set rl. mn \<le> r \<and> r \<le> mx" "mn \<le> mx"
    using least_rank [of 0 rl] greatest_rank [of 0 rl] by (auto simp: mn mx intro: order_trans)
  then have top: "mx \<noteq> - 1" using assms(3) task_valid [OF assms(1)] by auto
  then have "length (span mn mx) < 2 ^ 32" using unat_not_max [of mx] by simp
  then have "length rl = length (span mn mx)" using assms(4,7) range_size [OF m(3) top] of_nat64_inj by metis
  moreover have "set rl \<subseteq> {mn..mx}" using m(2) by auto
  ultimately show ?thesis using full_span [OF _ assms(2)] m(3) top by metis
qed

lemma kept_difference:
  assumes "map_ok b" and "rect_ok n r" and "rect_ok n r'" and "n = mp_globalDims (mapping_of b)"
    and "\<forall>c. in_rect r c \<longrightarrow> mp_network2task (mapping_of b) c \<noteq> None"
    and "\<forall>c. in_rect r' c \<longrightarrow> mp_network2task (mapping_of b) c \<noteq> None"
    and "kept = filter (\<lambda>c. \<not> isMemberCoord r' c n) (rect_points r)"
  shows "set kept = {c. in_rect r c \<and> \<not> in_rect r' c}"
    and "(\<lambda>c. COORDS2RANK (mapping_of b) c 0) ` set kept =
      (\<lambda>c. COORDS2RANK (mapping_of b) c 0) ` {c. in_rect r c} - (\<lambda>c. COORDS2RANK (mapping_of b) c 0) ` {c. in_rect r' c}"
proof -
  show K: "set kept = {c. in_rect r c \<and> \<not> in_rect r' c}"
    using isMemberCoord_iff [OF assms(3)] rect_okD(1) [OF assms(2)]
    by (auto simp: assms(7) set_rect_points [OF assms(2)] in_rect_def)
  have "c = c'" if "in_rect r c" "in_rect r' c'" "COORDS2RANK (mapping_of b) c 0 = COORDS2RANK (mapping_of b) c' 0" for c c'
    using task_of_coord(2) [OF assms(1) _ that(1) assms(5)] task_of_coord(2) [OF assms(1) _ that(2) assms(6)] that(3) assms(2-4)
    by metis
  then show "(\<lambda>c. COORDS2RANK (mapping_of b) c 0) ` set kept =
      (\<lambda>c. COORDS2RANK (mapping_of b) c 0) ` {c. in_rect r c} - (\<lambda>c. COORDS2RANK (mapping_of b) c 0) ` {c. in_rect r' c}"
    unfolding K using image_difference [of "{c. in_rect r c}" "{c. in_rect r' c}" "\<lambda>c. COORDS2RANK (mapping_of b) c 0"]
    by (simp add: set_diff_eq)
qed

lemma subtract_rect_yields:
  assumes "map_ok b" and "topo_ok (mapping_of b) (tasks b) t" and "topo_ok (mapping_of b) (tasks b) t'"
    and "tp_topo t = T_coord r" and "tp_topo t' = T_coord r'"
  shows "yields (mapping_of b) (tasks b) (set (ranks (mapping_of b) t) - set (ranks (mapping_of b) t'))
    (subtract_rect (mapping_of b) t r r' new)"
proof -
  let ?M = "mapping_of b" and ?n = "mp_globalDims (mapping_of b)" and ?rank = "\<lambda>c. COORDS2RANK (mapping_of b) c 0"
  have r: "rect_ok ?n r" "\<forall>c. in_rect r c \<longrightarrow> mp_network2task ?M c \<noteq> None" "tp_size t = of_nat (prod_list (rect_dims r))"
    and r': "rect_ok ?n r'" "\<forall>c. in_rect r' c \<longrightarrow> mp_network2task ?M c \<noteq> None"
    using assms(2-5) by (auto simp: topo_ok_def)
  define kept where "kept = filter (\<lambda>c. \<not> isMemberCoord r' c ?n) (rect_points r)"
  define rl where "rl = map ?rank kept"
  define lu where "lu = bounding_box ?M (rs_ll r) kept"
  define mn where "mn = foldl (\<lambda>m r. if r < m then r else m) 0 rl"
  define mx where "mx = foldl (\<lambda>m r. if m < r then r else m) 0 rl"
  note kd = kept_difference [OF assms(1) r(1) r'(1) refl r(2) r'(2) kept_def]
  have dk: "distinct kept" "set kept \<subseteq> {c. in_rect r c}" using distinct_rect_points [OF r(1)] kd(1) by (auto simp: kept_def)
  note kr = kept_ranks [OF assms(1) r(1,2) dk rl_def] and rk = rect_is_kept [OF assms(1) r(1,2) dk lu_def]
  note range = range_is_kept [OF assms(1) kr(1,2,4) mn_def mx_def]
  have S: "set (ranks ?M t) - set (ranks ?M t') = set rl"
    using kd(2) assms(4,5) by (simp add: rl_def ranks_def set_rect_points [OF r(1)] set_rect_points [OF r'(1)])
  have len: "length rl \<le> unat (tp_size t)"
    using r(3) rect_okD(4) [OF r(1)] by (simp add: rl_def kept_def unat_of_nat64 length_filter_le [of _ "rect_points r", simplified])
  have full: "set (map ?rank (rect_points (rect_of ?M lu))) = set rl \<and> prod_list (rect_dims (rect_of ?M lu)) = length rl \<and>
      (\<forall>c. in_rect (rect_of ?M lu) c \<longrightarrow> mp_network2task ?M c \<noteq> None)"
    if "sizeRange (fst lu) (snd lu) ?n = of_nat (length rl)"
    using rk(2) that kr(4) r(2) dk(2) by (auto simp: rl_def set_rect_points [OF rk(1)])
  show ?thesis
    unfolding S using len full range kr rk(1)
    by (auto simp: subtract_rect_def coords_from_points [OF r(1)] Let_def split_beta kr(3) yields_empty
        yields_def topo_ok_def ranks_def set_span subtract_empty_def simp flip: kept_def lu_def mn_def mx_def)
qed

lemma subtract_yields:
  assumes "map_ok b" and "topo_ok (mapping_of b) (tasks b) t" and "topo_ok (mapping_of b) (tasks b) t'" and "subtractable t t'"
  shows "yields (mapping_of b) (tasks b) (set (ranks (mapping_of b) t) - set (ranks (mapping_of b) t'))
    (subtractTopology_impl (mapping_of b) t t' new)"
proof -
  note sub = assms(2,3) [unfolded topo_ok_def]
  consider (coords) r r' where "tp_topo t = T_coord r" "tp_topo t' = T_coord r'"
    | (lists) rl rl' where "tp_topo t = T_list rl" "tp_topo t' = T_list rl'"
    | (ranges) f l f' l' where "tp_topo t = T_range f l" "tp_topo t' = T_range f' l'"
    | (singles) r r' where "tp_topo t = T_single r" "tp_topo t' = T_single r'"
    | (right) r where "tp_topo t' = T_single r" "\<forall>x. tp_topo t \<noteq> T_single x"
    | (empty) "tp_topo t = T_empty" "\<forall>x. tp_topo t' \<noteq> T_single x"
    using assms(4) sub by (cases "tp_topo t"; cases "tp_topo t'") (auto simp: subtractable_def)
  then show ?thesis
  proof cases
    case coords
    then show ?thesis using subtract_rect_yields [OF assms(1-3)] by (simp add: subtractTopology_impl_def)
  next
    case lists
    let ?k = "filter (\<lambda>r. \<not> isRankMember_impl (mapping_of b) t' r) rl"
    have rl: "distinct rl" "length rl < 2 ^ 32" "set rl \<subseteq> tasks b" "unat (tp_size t) = length rl"
      using lists sub by (auto simp: ranks_def unat_of_nat64)
    have k: "set ?k = set rl - set rl'" using isRankMember_ranks [OF assms(1,3)] rl(3) lists by (auto simp: ranks_def)
    moreover have "length ?k \<le> length rl" by simp
    ultimately have "yields (mapping_of b) (tasks b) (set rl - set rl')
        (if ?k = [] then Some (make_empty new) else list_new new (unat (tp_size t)) ?k)"
      using rl by (intro yields_filtered) (simp_all del: length_filter_le, blast)
    then show ?thesis using lists by (simp add: subtractTopology_impl_def ranks_def Let_def)
  next
    case ranges
    then have "f \<le> l" "l \<noteq> - 1" "f' \<le> l'" "l' \<noteq> - 1" "\<not> (f < f' \<and> l' < l)" using sub assms(4) by (auto simp: subtractable_def)
    from subtract_range_yields [OF this assms(2) ranges(1)] show ?thesis
      using ranges by (simp add: subtractTopology_impl_def ranks_def set_span)
  next
    case singles
    then show ?thesis using yields_copy [OF assms(2)] yields_empty(2) by (auto simp: subtractTopology_impl_def ranks_def)
  next
    case right
    then have "r \<in> tasks b" using sub by (auto simp: ranks_def)
    from subtract_one_yields [OF assms(1,2) this right(2)] show ?thesis
      using right by (cases "tp_topo t") (auto simp: subtractTopology_impl_def ranks_def)
  next
    case empty
    then show ?thesis using yields_empty(2) by (cases "tp_topo t'") (auto simp: subtractTopology_impl_def ranks_def)
  qed
qed

end

end
