(* ===== verification/Pami_TopologyProps.thy ===== *)
theory Pami_TopologyProps
  imports Pami_TopologyAlgebra
begin

unbundle bit_operations_syntax

text \<open>
  The properties of topologies on a Blue Gene/Q partition whose map cache is filled.
\<close>

section \<open>An example partition\<close>

definition demo_booted :: bgq_map where
  "demo_booted = booted (True, 0, 0) (\<lambda>_. False) demo_kernel 3 [] [] demo_map"

lemma demo_cache: "cache_ok demo_booted"
  unfolding demo_booted_def by (rule booted_ok [OF demo_kernel_ok])

lemma demo_tasks: "bgq_tasks demo_booted = {t. unat t < 3}"
proof -
  have "bm_size demo_booted = of_nat 3" unfolding demo_booted_def using booted_tables [OF demo_kernel_ok] by metis
  then show ?thesis by (simp add: bgq_tasks_def)
qed

definition demo_list :: topology where
  "demo_list = Topology_list [2, 0] 0 1"

definition demo_range :: topology where
  "demo_range = Topology_range 0 2"

lemma demo_list_ok: "topo_ok (bgq_mapping demo_booted) (bgq_tasks demo_booted) demo_list"
  by (simp add: demo_list_def Topology_list_def topo_ok_def ranks_def demo_tasks)

lemma demo_range_ok: "topo_ok (bgq_mapping demo_booted) (bgq_tasks demo_booted) demo_range"
  by (auto simp: demo_range_def Topology_range_def topo_ok_def ranks_def demo_tasks set_span word_le_nat_alt)

section \<open>Properties\<close>



text \<open>C26: Walking a rectangle with \<^verbatim>\<open>__nextCoord\<close> from its lower left corner ends and visits
  every coordinate in it exactly once; the size of the rectangle is their number.\<close>

theorem topology_walk_ends:
  assumes "rect_ok n r"
  shows "\<exists>cs. coords_from r n (rs_ll r) = Some cs \<and> distinct cs \<and> set cs = {c. in_rect r c} \<and>
    sizeRange (rs_ll r) (rs_ur r) n = of_nat (length cs)"
  using coords_from_points [OF assms] distinct_rect_points [OF assms] set_rect_points [OF assms]
    sizeRange_prod [OF assms order_refl] rect_okD(3) [OF assms] by simp

theorem topology_walk_ends_witness:
  "\<exists>cs. coords_from \<lparr>rs_ll = [0, 1], rs_ur = [1, 3], rs_istorus = []\<rparr> 2 [0, 1] = Some cs \<and> length cs = 6 \<and> distinct cs"
proof -
  let ?r = "\<lparr>rs_ll = [0, 1], rs_ur = [1, 3], rs_istorus = []\<rparr>"
  have two: "(\<forall>i<2. P i) \<longleftrightarrow> P 0 \<and> P (Suc 0)" for P :: "nat \<Rightarrow> bool" by (auto simp: less_2_cases_iff)
  have ok: "rect_ok 2 ?r" by (simp add: rect_ok_def rect_dims_def two)
  obtain cs where cs: "coords_from ?r 2 (rs_ll ?r) = Some cs" "distinct cs" "sizeRange (rs_ll ?r) (rs_ur ?r) 2 = of_nat (length cs)"
    using topology_walk_ends [OF ok] by blast
  then have "cs = rect_points ?r" using coords_from_points [OF ok] by simp
  then show ?thesis using cs(1,2) by (simp add: rect_dims_def)
qed

text \<open>C27: The loop over the tasks of a range ends exactly when the last task is not the largest
  number of the type.\<close>

theorem topology_range_ends: "(\<exists>rs. task_range f l = Some rs) = (l \<noteq> - 1)"
  using task_range_span [of l f] task_range_endless [of f] by (cases "l = - 1") auto









section \<open>Endpoints\<close>

lemma mask23: "(0x7fffff :: uint_t) = mask 23" "(0x3f :: uint_t) = mask 6"
  by (simp_all add: mask_eq_exp_minus_1)

lemma small_bits:
  assumes "unat (x :: 'a::len word) < 2 ^ n" and "bit x k"
  shows "k < n"
proof (rule ccontr)
  assume "\<not> k < n"
  then have "(2::nat) ^ n \<le> 2 ^ k" by simp
  with assms(1) have "unat x < 2 ^ k" by linarith
  then have "take_bit k x = x" by (simp add: word_unat_eq_iff unsigned_take_bit_eq take_bit_nat_eq_self)
  then have "bit x k = bit (take_bit k x) k" by simp
  then show False using assms(2) by (simp add: bit_take_bit_iff)
qed

lemma endpoint_roundtrip:
  assumes "unat task < 2 ^ 23" and "unat offset < 64"
  shows "PAMI_ENDPOINT_INFO (PAMI_ENDPOINT_INIT task offset) = (task, offset)"
proof -
  have o: "unat offset < 2 ^ 6" using assms(2) by simp
  have "PAMI_ENDPOINT_INIT task offset AND 0x7fffff = task"
    by (rule bit_eqI) (use small_bits [OF assms(1)] in \<open>auto simp: mask23 PAMI_ENDPOINT_INIT_def bit_simps\<close>)
  moreover have "ucast (drop_bit 23 (PAMI_ENDPOINT_INIT task offset) AND 0x3f) = offset"
    by (rule bit_eqI) (use small_bits [OF assms(1)] small_bits [OF o] in \<open>fastforce simp: mask23 PAMI_ENDPOINT_INIT_def bit_simps\<close>)
  ultimately show ?thesis by (simp add: PAMI_ENDPOINT_INFO_def)
qed

lemma all_contexts_rank:
  assumes "tp_all_contexts t" and "tp_offset t \<noteq> 0" and "\<forall>e. tp_topo t \<noteq> T_eplist e"
  shows "index2Rank_impl M t i = index2Rank_impl M (t\<lparr>tp_all_contexts := False\<rparr>) (i div tp_offset t)"
  using assms by (cases "tp_topo t") (simp_all add: index2Rank_impl_def Let_def)

lemma contexts_endpoints:
  assumes "cache_ok B" and "M = bgq_mapping B" and "topo_ok M (bgq_tasks B) t" and "tp_all_contexts t"
    and "\<forall>r\<in>bgq_tasks B. unat r < 2 ^ 23" and "0 < unat (tp_offset t)" and "unat (tp_offset t) \<le> 64"
  shows "unat (topo_size_impl t) = length (ranks M t) * unat (tp_offset t) \<and>
    (\<forall>k<length (ranks M t). \<forall>c<unat (tp_offset t).
       \<exists>e. index2Endpoint_impl M t (of_nat (k * unat (tp_offset t) + c)) = Some e \<and>
         mp_endpoint_info M e = (ranks M t ! k, of_nat c) \<and>
         endpoint2Index_impl M t e = of_nat (k * unat (tp_offset t) + c))"
proof -
  let ?R = "ranks M t" and ?o = "unat (tp_offset t)"
  have ok: "topo_ok (bgq_mapping B) (bgq_tasks B) t" and ok': "topo_ok (bgq_mapping B) (bgq_tasks B) (t\<lparr>tp_all_contexts := False\<rparr>)"
    using assms(2,3) by (auto simp: topo_ok_def ranks_def split: topo.splits)
  have same: "ranks (bgq_mapping B) (t\<lparr>tp_all_contexts := False\<rparr>) = ?R" by (simp add: ranks_def assms(2))
  have ne: "\<forall>e. tp_topo t \<noteq> T_eplist e" using ok by (auto simp: topo_ok_def)
  have o: "tp_offset t \<noteq> 0" using assms(6) by auto
  have len: "length ?R = unat (tp_size t)" "length ?R < 2 ^ 32"
    using bgq.ranks_distinct(2) [OF assms(1) ok] bgq.ranks_few [OF assms(1) ok] by (simp_all add: assms(2))
  then have lt: "length ?R * ?o < 2 ^ 64" using assms(7) mult_le_mono [of "length ?R" "2 ^ 32 - 1" ?o 64] by simp
  have "unat (topo_size_impl t) = length ?R * ?o"
    using lt len(1) assms(4) by (simp add: topo_size_impl_def unat_mult_lem [THEN iffD1])
  moreover have "\<exists>e. index2Endpoint_impl M t (of_nat (k * ?o + c)) = Some e \<and>
      mp_endpoint_info M e = (?R ! k, of_nat c) \<and> endpoint2Index_impl M t e = of_nat (k * ?o + c)"
    if k: "k < length ?R" "c < ?o" for k c
  proof -
    have "k * ?o + c < Suc k * ?o" using k(2) by simp
    also have "\<dots> \<le> length ?R * ?o" using k(1) by (intro mult_le_mono1) simp
    finally have i: "unat (of_nat (k * ?o + c) :: size_t) = k * ?o + c" using lt by (intro unat_of_nat64) simp
    have kk: "k < 2 ^ 64" "c < 2 ^ 64" using k(1) len(2) k(2) assms(7) by simp_all
    have d: "(of_nat (k * ?o + c) :: size_t) div tp_offset t = of_nat k" "(of_nat (k * ?o + c) :: size_t) mod tp_offset t = of_nat c"
      using k(2) i kk by (simp_all only: word_unat_eq_iff unat_div unat_mod i unat_of_nat64) simp_all
    have r: "?R ! k \<in> bgq_tasks B" using assms(3) k(1) by (auto simp: topo_ok_def)
    have "index2Rank_impl M t (of_nat (k * ?o + c)) = Some (?R ! k)"
      unfolding all_contexts_rank [OF assms(4) o ne] d
      using bgq.index2Rank_ranks [OF assms(1) ok', of "of_nat k"] k(1) kk(1) same by (simp add: assms(2) unat_of_nat64)
    then have "index2Endpoint_impl M t (of_nat (k * ?o + c)) = Some (PAMI_ENDPOINT_INIT (?R ! k) (of_nat c))"
      using ne d(2) assms(4) by (cases "tp_topo t") (simp_all add: index2Endpoint_impl_def assms(2) bgq_mapping_def)
    moreover have info: "mp_endpoint_info M (PAMI_ENDPOINT_INIT (?R ! k) (of_nat c)) = (?R ! k, of_nat c)"
      using endpoint_roundtrip [of "?R ! k" "of_nat c"] assms(5) r k(2) assms(7) by (simp add: assms(2) bgq_mapping_def unat_of_nat64)
    moreover have "endpoint2Index_impl M t (PAMI_ENDPOINT_INIT (?R ! k) (of_nat c)) = of_nat (k * ?o + c)"
      using info ne assms(4) bgq.rank2Index_ranks(1) [OF assms(1) ok, of k] k(1)
      by (cases "tp_topo t") (simp_all add: endpoint2Index_impl_def assms(2))
    ultimately show ?thesis by blast
  qed
  ultimately show ?thesis by blast
qed

text \<open>C29: A topology of all contexts is its list of endpoints, context by context within each task:
  its size counts them, and indices and endpoints translate into each other.\<close>

theorem topology_endpoints:
  assumes "cache_ok B" and "M = bgq_mapping B" and "topo_ok M (bgq_tasks B) t" and "tp_all_contexts t"
    and "\<forall>r\<in>bgq_tasks B. unat r < 2 ^ 23" and "0 < unat (tp_offset t)" and "unat (tp_offset t) \<le> 64"
  shows "unat (topo_size_impl t) = length (ranks M t) * unat (tp_offset t) \<and>
    (\<forall>k<length (ranks M t). \<forall>c<unat (tp_offset t).
       \<exists>e. index2Endpoint_impl M t (of_nat (k * unat (tp_offset t) + c)) = Some e \<and>
         mp_endpoint_info M e = (ranks M t ! k, of_nat c) \<and>
         endpoint2Index_impl M t e = of_nat (k * unat (tp_offset t) + c))"
  using assms by (rule contexts_endpoints)

definition demo_contexts :: topology where
  "demo_contexts = Topology_eprange 0 2 PAMI_ALL_CONTEXTS 4"

theorem topology_endpoints_witness:
  "\<exists>e. index2Endpoint_impl (bgq_mapping demo_booted) demo_contexts 7 = Some e \<and>
    mp_endpoint_info (bgq_mapping demo_booted) e = (1, 3) \<and> endpoint2Index_impl (bgq_mapping demo_booted) demo_contexts e = 7"
proof -
  have ok: "topo_ok (bgq_mapping demo_booted) (bgq_tasks demo_booted) demo_contexts"
    by (auto simp: demo_contexts_def Topology_eprange_def Topology_range_def topo_ok_def ranks_def demo_tasks set_span word_le_nat_alt)
  have c: "tp_all_contexts demo_contexts" "tp_offset demo_contexts = 4" "\<forall>r\<in>bgq_tasks demo_booted. unat r < 2 ^ 23"
    by (auto simp: demo_contexts_def Topology_eprange_def demo_tasks)
  have r: "ranks (bgq_mapping demo_booted) demo_contexts = [0, 1, 2]"
    by (simp add: ranks_def demo_contexts_def Topology_eprange_def Topology_range_def span_def upt_rec)
  have o: "0 < unat (tp_offset demo_contexts)" "unat (tp_offset demo_contexts) \<le> 64" by (simp_all add: c(2))
  from topology_endpoints [OF demo_cache refl ok c(1,3) o, THEN conjunct2, THEN spec, of 1, unfolded r c(2), THEN mp, THEN spec, of 3]
  show ?thesis by simp
qed

section \<open>Where the source is wrong\<close>

text \<open>A single task minus a topology that contains it is that task, and minus another one nothing.\<close>

lemma subtract_single_inverted:
  "subtractTopology_impl M (Topology_single 1) (Topology_range 0 2) new = Some (single_new new 1)"
  "subtractTopology_impl M (Topology_single 3) (Topology_range 0 2) new = Some (subtract_empty new)"
  by (simp_all add: subtractTopology_impl_def Topology_single_def Topology_range_def isRankMember_impl_def)

text \<open>Subtracting nothing leaves nothing.\<close>

lemma subtract_nothing: "subtractTopology_impl M (Topology_range 0 2) Topology_empty new = Some (subtract_empty new)"
  by (simp add: subtractTopology_impl_def Topology_range_def Topology_empty_def)

text \<open>The ranks left when the middle of a range is removed are not stored in the result.\<close>

lemma subtract_middle: "subtractTopology_impl M (Topology_range 0 4) (Topology_range 1 2) new = None"
  by (simp add: subtractTopology_impl_def Topology_range_def subtract_range_def)

text \<open>Rectangles that are apart in one dimension only have a non-empty intersection.\<close>

lemma intersect_apart:
  assumes "mp_globalDims M = 2"
  shows "\<exists>r. intersectTopology_impl M (Topology_coord M [0, 0] [1, 1] None) (Topology_coord M [0, 3] [1, 4] None) new = Some r \<and>
    tp_size r = 0x1fffffffe \<and> type_impl r = COORD_TOPOLOGY"
proof -
  have u: "[0..<2] = [0, 1 :: nat]" by (simp add: upt_rec)
  have d: "(ucast (dimSize 3 1) :: size_t) = 0xffffffff" "(ucast (dimSize 0 1) :: size_t) = 2" by (simp_all add: dimSize_def, code_simp+)
  show ?thesis
    using assms d
    by (simp add: intersectTopology_impl_def Topology_coord_def coordLT_def coordMAX_def coordMIN_def sizeRange_def
        type_impl_def rect_of_def u Let_def)
qed

text \<open>A list of one rank is taken for a rectangle by the analysis, and read after it is freed by the
  conversion.\<close>

lemma one_rank_list:
  "analyzeTopology_impl M (Topology_list [5] 0 1) = None"
  "convertTopology_impl M (copy_topology (Topology_list [5] 0 1)) SINGLE_TOPOLOGY = None"
  by (simp_all add: analyzeTopology_impl_def convertTopology_impl_def copy_topology_def Topology_list_def)

end
