(* ===== verification/Pami_Schedules.thy ===== *)
theory Pami_Schedules
  imports Pami_ScheduleSpec Pami_TopologyProps
begin

unbundle bit_operations_syntax

text \<open>
  The multinomial schedules of all processes of a group together. Every process builds its own tree
  from the same topology; the properties say that the trees fit: what one sends another expects, and
  after the last phase the collective operation is complete.
\<close>

section \<open>The trees of a group\<close>

definition tree_of :: "nat \<Rightarrow> mapping \<Rightarrow> topology \<Rightarrow> uint_t \<Rightarrow> uint_t \<Rightarrow> mtree \<Rightarrow> endpoint \<Rightarrow> mtree option" where
  "tree_of mx M t op root s e = mt_init M root op (MultinomialTreeT mx M e t s)"

definition eplist_of :: "topology \<Rightarrow> endpoint list" where
  "eplist_of t = (case tp_topo t of T_eplist eps \<Rightarrow> eps | _ \<Rightarrow> [])"

definition in_window :: "mtree \<Rightarrow> nat \<Rightarrow> bool" where
  "in_window s p \<longleftrightarrow> unat (mt_startphase s) \<le> p \<and> p < unat (mt_startphase s) + unat (mt_nphases s)"

text \<open>The sources and destinations of a phase that lies in the window that \<^verbatim>\<open>init\<close> reports;
  an executor asks for no others.\<close>

definition sched_src :: "mapping \<Rightarrow> (endpoint \<Rightarrow> mtree) \<Rightarrow> endpoint \<Rightarrow> nat \<Rightarrow> endpoint list" where
  "sched_src M T e p =
     (if in_window (T e) p then (case getSrcTopology M (T e) (of_nat p) of Some t \<Rightarrow> eplist_of t | None \<Rightarrow> []) else [])"

definition sched_dst :: "mapping \<Rightarrow> (endpoint \<Rightarrow> mtree) \<Rightarrow> endpoint \<Rightarrow> nat \<Rightarrow> endpoint list" where
  "sched_dst M T e p =
     (if in_window (T e) p then (case getDstTopology M (T e) (of_nat p) of Some t \<Rightarrow> eplist_of t | None \<Rightarrow> []) else [])"

lemma all_some_map: "(\<And>x. x \<in> set xs \<Longrightarrow> f (g x) = Some (h x)) \<Longrightarrow> all_some f (map g xs) = Some (map h xs)"
  by (induction xs) simp_all

lemma nodes_endpoints:
  assumes "endpoint_group M t n" and "root < n" and "mt_map r = TopologyMap (rooted M t root i)"
    and "src_nodes r ph = map of_nat xs" and "dst_nodes r ph = map of_nat ys" and "set xs \<subseteq> {..<n}" and "set ys \<subseteq> {..<n}"
  shows "getSrcTopology M r ph = Some (Topology_eplist (map (\<lambda>j. ep M t (unrel n root j)) xs))"
    and "getDstTopology M r ph = Some (Topology_eplist (map (\<lambda>j. ep M t (unrel n root j)) ys))"
  using assms rooted_global [OF assms(1,2)]
  by (auto simp: getSrcTopology_def getDstTopology_def subset_iff intro!: exI all_some_map)

lemma eplist_Topology_eplist [simp]: "eplist_of (Topology_eplist xs) = xs"
  by (simp add: eplist_of_def Topology_eplist_def)

lemma new_tree_shaped:
  assumes "endpoint_group M t n" and "i < n" and "2 ^ K \<le> n" and "n < 2 ^ Suc K"
  shows "shaped (MultinomialTreeT mx M (ep M t i) t s) (rooted M t 0 i) n K (tree_lr mx n) (K div tree_lr mx n) i"
proof -
  have "0 < n" using assms(1) by (simp add: endpoint_group_def)
  then show ?thesis
    using initBinoSched_shaped [OF _ rooted_placed [OF assms(1,2) _ assms(3,4), of 0], of "s\<lparr>mt_map := TopologyMap (rooted M t 0 i)\<rparr>"]
    by (simp add: MultinomialTreeT_def unrooted [OF assms(1)] rel_def)
qed

lemma shaped_reroot:
  assumes "shaped s m n K lr N me" and "placed m' n K me'"
  shows "shaped (s\<lparr>mt_op := op, mt_map := TopologyMap m'\<rparr>) m' n K lr N me'"
  using assms by (simp add: shaped_def)

lemma shaped_lr: "shaped s m n K lr N me \<Longrightarrow> 1 \<le> lr \<and> lr dvd K \<and> K div lr = N"
  by (auto simp: shaped_def)

section \<open>Barrier and allreduce\<close>

lemma all_outside:
  assumes "\<not> (fst (all_window n K lr x) \<le> p \<and> p < fst (all_window n K lr x) + snd (all_window n K lr x))" and "x < n"
  shows "all_src n K lr x p = []" and "all_dst n K lr x p = []"
  using assms by (auto simp: all_window_def all_src_def all_dst_def split: if_splits)

lemma all_window_small: "shaped s m n K lr N me \<Longrightarrow> fst (all_window n K lr x) < 64 \<and> snd (all_window n K lr x) < 64"
  using shaped_phases(2,3) [of s m n K lr N me] by (auto simp: all_window_def)

lemma all_tree:
  assumes g: "endpoint_group M t n" and K: "2 ^ K \<le> n" "n < 2 ^ Suc K" and op: "op = BARRIER_OP \<or> op = ALLREDUCE_OP" and "i < n"
    and lr: "lr = tree_lr mx n"
  shows "\<exists>r. tree_of mx M t op root s (ep M t i) = Some r \<and> shaped r (rooted M t 0 i) n K lr (K div lr) i \<and> all_context op n K lr (K div lr) i r \<and>
    (\<forall>p. (if in_window r p then getSrcTopology M r (of_nat p) else Some (Topology_eplist [])) = Some (Topology_eplist (map (ep M t) (all_src n K lr i p)))) \<and>
    (\<forall>p. (if in_window r p then getDstTopology M r (of_nat p) else Some (Topology_eplist [])) = Some (Topology_eplist (map (ep M t) (all_dst n K lr i p))))"
proof -
  note sh = new_tree_shaped [OF g assms(5) K, of mx s, folded lr]
  obtain r where r: "tree_of mx M t op root s (ep M t i) = Some r" "shaped r (rooted M t 0 i) n K lr (K div lr) i" "all_context op n K lr (K div lr) i r"
    using all_init [OF sh op] unfolding tree_of_def by blast
  let ?w = "all_window n K lr i"
  have win: "in_window r p \<longleftrightarrow> fst ?w \<le> p \<and> p < fst ?w + snd ?w" for p
    using r(3) all_window_small [OF sh, of i] small_phase(1) by (simp add: in_window_def all_context_def)
  have n: "0 < n" "mt_map r = TopologyMap (rooted M t 0 i)" using g r(2) by (auto simp: endpoint_group_def shaped_def)
  have un: "map (\<lambda>j. ep M t (unrel n 0 j)) xs = map (ep M t) xs" if "set xs \<subseteq> {..<n}" for xs
    using that by (intro map_cong) (auto simp: unrel_def)
  have "getSrcTopology M r (of_nat p) = Some (Topology_eplist (map (ep M t) (all_src n K lr i p))) \<and>
      getDstTopology M r (of_nat p) = Some (Topology_eplist (map (ep M t) (all_dst n K lr i p)))" if "in_window r p" for p
  proof -
    have p: "p \<le> K div lr + 1" using that win by (auto simp: all_window_def split: if_splits)
    note nodes = all_nodes [OF sh op r(1) [unfolded tree_of_def] p] and lists = all_lists(3,4) [OF K(1) assms(5)]
    show ?thesis using nodes_endpoints [OF g n nodes lists] un [OF lists(1)] un [OF lists(2)] by simp
  qed
  moreover have "all_src n K lr i p = []" "all_dst n K lr i p = []" if "\<not> in_window r p" for p
    using all_outside [OF _ assms(5)] win that by auto
  ultimately show ?thesis using r by auto
qed

lemma all_sched:
  assumes g: "endpoint_group M t n" and K: "2 ^ K \<le> n" "n < 2 ^ Suc K" and op: "op = BARRIER_OP \<or> op = ALLREDUCE_OP"
    and lr: "lr = tree_lr mx n" and T: "\<forall>i<n. tree_of mx M t op root s (ep M t i) = Some (T (ep M t i))" and "i < n"
  shows "sched_src M T (ep M t i) p = map (ep M t) (all_src n K lr i p)" and "sched_dst M T (ep M t i) p = map (ep M t) (all_dst n K lr i p)"
    and "shaped (T (ep M t i)) (rooted M t 0 i) n K lr (K div lr) i" and "all_context op n K lr (K div lr) i (T (ep M t i))"
proof -
  obtain r where "tree_of mx M t op root s (ep M t i) = Some r" "shaped r (rooted M t 0 i) n K lr (K div lr) i" "all_context op n K lr (K div lr) i r"
    "(if in_window r p then getSrcTopology M r (of_nat p) else Some (Topology_eplist [])) = Some (Topology_eplist (map (ep M t) (all_src n K lr i p)))"
    "(if in_window r p then getDstTopology M r (of_nat p) else Some (Topology_eplist [])) = Some (Topology_eplist (map (ep M t) (all_dst n K lr i p)))"
    using all_tree [OF g K op assms(7) lr] by blast
  moreover have "T (ep M t i) = r" using T assms(7) calculation(1) by simp
  moreover have "Topology_eplist xs = Topology_eplist ys \<longleftrightarrow> xs = ys" for xs ys by (auto simp: Topology_eplist_def)
  ultimately show "sched_src M T (ep M t i) p = map (ep M t) (all_src n K lr i p)" "sched_dst M T (ep M t i) p = map (ep M t) (all_dst n K lr i p)"
    "shaped (T (ep M t i)) (rooted M t 0 i) n K lr (K div lr) i" "all_context op n K lr (K div lr) i (T (ep M t i))"
    by (auto simp: sched_src_def sched_dst_def split: if_splits)
qed

lemma image_mset_ep:
  assumes "endpoint_group M t n"
  shows "image_mset (ep M t) (mset_set {..<n}) = mset_set (ep M t ` {..<n})"
  using ep_inj [OF assms] by (intro image_mset_mset_set) (auto simp: inj_on_def)

text \<open>C30: in an allreduce over any group of endpoints, in any of the radices, every process gets a
  schedule; what a process sends in a phase is what the receiver expects in that phase; and after
  all phases every process has combined the contribution of every process exactly once.\<close>

theorem multinomial_allreduce:
  assumes "endpoint_group M t n" and "E = ep M t ` {..<n}"
  shows "\<exists>T P. (\<forall>e\<in>E. tree_of mx M t ALLREDUCE_OP root s e = Some (T e) \<and> (\<forall>p\<ge>P. \<not> in_window (T e) p)) \<and>
    (\<forall>e\<in>E. \<forall>f\<in>E. \<forall>p. f \<in> set (sched_dst M T e p) \<longleftrightarrow> e \<in> set (sched_src M T f p)) \<and>
    (\<forall>e\<in>E. contribs (sched_src M T) (\<lambda>e. unat (mt_lastrdcph (T e))) P e = mset_set E)"
proof -
  obtain K where K: "2 ^ K \<le> n" "n < 2 ^ Suc K" using log_exists assms(1) by (auto simp: endpoint_group_def)
  define lr where "lr = tree_lr mx n"
  define T where "T e = the (tree_of mx M t ALLREDUCE_OP root s e)" for e
  have T: "\<forall>i<n. tree_of mx M t ALLREDUCE_OP root s (ep M t i) = Some (T (ep M t i))"
  proof (intro allI impI)
    fix i assume "i < n"
    then obtain r where "tree_of mx M t ALLREDUCE_OP root s (ep M t i) = Some r"
      using all_tree [OF assms(1) K _ _ refl, of ALLREDUCE_OP i mx root s] by blast
    then show "tree_of mx M t ALLREDUCE_OP root s (ep M t i) = Some (T (ep M t i))" by (simp add: T_def)
  qed
  note sc = all_sched [OF assms(1) K _ lr_def T] 
  have sh: "shaped (T (ep M t 0)) (rooted M t 0 0) n K lr (K div lr) 0" using assms(1) by (intro sc(3)) (auto simp: endpoint_group_def)
  have lr: "1 \<le> lr" "lr dvd K" and N: "K div lr < 31" using shaped_lr [OF sh] shaped_N [OF sh] by simp_all
  have inj: "ep M t i = ep M t j \<longleftrightarrow> i = j" if "i < n" "j < n" for i j using ep_inj [OF assms(1) that] by blast
  have mem: "ep M t i \<in> ep M t ` set xs \<longleftrightarrow> i \<in> set xs" if "i < n" "set xs \<subseteq> {..<n}" for i xs
    using inj that by (auto simp: image_iff subset_iff)
  have "ep M t j \<in> set (sched_dst M T (ep M t i) p) \<longleftrightarrow> ep M t i \<in> set (sched_src M T (ep M t j) p)" if "i < n" "j < n" for i j p
    using that sc(1,2) mem all_lists(3,4) [OF K(1)] all_match [OF K] by simp
  moreover have "contribs (sched_src M T) (\<lambda>e. unat (mt_lastrdcph (T e))) (K div lr + 2) (ep M t i) = mset_set E" if "i < n" for i
  proof -
    have last: "unat (mt_lastrdcph (T (ep M t x))) = (if 2 ^ K \<le> x then K div lr else unat (- 1 :: uint_t))" if "x < n" for x
      using sc(4) [OF _ that] N small_phase(1) [of "K div lr"] by (simp add: all_context_def)
    have big: "K div lr < unat (- 1 :: uint_t)" using N by (simp add: unsigned_minus_1_eq_mask mask_eq_exp_minus_1)
    have "contribs (sched_src M T) (\<lambda>e. unat (mt_lastrdcph (T e))) (K div lr + 2) (ep M t i) =
        image_mset (ep M t) (contribs (all_src n K lr) (\<lambda>x. unat (mt_lastrdcph (T (ep M t x)))) (K div lr + 2) i)"
      using that sc(1) all_lists(3) [OF K(1)] by (intro contribs_rename [where A = "{..<n}"]) auto
    also have "contribs (all_src n K lr) (\<lambda>x. unat (mt_lastrdcph (T (ep M t x)))) (K div lr + 2) i = mset_set {..<n}"
      using last big K by (intro all_reduced [OF K lr that]) auto
    finally show ?thesis using image_mset_ep [OF assms(1)] assms(2) by simp
  qed
  moreover have "\<not> in_window (T (ep M t i)) p" if "i < n" "K div lr + 2 \<le> p" for i p
    using sc(3,4) [OF _ that(1)] that(2) all_window_small [OF sc(3) [OF _ that(1)], of i] small_phase(1)
    by (auto simp: in_window_def all_context_def all_window_def)
  ultimately show ?thesis using T by (intro exI [of _ T] exI [of _ "K div lr + 2"]) (auto simp: assms(2))
qed

section \<open>Rooted collectives\<close>

lemma rooted_init:
  assumes g: "endpoint_group M t n" and K: "2 ^ K \<le> n" "n < 2 ^ Suc K" and op: "op = REDUCE_OP \<or> op = BROADCAST_OP"
    and "x < n" and "root < n" and lr: "lr = tree_lr mx n"
  obtains s' where "shaped s' (rooted M t root (unrel n root x)) n K lr (K div lr) x" and "mt_op s' = op"
    and "tree_of mx M t op (ep M t root) s (ep M t (unrel n root x)) =
      map_option (\<lambda>(st, np, r). r\<lparr>mt_startphase := st, mt_nphases := np\<rparr>) (setupContext s')"
proof
  let ?i = "unrel n root x"
  let ?s = "MultinomialTreeT mx M (ep M t ?i) t s"
  let ?s' = "?s\<lparr>mt_op := op, mt_map := TopologyMap (rooted M t root ?i)\<rparr>"
  have i: "?i < n" "rel n root ?i = x" using rel_unrel(1) [OF assms(6,5)] by auto
  show "shaped ?s' (rooted M t root ?i) n K lr (K div lr) x"
    using shaped_reroot [OF new_tree_shaped [OF g i(1) K, of mx s]] rooted_placed [OF g i(1) assms(6) K] i(2) lr by simp
  show "mt_op ?s' = op" by simp
  have "mt_map ?s = TopologyMap (rooted M t 0 ?i)" using new_tree_shaped [OF g i(1) K, of mx s] by (simp add: shaped_def)
  moreover have "tm_setRoot M (ep M t root) (rooted M t 0 ?i) = rooted M t root ?i" by (simp add: rooted_def tm_setRoot_def)
  ultimately show "tree_of mx M t op (ep M t root) s (ep M t ?i) =
      map_option (\<lambda>(st, np, r). r\<lparr>mt_startphase := st, mt_nphases := np\<rparr>) (setupContext ?s')"
    using op by (cases "setupContext ?s'") (auto simp: tree_of_def mt_init_def)
qed

lemma shaped_window [simp]: "shaped (r\<lparr>mt_startphase := st, mt_nphases := np\<rparr>) m n K lr N me = shaped r m n K lr N me"
  by (simp add: shaped_def)

lemma node_lists:
  assumes "endpoint_group M t n" and "root < n" and "mt_map r = TopologyMap (rooted M t root i)"
    and "\<And>p. in_window r p \<longleftrightarrow> st \<le> p \<and> p < st + np"
    and "\<And>p. st \<le> p \<Longrightarrow> p < st + np \<Longrightarrow> src_nodes r (of_nat p) = map of_nat (src p) \<and> dst_nodes r (of_nat p) = map of_nat (dst p)"
    and "\<And>p. \<not> (st \<le> p \<and> p < st + np) \<Longrightarrow> src p = [] \<and> dst p = []"
    and "\<And>p. set (src p) \<subseteq> {..<n} \<and> set (dst p) \<subseteq> {..<n}" and "T e = r"
  shows "sched_src M T e p = map (\<lambda>j. ep M t (unrel n root j)) (src p)" and "sched_dst M T e p = map (\<lambda>j. ep M t (unrel n root j)) (dst p)"
proof -
  have "getSrcTopology M r (of_nat p) = Some (Topology_eplist (map (\<lambda>j. ep M t (unrel n root j)) (src p)))"
    "getDstTopology M r (of_nat p) = Some (Topology_eplist (map (\<lambda>j. ep M t (unrel n root j)) (dst p)))" if "in_window r p"
    using nodes_endpoints [OF assms(1-3), of "of_nat p" "src p" "dst p"] assms(4,5,7) that by auto
  then show "sched_src M T e p = map (\<lambda>j. ep M t (unrel n root j)) (src p)" "sched_dst M T e p = map (\<lambda>j. ep M t (unrel n root j)) (dst p)"
    using assms(4,6,8) by (auto simp: sched_src_def sched_dst_def)
qed

lemma bcast_outside:
  assumes "\<not> (fst (bcast_window n K lr x) \<le> p \<and> p < fst (bcast_window n K lr x) + snd (bcast_window n K lr x))"
    and "x < n" and "1 \<le> lr" and "lr dvd K"
  shows "bcast_src n K lr x p = [] \<and> bcast_dst n K lr x p = []"
proof (cases "2 ^ K \<le> x")
  case True
  then show ?thesis using assms(1) by (auto simp: bcast_window_def bcast_src_def bcast_dst_def)
next
  case False
  then have "digits lr x \<le> K div lr" using digits_le [OF assms(3), of x "K div lr"] assms(4) by simp
  then show ?thesis
    using False assms(1) digits_pos [OF assms(3), of x]
    by (auto simp: bcast_window_def bcast_src_def bcast_dst_def Let_def max_def split: if_splits)
qed

lemma bcast_tree:
  assumes g: "endpoint_group M t n" and K: "2 ^ K \<le> n" "n < 2 ^ Suc K" and "x < n" and "root < n" and lr: "lr = tree_lr mx n"
  obtains r where "tree_of mx M t BROADCAST_OP (ep M t root) s (ep M t (unrel n root x)) = Some r"
    and "shaped r (rooted M t root (unrel n root x)) n K lr (K div lr) x" and "bcast_context n K lr (K div lr) x r"
proof -
  obtain s' where s': "shaped s' (rooted M t root (unrel n root x)) n K lr (K div lr) x" "mt_op s' = BROADCAST_OP"
    "tree_of mx M t BROADCAST_OP (ep M t root) s (ep M t (unrel n root x)) =
      map_option (\<lambda>(st, np, r). r\<lparr>mt_startphase := st, mt_nphases := np\<rparr>) (setupContext s')"
    using rooted_init [OF g K _ assms(4,5) lr, of BROADCAST_OP s] by blast
  then show ?thesis using bcast_setup [OF s'(1,2)] that by fastforce
qed

lemma bcast_sched:
  assumes g: "endpoint_group M t n" and K: "2 ^ K \<le> n" "n < 2 ^ Suc K" and root: "root < n" and lr: "lr = tree_lr mx n"
    and T: "\<forall>e\<in>ep M t ` {..<n}. tree_of mx M t BROADCAST_OP (ep M t root) s e = Some (T e)" and x: "x < n"
  shows "sched_src M T (ep M t (unrel n root x)) p = map (\<lambda>j. ep M t (unrel n root j)) (bcast_src n K lr x p)"
    and "sched_dst M T (ep M t (unrel n root x)) p = map (\<lambda>j. ep M t (unrel n root j)) (bcast_dst n K lr x p)"
proof -
  let ?i = "unrel n root x"
  obtain r where r: "tree_of mx M t BROADCAST_OP (ep M t root) s (ep M t ?i) = Some r"
    and sh: "shaped r (rooted M t root ?i) n K lr (K div lr) x" and c: "bcast_context n K lr (K div lr) x r"
    using bcast_tree [OF g K x root lr] by blast
  have Tr: "T (ep M t ?i) = r" using T r rel_unrel(1) [OF root x] by auto
  have lr1: "1 \<le> lr" "lr dvd K" using shaped_lr [OF sh] by auto
  let ?w = "bcast_window n K lr x"
  have small: "fst ?w < 64" "snd ?w < 64"
    using shaped_phases(3) [OF sh] digits_tree [OF sh] by (auto simp: bcast_window_def Let_def)
  have win: "in_window r p \<longleftrightarrow> fst ?w \<le> p \<and> p < fst ?w + snd ?w" for p
    using c small small_phase(1) by (simp add: in_window_def bcast_context_def)
  have m: "mt_map r = TopologyMap (rooted M t root ?i)" using sh by (simp add: shaped_def)
  show "sched_src M T (ep M t ?i) p = map (\<lambda>j. ep M t (unrel n root j)) (bcast_src n K lr x p)"
    "sched_dst M T (ep M t ?i) p = map (\<lambda>j. ep M t (unrel n root j)) (bcast_dst n K lr x p)"
    using node_lists [OF g root m win, of "bcast_src n K lr x" "bcast_dst n K lr x" T "ep M t ?i" p] bcast_nodes [OF sh c]
      bcast_outside [OF _ x lr1] bcast_lists(2,3) [OF K(1) x] lr1 Tr by blast+
qed

lemma unrel_bij:
  assumes "endpoint_group M t n" and "root < n"
  shows "ep M t ` {..<n} = (\<lambda>x. ep M t (unrel n root x)) ` {..<n}" and "inj_on (\<lambda>x. ep M t (unrel n root x)) {..<n}"
    and "ep M t (unrel n root 0) = ep M t root"
proof -
  have "unrel n root ` {..<n} = {..<n}"
  proof (intro equalityI subsetI)
    fix i assume "i \<in> {..<n}"
    then show "i \<in> unrel n root ` {..<n}" using rel_unrel(2) [OF assms(2), of i] by (intro image_eqI [of _ _ "rel n root i"]) auto
  qed (use rel_unrel(1) [OF assms(2)] in auto)
  then show "ep M t ` {..<n} = (\<lambda>x. ep M t (unrel n root x)) ` {..<n}" by (metis image_image)
  show "inj_on (\<lambda>x. ep M t (unrel n root x)) {..<n}"
  proof (rule inj_onI)
    fix x y assume "x \<in> {..<n}" "y \<in> {..<n}" "ep M t (unrel n root x) = ep M t (unrel n root y)"
    then show "x = y" using ep_inj [OF assms(1)] rel_unrel(1) [OF assms(2)] by (metis lessThan_iff)
  qed
  show "ep M t (unrel n root 0) = ep M t root" using assms(2) by (simp add: unrel_def)
qed

text \<open>C31: in a broadcast over any group of endpoints, from any root and in any of the radices, every
  process gets a schedule; every process but the root is the destination of exactly one send; a
  sender has the data when it sends, the receiver expects the sender in that phase, and after all
  phases every process has the data.\<close>

theorem multinomial_broadcast:
  assumes "endpoint_group M t n" and "E = ep M t ` {..<n}" and "root \<in> E"
  shows "\<exists>T P. (\<forall>e\<in>E. tree_of mx M t BROADCAST_OP root s e = Some (T e)) \<and>
    (\<forall>e\<in>E - {root}. \<exists>!fp. fst fp \<in> E \<and> e \<in> set (sched_dst M T (fst fp) (snd fp))) \<and>
    (\<forall>f\<in>E. \<forall>p. distinct (sched_dst M T f p) \<and> root \<notin> set (sched_dst M T f p) \<and>
       (\<forall>e\<in>set (sched_dst M T f p). e \<in> E \<and> f \<in> set (sched_src M T e p) \<and> f \<in> informed (sched_dst M T) root p)) \<and>
    informed (sched_dst M T) root P = E"
proof -
  obtain rt where rt: "rt < n" "root = ep M t rt" using assms(2,3) by auto
  obtain K where K: "2 ^ K \<le> n" "n < 2 ^ Suc K" using log_exists assms(1) by (auto simp: endpoint_group_def)
  define lr where "lr = tree_lr mx n"
  define g where "g x = ep M t (unrel n rt x)" for x
  define T where "T e = the (tree_of mx M t BROADCAST_OP root s e)" for e
  have n: "0 < n" using rt(1) by simp
  have E: "E = g ` {..<n}" and inj: "inj_on g {..<n}" and g0: "g 0 = root"
    using unrel_bij [OF assms(1) rt(1)] assms(2) rt(2) unfolding g_def by auto
  have T: "\<forall>e\<in>E. tree_of mx M t BROADCAST_OP root s e = Some (T e)"
  proof
    fix e assume "e \<in> E"
    then obtain x where "x < n" "e = g x" unfolding E by auto
    then obtain r where "tree_of mx M t BROADCAST_OP root s e = Some r"
      using bcast_tree [OF assms(1) K _ rt(1) lr_def] unfolding g_def rt(2) by metis
    then show "tree_of mx M t BROADCAST_OP root s e = Some (T e)" by (simp add: T_def)
  qed
  note sc = bcast_sched [OF assms(1) K rt(1) lr_def T [unfolded assms(2) rt(2)], folded g_def]
  obtain r0 where "shaped r0 (rooted M t rt (unrel n rt 0)) n K lr (K div lr) 0"
    using bcast_tree [OF assms(1) K n rt(1) lr_def] by metis
  then have lr: "1 \<le> lr" "lr dvd K" using shaped_lr by blast+
  have "delivers (g ` {..<n}) (sched_src M T) (sched_dst M T) (g 0) (Suc (K div lr + 1))"
    using n sc bcast_lists(2) [OF K(1)] by (intro delivers_rename [OF inj _ _ _ bcast_delivers [OF K lr]]) auto
  then show ?thesis using T unfolding g0 E [symmetric] delivers_def by blast
qed

lemma reduce_outside:
  assumes "\<not> (fst (reduce_window n K x) \<le> p \<and> p < fst (reduce_window n K x) + snd (reduce_window n K x))" and "x < n"
  shows "reduce_src n K x p = [] \<and> reduce_dst n K x p = []"
  using assms low_bit_pos [of x]
  by (auto simp: reduce_window_def reduce_src_def reduce_dst_def Let_def split: if_splits)

lemma reduce_tree:
  assumes g: "endpoint_group M t n" and K: "2 ^ K \<le> n" "n < 2 ^ Suc K" and "x < n" and "root < n" and lr: "tree_lr mx n = 1"
  obtains r where "tree_of mx M t REDUCE_OP (ep M t root) s (ep M t (unrel n root x)) = Some r"
    and "shaped r (rooted M t root (unrel n root x)) n K 1 K x" and "reduce_context n K x r"
proof -
  obtain s' where s': "shaped s' (rooted M t root (unrel n root x)) n K 1 (K div 1) x" "mt_op s' = REDUCE_OP"
    "tree_of mx M t REDUCE_OP (ep M t root) s (ep M t (unrel n root x)) =
      map_option (\<lambda>(st, np, r). r\<lparr>mt_startphase := st, mt_nphases := np\<rparr>) (setupContext s')"
    using rooted_init [OF g K _ assms(4,5) lr [symmetric], of REDUCE_OP s] by blast
  then show ?thesis using reduce_setup [of s' "rooted M t root (unrel n root x)" n K x] that by fastforce
qed

lemma reduce_sched:
  assumes g: "endpoint_group M t n" and K: "2 ^ K \<le> n" "n < 2 ^ Suc K" and root: "root < n" and lr: "tree_lr mx n = 1"
    and T: "\<forall>e\<in>ep M t ` {..<n}. tree_of mx M t REDUCE_OP (ep M t root) s e = Some (T e)" and x: "x < n"
  shows "sched_src M T (ep M t (unrel n root x)) p = map (\<lambda>j. ep M t (unrel n root j)) (reduce_src n K x p)"
    and "sched_dst M T (ep M t (unrel n root x)) p = map (\<lambda>j. ep M t (unrel n root j)) (reduce_dst n K x p)"
    and "in_window (T (ep M t (unrel n root x))) q \<longleftrightarrow>
      fst (reduce_window n K x) \<le> q \<and> q < fst (reduce_window n K x) + snd (reduce_window n K x)"
    and "mt_lastrdcph (T (ep M t (unrel n root x))) = - 1" and "K < 31"
proof -
  let ?i = "unrel n root x"
  obtain r where r: "tree_of mx M t REDUCE_OP (ep M t root) s (ep M t ?i) = Some r"
    and sh: "shaped r (rooted M t root ?i) n K 1 K x" and c: "reduce_context n K x r"
    using reduce_tree [OF g K x root lr] by blast
  have Tr: "T (ep M t ?i) = r" using T r rel_unrel(1) [OF root x] by auto
  let ?w = "reduce_window n K x"
  show K31: "K < 31" using shaped_phases(3) [OF sh] by simp
  have "fst ?w < 64" "snd ?w < 64" using K31 low_bit_le [of x K] by (auto simp: reduce_window_def Let_def)
  then have win: "in_window r q \<longleftrightarrow> fst ?w \<le> q \<and> q < fst ?w + snd ?w" for q
    using c small_phase(1) by (simp add: in_window_def reduce_context_def)
  then show "in_window (T (ep M t ?i)) q \<longleftrightarrow> fst ?w \<le> q \<and> q < fst ?w + snd ?w" by (simp add: Tr)
  show "mt_lastrdcph (T (ep M t ?i)) = - 1" using c by (simp add: Tr reduce_context_def)
  have m: "mt_map r = TopologyMap (rooted M t root ?i)" using sh by (simp add: shaped_def)
  show "sched_src M T (ep M t ?i) p = map (\<lambda>j. ep M t (unrel n root j)) (reduce_src n K x p)"
    "sched_dst M T (ep M t ?i) p = map (\<lambda>j. ep M t (unrel n root j)) (reduce_dst n K x p)"
    using node_lists [OF g root m win, of "reduce_src n K x" "reduce_dst n K x" T "ep M t ?i" p] reduce_nodes [OF sh c]
      reduce_outside [OF _ x] reduce_lists(2,3) [OF K(1) x] Tr by blast+
qed

lemma tree_lr_two: "mx < 4 \<Longrightarrow> tree_lr mx n = 1"
  by (simp add: tree_lr_def getRadix_def Let_def)

text \<open>C32: in a reduction over any group of endpoints in radix two, from any root, every process gets
  a schedule; what a process sends in a phase is what the receiver expects in that phase; a process
  that sends does so in the last phase of its window, when all it expects has arrived; and at the
  end the root has combined the contribution of every process exactly once.\<close>

theorem multinomial_reduce:
  assumes "endpoint_group M t n" and "E = ep M t ` {..<n}" and "root \<in> E" and "mx < 4"
  shows "\<exists>T P. (\<forall>e\<in>E. tree_of mx M t REDUCE_OP root s e = Some (T e)) \<and>
    (\<forall>e\<in>E. \<forall>f\<in>E. \<forall>p. f \<in> set (sched_dst M T e p) \<longleftrightarrow> e \<in> set (sched_src M T f p)) \<and>
    (\<forall>e\<in>E. \<forall>p. sched_dst M T e p \<noteq> [] \<longrightarrow> in_window (T e) p \<and> (\<forall>q>p. \<not> in_window (T e) q)) \<and>
    contribs (sched_src M T) (\<lambda>e. unat (mt_lastrdcph (T e))) P root = mset_set E"
proof -
  obtain rt where rt: "rt < n" "root = ep M t rt" using assms(2,3) by auto
  obtain K where K: "2 ^ K \<le> n" "n < 2 ^ Suc K" using log_exists assms(1) by (auto simp: endpoint_group_def)
  note lr = tree_lr_two [OF assms(4), of n]
  define g where "g x = ep M t (unrel n rt x)" for x
  define T where "T e = the (tree_of mx M t REDUCE_OP root s e)" for e
  have n: "0 < n" using rt(1) by simp
  have E: "E = g ` {..<n}" and inj: "inj_on g {..<n}" and g0: "g 0 = root"
    using unrel_bij [OF assms(1) rt(1)] assms(2) rt(2) unfolding g_def by auto
  have T: "\<forall>e\<in>E. tree_of mx M t REDUCE_OP root s e = Some (T e)"
  proof
    fix e assume "e \<in> E"
    then obtain x where "x < n" "e = g x" unfolding E by auto
    then obtain r where "tree_of mx M t REDUCE_OP root s e = Some r"
      using reduce_tree [OF assms(1) K _ rt(1) lr] unfolding g_def rt(2) by metis
    then show "tree_of mx M t REDUCE_OP root s e = Some (T e)" by (simp add: T_def)
  qed
  note sc = reduce_sched [OF assms(1) K rt(1) lr T [unfolded assms(2) rt(2)], folded g_def]
  have mem: "g i \<in> g ` set xs \<longleftrightarrow> i \<in> set xs" if "i < n" "set xs \<subseteq> {..<n}" for i xs
    using inj that by (auto simp: inj_on_def subset_iff)
  have "g j \<in> set (sched_dst M T (g i) p) \<longleftrightarrow> g i \<in> set (sched_src M T (g j) p)" if "i < n" "j < n" for i j p
    using that sc(1,2) mem reduce_lists(2,3) [OF K(1)] reduce_match [OF K] by simp
  moreover have "in_window (T (g x)) p \<and> (\<forall>q>p. \<not> in_window (T (g x)) q)" if "x < n" "sched_dst M T (g x) p \<noteq> []" for x p
    using that(2) low_bit_pos [of x] unfolding sc(2,3) [OF that(1)]
    by (auto simp: reduce_dst_def reduce_window_def Let_def split: if_splits)
  moreover have "contribs (sched_src M T) (\<lambda>e. unat (mt_lastrdcph (T e))) (Suc K) root = mset_set E"
  proof -
    have big: "K < unat (- 1 :: uint_t)" using sc(5) [OF n] by (simp add: unsigned_minus_1_eq_mask mask_eq_exp_minus_1)
    have "contribs (sched_src M T) (\<lambda>e. unat (mt_lastrdcph (T e))) (Suc K) (g 0) =
        image_mset g (contribs (reduce_src n K) (\<lambda>_. unat (- 1 :: uint_t)) (Suc K) 0)"
      using n sc(1,4) reduce_lists(2) [OF K(1)] by (intro contribs_rename [where A = "{..<n}"]) auto
    then show ?thesis using reduced [OF K, of "\<lambda>_. unat (- 1 :: uint_t)"] big image_mset_mset_set [OF inj] g0 E by simp
  qed
  ultimately show ?thesis using T by (intro exI [of _ T] exI [of _ "Suc K"]) (auto simp: E)
qed

section \<open>Groups\<close>

text \<open>A list of endpoints without repetition is a group.\<close>

lemma eplist_group:
  assumes "distinct eps" and "eps \<noteq> []" and "length eps < 2 ^ 31"
  shows "endpoint_group M (Topology_eplist eps) (length eps)" and "i < length eps \<Longrightarrow> ep M (Topology_eplist eps) i = eps ! i"
proof -
  have u: "unat (of_nat i :: size_t) = i" if "i \<le> length eps" for i using that assms(3) by (simp add: unat_of_nat64)
  have at: "index2Endpoint_impl M (Topology_eplist eps) (of_nat i) = Some (eps ! i)" if "i < length eps" for i
    using that u by (simp add: index2Endpoint_impl_def Topology_eplist_def)
  then show "i < length eps \<Longrightarrow> ep M (Topology_eplist eps) i = eps ! i" by (simp add: ep_def)
  show "endpoint_group M (Topology_eplist eps) (length eps)"
    using assms u at list_index_nth [OF assms(1)]
    by (simp add: endpoint_group_def topo_size_impl_def Topology_eplist_def endpoint2Index_impl_def)
qed

text \<open>All contexts of the tasks of a topology on a booted Blue Gene/Q partition are a group.\<close>

lemma contexts_group:
  assumes "cache_ok B" and "M = bgq_mapping B" and "topo_ok M (bgq_tasks B) t" and "tp_all_contexts t"
    and "\<forall>r\<in>bgq_tasks B. unat r < 2 ^ 23" and "0 < unat (tp_offset t)" and "unat (tp_offset t) \<le> 64"
    and "n = length (ranks M t) * unat (tp_offset t)" and "0 < n" and "n < 2 ^ 31"
  shows "endpoint_group M t n"
proof -
  note c = contexts_endpoints [OF assms(1-7)]
  have "\<exists>e. index2Endpoint_impl M t (of_nat i) = Some e \<and> endpoint2Index_impl M t e = of_nat i" if "i < n" for i
  proof -
    let ?o = "unat (tp_offset t)"
    have "i div ?o < length (ranks M t)" "i mod ?o < ?o"
      using that assms(6,8) by (simp_all add: less_mult_imp_div_less)
    then obtain e where "index2Endpoint_impl M t (of_nat (i div ?o * ?o + i mod ?o)) = Some e"
      "endpoint2Index_impl M t e = of_nat (i div ?o * ?o + i mod ?o)" using c by blast
    then show ?thesis by (simp only: div_mult_mod_eq) blast
  qed
  then show ?thesis using c assms(8-10) by (simp add: endpoint_group_def)
qed

definition demo_tree :: mtree where
  "demo_tree = \<lparr>mt_maxphases = 0, mt_nphbino = 0, mt_op = 0, mt_radix = 0, mt_logradix = 0, mt_nranks = 0, mt_hnranks = 0,
     mt_sendph = 0, mt_recvph = 0, mt_auxsendph = 0, mt_auxrecvph = 0, mt_startphase = 0, mt_nphases = 0, mt_lastrdcph = 0,
     mt_map = TopologyMap \<lparr>tm_hnranks = 0, tm_rootindex = 0, tm_myindex = 0, tm_topology = Topology_empty\<rparr>\<rparr>"

lemma demo_contexts_group: "endpoint_group (bgq_mapping demo_booted) demo_contexts 12"
proof (rule contexts_group [OF demo_cache refl])
  show "topo_ok (bgq_mapping demo_booted) (bgq_tasks demo_booted) demo_contexts"
    by (auto simp: demo_contexts_def Topology_eprange_def Topology_range_def topo_ok_def ranks_def demo_tasks set_span word_le_nat_alt)
  show "12 = length (ranks (bgq_mapping demo_booted) demo_contexts) * unat (tp_offset demo_contexts)"
  proof -
    have "ranks (bgq_mapping demo_booted) demo_contexts = [0, 1, 2]"
      by (simp add: ranks_def demo_contexts_def Topology_eprange_def Topology_range_def span_def upt_rec)
    then show ?thesis by (simp add: demo_contexts_def Topology_eprange_def)
  qed
qed (simp_all add: demo_contexts_def Topology_eprange_def demo_tasks)

theorem multinomial_allreduce_witness:
  "\<exists>T P. \<forall>e\<in>ep (bgq_mapping demo_booted) demo_contexts ` {..<12}.
     contribs (sched_src (bgq_mapping demo_booted) T) (\<lambda>e. unat (mt_lastrdcph (T e))) P e =
       mset_set (ep (bgq_mapping demo_booted) demo_contexts ` {..<12})"
proof -
  from multinomial_allreduce [OF demo_contexts_group refl, of 8 0 demo_tree] show ?thesis by (elim exE conjE) (intro exI)
qed

theorem multinomial_broadcast_witness:
  "\<exists>T P. informed (sched_dst (bgq_mapping demo_booted) T) (ep (bgq_mapping demo_booted) demo_contexts 5) P =
     ep (bgq_mapping demo_booted) demo_contexts ` {..<12}"
  using multinomial_broadcast [OF demo_contexts_group refl, of "ep (bgq_mapping demo_booted) demo_contexts 5" 4 demo_tree] by auto

theorem multinomial_reduce_witness:
  "\<exists>T P. contribs (sched_src (bgq_mapping demo_booted) T) (\<lambda>e. unat (mt_lastrdcph (T e))) P (ep (bgq_mapping demo_booted) demo_contexts 5) =
     mset_set (ep (bgq_mapping demo_booted) demo_contexts ` {..<12})"
  using multinomial_reduce [OF demo_contexts_group refl, of "ep (bgq_mapping demo_booted) demo_contexts 5" 2 demo_tree] by auto

section \<open>Where the source is wrong\<close>

text \<open>A reduction in radix four among sixteen processes: the phase of sending is counted in bits and
  not in digits, so the process of rank 4 would send in phase 3 of 2, and its contribution is lost.\<close>

lemma reduce_radix_four:
  assumes "endpoint_group M t 16" and "root < 16"
  shows "\<exists>r. tree_of 4 M t REDUCE_OP (ep M t root) s (ep M t (unrel 16 root 4)) = Some r \<and> (\<forall>p<64. dst_nodes r (of_nat p) = [])"
proof -
  have K: "2 ^ 4 \<le> (16::nat)" "(16::nat) < 2 ^ Suc 4" by simp_all
  have "log_loop (16::uint_t) 0 = 4" by (intro log_loop_eq [of _ 16]) simp_all
  then have lr: "2 = tree_lr 4 16" by (simp add: tree_lr_def getRadix_def Let_def)
  obtain s' where s': "shaped s' (rooted M t root (unrel 16 root 4)) 16 4 2 (4 div 2) 4" "mt_op s' = REDUCE_OP"
    "tree_of 4 M t REDUCE_OP (ep M t root) s (ep M t (unrel 16 root 4)) =
      map_option (\<lambda>(st, np, r). r\<lparr>mt_startphase := st, mt_nphases := np\<rparr>) (setupContext s')"
    using rooted_init [OF assms(1) K _ _ assms(2) lr, of REDUCE_OP 4 s] by auto
  have p: "placed (rooted M t root (unrel 16 root 4)) 16 4 4" "mt_map s' = TopologyMap (rooted M t root (unrel 16 root 4))"
    "mt_nphbino s' = 2" using s'(1) by (auto simp: shaped_def)
  have "ffs 4 = 3" by code_simp
  then show ?thesis
    unfolding s'(3) using placed_facts [OF p(1)] p(2,3) s'(2) small_phase small_phase_cmp(2) [of _ 2] small_phase_cmp(1) [of _ 3]
    by (simp add: setupContext_def setup_peer_def setup_tree_def op_codes phase_codes Let_def dst_nodes_def sends_def)
qed

end
