(* ===== verification/Pami_ScheduleCache.thy ===== *)
theory Pami_ScheduleCache
  imports Pami_Schedules
begin

text \<open>
  \<^verbatim>\<open>algorithms/executor/ScheduleCache.h\<close>: the phases of a schedule, read once and kept for the
  executors, in one buffer that also holds the topologies, the endpoint lists and a vector of next
  active phases. The schedule is the multinomial tree. \<open>None\<close> is an abort or an assertion that fails.
  The size of a \<^verbatim>\<open>pami_topology_t\<close> is the parameter \<open>tsz\<close>; pointers have 8 bytes, tasks and
  \<^verbatim>\<open>int\<close>s 4.
\<close>

section \<open>The buffer\<close>

record cache_layout =
  cl_srctopologies :: uint_t
  cl_srctopology :: "nat \<Rightarrow> uint_t"
  cl_dsttopologies :: uint_t
  cl_dsttopology :: "nat \<Rightarrow> uint_t"
  cl_srcranks :: uint_t
  cl_dstranks :: uint_t
  cl_nextActivePhaseVec :: uint_t
  cl_end :: uint_t

definition cache_buf_size :: "uint_t \<Rightarrow> uint_t \<Rightarrow> uint_t \<Rightarrow> uint_t \<Rightarrow> uint_t" where
  "cache_buf_size tsz nphases nsrc ndst = 2 * (8 + tsz) * nphases + (nsrc + ndst) * 4 + nphases * 4"

definition cache_carve :: "uint_t \<Rightarrow> uint_t \<Rightarrow> uint_t \<Rightarrow> uint_t \<Rightarrow> cache_layout" where
  "cache_carve tsz nphases nsrc ndst =
     (let o1 = nphases * 8;
          o2 = o1 + nphases * tsz;
          o3 = o2 + nphases * 8;
          o4 = o3 + nphases * tsz;
          o5 = o4 + nsrc * 4;
          o6 = o5 + ndst * 4 in
      \<lparr>cl_srctopologies = 0, cl_srctopology = (\<lambda>i. o1 + of_nat i * tsz),
       cl_dsttopologies = o2, cl_dsttopology = (\<lambda>i. o3 + of_nat i * tsz),
       cl_srcranks = o4, cl_dstranks = o5, cl_nextActivePhaseVec = o6, cl_end = o6 + nphases * 4\<rparr>)"

text \<open>The new size of the buffer, and where its parts lie.\<close>

definition cache_allocate :: "uint_t \<Rightarrow> uint_t \<Rightarrow> uint_t \<Rightarrow> uint_t \<Rightarrow> uint_t \<Rightarrow> (uint_t \<times> cache_layout) option" where
  "cache_allocate tsz cachesize nphases nsrc ndst =
     (let buf_size = cache_buf_size tsz nphases nsrc ndst;
          l = cache_carve tsz nphases nsrc ndst in
      if cl_end l \<noteq> buf_size then None
      else Some (if cachesize < buf_size then buf_size else cachesize, l))"

section \<open>The cache\<close>

record schedule_cache =
  sc_start :: uint_t
  sc_nphases :: uint_t
  sc_ntotalsrcranks :: uint_t
  sc_ntotaldstranks :: uint_t
  sc_lastCombinePhase :: uint_t
  sc_nextActivePhaseVec :: "nat \<Rightarrow> uint_t"
  sc_srctopologies :: "nat \<Rightarrow> topology"
  sc_dsttopologies :: "nat \<Rightarrow> topology"
  sc_cachesize :: uint_t
  sc_oldroot :: uint_t
  sc_root :: uint_t
  sc_operation :: uint_t
  sc_schedule :: mtree

text \<open>The constructor leaves the fields of the phases as they are.\<close>

definition ScheduleCache_new :: "schedule_cache \<Rightarrow> schedule_cache" where
  "ScheduleCache_new c = c\<lparr>sc_cachesize := 0, sc_oldroot := - 2, sc_root := - 1, sc_operation := - 1\<rparr>"

definition sc_setRoot :: "uint_t \<Rightarrow> schedule_cache \<Rightarrow> schedule_cache" where
  "sc_setRoot root c = c\<lparr>sc_root := root\<rparr>"

definition sc_setSchedule :: "mtree \<Rightarrow> schedule_cache \<Rightarrow> schedule_cache" where
  "sc_setSchedule s c = c\<lparr>sc_schedule := s\<rparr>"

definition sc_in_window :: "schedule_cache \<Rightarrow> nat \<Rightarrow> bool" where
  "sc_in_window c p \<longleftrightarrow> unat (sc_start c) \<le> p \<and> p < unat (sc_start c + sc_nphases c)"

definition sc_getSrcTopology :: "schedule_cache \<Rightarrow> nat \<Rightarrow> topology option" where
  "sc_getSrcTopology c p = (if sc_in_window c p then Some (sc_srctopologies c p) else None)"

definition sc_getDstTopology :: "schedule_cache \<Rightarrow> nat \<Rightarrow> topology option" where
  "sc_getDstTopology c p = (if sc_in_window c p then Some (sc_dsttopologies c p) else None)"

definition sc_getNextActivePhase :: "schedule_cache \<Rightarrow> nat \<Rightarrow> uint_t option" where
  "sc_getNextActivePhase c p = (if sc_in_window c p then Some (sc_nextActivePhaseVec c p) else None)"

definition sc_getEndPhase :: "schedule_cache \<Rightarrow> uint_t" where
  "sc_getEndPhase c = sc_start c + sc_nphases c - 1"

definition sc_getLastReducePhase :: "schedule_cache \<Rightarrow> uint_t" where
  "sc_getLastReducePhase c =
     (let p = mt_lastrdcph (sc_schedule c) in if p = - 1 then sc_start c + sc_nphases c - 1 else p)"

section \<open>Reading the schedule\<close>

text \<open>The loop that finds the last phase that receives before the reductions are over.\<close>

definition last_combine :: "uint_t \<Rightarrow> (nat \<Rightarrow> topology) \<Rightarrow> nat list \<Rightarrow> uint_t" where
  "last_combine lastReducePhase src ps =
     fold (\<lambda>p l. if 0 < topo_size_impl (src p) \<and> of_nat p \<le> lastReducePhase then of_nat p else l) ps (- 1)"

text \<open>The loop that fills the vector of next active phases, from the last phase down.\<close>

fun next_active :: "(nat \<Rightarrow> bool) \<Rightarrow> nat list \<Rightarrow> uint_t \<Rightarrow> (nat \<Rightarrow> uint_t) \<Rightarrow> nat \<Rightarrow> uint_t" where
  "next_active active [] nxt vec = vec"
| "next_active active (p # ps) nxt vec = next_active active ps (if active p then of_nat p else nxt) (vec(p := nxt))"

definition SC_MAXRANKS :: nat where "SC_MAXRANKS = 128"

text \<open>The topologies of a list of phases, as a function of the phase.\<close>

definition read_phases :: "(uint_t \<Rightarrow> topology option) \<Rightarrow> nat list \<Rightarrow> (nat \<Rightarrow> topology) \<Rightarrow> (nat \<Rightarrow> topology) option" where
  "read_phases get ps old =
     (if \<forall>p\<in>set ps. case get (of_nat p) of Some t \<Rightarrow> unat (topo_size_impl t) \<le> SC_MAXRANKS | None \<Rightarrow> False
      then Some (\<lambda>p. if p \<in> set ps then the (get (of_nat p)) else old p) else None)"

definition sc_init :: "uint_t \<Rightarrow> mapping \<Rightarrow> uint_t \<Rightarrow> schedule_cache \<Rightarrow> (bool \<times> schedule_cache) option" where
  "sc_init tsz M op c =
     (if sc_oldroot c = sc_root c then Some (False, c)
      else do {
        s \<leftarrow> mt_init M (sc_root c) op (sc_schedule c);
        let start = mt_startphase s;
        let nph = mt_nphases s;
        let ps = [unat start..<unat (start + nph)];
        let c1 = c\<lparr>sc_operation := op, sc_oldroot := sc_root c, sc_schedule := s, sc_start := start, sc_nphases := nph\<rparr>;
        src \<leftarrow> read_phases (getSrcTopology M s) ps (sc_srctopologies c);
        dst \<leftarrow> read_phases (getDstTopology M s) ps (sc_dsttopologies c);
        let nsrc = ucast (\<Sum>p\<leftarrow>ps. topo_size_impl (src p));
        let ndst = ucast (\<Sum>p\<leftarrow>ps. topo_size_impl (dst p));
        (cachesize, l) \<leftarrow> cache_allocate tsz (sc_cachesize c) (start + nph) nsrc ndst;
        Some (True, c1\<lparr>sc_ntotalsrcranks := nsrc, sc_ntotaldstranks := ndst,
          sc_lastCombinePhase := last_combine (sc_getLastReducePhase c1) src ps,
          sc_srctopologies := src, sc_dsttopologies := dst, sc_cachesize := cachesize,
          sc_nextActivePhaseVec :=
            next_active (\<lambda>p. 0 < topo_size_impl (src p) \<or> 0 < topo_size_impl (dst p)) (rev ps) (start + nph - 1)
              (sc_nextActivePhaseVec c)\<rparr>) })"

section \<open>The parts of the buffer\<close>

text \<open>Parts laid end to end, without gap or overlap, from \<open>a\<close> to \<open>b\<close>.\<close>

fun tiles :: "nat \<Rightarrow> nat \<Rightarrow> (nat \<times> nat) list \<Rightarrow> bool" where
  "tiles a b [] \<longleftrightarrow> a = b"
| "tiles a b ((off, len) # parts) \<longleftrightarrow> off = a \<and> tiles (a + len) b parts"

definition cache_parts :: "uint_t \<Rightarrow> uint_t \<Rightarrow> uint_t \<Rightarrow> uint_t \<Rightarrow> cache_layout \<Rightarrow> (nat \<times> nat) list" where
  "cache_parts tsz nphases nsrc ndst l =
     (unat (cl_srctopologies l), unat nphases * 8) # map (\<lambda>i. (unat (cl_srctopology l i), unat tsz)) [0..<unat nphases] @
     (unat (cl_dsttopologies l), unat nphases * 8) # map (\<lambda>i. (unat (cl_dsttopology l i), unat tsz)) [0..<unat nphases] @
     [(unat (cl_srcranks l), unat nsrc * 4), (unat (cl_dstranks l), unat ndst * 4), (unat (cl_nextActivePhaseVec l), unat nphases * 4)]"

lemma tiles_append: "tiles a b (xs @ ys) \<longleftrightarrow> (\<exists>m. tiles a m xs \<and> tiles m b ys)"
  by (induction xs arbitrary: a) auto

lemma tiles_array: "tiles a (a + k * len) (map (\<lambda>i. (a + i * len, len)) [0..<k])"
  by (induction k) (auto simp: tiles_append)

text \<open>C33: whatever the numbers of phases and partners, as long as their total size is below 4 GB, the
  assertion on the size of the buffer of a schedule cache holds, the buffer is large enough, and
  its parts (pointers, topologies, endpoint lists, vector of phases) tile it exactly.\<close>

theorem cache_buffer_tiled:
  assumes "2 * (8 + unat tsz) * unat nphases + (unat nsrc + unat ndst) * 4 + unat nphases * 4 < 2 ^ 32"
  shows "\<exists>sz l. cache_allocate tsz cachesize nphases nsrc ndst = Some (sz, l) \<and> cachesize \<le> sz \<and>
    unat (cache_buf_size tsz nphases nsrc ndst) \<le> unat sz \<and>
    tiles 0 (unat (cache_buf_size tsz nphases nsrc ndst)) (cache_parts tsz nphases nsrc ndst l)"
proof -
  define t n s d where "t = unat tsz" and "n = unat nphases" and "s = unat nsrc" and "d = unat ndst"
  have w: "tsz = of_nat t" "nphases = of_nat n" "nsrc = of_nat s" "ndst = of_nat d" by (simp_all add: t_def n_def s_def d_def)
  define o1 o2 o3 o4 o5 o6 where "o1 = n * 8" and "o2 = o1 + n * t" and "o3 = o2 + n * 8" and "o4 = o3 + n * t" and "o5 = o4 + s * 4" and "o6 = o5 + d * 4"
  note os = o1_def o2_def o3_def o4_def o5_def o6_def
  have small: "o6 + n * 4 < 2 ^ 32" using assms by (simp add: os t_def n_def s_def d_def algebra_simps)
  let ?l = "cache_carve tsz nphases nsrc ndst"
  have at: "cl_srctopologies ?l = of_nat 0" "cl_dsttopologies ?l = of_nat o2" "cl_srcranks ?l = of_nat o4" "cl_dstranks ?l = of_nat o5"
    "cl_nextActivePhaseVec ?l = of_nat o6" "cl_end ?l = of_nat (o6 + n * 4)"
    "cl_srctopology ?l = (\<lambda>i. of_nat (o1 + i * t))" "cl_dsttopology ?l = (\<lambda>i. of_nat (o3 + i * t))"
    by (simp_all add: cache_carve_def Let_def os w)
  have buf: "cache_buf_size tsz nphases nsrc ndst = of_nat (o6 + n * 4)" by (simp add: cache_buf_size_def os w algebra_simps)
  have le: "i * t \<le> n * t" if "i < n" for i using that by (intro mult_le_mono1) simp
  have u: "unat (of_nat k :: uint_t) = k" if "k \<le> o6 + n * 4" for k using that small by (intro unat_of_nat_small) simp
  let ?src = "map (\<lambda>i. (o1 + i * t, t)) [0..<n]" and ?dst = "map (\<lambda>i. (o3 + i * t, t)) [0..<n]" and ?tl = "[(o4, s * 4), (o5, d * 4), (o6, n * 4)]"
  have maps: "map (\<lambda>i. (unat (cl_srctopology ?l i), t)) [0..<n] = ?src" "map (\<lambda>i. (unat (cl_dsttopology ?l i), t)) [0..<n] = ?dst"
  proof -
    have "unat (cl_srctopology ?l i) = o1 + i * t" "unat (cl_dsttopology ?l i) = o3 + i * t" if "i < n" for i
    proof -
      have b: "o1 + i * t \<le> o6 + n * 4" "o3 + i * t \<le> o6 + n * 4" using le [OF that] unfolding os by linarith+
      show "unat (cl_srctopology ?l i) = o1 + i * t" "unat (cl_dsttopology ?l i) = o3 + i * t"
        unfolding at using u [OF b(1)] u [OF b(2)] by blast+
    qed
    then show "map (\<lambda>i. (unat (cl_srctopology ?l i), t)) [0..<n] = ?src" "map (\<lambda>i. (unat (cl_dsttopology ?l i), t)) [0..<n] = ?dst" by simp_all
  qed
  have "unat (of_nat o2 :: uint_t) = o2" "unat (of_nat o4 :: uint_t) = o4" "unat (of_nat o5 :: uint_t) = o5" "unat (of_nat o6 :: uint_t) = o6"
    by (rule u, unfold os, linarith)+
  then have parts: "cache_parts tsz nphases nsrc ndst ?l = (0, n * 8) # ?src @ (o2, n * 8) # ?dst @ ?tl"
    unfolding cache_parts_def t_def [symmetric] n_def [symmetric] s_def [symmetric] d_def [symmetric] maps at(1-5) by simp
  have "tiles o4 (o6 + n * 4) ?tl" by (simp add: o5_def o6_def)
  then have "tiles o2 (o6 + n * 4) ((o2, n * 8) # ?dst @ ?tl)"
    using tiles_array [of o3 n t] unfolding tiles.simps tiles_append o3_def [symmetric] o4_def [symmetric] by blast
  then have "tiles 0 (o6 + n * 4) (cache_parts tsz nphases nsrc ndst ?l)"
    using tiles_array [of o1 n t] unfolding parts tiles.simps(2) [of 0] tiles_append add_0 o1_def [symmetric] o2_def [symmetric] by blast
  then show ?thesis
    using at(6) buf u [OF order_refl] by (auto simp: cache_allocate_def Let_def word_le_nat_alt word_less_nat_alt)
qed

theorem cache_buffer_tiled_witness:
  "\<exists>sz l. cache_allocate 2048 0 6 9 9 = Some (sz, l) \<and>
     tiles 0 (unat (cache_buf_size 2048 6 9 9)) (cache_parts 2048 6 9 9 l)"
  using cache_buffer_tiled [of 2048 6 9 9 0] by auto

section \<open>What the cache answers\<close>

lemma next_active_skip: "q \<notin> set ps \<Longrightarrow> next_active active ps nxt vec q = vec q"
  by (induction ps arbitrary: nxt vec) auto

text \<open>The entry of a phase is the first active phase after it, or the last phase.\<close>

lemma next_active_rev:
  assumes "a \<le> p" and "p < b"
  shows "next_active active (rev [a..<b]) nxt vec p = (case filter active [Suc p..<b] of [] \<Rightarrow> nxt | q # _ \<Rightarrow> of_nat q)"
  using assms
proof (induction b arbitrary: nxt vec)
  case (Suc b)
  show ?case
  proof (cases "p = b")
    case True
    then show ?thesis using Suc.prems by (simp add: next_active_skip)
  next
    case False
    then show ?thesis using Suc by (cases "filter active [Suc p..<b]") auto
  qed
qed simp

lemma last_combine_snoc:
  "last_combine lr src (ps @ [p]) = (if 0 < topo_size_impl (src p) \<and> of_nat p \<le> lr then of_nat p else last_combine lr src ps)"
  by (simp add: last_combine_def)

lemma last_combine_filter:
  "last_combine lr src ps =
    (case rev (filter (\<lambda>p. 0 < topo_size_impl (src p) \<and> of_nat p \<le> lr) ps) of [] \<Rightarrow> - 1 | q # _ \<Rightarrow> of_nat q)"
  by (induction ps rule: rev_induct) (simp_all add: last_combine_snoc, simp add: last_combine_def)

lemma read_phases_SomeD:
  "read_phases get ps old = Some f \<Longrightarrow> p \<in> set ps \<Longrightarrow> get (of_nat p) = Some (f p) \<and> unat (topo_size_impl (f p)) \<le> SC_MAXRANKS"
  by (fastforce simp: read_phases_def split: if_splits option.splits)

text \<open>C34: after \<^verbatim>\<open>init\<close> a schedule cache answers for every phase of the window what the
  schedule answers, refuses the phases outside it, names as next active phase the first later phase
  with a partner (or the last phase), and as last combine phase the last one that receives before
  the reductions are over.\<close>

theorem schedule_cache_reads:
  assumes "sc_init tsz M op c = Some (True, c')" and "s = sc_schedule c'"
    and "active = (\<lambda>p. \<exists>t. (getSrcTopology M s (of_nat p) = Some t \<or> getDstTopology M s (of_nat p) = Some t) \<and> 0 < topo_size_impl t)"
    and "combines = (\<lambda>p. \<exists>t. getSrcTopology M s (of_nat p) = Some t \<and> 0 < topo_size_impl t \<and> of_nat p \<le> sc_getLastReducePhase c')"
    and "first = unat (mt_startphase s)" and "bound = unat (mt_startphase s + mt_nphases s)"
  shows "mt_init M (sc_root c) op (sc_schedule c) = Some s \<and>
    (\<forall>p. if first \<le> p \<and> p < bound
         then sc_getSrcTopology c' p = getSrcTopology M s (of_nat p) \<and> sc_getSrcTopology c' p \<noteq> None \<and>
              sc_getDstTopology c' p = getDstTopology M s (of_nat p) \<and> sc_getDstTopology c' p \<noteq> None \<and>
              sc_getNextActivePhase c' p = Some (case filter active [Suc p..<bound] of [] \<Rightarrow> sc_getEndPhase c' | q # _ \<Rightarrow> of_nat q)
         else sc_getSrcTopology c' p = None \<and> sc_getDstTopology c' p = None \<and> sc_getNextActivePhase c' p = None) \<and>
    sc_lastCombinePhase c' = (case rev (filter combines [first..<bound]) of [] \<Rightarrow> - 1 | q # _ \<Rightarrow> of_nat q)"
proof -
  let ?ps = "[first..<bound]"
  have fresh: "sc_oldroot c \<noteq> sc_root c" using assms(1) by (auto simp: sc_init_def)
  obtain src dst where r: "mt_init M (sc_root c) op (sc_schedule c) = Some s"
    "read_phases (getSrcTopology M s) ?ps (sc_srctopologies c) = Some src" "read_phases (getDstTopology M s) ?ps (sc_dsttopologies c) = Some dst"
    and c': "sc_start c' = mt_startphase s" "sc_nphases c' = mt_nphases s" "sc_srctopologies c' = src" "sc_dsttopologies c' = dst"
    "sc_lastCombinePhase c' = last_combine (if mt_lastrdcph s = - 1 then mt_startphase s + mt_nphases s - 1 else mt_lastrdcph s) src ?ps"
    "sc_nextActivePhaseVec c' = next_active (\<lambda>p. 0 < topo_size_impl (src p) \<or> 0 < topo_size_impl (dst p)) (rev ?ps)
       (mt_startphase s + mt_nphases s - 1) (sc_nextActivePhaseVec c)"
    using assms(1) assms(2,5,6) fresh unfolding sc_init_def
    by (auto simp: Let_def sc_getLastReducePhase_def bind_eq_Some_conv split: prod.splits)
  have lrp: "(if mt_lastrdcph s = - 1 then mt_startphase s + mt_nphases s - 1 else mt_lastrdcph s) = sc_getLastReducePhase c'"
    using assms(2) c'(1,2) by (simp add: sc_getLastReducePhase_def Let_def)
  note rd = read_phases_SomeD [OF r(2)] read_phases_SomeD [OF r(3)]
  have act: "filter (\<lambda>p. 0 < topo_size_impl (src p) \<or> 0 < topo_size_impl (dst p)) [Suc p..<bound] = filter active [Suc p..<bound]"
    if "first \<le> p" for p
    using rd that by (intro filter_cong) (auto simp: assms(3))
  have comb: "filter (\<lambda>p. 0 < topo_size_impl (src p) \<and> of_nat p \<le> sc_getLastReducePhase c') ?ps = filter combines ?ps"
    using rd by (intro filter_cong) (auto simp: assms(4))
  have win: "sc_in_window c' p \<longleftrightarrow> first \<le> p \<and> p < bound" for p by (simp add: sc_in_window_def c'(1,2) assms(5,6))
  have last: "mt_startphase s + mt_nphases s - 1 = sc_getEndPhase c'" by (simp add: sc_getEndPhase_def c'(1,2))
  have vec: "sc_nextActivePhaseVec c' p = (case filter active [Suc p..<bound] of [] \<Rightarrow> sc_getEndPhase c' | q # _ \<Rightarrow> of_nat q)"
    if "first \<le> p" "p < bound" for p
    unfolding c'(6) last next_active_rev [OF that] act [OF that(1)] ..
  show ?thesis
    using r(1) rd vec c'(3-5) unfolding lrp last_combine_filter comb
    by (auto simp: sc_getSrcTopology_def sc_getDstTopology_def sc_getNextActivePhase_def win)
qed

section \<open>Caches of barriers and allreduces\<close>

lemma cache_allocate_end: "cl_end (cache_carve tsz nphases nsrc ndst) = cache_buf_size tsz nphases nsrc ndst"
  by (simp add: cache_carve_def cache_buf_size_def Let_def algebra_simps)

lemma cache_allocate_some: "\<exists>sz l. cache_allocate tsz cachesize nphases nsrc ndst = Some (sz, l)"
  by (simp add: cache_allocate_def Let_def cache_allocate_end)

lemma size_eplist: "length xs < 2 ^ 63 \<Longrightarrow> unat (topo_size_impl (Topology_eplist xs)) = length xs"
  by (simp add: topo_size_impl_def Topology_eplist_def unat_of_nat64)

lemma all_lists_short:
  assumes "lr \<le> 3"
  shows "length (all_src n K lr i p) < 8" and "length (all_dst n K lr i p) < 8"
proof -
  have "2 ^ lr \<le> (2 ^ 3 :: nat)" using assms by (intro power_increasing) auto
  then have "length (partners lr i q) < 8" for q by (simp add: partners_def)
  then show "length (all_src n K lr i p) < 8" "length (all_dst n K lr i p) < 8" by (auto simp: all_src_def all_dst_def)
qed

lemma read_phases_eplists:
  assumes "\<And>p. p \<in> set ps \<Longrightarrow> get (of_nat p) = Some (Topology_eplist (xs p))" and "\<And>p. length (xs p) \<le> SC_MAXRANKS"
  shows "\<exists>f. read_phases get ps old = Some f \<and> (\<forall>p\<in>set ps. f p = Topology_eplist (xs p))"
proof -
  have "unat (topo_size_impl (Topology_eplist (xs p))) \<le> SC_MAXRANKS" for p
    using assms(2) [of p] by (subst size_eplist) (simp_all add: SC_MAXRANKS_def)
  then show ?thesis using assms(1) by (auto simp: read_phases_def)
qed

text \<open>The cache of a process of a group, filled for an operation without root, holds what the
  process expects and sends.\<close>

lemma sc_init_all:
  assumes g: "endpoint_group M t n" and K: "2 ^ K \<le> n" "n < 2 ^ Suc K" and op: "op = BARRIER_OP \<or> op = ALLREDUCE_OP" and "i < n"
    and lr: "lr = tree_lr mx n" and c: "sc_schedule c = MultinomialTreeT mx M (ep M t i) t s" "sc_oldroot c \<noteq> sc_root c"
  shows "\<exists>c'. sc_init tsz M op c = Some (True, c') \<and> tree_of mx M t op (sc_root c) s (ep M t i) = Some (sc_schedule c') \<and>
    sc_start c' = of_nat (fst (all_window n K lr i)) \<and> sc_nphases c' = of_nat (snd (all_window n K lr i)) \<and>
    (\<forall>p. sc_in_window c' p \<longleftrightarrow> fst (all_window n K lr i) \<le> p \<and> p < fst (all_window n K lr i) + snd (all_window n K lr i)) \<and>
    (\<forall>p. sc_in_window c' p \<longrightarrow> sc_srctopologies c' p = Topology_eplist (map (ep M t) (all_src n K lr i p)) \<and>
       sc_dsttopologies c' p = Topology_eplist (map (ep M t) (all_dst n K lr i p)))"
proof -
  obtain r where r: "tree_of mx M t op (sc_root c) s (ep M t i) = Some r" "shaped r (rooted M t 0 i) n K lr (K div lr) i"
      "all_context op n K lr (K div lr) i r"
    and if_tops: "\<forall>p. (if in_window r p then getSrcTopology M r (of_nat p) else Some (Topology_eplist [])) =
        Some (Topology_eplist (map (ep M t) (all_src n K lr i p)))"
      "\<forall>p. (if in_window r p then getDstTopology M r (of_nat p) else Some (Topology_eplist [])) =
        Some (Topology_eplist (map (ep M t) (all_dst n K lr i p)))"
    using all_tree [OF g K op assms(5) lr, of "sc_root c" s] by blast
  have tops: "getSrcTopology M r (of_nat p) = Some (Topology_eplist (map (ep M t) (all_src n K lr i p)))"
    "getDstTopology M r (of_nat p) = Some (Topology_eplist (map (ep M t) (all_dst n K lr i p)))" if "in_window r p" for p
    using spec [OF if_tops(1), of p] spec [OF if_tops(2), of p] that by simp_all
  let ?w = "all_window n K lr i"
  let ?ps = "[unat (mt_startphase r)..<unat (mt_startphase r + mt_nphases r)]"
  have w: "mt_startphase r = of_nat (fst ?w)" "mt_nphases r = of_nat (snd ?w)" using r(3) by (auto simp: all_context_def)
  have small: "fst ?w + snd ?w < 128" "fst ?w < 64" "snd ?w < 64" using all_window_small [OF r(2), of i] by auto
  have u: "unat (of_nat k :: uint_t) = k" if "k < 128" for k using that by (intro unat_of_nat_small) simp
  have sum: "unat (mt_startphase r + mt_nphases r) = fst ?w + snd ?w" "unat (mt_startphase r) = fst ?w" "unat (mt_nphases r) = snd ?w"
    using u [of "fst ?w + snd ?w"] u [of "fst ?w"] u [of "snd ?w"] small by (simp_all add: w)
  have win: "in_window r p \<longleftrightarrow> p \<in> set ?ps" for p by (auto simp: in_window_def sum)
  have "lr \<le> 3" using r(2) by (simp add: shaped_def)
  then have short: "length (map (ep M t) (all_src n K lr i p)) \<le> SC_MAXRANKS" "length (map (ep M t) (all_dst n K lr i p)) \<le> SC_MAXRANKS" for p
    using all_lists_short [of lr n K i p] by (simp_all add: SC_MAXRANKS_def)
  obtain src where src: "read_phases (getSrcTopology M r) ?ps (sc_srctopologies c) = Some src"
    "\<forall>p\<in>set ?ps. src p = Topology_eplist (map (ep M t) (all_src n K lr i p))"
    using read_phases_eplists [of ?ps "getSrcTopology M r" "\<lambda>p. map (ep M t) (all_src n K lr i p)"] tops(1) short(1) win by blast
  obtain dst where dst: "read_phases (getDstTopology M r) ?ps (sc_dsttopologies c) = Some dst"
    "\<forall>p\<in>set ?ps. dst p = Topology_eplist (map (ep M t) (all_dst n K lr i p))"
    using read_phases_eplists [of ?ps "getDstTopology M r" "\<lambda>p. map (ep M t) (all_dst n K lr i p)"] tops(2) short(2) win by blast
  obtain sz l where al: "cache_allocate tsz (sc_cachesize c) (mt_startphase r + mt_nphases r)
      (ucast (\<Sum>p\<leftarrow>?ps. topo_size_impl (src p))) (ucast (\<Sum>p\<leftarrow>?ps. topo_size_impl (dst p))) = Some (sz, l)"
    using cache_allocate_some by blast
  have "mt_init M (sc_root c) op (sc_schedule c) = Some r" using r(1) by (simp add: tree_of_def c(1))
  then obtain c' where "sc_init tsz M op c = Some (True, c')" "sc_schedule c' = r" "sc_start c' = mt_startphase r"
      "sc_nphases c' = mt_nphases r" "sc_srctopologies c' = src" "sc_dsttopologies c' = dst"
    using c(2) src(1) dst(1) al by (auto simp: sc_init_def Let_def)
  then show ?thesis using r(1) src(2) dst(2) w sum by (intro exI [of _ c']) (auto simp: sc_in_window_def)
qed

definition demo_cache_of :: "endpoint \<Rightarrow> schedule_cache" where
  "demo_cache_of e = ScheduleCache_new \<lparr>sc_start = 0, sc_nphases = 0, sc_ntotalsrcranks = 0, sc_ntotaldstranks = 0,
     sc_lastCombinePhase = 0, sc_nextActivePhaseVec = (\<lambda>_. 0), sc_srctopologies = (\<lambda>_. Topology_empty),
     sc_dsttopologies = (\<lambda>_. Topology_empty), sc_cachesize = 0, sc_oldroot = 0, sc_root = 0, sc_operation = 0,
     sc_schedule = MultinomialTreeT 8 (bgq_mapping demo_booted) e demo_contexts demo_tree\<rparr>"

theorem schedule_cache_reads_witness:
  "\<exists>c'. sc_init 2048 (bgq_mapping demo_booted) ALLREDUCE_OP (demo_cache_of (ep (bgq_mapping demo_booted) demo_contexts 9)) = Some (True, c') \<and>
     sc_getSrcTopology c' (unat (mt_startphase (sc_schedule c') + mt_nphases (sc_schedule c'))) = None"
proof -
  let ?M = "bgq_mapping demo_booted"
  obtain c' where c': "sc_init 2048 ?M ALLREDUCE_OP (demo_cache_of (ep ?M demo_contexts 9)) = Some (True, c')"
    using sc_init_all [OF demo_contexts_group, of 3 ALLREDUCE_OP 9 _ 8 "demo_cache_of (ep ?M demo_contexts 9)" demo_tree 2048]
    by (auto simp: demo_cache_of_def ScheduleCache_new_def)
  from schedule_cache_reads [OF this refl refl refl refl refl] have "sc_getSrcTopology c' p = None"
    if "\<not> p < unat (mt_startphase (sc_schedule c') + mt_nphases (sc_schedule c'))" for p using that by presburger
  with c' show ?thesis by blast
qed

end
