(* ===== verification/Pami_BarrierExec.thy ===== *)
theory Pami_BarrierExec
  imports Pami_ScheduleCache
begin

text \<open>
  \<^verbatim>\<open>algorithms/executor/Barrier.h\<close>: the executor of a barrier, with the callback of its base class in
  \<^verbatim>\<open>algorithms/interfaces/Executor.h\<close>. Messages carry the phase and one bit of the iteration. A handler
  returns the new state and what it asks of the outside, at most one multicast or one call of the
  client's callback; \<open>None\<close> is an assertion that fails or an index outside \<^verbatim>\<open>_phasevec\<close>.

  Phases are natural numbers: \<^verbatim>\<open>setCommSchedule\<close> admits none above 24. An element of
  \<^verbatim>\<open>_phasevec\<close> is a \<^verbatim>\<open>char\<close>, 8 bits that wrap; whether \<^verbatim>\<open>char\<close> is signed
  differs between the machines (it is not on Blue Gene), and is the parameter \<open>schar\<close> of the comparisons with 0.
\<close>

section \<open>State\<close>

definition CCMI_BARRIER_MAXPHASES :: nat where "CCMI_BARRIER_MAXPHASES = 24"

record barrier_exec =
  bx_iteration :: bool
  bx_phase :: nat
  bx_senddone :: bool
  bx_start_phase :: nat
  bx_nphases :: nat
  bx_phasevec :: "nat \<Rightarrow> bool \<Rightarrow> 8 word"
  bx_cache :: schedule_cache
  bx_cb_done :: bool

datatype bx_callback = StaticNotifySendDone | ClientDone

datatype bx_action = Multicast topology nat nat bx_callback | CallDone

type_synonym bx_result = "(barrier_exec \<times> bx_action option) option"

text \<open>The main constructor: the cache is the one its own constructor leaves.\<close>

definition BarrierExec :: "schedule_cache \<Rightarrow> barrier_exec" where
  "BarrierExec c = \<lparr>bx_iteration = False, bx_phase = 0, bx_senddone = False, bx_start_phase = 0, bx_nphases = 0,
     bx_phasevec = (\<lambda>_ _. 0), bx_cache = ScheduleCache_new c, bx_cb_done = False\<rparr>"

definition bx_setDoneCallback :: "barrier_exec \<Rightarrow> barrier_exec" where
  "bx_setDoneCallback x = x\<lparr>bx_cb_done := True\<rparr>"

definition bx_setCommSchedule :: "uint_t \<Rightarrow> mapping \<Rightarrow> mtree \<Rightarrow> barrier_exec \<Rightarrow> barrier_exec option" where
  "bx_setCommSchedule tsz M sch x = do {
     (_, c) \<leftarrow> sc_init tsz M BARRIER_OP (sc_setRoot (- 1) (sc_setSchedule sch (bx_cache x)));
     let start = unat (sc_start c);
     let nphases = unat (sc_nphases c);
     if start + nphases \<le> CCMI_BARRIER_MAXPHASES
     then Some (x\<lparr>bx_cache := c, bx_start_phase := start, bx_nphases := nphases, bx_phase := start + nphases\<rparr>)
     else None }"

section \<open>Handlers\<close>

definition char_le0 :: "bool \<Rightarrow> 8 word \<Rightarrow> bool" where
  "char_le0 schar v \<longleftrightarrow> (if schar then sint v \<le> 0 else v = 0)"

definition bx_end :: "barrier_exec \<Rightarrow> nat" where
  "bx_end x = bx_start_phase x + bx_nphases x"

text \<open>\<^verbatim>\<open>_phasevec[p][_iteration] <= 0\<close>.\<close>

definition bx_arrived :: "bool \<Rightarrow> barrier_exec \<Rightarrow> nat \<Rightarrow> bool option" where
  "bx_arrived schar x p =
     (if p < CCMI_BARRIER_MAXPHASES then Some (char_le0 schar (bx_phasevec x p (bx_iteration x))) else None)"

definition bx_vec_add :: "nat \<Rightarrow> bool \<Rightarrow> 8 word \<Rightarrow> barrier_exec \<Rightarrow> barrier_exec option" where
  "bx_vec_add p it d x =
     (if p < CCMI_BARRIER_MAXPHASES
      then Some (x\<lparr>bx_phasevec := (bx_phasevec x)(p := (bx_phasevec x p)(it := bx_phasevec x p it + d))\<rparr>) else None)"

fun bx_reset_loop :: "nat list \<Rightarrow> barrier_exec \<Rightarrow> barrier_exec option" where
  "bx_reset_loop [] x = Some x"
| "bx_reset_loop (p # ps) x = do {
     t \<leftarrow> sc_getSrcTopology (bx_cache x) p;
     x' \<leftarrow> bx_vec_add p (bx_iteration x) (ucast (topo_size_impl t)) x;
     bx_reset_loop ps x' }"

definition bx_resetVector :: "barrier_exec \<Rightarrow> barrier_exec option" where
  "bx_resetVector x =
     (if bx_phase x = bx_end x
      then map_option (\<lambda>x'. x'\<lparr>bx_senddone := False\<rparr>)
             (bx_reset_loop [bx_start_phase x..<bx_end x] (x\<lparr>bx_phase := bx_start_phase x, bx_iteration := \<not> bx_iteration x\<rparr>))
      else None)"

text \<open>The last send is handed the client's callback when all receives have arrived before.\<close>

function bx_sendNext :: "bool \<Rightarrow> barrier_exec \<Rightarrow> bx_result"
  and bx_internalNotifySendDone :: "bool \<Rightarrow> barrier_exec \<Rightarrow> bx_result" where
  "bx_sendNext schar x =
     (if bx_end x < bx_phase x then None
      else if bx_phase x = bx_end x then Some (x\<lparr>bx_senddone := False\<rparr>, if bx_cb_done x then Some CallDone else None)
      else do {
        let x' = x\<lparr>bx_senddone := False\<rparr>;
        t \<leftarrow> sc_getDstTopology (bx_cache x) (bx_phase x);
        if 0 < topo_size_impl t
        then do {
          arrived \<leftarrow> (if bx_phase x = bx_end x - 1 then bx_arrived schar x (bx_phase x) else Some False);
          let it = (if bx_iteration x then 1 else 0);
          if arrived then Some (x'\<lparr>bx_phase := bx_phase x + 1\<rparr>, Some (Multicast t (bx_phase x mod 2 ^ 12) it ClientDone))
          else Some (x', Some (Multicast t (bx_phase x mod 2 ^ 12) it StaticNotifySendDone)) }
        else bx_internalNotifySendDone schar x' })"
| "bx_internalNotifySendDone schar x = do {
     arrived \<leftarrow> bx_arrived schar x (bx_phase x);
     let x' = x\<lparr>bx_senddone := True\<rparr>;
     if arrived then bx_sendNext schar (x'\<lparr>bx_phase := bx_phase x + 1\<rparr>) else Some (x', None) }"
  by pat_completeness auto

termination
  by (relation "measures [\<lambda>a. 24 - bx_phase (case a of Inl (_, x) \<Rightarrow> x | Inr (_, x) \<Rightarrow> x), \<lambda>a. case a of Inl _ \<Rightarrow> 1 | Inr _ \<Rightarrow> 0]")
     (auto simp: bx_arrived_def CCMI_BARRIER_MAXPHASES_def split: if_splits)

definition bx_start :: "bool \<Rightarrow> barrier_exec \<Rightarrow> bx_result" where
  "bx_start schar x = do { x' \<leftarrow> bx_resetVector x; bx_sendNext schar x' }"

definition bx_notifyRecv :: "bool \<Rightarrow> nat \<Rightarrow> nat \<Rightarrow> barrier_exec \<Rightarrow> bx_result" where
  "bx_notifyRecv schar hphase hiter x =
     (if 1 < hiter then None
      else do {
        x' \<leftarrow> bx_vec_add hphase (hiter = 1) (- 1) x;
        if bx_phase x' = bx_end x' then Some (x', None)
        else do {
          arrived \<leftarrow> bx_arrived schar x' (bx_phase x');
          if arrived \<and> bx_senddone x' then bx_sendNext schar (x'\<lparr>bx_phase := bx_phase x' + 1\<rparr>) else Some (x', None) } })"

declare bx_sendNext.simps [simp del] bx_internalNotifySendDone.simps [simp del]

end
