(* ===== verification/Pami_BarrierSpec.thy ===== *)
theory Pami_BarrierSpec
  imports Pami_ScheduleSpec
begin

text \<open>
  Why a barrier built from a schedule is a barrier. The locale states what the schedules of the
  processes promise; the facts that count are those of a run in which messages carry only their phase
  and one bit of the iteration. \<open>K e\<close> is how often process \<open>e\<close> has started, \<open>C e\<close> the phase up to which
  it has received in its current iteration, \<open>R e\<close> that up to which it has sent, \<open>V\<close> its counters of
  missing messages and \<open>N\<close> the number of messages under way.
\<close>

section \<open>Iterations and their colour\<close>

text \<open>The number of iterations up to \<open>k\<close> with colour \<open>b\<close>; the first one has colour \<open>True\<close>.\<close>

definition painted :: "bool \<Rightarrow> nat \<Rightarrow> nat" where
  "painted b k = (if b then (k + 1) div 2 else k div 2)"

lemma painted_Suc: "painted b (Suc k) = painted b k + (if b = odd (Suc k) then 1 else 0)"
  by (cases "even k") (auto simp: painted_def elim!: evenE oddE)

lemma painted_0 [simp]: "painted b 0 = 0"
  by (simp add: painted_def)

section \<open>What a barrier needs of a schedule\<close>

locale barrier_schedule =
  fixes E :: "'a set" and src dst :: "'a \<Rightarrow> nat \<Rightarrow> 'a list" and st en :: "'a \<Rightarrow> nat" and P :: nat
  assumes finite_E: "finite E"
    and src_lists: "e \<in> E \<Longrightarrow> distinct (src e p) \<and> set (src e p) \<subseteq> E \<and> length (src e p) < 128"
    and dst_lists: "e \<in> E \<Longrightarrow> distinct (dst e p) \<and> set (dst e p) \<subseteq> E"
    and matching: "e \<in> E \<Longrightarrow> f \<in> E \<Longrightarrow> f \<in> set (dst e p) \<longleftrightarrow> e \<in> set (src f p)"
    and window: "e \<in> E \<Longrightarrow> src e p \<noteq> [] \<or> dst e p \<noteq> [] \<Longrightarrow> st e \<le> p \<and> p < en e"
    and bounds: "e \<in> E \<Longrightarrow> st e \<le> en e \<and> en e \<le> P"
    and complete: "e \<in> E \<Longrightarrow> heard src P e = E"
begin

definition sent :: "('a \<Rightarrow> nat) \<Rightarrow> ('a \<Rightarrow> nat) \<Rightarrow> 'a \<Rightarrow> nat \<Rightarrow> nat" where
  "sent K R e p = (if p < R e then K e else K e - 1)"

definition missing :: "('a \<Rightarrow> nat) \<Rightarrow> ('a \<Rightarrow> nat) \<Rightarrow> ('a \<Rightarrow> nat \<Rightarrow> bool \<Rightarrow> nat) \<Rightarrow> 'a \<Rightarrow> nat \<Rightarrow> bool \<Rightarrow> int" where
  "missing K R N e p b =
     (\<Sum>j\<in>set (src e p). int (painted b (K e)) - int (painted b (sent K R j p))) + int (N e p b)"

definition newest :: "nat \<Rightarrow> bool \<Rightarrow> nat" where
  "newest k b = (if b = odd k then k else Suc k)"

definition in_step :: "('a \<Rightarrow> nat) \<Rightarrow> ('a \<Rightarrow> nat) \<Rightarrow> ('a \<Rightarrow> nat) \<Rightarrow> ('a \<Rightarrow> nat \<Rightarrow> bool \<Rightarrow> 8 word) \<Rightarrow> ('a \<Rightarrow> nat \<Rightarrow> bool \<Rightarrow> nat) \<Rightarrow> bool" where
  "in_step K C R V N \<longleftrightarrow>
     (\<forall>e\<in>E. \<forall>p b. V e p b = of_int (missing K R N e p b)) \<and>
     (\<forall>e\<in>E. \<forall>p. \<forall>j\<in>set (src e p). K e - 1 \<le> sent K R j p \<and> (p < C e \<longrightarrow> K e \<le> sent K R j p)) \<and>
     (\<forall>e\<in>E. \<forall>f\<in>E. K e \<le> Suc (K f)) \<and>
     (\<forall>e\<in>E. \<forall>p b. N e p b \<le> card {j \<in> set (src e p). newest (K e) b \<le> sent K R j p}) \<and>
     (\<forall>e\<in>E. \<forall>p<C e. N e p (odd (K e)) = 0) \<and>
     (\<forall>e\<in>E. C e \<le> R e \<and> R e \<le> Suc (C e))"

lemma in_stepD:
  assumes "in_step K C R V N" and "e \<in> E"
  shows "V e p b = of_int (missing K R N e p b)"
    and "j \<in> set (src e p) \<Longrightarrow> K e - 1 \<le> sent K R j p" and "j \<in> set (src e p) \<Longrightarrow> p < C e \<Longrightarrow> K e \<le> sent K R j p"
    and "f \<in> E \<Longrightarrow> K e \<le> Suc (K f)" and "N e p b \<le> card {j \<in> set (src e p). newest (K e) b \<le> sent K R j p}"
    and "p < C e \<Longrightarrow> N e p (odd (K e)) = 0" and "C e \<le> R e" and "R e \<le> Suc (C e)"
  using assms unfolding in_step_def by blast+

lemma in_stepI:
  assumes "\<And>e p b. e \<in> E \<Longrightarrow> V e p b = of_int (missing K R N e p b)"
    and "\<And>e p j. e \<in> E \<Longrightarrow> j \<in> set (src e p) \<Longrightarrow> K e - 1 \<le> sent K R j p"
    and "\<And>e p j. e \<in> E \<Longrightarrow> j \<in> set (src e p) \<Longrightarrow> p < C e \<Longrightarrow> K e \<le> sent K R j p"
    and "\<And>e f. e \<in> E \<Longrightarrow> f \<in> E \<Longrightarrow> K e \<le> Suc (K f)"
    and "\<And>e p b. e \<in> E \<Longrightarrow> N e p b \<le> card {j \<in> set (src e p). newest (K e) b \<le> sent K R j p}"
    and "\<And>e p. e \<in> E \<Longrightarrow> p < C e \<Longrightarrow> N e p (odd (K e)) = 0" and "\<And>e. e \<in> E \<Longrightarrow> C e \<le> R e \<and> R e \<le> Suc (C e)"
  shows "in_step K C R V N"
  using assms unfolding in_step_def by blast

lemma src_window:
  assumes "e \<in> E" and "j \<in> set (src e p)"
  shows "j \<in> E" and "e \<in> set (dst j p)" and "st e \<le> p" and "p < en e" and "st j \<le> p" and "p < en j"
proof -
  show j: "j \<in> E" using src_lists assms by blast
  show d: "e \<in> set (dst j p)" using matching assms j by blast
  show "st e \<le> p" "p < en e" using window [OF assms(1), of p] assms(2) by force+
  show "st j \<le> p" "p < en j" using window [OF j, of p] d by force+
qed

text \<open>While a process is in an iteration, its counter for a phase is the number of messages that have
  not arrived, and small enough for a \<^verbatim>\<open>char\<close> of either sign.\<close>

lemma missing_current:
  assumes c: "in_step K C R V N" and e: "e \<in> E" and "0 < K e"
  shows "missing K R N e p (odd (K e)) = int (card {j \<in> set (src e p). sent K R j p < K e} + N e p (odd (K e)))"
    and "card {j \<in> set (src e p). sent K R j p < K e} + N e p (odd (K e)) < 128"
proof -
  have each: "int (painted (odd (K e)) (K e)) - int (painted (odd (K e)) (sent K R j p)) = (if sent K R j p < K e then 1 else 0)"
    if "j \<in> set (src e p)" for j
  proof -
    have "j \<in> E" using src_lists e that by blast
    then have "K j \<le> Suc (K e)" "K e - 1 \<le> sent K R j p" using c e that by (auto simp: in_step_def)
    then have "sent K R j p = K e - 1 \<or> sent K R j p = K e \<or> sent K R j p = Suc (K e)" by (auto simp: sent_def split: if_splits)
    then show ?thesis using \<open>0 < K e\<close> painted_Suc [of "odd (K e)" "K e - 1"] painted_Suc [of "odd (K e)" "K e"] by auto
  qed
  have "(\<Sum>j\<in>set (src e p). if sent K R j p < K e then 1 else (0::int)) = int (card {j \<in> set (src e p). sent K R j p < K e})"
    by (simp add: sum.If_cases Int_def)
  then show "missing K R N e p (odd (K e)) = int (card {j \<in> set (src e p). sent K R j p < K e} + N e p (odd (K e)))"
    using sum.cong [OF refl each, of "set (src e p)"] by (simp add: missing_def)
  have "N e p (odd (K e)) \<le> card {j \<in> set (src e p). \<not> sent K R j p < K e}"
    using in_stepD(5) [OF c e, of p "odd (K e)"] by (simp add: newest_def not_less)
  moreover have "card {j \<in> set (src e p). sent K R j p < K e} + card {j \<in> set (src e p). \<not> sent K R j p < K e} = card (set (src e p))"
    by (subst card_Un_disjoint [symmetric]) (auto intro: arg_cong [of _ _ card])
  moreover have "card (set (src e p)) < 128" using src_lists [OF e, of p] distinct_card [of "src e p"] by simp
  ultimately show "card {j \<in> set (src e p). sent K R j p < K e} + N e p (odd (K e)) < 128" by linarith
qed

lemma heard_E: "e \<in> E \<Longrightarrow> heard src p e \<subseteq> E"
  using src_lists by (induction p arbitrary: e) (simp, fastforce)

text \<open>Who has received up to phase \<open>p\<close> has heard only from processes that have started.\<close>

lemma heard_started:
  assumes c: "in_step K C R V N" and "e \<in> E" and "p \<le> C e \<or> en e \<le> C e" and "f \<in> heard src p e"
  shows "K e \<le> K f"
  using assms(2-4)
proof (induction p arbitrary: e)
  case (Suc p)
  consider "K e = 0" | "f \<in> heard src p e" | j where "j \<in> set (src e p)" "f \<in> heard src p j" "0 < K e" using Suc.prems(3) by auto
  then show ?case
  proof cases
    case 2
    then show ?thesis using Suc.IH [OF Suc.prems(1)] Suc.prems(2) by auto
  next
    case 3
    have j: "j \<in> E" using src_lists [OF Suc.prems(1), of p] 3(1) by blast
    have "p < en e" using window [OF Suc.prems(1), of p] 3(1) by fastforce
    then have s: "K e \<le> sent K R j p" using c Suc.prems(1,2) 3(1) unfolding in_step_def by (metis Suc_le_lessD less_le_trans)
    show ?thesis
    proof (cases "K j \<le> K e")
      case True
      then have "p < R j" "K j = K e" using s 3(3) by (auto simp: sent_def split: if_splits)
      moreover then have "p \<le> C j" using c j by (auto simp: in_step_def)
      ultimately show ?thesis using Suc.IH [OF j _ 3(2)] by simp
    next
      case False
      have "f \<in> E" using heard_E [OF j] 3(2) by blast
      then have "K j \<le> Suc (K f)" using c j by (simp add: in_step_def)
      then show ?thesis using False by simp
    qed
  qed simp
qed simp

lemma complete_started:
  assumes c: "in_step K C R V N" and "e \<in> E" and "f \<in> E" and "en e \<le> C e"
  shows "K e \<le> K f"
  using heard_started [OF c assms(2), of P f] complete [OF assms(2)] assms(3,4) by simp

section \<open>The steps of a run\<close>

text \<open>A message arrives.\<close>

lemma in_step_recv:
  assumes c: "in_step K C R V N" and "0 < N e p b"
    and "\<And>x q a. x \<in> E \<Longrightarrow> V' x q a = (if (x, q, a) = (e, p, b) then V x q a - 1 else V x q a)"
    and "\<And>x q a. x \<in> E \<Longrightarrow> N' x q a = (if (x, q, a) = (e, p, b) then N x q a - 1 else N x q a)"
  shows "in_step K C R V' N'"
proof -
  have m: "missing K R N' x q a = (if (x, q, a) = (e, p, b) then missing K R N x q a - 1 else missing K R N x q a)" if "x \<in> E" for x q a
    using assms(2) assms(4) [OF that, of q a] by (auto simp: missing_def)
  have v: "V' x q a = of_int (missing K R N' x q a)" if "x \<in> E" for x q a
    using assms(3) [OF that] in_stepD(1) [OF c that] m [OF that] by auto
  have le: "N' x q a \<le> N x q a" if "x \<in> E" for x q a using assms(4) [OF that] by simp
  show ?thesis
  proof (rule in_stepI)
    show "N' x q a \<le> card {j \<in> set (src x q). newest (K x) a \<le> sent K R j q}" if "x \<in> E" for x q a
      using le [OF that] in_stepD(5) [OF c that] by (rule le_trans)
    show "N' x q (odd (K x)) = 0" if "x \<in> E" "q < C x" for x q
      using le [OF that(1), of q "odd (K x)"] in_stepD(6) [OF c that] by simp
  qed (use v in_stepD(2-4,7,8) [OF c] in auto)
qed

text \<open>Sending raises what is under way by what it lowers of what is missing.\<close>

lemma missing_send:
  assumes e: "e \<in> E" and "0 < K e" and "R e = p" and x: "x \<in> E"
    and N': "N' x q a = N x q a + (if x \<in> set (dst e p) \<and> q = p \<and> a = odd (K e) then 1 else 0)"
  shows "missing K (R(e := Suc p)) N' x q a = missing K R N x q a"
proof -
  let ?R = "R(e := Suc p)" and ?A = "set (src x q)"
  have s: "sent K ?R j q = (if j = e \<and> q = p then K e else sent K R j q)" for j using assms(3) by (auto simp: sent_def)
  have d: "x \<in> set (dst e q) \<longleftrightarrow> e \<in> ?A" using matching [OF e x] .
  show ?thesis
  proof (cases "e \<in> ?A \<and> q = p")
    case True
    then have "q = p" "e \<in> ?A" "sent K R e q = K e - 1" "sent K ?R e q = K e" using assms(3) by (auto simp: sent_def)
    moreover have "(\<Sum>j\<in>?A - {e}. int (painted a (sent K ?R j q))) = (\<Sum>j\<in>?A - {e}. int (painted a (sent K R j q)))"
      by (intro sum.cong) (auto simp: s)
    ultimately have "(\<Sum>j\<in>?A. int (painted a (sent K ?R j q))) = (\<Sum>j\<in>?A. int (painted a (sent K R j q))) + (if a = odd (K e) then 1 else 0)"
      using sum.remove [of ?A e "\<lambda>j. int (painted a (sent K ?R j q))"] sum.remove [of ?A e "\<lambda>j. int (painted a (sent K R j q))"]
        painted_Suc [of a "K e - 1"] \<open>0 < K e\<close> by simp
    then show ?thesis using N' d \<open>q = p\<close> \<open>e \<in> ?A\<close> by (simp add: missing_def sum_subtractf)
  next
    case False
    then have "(\<Sum>j\<in>?A. int (painted a (K x)) - int (painted a (sent K ?R j q))) =
        (\<Sum>j\<in>?A. int (painted a (K x)) - int (painted a (sent K R j q)))" by (intro sum.cong) (auto simp: s)
    then show ?thesis using False N' d by (auto simp: missing_def)
  qed
qed

text \<open>A process that has passed the phases before \<open>C e\<close> sends the messages of that phase.\<close>

lemma in_step_send:
  assumes c: "in_step K C R V N" and e: "e \<in> E" and "0 < K e" and "R e = C e"
    and "\<And>x q a. x \<in> E \<Longrightarrow> N' x q a = N x q a + (if x \<in> set (dst e (C e)) \<and> q = C e \<and> a = odd (K e) then 1 else 0)"
  shows "in_step K C (R(e := Suc (C e))) V N'"
proof -
  let ?p = "C e" and ?R = "R(e := Suc (C e))"
  have s: "sent K ?R j q = (if j = e \<and> q = ?p then K e else sent K R j q)" for j q using assms(4) by (auto simp: sent_def)
  have s0: "sent K R e ?p = K e - 1" using assms(4) by (simp add: sent_def)
  then have mono: "sent K R j q \<le> sent K ?R j q" for j q by (simp add: s)
  have d: "x \<in> set (dst e q) \<longleftrightarrow> e \<in> set (src x q)" if "x \<in> E" for x q using matching [OF e that] .
  have near: "K e = K x \<or> K e = Suc (K x)" if "x \<in> E" "e \<in> set (src x ?p)" for x
    using in_stepD(2) [OF c that] in_stepD(4) [OF c e that(1)] \<open>0 < K e\<close> unfolding s0 by arith
  have m: "missing K ?R N' x q a = missing K R N x q a" if "x \<in> E" for x q a
    using e \<open>0 < K e\<close> assms(4) that assms(5) [OF that] by (rule missing_send)
  have "N' x q a \<le> card {j \<in> set (src x q). newest (K x) a \<le> sent K ?R j q}" if "x \<in> E" for x q a
  proof (cases "e \<in> set (src x q) \<and> q = ?p \<and> a = odd (K e)")
    case True
    then have "newest (K x) a = K e" using near [OF that] by (auto simp: newest_def)
    moreover then have "{j \<in> set (src x q). newest (K x) a \<le> sent K ?R j q} = insert e {j \<in> set (src x q). newest (K x) a \<le> sent K R j q}"
      using True s by auto
    ultimately show ?thesis
      using True in_stepD(5) [OF c that, of q a] assms(5) [OF that, of q a] d [OF that, of q] s0 \<open>0 < K e\<close> by simp
  next
    case False
    have "card {j \<in> set (src x q). newest (K x) a \<le> sent K R j q} \<le> card {j \<in> set (src x q). newest (K x) a \<le> sent K ?R j q}"
      using mono by (intro card_mono) (auto intro: le_trans)
    then show ?thesis using False in_stepD(5) [OF c that, of q a] assms(5) [OF that, of q a] d [OF that, of q] by auto
  qed
  moreover have "N' x q (odd (K x)) = 0" if "x \<in> E" "q < C x" for x q
  proof -
    have "K e \<noteq> K x" if "e \<in> set (src x q)" "q = ?p"
      using in_stepD(3) [OF c \<open>x \<in> E\<close> that(1) \<open>q < C x\<close>] s0 that(2) \<open>0 < K e\<close> by auto
    then show ?thesis using in_stepD(6) [OF c that] assms(5) [OF that(1), of q "odd (K x)"] d [OF that(1), of q] near [OF that(1)] by auto
  qed
  moreover have "?R x \<le> Suc (C x)" "C x \<le> ?R x" if "x \<in> E" for x using in_stepD(7,8) [OF c that] by auto
  moreover have "K x - 1 \<le> sent K ?R j q" "q < C x \<Longrightarrow> K x \<le> sent K ?R j q" if "x \<in> E" "j \<in> set (src x q)" for x j q
    using in_stepD(2,3) [OF c that] mono [of j q] le_trans by blast+
  moreover have "V x q a = of_int (missing K ?R N' x q a)" if "x \<in> E" for x q a using in_stepD(1) [OF c that] m [OF that] by simp
  ultimately show ?thesis using in_stepD(4) [OF c] by (intro in_stepI) blast+
qed

text \<open>A process whose counter for a phase is down goes on to the next one.\<close>

lemma in_step_pass:
  assumes c: "in_step K C R V N" and e: "e \<in> E" and "0 < K e" and "R e = Suc (C e)" and "missing K R N e (C e) (odd (K e)) = 0"
  shows "in_step K (C(e := Suc (C e))) R V N"
proof -
  have "int (card {j \<in> set (src e (C e)). sent K R j (C e) < K e} + N e (C e) (odd (K e))) = 0"
    using missing_current(1) [OF c e assms(3), of "C e"] assms(5) by simp
  then have "card {j \<in> set (src e (C e)). sent K R j (C e) < K e} = 0" "N e (C e) (odd (K e)) = 0" unfolding of_nat_eq_0_iff by simp_all
  then have "\<forall>j\<in>set (src e (C e)). K e \<le> sent K R j (C e)" "N e (C e) (odd (K e)) = 0" by (auto simp: not_less)
  then show ?thesis using c e assms(4) unfolding in_step_def by (auto simp: less_Suc_eq)
qed

text \<open>A process that has finished starts the next iteration.\<close>

lemma in_step_start:
  assumes c: "in_step K C R V N" and e: "e \<in> E" and fin: "en e \<le> C e"
    and V': "\<And>x q a. x \<in> E \<Longrightarrow> V' x q a =
      V x q a + (if x = e \<and> st e \<le> q \<and> q < en e \<and> a = odd (Suc (K e)) then of_nat (length (src e q)) else 0)"
  shows "in_step (K(e := Suc (K e))) (C(e := st e)) (R(e := st e)) V' N"
proof -
  let ?K = "K(e := Suc (K e))" and ?C = "C(e := st e)" and ?R = "R(e := st e)"
  have s: "sent ?K ?R j q = sent K R j q" if "x \<in> E" "j \<in> set (src x q)" for x j q
    using src_window [OF that] fin in_stepD(7) [OF c e] by (auto simp: sent_def)
  have Q: "q < C e" if "j \<in> set (src e q)" for j q using src_window(4) [OF e that] fin by simp
  have N0: "N e q (odd (K e)) = 0" for q 
    using in_stepD(5) [OF c e, of q] in_stepD(6) [OF c e, of q] Q [of "hd (src e q)" q] by (cases "src e q = []") auto
  have mis: "missing ?K ?R N x q a = missing K R N x q a + (if x = e \<and> a = odd (Suc (K e)) then int (length (src e q)) else 0)" if "x \<in> E" for x q a
  proof -
    have "(\<Sum>j\<in>set (src x q). int (painted a (?K x)) - int (painted a (sent ?K ?R j q))) =
        (\<Sum>j\<in>set (src x q). int (painted a (?K x)) - int (painted a (sent K R j q)))" by (intro sum.cong) (simp_all add: s [OF that])
    then show ?thesis using distinct_card [of "src e q"] src_lists [OF e, of q] by (auto simp: missing_def painted_Suc sum_subtractf algebra_simps)
  qed
  have "V' x q a = of_int (missing ?K ?R N x q a)" if "x \<in> E" for x q a
  proof -
    have "src e q = []" if "\<not> (st e \<le> q \<and> q < en e)" using window [OF e, of q] that by blast
    then have "(if st e \<le> q \<and> q < en e then of_nat (length (src e q)) else 0 :: 8 word) = of_nat (length (src e q))" by auto
    then show ?thesis using mis [OF that, of q a] V' [OF that, of q a] in_stepD(1) [OF c that] by (cases "x = e \<and> a = odd (Suc (K e))") auto
  qed
  moreover have "?K x - 1 \<le> sent ?K ?R j q \<and> (q < ?C x \<longrightarrow> ?K x \<le> sent ?K ?R j q)" if "x \<in> E" "j \<in> set (src x q)" for x j q
    using s [OF that] in_stepD(2,3) [OF c that] Q [of j q] src_window(3) [OF that] that(2) by auto
  moreover have "?K x \<le> Suc (?K y)" if "x \<in> E" "y \<in> E" for x y
    using in_stepD(4) [OF c that] complete_started [OF c e that(2) fin] le_SucI by auto
  moreover have "N x q a \<le> card {j \<in> set (src x q). newest (?K x) a \<le> sent ?K ?R j q}" if "x \<in> E" for x q a
  proof -
    have "{j \<in> set (src x q). newest (?K x) a \<le> sent ?K ?R j q} = {j \<in> set (src x q). newest (?K x) a \<le> sent K R j q}"
      using s [OF that] by auto
    then show ?thesis using in_stepD(5) [OF c that, of q a] N0 [of q] by (cases "x = e"; cases "a = odd (K e)") (auto simp: newest_def)
  qed
  moreover have "N x q (odd (?K x)) = 0" if "x \<in> E" "q < ?C x" for x q
  proof (cases "x = e")
    case True
    then have "src e q = []" using that(2) window [OF e, of q] by auto
    then show ?thesis using in_stepD(5) [OF c e, of q] True by simp
  qed (use in_stepD(6) [OF c that(1)] that(2) in simp)
  moreover have "?C x \<le> ?R x" "?R x \<le> Suc (?C x)" if "x \<in> E" for x using in_stepD(7,8) [OF c that] by auto
  ultimately show ?thesis by (intro in_stepI) blast+
qed

end

end
