(* ===== verification/Pami_BarrierRun.thy ===== *)
theory Pami_BarrierRun
  imports Pami_BarrierExec Pami_BarrierSpec
begin

text \<open>
  Barriers of a group of processes, one executor each, over a network that delivers every message of a
  multicast once, at any time and in any order, and then or earlier reports that the send is done. A process
  starts its next barrier when the client has been told that the last one is complete.
\<close>

section \<open>Runs\<close>

record barrier_system =
  bs_exec :: "endpoint \<Rightarrow> barrier_exec"
  bs_net :: "(endpoint \<times> nat \<times> nat) multiset"
  bs_pend :: "endpoint \<Rightarrow> bx_callback option"
  bs_starts :: "endpoint \<Rightarrow> nat"
  bs_dones :: "endpoint \<Rightarrow> nat"

definition multicast_messages :: "bx_action option \<Rightarrow> (endpoint \<times> nat \<times> nat) multiset" where
  "multicast_messages act =
     (case act of Some (Multicast t p it _) \<Rightarrow> mset (map (\<lambda>d. (d, p, it)) (eplist_of t)) | _ \<Rightarrow> {#})"

definition perform :: "endpoint \<Rightarrow> barrier_exec \<Rightarrow> bx_action option \<Rightarrow> barrier_system \<Rightarrow> barrier_system" where
  "perform e x act s = s\<lparr>bs_exec := (bs_exec s)(e := x), bs_net := bs_net s + multicast_messages act,
     bs_pend := (case act of Some (Multicast _ _ _ cb) \<Rightarrow> (bs_pend s)(e := Some cb) | _ \<Rightarrow> bs_pend s),
     bs_dones := (if act = Some CallDone then (bs_dones s)(e := Suc (bs_dones s e)) else bs_dones s)\<rparr>"

inductive barrier_step :: "bool \<Rightarrow> endpoint set \<Rightarrow> barrier_system \<Rightarrow> barrier_system \<Rightarrow> bool" for schar E where
  Start: "e \<in> E \<Longrightarrow> bs_dones s e = bs_starts s e \<Longrightarrow> bx_start schar (bs_exec s e) = Some (x, act) \<Longrightarrow>
    barrier_step schar E s (perform e x act (s\<lparr>bs_starts := (bs_starts s)(e := Suc (bs_starts s e))\<rparr>))"
| Deliver: "(e, p, it) \<in># bs_net s \<Longrightarrow> bx_notifyRecv schar p it (bs_exec s e) = Some (x, act) \<Longrightarrow>
    barrier_step schar E s (perform e x act (s\<lparr>bs_net := bs_net s - {#(e, p, it)#}\<rparr>))"
| SendDone: "bs_pend s e = Some StaticNotifySendDone \<Longrightarrow> bx_internalNotifySendDone schar (bs_exec s e) = Some (x, act) \<Longrightarrow>
    barrier_step schar E s (perform e x act (s\<lparr>bs_pend := (bs_pend s)(e := None)\<rparr>))"
| ClientDone: "bs_pend s e = Some ClientDone \<Longrightarrow>
    barrier_step schar E s (s\<lparr>bs_pend := (bs_pend s)(e := None), bs_dones := (bs_dones s)(e := Suc (bs_dones s e))\<rparr>)"

definition barrier_init :: "(endpoint \<Rightarrow> barrier_exec) \<Rightarrow> barrier_system" where
  "barrier_init x = \<lparr>bs_exec = x, bs_net = {#}, bs_pend = (\<lambda>_. None), bs_starts = (\<lambda>_. 0), bs_dones = (\<lambda>_. 0)\<rparr>"

definition barrier_reachable :: "bool \<Rightarrow> endpoint set \<Rightarrow> (endpoint \<Rightarrow> barrier_exec) \<Rightarrow> barrier_system \<Rightarrow> bool" where
  "barrier_reachable schar E x s \<longleftrightarrow> (barrier_step schar E)\<^sup>*\<^sup>* (barrier_init x) s"

section \<open>One process among the others\<close>

lemma char_le0_small: "k < 128 \<Longrightarrow> char_le0 schar (of_nat k) \<longleftrightarrow> k = 0"
proof -
  assume k: "k < 128"
  have "signed_take_bit 7 (int k) = int k" using k by (intro signed_take_bit_int_eq_self) auto
  then have "sint (of_nat k :: 8 word) = int k" by (simp add: signed_of_nat)
  moreover have "unat (of_nat k :: 8 word) = k" using k by (intro unat_of_nat_small) simp
  then have "(of_nat k :: 8 word) = 0 \<longleftrightarrow> k = 0" using unat_eq_0 [of "of_nat k :: 8 word"] by simp
  ultimately show ?thesis by (simp add: char_le0_def)
qed

locale barrier_run = barrier_schedule E src dst st en P
  for E :: "endpoint set" and src dst :: "endpoint \<Rightarrow> nat \<Rightarrow> endpoint list" and st en :: "endpoint \<Rightarrow> nat" and P :: nat +
  assumes few_phases: "P \<le> CCMI_BARRIER_MAXPHASES" and dst_short: "e \<in> E \<Longrightarrow> length (dst e p) < 128"
begin

definition configured :: "endpoint \<Rightarrow> barrier_exec \<Rightarrow> bool" where
  "configured e x \<longleftrightarrow> bx_start_phase x = st e \<and> bx_end x = en e \<and> bx_cb_done x \<and>
     (\<forall>p. sc_in_window (bx_cache x) p \<longleftrightarrow> st e \<le> p \<and> p < en e) \<and>
     (\<forall>p. st e \<le> p \<longrightarrow> p < en e \<longrightarrow> sc_srctopologies (bx_cache x) p = Topology_eplist (src e p) \<and>
        sc_dsttopologies (bx_cache x) p = Topology_eplist (dst e p))"

definition sent_upto :: "endpoint \<Rightarrow> barrier_exec \<Rightarrow> nat" where
  "sent_upto e x = (if bx_phase x < en e then Suc (bx_phase x) else en e)"

definition under_way :: "(endpoint \<times> nat \<times> nat) multiset \<Rightarrow> endpoint \<Rightarrow> nat \<Rightarrow> bool \<Rightarrow> nat" where
  "under_way net e p b = count net (e, p, if b then 1 else 0)"

text \<open>What a process is left with by a handler.\<close>

definition settled :: "bool \<Rightarrow> endpoint \<Rightarrow> barrier_exec \<Rightarrow> bx_action option \<Rightarrow> bool" where
  "settled schar e x act \<longleftrightarrow> st e \<le> bx_phase x \<and>
     (case act of
        None \<Rightarrow> bx_phase x < en e \<and> bx_senddone x \<and> \<not> char_le0 schar (bx_phasevec x (bx_phase x) (bx_iteration x))
      | Some CallDone \<Rightarrow> bx_phase x = en e
      | Some (Multicast _ _ _ cb) \<Rightarrow> (if cb = ClientDone then bx_phase x = en e else bx_phase x < en e \<and> \<not> bx_senddone x))"

text \<open>The messages and reports of sends a process still has to cause from phase \<open>q\<close> on, and those an action causes.\<close>

definition work :: "endpoint \<Rightarrow> nat \<Rightarrow> nat" where
  "work e q = (\<Sum>p\<in>{q..<en e}. length (dst e p) + 1)"

definition effort :: "bx_action option \<Rightarrow> nat" where
  "effort act = size (multicast_messages act) + (case act of Some (Multicast _ _ _ _) \<Rightarrow> 1 | _ \<Rightarrow> 0)"

lemma work_Suc: "p < en e \<Longrightarrow> work e p = length (dst e p) + 1 + work e (Suc p)"
  unfolding work_def by (rule sum.atLeast_Suc_lessThan)

lemma work_mono: "work e (Suc p) \<le> work e p"
  unfolding work_def by (rule sum_mono2) auto

definition outcome where
  "outcome schar e K C R V net x r \<longleftrightarrow> (\<exists>x' act. r = Some (x', act) \<and> configured e x' \<and> bx_iteration x' = bx_iteration x \<and>
     bx_phasevec x' = bx_phasevec x \<and> set_mset (multicast_messages act) \<subseteq> E \<times> UNIV \<times> {0, 1} \<and> settled schar e x' act \<and>
     work e (sent_upto e x') + effort act \<le> work e (R e) \<and> in_step K (C(e := bx_phase x')) (R(e := sent_upto e x')) V (under_way (net + multicast_messages act)))"

lemma cached:
  assumes "configured e x" and "st e \<le> p" and "p < en e"
  shows "sc_getSrcTopology (bx_cache x) p = Some (Topology_eplist (src e p))"
    and "sc_getDstTopology (bx_cache x) p = Some (Topology_eplist (dst e p))"
  using assms by (simp_all add: configured_def sc_getSrcTopology_def sc_getDstTopology_def)

lemma en_bound: "e \<in> E \<Longrightarrow> en e \<le> CCMI_BARRIER_MAXPHASES"
  using bounds few_phases by (meson le_trans)

text \<open>The counter of the current phase is down exactly when nothing is missing.\<close>

lemma counter_down:
  assumes c: "in_step K C R V N" and e: "e \<in> E" "0 < K e" and x: "V e = bx_phasevec x" "bx_iteration x \<longleftrightarrow> odd (K e)" and "p < en e"
  shows "bx_arrived schar x p = Some (missing K R N e p (odd (K e)) = 0)"
proof -
  obtain k where m: "missing K R N e p (odd (K e)) = int k" and k: "k < 128" using missing_current [OF c e, of p] by blast
  have "bx_phasevec x p (bx_iteration x) = of_nat k" using in_stepD(1) [OF c e(1), of p "odd (K e)"] x m by simp
  then show ?thesis using m char_le0_small [OF k, of schar] en_bound [OF e(1)] assms(6) by (simp add: bx_arrived_def)
qed

lemma under_way_multicast:
  assumes "distinct ds" and "b = odd k" and "it = (if b then 1 else 0)"
  shows "under_way (net + multicast_messages (Some (Multicast (Topology_eplist ds) p it cb))) x q a =
    under_way net x q a + (if x \<in> set ds \<and> q = p \<and> a = odd k then 1 else 0)"
proof -
  have "count (mset (map (\<lambda>d. (d, p, it)) ds)) (x, q, if a then 1 else 0) = (if x \<in> set ds \<and> q = p \<and> a = b then 1 else 0)"
  proof -
    have "distinct (map (\<lambda>d. (d, p, it)) ds)" using assms(1) by (simp add: distinct_map inj_on_def)
    then have "count (mset (map (\<lambda>d. (d, p, it)) ds)) y = (if y \<in> set (map (\<lambda>d. (d, p, it)) ds) then 1 else 0)" for y
      unfolding distinct_count_atmost_1 by (rule spec)
    moreover have "(x, q, if a then 1 else 0) \<in> set (map (\<lambda>d. (d, p, it)) ds) \<longleftrightarrow> x \<in> set ds \<and> q = p \<and> a = b"
      using assms(3) by (cases a; cases b) auto
    ultimately show ?thesis by (simp only:)
  qed
  then show ?thesis using assms(2) by (simp add: under_way_def multicast_messages_def)
qed

lemma outcomeI:
  assumes "r = Some (x', act)" and "configured e x'" and "bx_iteration x' = bx_iteration x" and "bx_phasevec x' = bx_phasevec x"
    and "set_mset (multicast_messages act) \<subseteq> E \<times> UNIV \<times> {0, 1}" and "settled schar e x' act"
    and "work e (sent_upto e x') + effort act \<le> work e (R e)" and "in_step K (C(e := bx_phase x')) (R(e := sent_upto e x')) V (under_way (net + multicast_messages act))"
  shows "outcome schar e K C R V net x r"
  using assms unfolding outcome_def by blast

text \<open>The send of a phase is over: the process goes on if nothing is missing.\<close>

lemma notify_outcome:
  assumes c: "in_step K C R V (under_way net)" and e: "e \<in> E" "0 < K e" and conf: "configured e x"
    and x: "V e = bx_phasevec x" "bx_iteration x \<longleftrightarrow> odd (K e)" "C e = bx_phase x" "R e = Suc (bx_phase x)" "st e \<le> bx_phase x" "bx_phase x < en e"
    and next_phase: "\<And>x' C. in_step K C R V (under_way net) \<Longrightarrow> configured e x' \<Longrightarrow> bx_phasevec x' = bx_phasevec x \<Longrightarrow>
      bx_iteration x' = bx_iteration x \<Longrightarrow> bx_phase x' = Suc (bx_phase x) \<Longrightarrow> C e = Suc (bx_phase x) \<Longrightarrow>
      outcome schar e K C R V net x' (bx_sendNext schar x')"
  shows "outcome schar e K C R V net x (bx_internalNotifySendDone schar x)"
proof -
  note down = counter_down [OF c e x(1,2,6), of schar]
  show ?thesis
  proof (cases "missing K R (under_way net) e (bx_phase x) (odd (K e)) = 0")
    case True
    let ?x = "x\<lparr>bx_senddone := True, bx_phase := Suc (bx_phase x)\<rparr>"
    have "in_step K (C(e := Suc (C e))) R V (under_way net)" using in_step_pass [OF c e] x(3,4) True by simp
    moreover have "configured e ?x" using conf by (simp add: configured_def bx_end_def)
    ultimately have "outcome schar e K (C(e := Suc (C e))) R V net ?x (bx_sendNext schar ?x)" using x(3) by (intro next_phase) simp_all
    moreover have "bx_internalNotifySendDone schar x = bx_sendNext schar ?x"
      using down True by (simp add: bx_internalNotifySendDone.simps Let_def)
    ultimately show ?thesis by (simp add: outcome_def)
  next
    case False
    let ?x = "x\<lparr>bx_senddone := True\<rparr>"
    have "bx_internalNotifySendDone schar x = Some (?x, None)" using down False by (simp add: bx_internalNotifySendDone.simps Let_def)
    moreover have "\<not> char_le0 schar (bx_phasevec x (bx_phase x) (bx_iteration x))" using down False by (auto simp: bx_arrived_def split: if_splits)
    moreover have "C(e := bx_phase x) = C" "R(e := sent_upto e ?x) = R" "sent_upto e ?x = R e" using x(3,4,6) by (auto simp: sent_upto_def)
    ultimately show ?thesis
      using conf x(5,6) c by (intro outcomeI [of _ ?x None]) (simp_all add: configured_def bx_end_def multicast_messages_def settled_def effort_def)
  qed
qed

text \<open>A process sends the messages of its phase.\<close>

lemma multicast_outcome:
  assumes c: "in_step K C R V (under_way net)" and e: "e \<in> E" "0 < K e" and conf: "configured e x"
    and x: "V e = bx_phasevec x" "bx_iteration x \<longleftrightarrow> odd (K e)" "C e = bx_phase x" "R e = bx_phase x" "bx_phase x < en e" "st e \<le> bx_phase x"
    and some: "dst e (bx_phase x) \<noteq> []"
  shows "outcome schar e K C R V net x (bx_sendNext schar x)"
proof -
  let ?p = "bx_phase x" and ?ds = "dst e (bx_phase x)" and ?it = "if bx_iteration x then 1 else (0::nat)"
  let ?x = "x\<lparr>bx_senddone := False\<rparr>" and ?R = "R(e := Suc (bx_phase x))"
  let ?act = "\<lambda>cb. Multicast (Topology_eplist ?ds) ?p ?it cb"
  have p24: "?p mod 2 ^ 12 = ?p" using en_bound [OF e(1)] x(5) by (simp add: CCMI_BARRIER_MAXPHASES_def)
  have "unat (topo_size_impl (Topology_eplist ?ds)) = length ?ds" using dst_short [OF e(1), of ?p] by (intro size_eplist) simp
  then have size: "0 < topo_size_impl (Topology_eplist ?ds)" using some by (simp add: word_less_nat_alt)
  have ds: "distinct ?ds" "set ?ds \<subseteq> E" using dst_lists [OF e(1)] by auto
  have mm: "set_mset (multicast_messages (Some (?act cb))) \<subseteq> E \<times> UNIV \<times> {0, 1}" for cb using ds(2) by (auto simp: multicast_messages_def)
  have step: "in_step K C ?R V (under_way (net + multicast_messages (Some (?act cb))))" for cb
    using in_step_send [OF c e, of "under_way (net + multicast_messages (Some (?act cb)))"] x(3,4)
      under_way_multicast [OF ds(1) x(2) refl, of net ?p cb] by simp
  note down = counter_down [OF c e x(1,2,5), of schar]
  have conf': "configured e ?x" "configured e (?x\<lparr>bx_phase := Suc ?p\<rparr>)" using conf by (simp_all add: configured_def bx_end_def)
  have ends: "bx_end x = en e" using conf by (simp add: configured_def)
  note get = cached(2) [OF conf x(6,5)]
  have eff: "work e (Suc ?p) + effort (Some (?act cb)) \<le> work e (R e)" for cb
    using work_Suc [OF x(5)] x(4) by (simp add: effort_def multicast_messages_def)
  show ?thesis
  proof (cases "Suc ?p = en e \<and> missing K R (under_way net) e ?p (odd (K e)) = 0")
    case True
    then have "Some True = bx_arrived schar x ?p" using down by simp
    then have "Some True = Some (missing K ?R (under_way (net + multicast_messages (Some (?act ClientDone)))) e ?p (odd (K e)) = 0)"
      using counter_down [OF step [of ClientDone] e x(1,2,5), of schar] by (rule trans)
    then have "missing K ?R (under_way (net + multicast_messages (Some (?act ClientDone)))) e ?p (odd (K e)) = 0"
      by (simp only: option.inject simp_thms)
    then have "in_step K (C(e := Suc (C e))) ?R V (under_way (net + multicast_messages (Some (?act ClientDone))))"
      using x(3) by (intro in_step_pass [OF step e]) simp_all
    moreover have "bx_sendNext schar x = Some (?x\<lparr>bx_phase := Suc ?p\<rparr>, Some (?act ClientDone))"
      using True down get size ends p24 x(5) by (auto simp: bx_sendNext.simps Let_def)
    ultimately show ?thesis
      using True conf'(2) mm [of ClientDone] x(3,6) eff [of ClientDone]
      by (intro outcomeI [of _ "?x\<lparr>bx_phase := Suc ?p\<rparr>" "Some (?act ClientDone)"]) (simp_all add: settled_def sent_upto_def)
  next
    case False
    then have "bx_sendNext schar x = Some (?x, Some (?act StaticNotifySendDone))"
      using down get size ends p24 x(5) by (auto simp: bx_sendNext.simps Let_def)
    moreover have "C(e := ?p) = C" using x(3) by auto
    ultimately show ?thesis
      using conf'(1) step mm [of StaticNotifySendDone] x(5,6) eff [of StaticNotifySendDone]
      by (intro outcomeI [of _ ?x "Some (?act StaticNotifySendDone)"]) (simp_all add: settled_def sent_upto_def)
  qed
qed

lemma send_outcome:
  assumes "in_step K C R V (under_way net)" and e: "e \<in> E" "0 < K e" and "configured e x"
    and "V e = bx_phasevec x" "bx_iteration x \<longleftrightarrow> odd (K e)" "C e = bx_phase x" "R e = bx_phase x" "st e \<le> bx_phase x" "bx_phase x \<le> en e"
  shows "outcome schar e K C R V net x (bx_sendNext schar x)"
  using assms(1,4-)
proof (induction "en e - bx_phase x" arbitrary: x C R)
  case 0
  then have p: "bx_phase x = en e" by simp
  let ?x = "x\<lparr>bx_senddone := False\<rparr>"
  have "work e (sent_upto e ?x) = work e (R e)" using 0 p by (simp add: sent_upto_def)
  moreover have "bx_end x = en e" "bx_cb_done x" "configured e ?x" using 0(3) by (simp_all add: configured_def bx_end_def)
  moreover from this have "bx_sendNext schar x = Some (?x, Some CallDone)" using p by (simp add: bx_sendNext.simps)
  moreover have "C(e := en e) = C" "R(e := en e) = R" using 0 p by auto
  ultimately show ?case
    using 0(2,8) p \<open>configured e ?x\<close> by (intro outcomeI [of _ ?x "Some CallDone"]) (simp_all add: settled_def sent_upto_def multicast_messages_def effort_def)
next
  case (Suc k)
  then have p: "bx_phase x < en e" by simp
  show ?case
  proof (cases "dst e (bx_phase x) = []")
    case True
    let ?x = "x\<lparr>bx_senddone := False\<rparr>" and ?R = "R(e := Suc (bx_phase x))"
    have conf: "bx_end x = en e" "configured e ?x" using Suc(4) by (simp_all add: configured_def bx_end_def)
    have "topo_size_impl (Topology_eplist []) = 0" by (simp add: topo_size_impl_def Topology_eplist_def)
    then have "bx_sendNext schar x = bx_internalNotifySendDone schar ?x"
      using conf p cached(2) [OF Suc(4,9) p] True by (simp add: bx_sendNext.simps)
    moreover have c: "in_step K C ?R V (under_way net)" using in_step_send [OF Suc(3) e, of "under_way net"] True Suc(7,8) by simp
    have "outcome schar e K C' ?R V net x' (bx_sendNext schar x')"
      if "in_step K C' ?R V (under_way net)" "configured e x'" "bx_phasevec x' = bx_phasevec ?x" "bx_iteration x' = bx_iteration ?x"
        "bx_phase x' = Suc (bx_phase ?x)" "C' e = Suc (bx_phase ?x)" for x' C'
      using that Suc(2,5-10) p by (intro Suc(1)) simp_all
    then have "outcome schar e K C ?R V net ?x (bx_internalNotifySendDone schar ?x)"
      using notify_outcome [OF c e conf(2)] Suc(5-9) p by simp
    ultimately show ?thesis using work_mono [of e "bx_phase x"] Suc(8) unfolding outcome_def by (fastforce intro: order_trans)
  next
    case False
    then show ?thesis using multicast_outcome [OF Suc(3) e Suc(4-8) p Suc(9)] by blast
  qed
qed

lemma done_outcome:
  assumes c: "in_step K C R V (under_way net)" and e: "e \<in> E" "0 < K e" and conf: "configured e x"
    and x: "V e = bx_phasevec x" "bx_iteration x \<longleftrightarrow> odd (K e)" "C e = bx_phase x" "R e = Suc (bx_phase x)" "st e \<le> bx_phase x" "bx_phase x < en e"
  shows "outcome schar e K C R V net x (bx_internalNotifySendDone schar x)"
proof (rule notify_outcome [OF assms])
  fix x' C'
  assume x': "in_step K C' R V (under_way net)" "configured e x'" "bx_phasevec x' = bx_phasevec x" "bx_iteration x' = bx_iteration x"
    "bx_phase x' = Suc (bx_phase x)" "C' e = Suc (bx_phase x)"
  show "outcome schar e K C' R V net x' (bx_sendNext schar x')" using x x' by (intro send_outcome [OF x'(1) e x'(2)]) simp_all
qed

lemma pass_outcome:
  assumes c: "in_step K C R V (under_way net)" and e: "e \<in> E" "0 < K e" and conf: "configured e x"
    and x: "V e = bx_phasevec x" "bx_iteration x \<longleftrightarrow> odd (K e)" "C e = bx_phase x" "R e = Suc (bx_phase x)" "st e \<le> bx_phase x" "bx_phase x < en e"
    and down: "bx_arrived schar x (bx_phase x) = Some True"
  shows "outcome schar e K C R V net x (bx_sendNext schar (x\<lparr>bx_phase := Suc (bx_phase x)\<rparr>))"
proof -
  have "missing K R (under_way net) e (bx_phase x) (odd (K e)) = 0" using counter_down [OF c e x(1,2,6), of schar] down by simp
  then have "in_step K (C(e := Suc (bx_phase x))) R V (under_way net)" using in_step_pass [OF c e] x(3,4) by simp
  then have "outcome schar e K (C(e := Suc (bx_phase x))) R V net (x\<lparr>bx_phase := Suc (bx_phase x)\<rparr>) (bx_sendNext schar (x\<lparr>bx_phase := Suc (bx_phase x)\<rparr>))"
    using conf x e by (intro send_outcome) (simp_all add: configured_def bx_end_def)
  then show ?thesis by (simp add: outcome_def)
qed

lemma configured_phasevec [simp]: "configured e (x\<lparr>bx_phasevec := v\<rparr>) = configured e x"
  by (simp add: configured_def bx_end_def)

lemma reset_loop:
  assumes "e \<in> E" and "configured e x" and "distinct ps" and "\<forall>p\<in>set ps. st e \<le> p \<and> p < en e"
  shows "bx_reset_loop ps x = Some (x\<lparr>bx_phasevec :=
    \<lambda>q a. bx_phasevec x q a + (if q \<in> set ps \<and> a = bx_iteration x then of_nat (length (src e q)) else 0)\<rparr>)"
  using assms(2-4)
proof (induction ps arbitrary: x)
  case (Cons p ps)
  then have p: "st e \<le> p" "p < en e" "p < CCMI_BARRIER_MAXPHASES" using en_bound [OF assms(1)] by auto
  have "unat (topo_size_impl (Topology_eplist (src e p))) = length (src e p)"
    using src_lists [OF assms(1), of p] by (intro size_eplist) simp
  then have sz: "ucast (topo_size_impl (Topology_eplist (src e p))) = (of_nat (length (src e p)) :: 8 word)" by (metis of_nat_unat)
  let ?x = "x\<lparr>bx_phasevec := (bx_phasevec x)(p := (bx_phasevec x p)(bx_iteration x := bx_phasevec x p (bx_iteration x) + of_nat (length (src e p))))\<rparr>"
  have "bx_reset_loop (p # ps) x = bx_reset_loop ps ?x" using cached(1) [OF Cons(2) p(1,2)] p(3) sz by (simp add: bx_vec_add_def)
  moreover have "configured e ?x" using Cons(2) by simp
  ultimately show ?case using Cons.IH [of ?x] Cons(3,4) by (auto intro!: arg_cong [of _ _ "\<lambda>v. x\<lparr>bx_phasevec := v\<rparr>"] ext)
qed simp

lemma reset_vector:
  assumes "e \<in> E" and "configured e x" and "bx_phase x = en e"
  shows "bx_resetVector x = Some (x\<lparr>bx_phase := st e, bx_iteration := \<not> bx_iteration x, bx_senddone := False, bx_phasevec :=
    \<lambda>q a. bx_phasevec x q a + (if st e \<le> q \<and> q < en e \<and> a = (\<not> bx_iteration x) then of_nat (length (src e q)) else 0)\<rparr>)"
proof -
  let ?x = "x\<lparr>bx_phase := st e, bx_iteration := \<not> bx_iteration x\<rparr>"
  have "configured e ?x" "bx_start_phase x = st e" "bx_end x = en e" using assms(2) by (simp_all add: configured_def bx_end_def)
  then show ?thesis using reset_loop [OF assms(1), of ?x "[st e..<en e]"] assms(3) by (simp add: bx_resetVector_def conj_assoc)
qed

section \<open>The invariant of a run\<close>

definition process_ok :: "bool \<Rightarrow> endpoint \<Rightarrow> barrier_exec \<Rightarrow> bx_callback option \<Rightarrow> nat \<Rightarrow> nat \<Rightarrow> bool" where
  "process_ok schar e x pend K D \<longleftrightarrow> configured e x \<and> bx_iteration x = odd K \<and> st e \<le> bx_phase x \<and>
     (case pend of
        None \<Rightarrow> if bx_phase x = en e then D = K
          else bx_phase x < en e \<and> Suc D = K \<and> bx_senddone x \<and> \<not> char_le0 schar (bx_phasevec x (bx_phase x) (bx_iteration x))
      | Some StaticNotifySendDone \<Rightarrow> bx_phase x < en e \<and> Suc D = K \<and> \<not> bx_senddone x
      | Some ClientDone \<Rightarrow> bx_phase x = en e \<and> Suc D = K)"

definition run_ok :: "bool \<Rightarrow> barrier_system \<Rightarrow> bool" where
  "run_ok schar s \<longleftrightarrow>
     in_step (bs_starts s) (\<lambda>e. bx_phase (bs_exec s e)) (\<lambda>e. sent_upto e (bs_exec s e)) (\<lambda>e. bx_phasevec (bs_exec s e)) (under_way (bs_net s)) \<and>
     set_mset (bs_net s) \<subseteq> E \<times> UNIV \<times> {0, 1} \<and>
     (\<forall>e. if e \<in> E then process_ok schar e (bs_exec s e) (bs_pend s e) (bs_starts s e) (bs_dones s e) else bs_pend s e = None)"

lemma fun_upd_exec: "(\<lambda>f. g f ((h(e := x)) f)) = (\<lambda>f. g f (h f))(e := g e x)"
  by auto

lemma run_okI:
  assumes "in_step (bs_starts s) ((\<lambda>f. bx_phase (bs_exec s f))(e := bx_phase x)) ((\<lambda>f. sent_upto f (bs_exec s f))(e := sent_upto e x))
      ((\<lambda>f. bx_phasevec (bs_exec s f))(e := bx_phasevec x)) (under_way (bs_net s + multicast_messages act))"
    and "set_mset (bs_net s + multicast_messages act) \<subseteq> E \<times> UNIV \<times> {0, 1}" and "e \<in> E"
    and "\<And>f. f \<noteq> e \<Longrightarrow> if f \<in> E then process_ok schar f (bs_exec s f) (bs_pend s f) (bs_starts s f) (bs_dones s f) else bs_pend s f = None"
    and "process_ok schar e x (bs_pend (perform e x act s) e) (bs_starts s e) (bs_dones (perform e x act s) e)"
  shows "run_ok schar (perform e x act s)"
proof -
  let ?s = "perform e x act s"
  have same: "bs_exec ?s = (bs_exec s)(e := x)" "bs_starts ?s = bs_starts s" "bs_net ?s = bs_net s + multicast_messages act"
    by (simp_all add: perform_def)
  have other: "bs_pend ?s f = bs_pend s f" "bs_dones ?s f = bs_dones s f" if "f \<noteq> e" for f
    using that by (auto simp: perform_def split: option.split bx_action.split)
  have "if f \<in> E then process_ok schar f (bs_exec ?s f) (bs_pend ?s f) (bs_starts ?s f) (bs_dones ?s f) else bs_pend ?s f = None" for f
    using assms(3-5) same other by (cases "f = e") auto
  then show ?thesis using assms(1,2) unfolding run_ok_def same by (simp only: fun_upd_exec fun_upd_exec [of "\<lambda>_. bx_phase"] fun_upd_exec [of "\<lambda>_. bx_phasevec"]) blast
qed

text \<open>A handler that ends as \<open>outcome\<close> says keeps the invariant.\<close>

lemma outcome_ok:
  assumes "outcome schar e (bs_starts s) C R V (bs_net s) x0 (Some (x, act))" and e: "e \<in> E" and "bx_iteration x0 = odd (bs_starts s e)"
    and V: "V = (\<lambda>f. bx_phasevec (bs_exec s f))(e := bx_phasevec x0)"
    and "\<And>f. f \<noteq> e \<Longrightarrow> C f = bx_phase (bs_exec s f) \<and> R f = sent_upto f (bs_exec s f)"
    and "set_mset (bs_net s) \<subseteq> E \<times> UNIV \<times> {0, 1}" and "bs_pend s e = None" and "Suc (bs_dones s e) = bs_starts s e"
    and "\<And>f. f \<noteq> e \<Longrightarrow> if f \<in> E then process_ok schar f (bs_exec s f) (bs_pend s f) (bs_starts s f) (bs_dones s f) else bs_pend s f = None"
  shows "run_ok schar (perform e x act s)"
proof (rule run_okI [OF _ _ e])
  have o: "configured e x" "bx_iteration x = odd (bs_starts s e)" "bx_phasevec x = bx_phasevec x0" "settled schar e x act"
    "set_mset (multicast_messages act) \<subseteq> E \<times> UNIV \<times> {0, 1}"
    "in_step (bs_starts s) (C(e := bx_phase x)) (R(e := sent_upto e x)) V (under_way (bs_net s + multicast_messages act))"
    using assms(1,3) unfolding outcome_def by auto
  have "C(e := bx_phase x) = (\<lambda>f. bx_phase (bs_exec s f))(e := bx_phase x)"
    "R(e := sent_upto e x) = (\<lambda>f. sent_upto f (bs_exec s f))(e := sent_upto e x)" using assms(5) by auto
  then show "in_step (bs_starts s) ((\<lambda>f. bx_phase (bs_exec s f))(e := bx_phase x)) ((\<lambda>f. sent_upto f (bs_exec s f))(e := sent_upto e x))
      ((\<lambda>f. bx_phasevec (bs_exec s f))(e := bx_phasevec x)) (under_way (bs_net s + multicast_messages act))"
    using o(3,6) V by simp
  show "set_mset (bs_net s + multicast_messages act) \<subseteq> E \<times> UNIV \<times> {0, 1}" using o(5) assms(6) by simp
  show "process_ok schar e x (bs_pend (perform e x act s) e) (bs_starts s e) (bs_dones (perform e x act s) e)"
    using o(1,2,4) assms(7,8)
    by (auto simp: process_ok_def settled_def perform_def split: option.splits bx_action.splits bx_callback.splits if_splits)
qed (rule assms(9))

text \<open>What is left to do until the next start: deliveries, reports of sends, and what they cause.\<close>

definition duty :: "barrier_system \<Rightarrow> endpoint \<Rightarrow> nat" where
  "duty s e = (if bs_pend s e = None then 0 else 1) + work e (sent_upto e (bs_exec s e))"

definition remaining :: "barrier_system \<Rightarrow> nat" where
  "remaining s = size (bs_net s) + (\<Sum>e\<in>E. duty s e)"

lemma remaining_perform:
  assumes "e \<in> E" and "duty (perform e x act s) e + size (multicast_messages act) \<le> duty s e"
  shows "remaining (perform e x act s) \<le> remaining s"
proof -
  have "duty (perform e x act s) f = duty s f" if "f \<noteq> e" for f
    using that by (auto simp: duty_def perform_def split: option.splits bx_action.splits)
  then have "(\<Sum>f\<in>E - {e}. duty (perform e x act s) f) = (\<Sum>f\<in>E - {e}. duty s f)" by (intro sum.cong) auto
  moreover have "size (bs_net (perform e x act s)) = size (bs_net s) + size (multicast_messages act)" by (simp add: perform_def)
  ultimately show ?thesis
    using assms(2) sum.remove [OF finite_E assms(1), of "duty s"] sum.remove [OF finite_E assms(1), of "duty (perform e x act s)"]
    by (simp add: remaining_def)
qed

lemma outcome_remaining:
  assumes "outcome schar e K C R V net x0 (Some (x, act))" and e: "e \<in> E" and "bs_pend s e = None" and "R e = sent_upto e (bs_exec s e)"
  shows "remaining (perform e x act s) \<le> remaining s"
proof -
  have "work e (sent_upto e x) + effort act \<le> work e (sent_upto e (bs_exec s e))" using assms(1,4) by (auto simp: outcome_def)
  then show ?thesis
    using assms(3) by (intro remaining_perform [OF e]) (auto simp: duty_def effort_def perform_def split: option.splits bx_action.splits)
qed

lemma remaining_pend:
  assumes "e \<in> E" and "bs_pend s e \<noteq> None"
  shows "remaining (s\<lparr>bs_pend := (bs_pend s)(e := None)\<rparr>) < remaining s"
proof -
  have "(\<Sum>f\<in>E - {e}. duty (s\<lparr>bs_pend := (bs_pend s)(e := None)\<rparr>) f) = (\<Sum>f\<in>E - {e}. duty s f)" by (intro sum.cong) (auto simp: duty_def)
  then show ?thesis
    using assms sum.remove [OF finite_E assms(1), of "duty s"] sum.remove [OF finite_E assms(1), of "duty (s\<lparr>bs_pend := (bs_pend s)(e := None)\<rparr>)"]
    by (simp add: remaining_def duty_def)
qed

lemma remaining_net: "m \<in># bs_net s \<Longrightarrow> remaining (s\<lparr>bs_net := bs_net s - {#m#}\<rparr>) < remaining s"
  by (auto simp: remaining_def duty_def dest!: multi_member_split)

lemma run_okD:
  assumes "run_ok schar s"
  shows "in_step (bs_starts s) (\<lambda>e. bx_phase (bs_exec s e)) (\<lambda>e. sent_upto e (bs_exec s e)) (\<lambda>e. bx_phasevec (bs_exec s e)) (under_way (bs_net s))"
    and "set_mset (bs_net s) \<subseteq> E \<times> UNIV \<times> {0, 1}" and "e \<notin> E \<Longrightarrow> bs_pend s e = None"
    and "e \<in> E \<Longrightarrow> process_ok schar e (bs_exec s e) (bs_pend s e) (bs_starts s e) (bs_dones s e)"
    and "if f \<in> E then process_ok schar f (bs_exec s f) (bs_pend s f) (bs_starts s f) (bs_dones s f) else bs_pend s f = None"
  using assms unfolding run_ok_def by (meson)+

lemma start_ok:
  assumes ok: "run_ok schar s" and e: "e \<in> E" and "bs_dones s e = bs_starts s e"
  shows "\<exists>x act. bx_start schar (bs_exec s e) = Some (x, act) \<and>
    run_ok schar (perform e x act (s\<lparr>bs_starts := (bs_starts s)(e := Suc (bs_starts s e))\<rparr>))"
proof -
  let ?x = "bs_exec s e" and ?K = "(bs_starts s)(e := Suc (bs_starts s e))" and ?s = "s\<lparr>bs_starts := (bs_starts s)(e := Suc (bs_starts s e))\<rparr>"
  note p = run_okD(4) [OF ok e] and c = run_okD(1) [OF ok]
  have x: "bs_pend s e = None" "bx_phase ?x = en e" "configured e ?x" "bx_iteration ?x = odd (bs_starts s e)"
    using p assms(3) by (auto simp: process_ok_def split: option.splits bx_callback.splits if_splits)
  obtain x0 where x0: "bx_resetVector ?x = Some x0" "configured e x0" "bx_phase x0 = st e" "bx_iteration x0 = odd (?K e)"
    "bx_phasevec x0 = (\<lambda>q a. bx_phasevec ?x q a + (if st e \<le> q \<and> q < en e \<and> a = odd (?K e) then of_nat (length (src e q)) else 0))"
    using reset_vector [OF e x(3,2)] x(3,4) by (auto simp: configured_def bx_end_def)
  let ?C = "(\<lambda>f. bx_phase (bs_exec s f))(e := st e)" and ?R = "(\<lambda>f. sent_upto f (bs_exec s f))(e := st e)"
    and ?V = "(\<lambda>f. bx_phasevec (bs_exec s f))(e := bx_phasevec x0)"
  have "in_step ?K ?C ?R ?V (under_way (bs_net s))" using x(2) x0(5) by (intro in_step_start [OF c e]) auto
  then have out: "outcome schar e ?K ?C ?R ?V (bs_net s) x0 (bx_sendNext schar x0)"
    using e x0 bounds [OF e] by (intro send_outcome) auto
  then obtain x act where r: "bx_sendNext schar x0 = Some (x, act)" by (auto simp: outcome_def)
  have "run_ok schar (perform e x act ?s)"
    using out [unfolded r] e x0(4) x(1) run_okD(2,5) [OF ok] assms(3) by (intro outcome_ok [where C = ?C and R = ?R and V = ?V and ?x0.0 = x0]) auto
  then show ?thesis using r x0(1) by (auto simp: bx_start_def)
qed

lemma send_done_ok:
  assumes ok: "run_ok schar s" and pend: "bs_pend s e = Some StaticNotifySendDone"
  shows "\<exists>x act. bx_internalNotifySendDone schar (bs_exec s e) = Some (x, act) \<and>
    run_ok schar (perform e x act (s\<lparr>bs_pend := (bs_pend s)(e := None)\<rparr>)) \<and>
    remaining (perform e x act (s\<lparr>bs_pend := (bs_pend s)(e := None)\<rparr>)) < remaining s"
proof -
  let ?x = "bs_exec s e" and ?C = "\<lambda>f. bx_phase (bs_exec s f)" and ?R = "\<lambda>f. sent_upto f (bs_exec s f)"
    and ?V = "\<lambda>f. bx_phasevec (bs_exec s f)"
  have e: "e \<in> E" using run_okD(3) [OF ok, of e] pend by auto
  note p = run_okD(4) [OF ok e] and c = run_okD(1) [OF ok]
  have x: "bx_phase ?x < en e" "configured e ?x" "bx_iteration ?x = odd (bs_starts s e)" "st e \<le> bx_phase ?x" "Suc (bs_dones s e) = bs_starts s e"
    using p pend by (auto simp: process_ok_def)
  then have R: "?R e = Suc (bx_phase ?x)" "0 < bs_starts s e" by (auto simp: sent_upto_def)
  have out: "outcome schar e (bs_starts s) ?C ?R ?V (bs_net s) ?x (bx_internalNotifySendDone schar ?x)"
    using x R by (intro done_outcome [OF c e R(2) x(2)]) auto
  then obtain x' act where r: "bx_internalNotifySendDone schar ?x = Some (x', act)" by (auto simp: outcome_def)
  have "run_ok schar (perform e x' act (s\<lparr>bs_pend := (bs_pend s)(e := None)\<rparr>))"
    using out [unfolded r] e x(3,5) run_okD(2,5) [OF ok] by (intro outcome_ok [where C = ?C and R = ?R and V = ?V and ?x0.0 = ?x]) auto
  moreover have "remaining (perform e x' act (s\<lparr>bs_pend := (bs_pend s)(e := None)\<rparr>)) \<le> remaining (s\<lparr>bs_pend := (bs_pend s)(e := None)\<rparr>)"
    using out [unfolded r] by (rule outcome_remaining [OF _ e]) simp_all
  ultimately show ?thesis using r remaining_pend [OF e, of s] pend by auto
qed

lemma client_done_ok:
  assumes ok: "run_ok schar s" and pend: "bs_pend s e = Some ClientDone"
  shows "run_ok schar (s\<lparr>bs_pend := (bs_pend s)(e := None), bs_dones := (bs_dones s)(e := Suc (bs_dones s e))\<rparr>)"
    and "remaining (s\<lparr>bs_pend := (bs_pend s)(e := None), bs_dones := (bs_dones s)(e := Suc (bs_dones s e))\<rparr>) < remaining s"
proof -
  have e: "e \<in> E" using run_okD(3) [OF ok, of e] pend by auto
  have "process_ok schar e (bs_exec s e) None (bs_starts s e) (Suc (bs_dones s e))"
    using run_okD(4) [OF ok e] pend by (simp add: process_ok_def)
  then show "run_ok schar (s\<lparr>bs_pend := (bs_pend s)(e := None), bs_dones := (bs_dones s)(e := Suc (bs_dones s e))\<rparr>)"
    using ok unfolding run_ok_def by auto
  show "remaining (s\<lparr>bs_pend := (bs_pend s)(e := None), bs_dones := (bs_dones s)(e := Suc (bs_dones s e))\<rparr>) < remaining s"
    using remaining_pend [OF e, of s] pend by (simp add: remaining_def duty_def)
qed

text \<open>A message arrives: first its counter goes down.\<close>

lemma recv_counted:
  assumes ok: "run_ok schar s" and msg: "(e, p, it) \<in># bs_net s" and "s' = s\<lparr>bs_net := bs_net s - {#(e, p, it)#}\<rparr>"
  obtains x where "bx_vec_add p (it = 1) (- 1) (bs_exec s e) = Some x" and "e \<in> E" and "it \<le> 1"
    and "\<exists>v. x = (bs_exec s e)\<lparr>bx_phasevec := v\<rparr>" and "set_mset (bs_net s') \<subseteq> E \<times> UNIV \<times> {0, 1}"
    and "in_step (bs_starts s) (\<lambda>f. bx_phase (bs_exec s f)) (\<lambda>f. sent_upto f (bs_exec s f)) ((\<lambda>f. bx_phasevec (bs_exec s f))(e := bx_phasevec x))
      (under_way (bs_net s'))"
proof -
  let ?V = "\<lambda>f. bx_phasevec (bs_exec s f)"
  have e: "e \<in> E" and it: "it = 0 \<or> it = 1" using run_okD(2) [OF ok] msg by auto
  note c = run_okD(1) [OF ok]
  have N: "0 < under_way (bs_net s) e p (it = 1)" using msg it by (auto simp: under_way_def)
  then have "src e p \<noteq> []" using in_stepD(5) [OF c e, of p "it = 1"] by auto
  then have p24: "p < CCMI_BARRIER_MAXPHASES" using window [OF e, of p] en_bound [OF e] by auto
  define v where "v = (?V e)(p := (?V e p)(it = 1 := ?V e p (it = 1) + - 1))"
  show ?thesis
  proof (rule that [of "(bs_exec s e)\<lparr>bx_phasevec := v\<rparr>"])
    show "in_step (bs_starts s) (\<lambda>f. bx_phase (bs_exec s f)) (\<lambda>f. sent_upto f (bs_exec s f)) (?V(e := bx_phasevec ((bs_exec s e)\<lparr>bx_phasevec := v\<rparr>)))
      (under_way (bs_net s'))" using it by (intro in_step_recv [OF c N]) (auto simp: v_def under_way_def assms(3))
    show "set_mset (bs_net s') \<subseteq> E \<times> UNIV \<times> {0, 1}" using run_okD(2) [OF ok] by (auto simp: assms(3) dest: in_diffD)
  qed (use e it p24 in \<open>auto simp: bx_vec_add_def v_def\<close>)
qed

lemma deliver_ok:
  assumes ok: "run_ok schar s" and msg: "(e, p, it) \<in># bs_net s"
  shows "\<exists>x act. bx_notifyRecv schar p it (bs_exec s e) = Some (x, act) \<and>
    run_ok schar (perform e x act (s\<lparr>bs_net := bs_net s - {#(e, p, it)#}\<rparr>)) \<and>
    remaining (perform e x act (s\<lparr>bs_net := bs_net s - {#(e, p, it)#}\<rparr>)) < remaining s"
proof -
  let ?x = "bs_exec s e" and ?C = "\<lambda>f. bx_phase (bs_exec s f)" and ?R = "\<lambda>f. sent_upto f (bs_exec s f)"
    and ?V = "\<lambda>f. bx_phasevec (bs_exec s f)" and ?s = "s\<lparr>bs_net := bs_net s - {#(e, p, it)#}\<rparr>"
  obtain x where x: "bx_vec_add p (it = 1) (- 1) ?x = Some x" "e \<in> E" "it \<le> 1" "\<exists>v. x = ?x\<lparr>bx_phasevec := v\<rparr>"
    and net: "set_mset (bs_net ?s) \<subseteq> E \<times> UNIV \<times> {0, 1}" and step: "in_step (bs_starts s) ?C ?R (?V(e := bx_phasevec x)) (under_way (bs_net ?s))"
    using recv_counted [OF ok msg refl] by blast
  have same: "bx_phase x = bx_phase ?x" "bx_iteration x = bx_iteration ?x" "bx_senddone x = bx_senddone ?x"
    "configured e x = configured e ?x" "sent_upto e x = ?R e" using x(4) by (auto simp: bx_end_def sent_upto_def)
  note pr = run_okD(4) [OF ok x(2)]
  have p: "configured e ?x" "bx_end x = en e" "bx_iteration ?x = odd (bs_starts s e)" "st e \<le> bx_phase ?x" "bx_phase ?x \<le> en e"
    "bx_phase ?x \<noteq> en e \<Longrightarrow> Suc (bs_dones s e) = bs_starts s e"
    using pr same(4) by (auto simp: process_ok_def configured_def split: option.splits bx_callback.splits if_splits)
  have ar: "bx_arrived schar x (bx_phase x) = Some (char_le0 schar (bx_phasevec x (bx_phase x) (bx_iteration x)))" if "bx_phase ?x \<noteq> en e"
    using en_bound [OF x(2)] that p(5) same(1) by (simp add: bx_arrived_def)
  show ?thesis
  proof (cases "bx_phase ?x \<noteq> en e \<and> char_le0 schar (bx_phasevec x (bx_phase x) (bx_iteration x)) \<and> bx_senddone x")
    case True
    then have pend: "bs_pend s e = None" using pr same p(5) by (auto simp: process_ok_def split: option.splits bx_callback.splits)
    have out: "outcome schar e (bs_starts ?s) ?C ?R (?V(e := bx_phasevec x)) (bs_net ?s) x (bx_sendNext schar (x\<lparr>bx_phase := Suc (bx_phase x)\<rparr>))"
      using True p same x(2) step ar by (intro pass_outcome) (auto simp: sent_upto_def)
    then obtain x' act where r: "bx_sendNext schar (x\<lparr>bx_phase := Suc (bx_phase x)\<rparr>) = Some (x', act)" by (auto simp: outcome_def)
    have "run_ok schar (perform e x' act ?s)"
      using out [unfolded r] True x(2) p(3,6) same pend net run_okD(5) [OF ok]
      by (intro outcome_ok [where C = ?C and R = ?R and V = "?V(e := bx_phasevec x)" and ?x0.0 = x]) auto
    moreover have "remaining (perform e x' act ?s) \<le> remaining ?s" using out [unfolded r] pend by (intro outcome_remaining [OF _ x(2)]) simp_all
    then have "remaining (perform e x' act ?s) < remaining s" using remaining_net [OF msg] by (rule order.strict_trans1)
    ultimately show ?thesis using r x(1,3) ar True same(1) p(2) by (auto simp: bx_notifyRecv_def)
  next
    case False
    then have "process_ok schar e x (bs_pend s e) (bs_starts s e) (bs_dones s e)"
      using pr same by (auto simp: process_ok_def split: option.splits bx_callback.splits if_splits)
    moreover have "?C(e := bx_phase x) = ?C" "?R(e := sent_upto e x) = ?R" using same by auto
    ultimately have "run_ok schar (perform e x None ?s)"
      using step x(2) net run_okD(5) [OF ok] by (intro run_okI) (simp_all add: multicast_messages_def perform_def)
    moreover have "remaining (perform e x None ?s) \<le> remaining ?s"
      using same(5) by (intro remaining_perform [OF x(2)]) (simp add: duty_def perform_def multicast_messages_def)
    then have "remaining (perform e x None ?s) < remaining s" using remaining_net [OF msg] by (rule order.strict_trans1)
    ultimately show ?thesis using x(1,3) ar False same(1) p(2) by (auto simp: bx_notifyRecv_def)
  qed
qed

section \<open>Every run\<close>

lemma init_ok:
  assumes "\<And>e. e \<in> E \<Longrightarrow> configured e (x e) \<and> bx_phase (x e) = en e \<and> \<not> bx_iteration (x e) \<and> bx_phasevec (x e) = (\<lambda>_ _. 0)"
  shows "run_ok schar (barrier_init x)"
proof -
  have none: "sent (\<lambda>_. 0) R j p = 0" for R j p by (simp add: sent_def)
  have "in_step (\<lambda>_. 0) (\<lambda>e. bx_phase (x e)) (\<lambda>e. sent_upto e (x e)) (\<lambda>e. bx_phasevec (x e)) (under_way {#})"
    using assms none by (intro in_stepI) (auto simp: missing_def sent_upto_def under_way_def)
  then show ?thesis using assms bounds by (simp add: run_ok_def barrier_init_def process_ok_def)
qed

lemma step_ok:
  assumes "barrier_step schar E s s'" and "run_ok schar s"
  shows "run_ok schar s'" and "bs_starts s' = bs_starts s \<Longrightarrow> remaining s' < remaining s"
proof -
  from assms(1) have "run_ok schar s' \<and> (bs_starts s' = bs_starts s \<longrightarrow> remaining s' < remaining s)"
  proof cases
    case (Start e x act)
    then have "bs_starts s' e \<noteq> bs_starts s e" by (simp add: perform_def)
    then show ?thesis using start_ok [OF assms(2) Start(2,3)] Start(1,4) by auto
  next
    case (Deliver e p it x act)
    then show ?thesis using deliver_ok [OF assms(2) Deliver(2)] by auto
  next
    case (SendDone e x act)
    then show ?thesis using send_done_ok [OF assms(2) SendDone(2)] by auto
  next
    case (ClientDone e)
    then show ?thesis using client_done_ok [OF assms(2) ClientDone(2)] by auto
  qed
  then show "run_ok schar s'" "bs_starts s' = bs_starts s \<Longrightarrow> remaining s' < remaining s" by auto
qed

lemma reachable_ok:
  assumes "\<And>e. e \<in> E \<Longrightarrow> configured e (x e) \<and> bx_phase (x e) = en e \<and> \<not> bx_iteration (x e) \<and> bx_phasevec (x e) = (\<lambda>_ _. 0)"
    and "barrier_reachable schar E x s"
  shows "run_ok schar s"
  using assms(2) unfolding barrier_reachable_def
proof (induction rule: rtranclp_induct)
  case base
  then show ?case using init_ok [OF assms(1)] .
next
  case (step s s')
  then show ?case using step_ok(1) by blast
qed

lemma run_safe:
  assumes ok: "run_ok schar s" and "e \<in> E" and "f \<in> E"
  shows "bs_dones s e \<le> bs_starts s f"
proof -
  note p = run_okD(4) [OF ok assms(2)] and c = run_okD(1) [OF ok]
  show ?thesis
  proof (cases "bx_phase (bs_exec s e) = en e")
    case True
    have "bs_dones s e \<le> bs_starts s e" using p by (auto simp: process_ok_def split: option.splits bx_callback.splits if_splits)
    then show ?thesis using complete_started [OF c assms(2,3)] True by simp
  next
    case False
    then have "Suc (bs_dones s e) = bs_starts s e" using p by (auto simp: process_ok_def split: option.splits bx_callback.splits)
    then show ?thesis using in_stepD(4) [OF c assms(2,3)] by simp
  qed
qed

text \<open>With all processes in the same iteration, one that is not done waits for one in an earlier phase,
  or something is under way.\<close>

lemma waits_for:
  assumes ok: "run_ok schar s" and same: "\<forall>e\<in>E. bs_starts s e = k" and e: "e \<in> E" "bs_dones s e \<noteq> k"
    and idle: "bs_net s = {#}" "\<forall>e. bs_pend s e = None"
  shows "\<exists>f\<in>E. bs_dones s f \<noteq> k \<and> bx_phase (bs_exec s f) < bx_phase (bs_exec s e)"
proof -
  let ?p = "bx_phase (bs_exec s e)"
  note c = run_okD(1) [OF ok]
  have pe: "?p < en e" "0 < bs_starts s e" "bx_iteration (bs_exec s e) = odd (bs_starts s e)"
    "\<not> char_le0 schar (bx_phasevec (bs_exec s e) ?p (bx_iteration (bs_exec s e)))"
    using run_okD(4) [OF ok e(1)] e same idle(2) by (auto simp: process_ok_def split: if_splits)
  let ?R = "\<lambda>f. sent_upto f (bs_exec s f)"
  have "missing (bs_starts s) ?R (under_way (bs_net s)) e ?p (odd (bs_starts s e)) \<noteq> 0"
    using counter_down [OF c e(1) pe(2) refl pe(3,1), of schar] pe(4) by (auto simp: bx_arrived_def split: if_splits)
  then have "{j \<in> set (src e ?p). sent (bs_starts s) ?R j ?p < bs_starts s e} \<noteq> {}"
    using missing_current(1) [OF c e(1) pe(2), of ?p] idle(1) by (auto simp: under_way_def)
  then obtain j where j: "j \<in> set (src e ?p)" "sent (bs_starts s) ?R j ?p < bs_starts s e" by blast
  note w = src_window [OF e(1) j(1)]
  have "?R j \<le> ?p" using j(2) same w(1) e(1) by (auto simp: sent_def split: if_splits)
  then have "bx_phase (bs_exec s j) < ?p" "bx_phase (bs_exec s j) \<noteq> en j" using w(6) by (auto simp: sent_upto_def split: if_splits)
  moreover from this have "bs_dones s j \<noteq> k" using run_okD(4) [OF ok w(1)] same w(1) idle(2) by (auto simp: process_ok_def)
  ultimately show ?thesis using w(1) by blast
qed

lemma run_live:
  assumes ok: "run_ok schar s" and same: "\<forall>e\<in>E. bs_starts s e = k" and e: "e \<in> E" "bs_dones s e \<noteq> k"
  shows "bs_net s \<noteq> {#} \<or> (\<exists>e. bs_pend s e \<noteq> None)"
proof (rule ccontr)
  assume "\<not> ?thesis"
  then have "\<exists>f\<in>E. bs_dones s f \<noteq> k \<and> bx_phase (bs_exec s f) < bx_phase (bs_exec s e)" if "e \<in> E" "bs_dones s e \<noteq> k" for e
    using waits_for [OF ok same that] by auto
  then have "bs_dones s e = k" if "e \<in> E" for e
    using that by (induction e rule: measure_induct [of "\<lambda>e. bx_phase (bs_exec s e)"]) blast
  then show False using e by blast
qed

lemma run_moves:
  assumes ok: "run_ok schar s" and "bs_net s \<noteq> {#} \<or> (\<exists>e. bs_pend s e \<noteq> None)"
  shows "\<exists>s'. barrier_step schar E s s' \<and> bs_starts s' = bs_starts s"
proof -
  consider e p it where "(e, p, it) \<in># bs_net s" | e where "bs_pend s e = Some StaticNotifySendDone" | e where "bs_pend s e = Some ClientDone"
  proof (cases "bs_net s = {#}")
    case True
    then obtain e cb where "bs_pend s e = Some cb" using assms(2) by auto
    then show ?thesis using that(2,3) [of e] by (cases cb) simp_all
  next
    case False
    then obtain m where "m \<in># bs_net s" using multiset_nonemptyE by metis
    then show ?thesis using that(1) [of "fst m" "fst (snd m)" "snd (snd m)"] by simp
  qed
  then show ?thesis
  proof cases
    case 1
    then show ?thesis using deliver_ok [OF ok 1] barrier_step.Deliver [OF 1] by (fastforce simp: perform_def)
  next
    case 2
    then show ?thesis using send_done_ok [OF ok 2] barrier_step.SendDone [OF 2] by (fastforce simp: perform_def)
  next
    case 3
    then show ?thesis using barrier_step.ClientDone [OF 3] by fastforce
  qed
qed

lemma run_ends:
  assumes "run_ok schar (r 0)" and "\<And>i. barrier_step schar E (r i) (r (Suc i))" and "\<And>i. bs_starts (r (Suc i)) = bs_starts (r i)"
  shows False
proof -
  have ok: "run_ok schar (r i)" for i by (induction i) (use assms step_ok(1) in blast)+
  have less: "remaining (r (Suc i)) < remaining (r i)" for i using step_ok(2) [OF assms(2) ok assms(3)] .
  have "remaining (r i) + i \<le> remaining (r 0)" for i
  proof (induction i)
    case (Suc i)
    then show ?case using less [of i] by linarith
  qed simp
  from this [of "Suc (remaining (r 0))"] show False by simp
qed

end

end
