(* ===== verification/Pami_Barriers.thy ===== *)
theory Pami_Barriers
  imports Pami_BarrierRun
begin

text \<open>
  Barriers over the multinomial schedules. The trees that the processes of a group build for
  \<^verbatim>\<open>BARRIER_OP\<close> keep the laws that a barrier needs, so its runs are safe, do not fail and end.
\<close>

section \<open>The barrier schedule of a group\<close>

definition barrier_tree :: "nat \<Rightarrow> mapping \<Rightarrow> topology \<Rightarrow> mtree \<Rightarrow> endpoint \<Rightarrow> mtree" where
  "barrier_tree mx M t s e = the (tree_of mx M t BARRIER_OP (- 1) s e)"

definition barrier_start :: "nat \<Rightarrow> mapping \<Rightarrow> topology \<Rightarrow> mtree \<Rightarrow> endpoint \<Rightarrow> nat" where
  "barrier_start mx M t s e = unat (mt_startphase (barrier_tree mx M t s e))"

definition barrier_end :: "nat \<Rightarrow> mapping \<Rightarrow> topology \<Rightarrow> mtree \<Rightarrow> endpoint \<Rightarrow> nat" where
  "barrier_end mx M t s e = barrier_start mx M t s e + unat (mt_nphases (barrier_tree mx M t s e))"

text \<open>Beyond \<open>2 ^ 23\<close> processes the executor has too few phases.\<close>

definition barrier_group :: "mapping \<Rightarrow> topology \<Rightarrow> nat \<Rightarrow> endpoint set" where
  "barrier_group M t n = (if endpoint_group M t n \<and> n < 2 ^ 23 then ep M t ` {..<n} else {})"

lemma heard_le: "p \<le> q \<Longrightarrow> heard src p e \<subseteq> heard src q e"
  by (induction rule: dec_induct) auto

lemma heard_within:
  assumes "\<And>e p. e \<in> E \<Longrightarrow> set (src e p) \<subseteq> E" and "e \<in> E"
  shows "heard src p e \<subseteq> E"
  using assms(2)
proof (induction p arbitrary: e)
  case (Suc p)
  then show ?case using assms(1) by fastforce
qed simp

text \<open>What the group looks like from the rank \<open>i\<close> of a process.\<close>

lemma barrier_sched:
  assumes "endpoint_group M t n" and "n < 2 ^ 23"
  obtains K lr where "2 ^ K \<le> n" and "n < 2 ^ Suc K" and "1 \<le> lr" and "lr \<le> 3" and "lr dvd K" and "K div lr + 2 \<le> CCMI_BARRIER_MAXPHASES" and "lr = tree_lr mx n"
    and "\<And>i p. i < n \<Longrightarrow> sched_src M (barrier_tree mx M t s) (ep M t i) p = map (ep M t) (all_src n K lr i p)"
    and "\<And>i p. i < n \<Longrightarrow> sched_dst M (barrier_tree mx M t s) (ep M t i) p = map (ep M t) (all_dst n K lr i p)"
    and "\<And>i. i < n \<Longrightarrow> barrier_start mx M t s (ep M t i) = fst (all_window n K lr i)"
    and "\<And>i. i < n \<Longrightarrow> barrier_end mx M t s (ep M t i) = fst (all_window n K lr i) + snd (all_window n K lr i)"
    and "\<And>i. i < n \<Longrightarrow> tree_of mx M t BARRIER_OP (- 1) s (ep M t i) = Some (barrier_tree mx M t s (ep M t i))"
proof -
  obtain K where K: "2 ^ K \<le> n" "n < 2 ^ Suc K" using log_exists assms(1) by (auto simp: endpoint_group_def)
  define lr where "lr = tree_lr mx n"
  have n: "0 < n" using assms(1) by (simp add: endpoint_group_def)
  have T: "\<forall>i<n. tree_of mx M t BARRIER_OP (- 1) s (ep M t i) = Some (barrier_tree mx M t s (ep M t i))"
  proof (intro allI impI)
    fix i assume "i < n"
    then obtain r where "tree_of mx M t BARRIER_OP (- 1) s (ep M t i) = Some r"
      using all_tree [OF assms(1) K _ _ refl, of BARRIER_OP i mx "- 1" s] by blast
    then show "tree_of mx M t BARRIER_OP (- 1) s (ep M t i) = Some (barrier_tree mx M t s (ep M t i))" by (simp add: barrier_tree_def)
  qed
  note sc = all_sched [OF assms(1) K disjI1 [OF refl] lr_def T]
  have sh: "1 \<le> lr" "lr \<le> 3" "lr dvd K" using sc(3) [OF n] shaped_lr [OF sc(3) [OF n]] by (auto simp: shaped_def)
  have "(2::nat) ^ K < 2 ^ 23" using K(1) assms(2) by linarith
  then have "K < 23" by (simp only: power_strict_increasing_iff one_less_numeral_iff num.simps semiring_norm)
  then have few: "K div lr + 2 \<le> CCMI_BARRIER_MAXPHASES"
    using div_le_dividend [of K lr] unfolding CCMI_BARRIER_MAXPHASES_def by linarith
  have "barrier_start mx M t s (ep M t i) = fst (all_window n K lr i)"
    "barrier_end mx M t s (ep M t i) = fst (all_window n K lr i) + snd (all_window n K lr i)" if "i < n" for i
    using sc(4) [OF that] all_window_small [OF sc(3) [OF that], of i] small_phase(1)
    by (simp_all add: barrier_start_def barrier_end_def all_context_def)
  then show ?thesis using that [OF K sh few lr_def sc(1,2)] T by blast
qed

interpretation mb: barrier_run "barrier_group M t n" "sched_src M (barrier_tree mx M t s)" "sched_dst M (barrier_tree mx M t s)"
  "barrier_start mx M t s" "barrier_end mx M t s" CCMI_BARRIER_MAXPHASES for M t n mx s
proof (cases "endpoint_group M t n \<and> n < 2 ^ 23")
  case True
  then have g: "endpoint_group M t n" and n: "n < 2 ^ 23" by simp_all
  obtain K lr where K: "2 ^ K \<le> n" "n < 2 ^ Suc K" and lr: "1 \<le> lr" "lr \<le> 3" "lr dvd K" and few: "K div lr + 2 \<le> CCMI_BARRIER_MAXPHASES"
    and src: "\<And>i p. i < n \<Longrightarrow> sched_src M (barrier_tree mx M t s) (ep M t i) p = map (ep M t) (all_src n K lr i p)"
    and dst: "\<And>i p. i < n \<Longrightarrow> sched_dst M (barrier_tree mx M t s) (ep M t i) p = map (ep M t) (all_dst n K lr i p)"
    and w: "\<And>i. i < n \<Longrightarrow> barrier_start mx M t s (ep M t i) = fst (all_window n K lr i)"
      "\<And>i. i < n \<Longrightarrow> barrier_end mx M t s (ep M t i) = fst (all_window n K lr i) + snd (all_window n K lr i)"
    using barrier_sched [OF g n, of mx s] by metis
  let ?E = "ep M t ` {..<n}"
  have E: "barrier_group M t n = ?E" using True by (simp add: barrier_group_def)
  have inj: "inj_on (ep M t) {..<n}" using ep_inj [OF g] by (auto simp: inj_on_def)
  have dist: "distinct (map (ep M t) xs)" if "distinct xs" "set xs \<subseteq> {..<n}" for xs
    using that inj inj_on_subset by (auto simp: distinct_map)
  have mem: "ep M t i \<in> ep M t ` set xs \<longleftrightarrow> i \<in> set xs" if "i < n" "set xs \<subseteq> {..<n}" for i xs
    using inj that by (auto simp: inj_on_def subset_iff)
  note lists = all_lists [OF K(1)] and short = all_lists_short [OF lr(2)]
  show "barrier_run (barrier_group M t n) (sched_src M (barrier_tree mx M t s)) (sched_dst M (barrier_tree mx M t s))
    (barrier_start mx M t s) (barrier_end mx M t s) CCMI_BARRIER_MAXPHASES"
    unfolding E
  proof (unfold_locales, goal_cases)
    case (2 e p)
    then obtain i where i: "i < n" "e = ep M t i" by auto
    then show ?case using src [OF i(1)] dist [OF lists(1,3) [OF i(1)]] image_mono [OF lists(3) [OF i(1)]] short(1) [of n K i p] by simp
  next
    case (3 e p)
    then obtain i where i: "i < n" "e = ep M t i" by auto
    then show ?case using dst [OF i(1)] dist [OF lists(2,4) [OF i(1)]] image_mono [OF lists(4) [OF i(1)]] by simp
  next
    case (4 e f p)
    then obtain i j where "i < n" "e = ep M t i" "j < n" "f = ep M t j" by auto
    then show ?case using src dst mem lists(3,4) all_match [OF K] by simp
  next
    case (5 e p)
    then obtain i where i: "i < n" "e = ep M t i" by auto
    then show ?case using 5(2) src [OF i(1)] dst [OF i(1)] w [OF i(1)] all_outside [OF _ i(1), of K lr p] by auto
  next
    case (6 e)
    then obtain i where i: "i < n" "e = ep M t i" by auto
    then show ?case using w [OF i(1)] few by (simp add: all_window_def)
  next
    case (7 e)
    then obtain i where i: "i < n" "e = ep M t i" by auto
    have "heard (sched_src M (barrier_tree mx M t s)) (K div lr + 2) e = ?E"
      using heard_rename [of "{..<n}" "sched_src M (barrier_tree mx M t s)" "ep M t" "all_src n K lr" i "K div lr + 2"]
        src lists(3) i all_heard [OF K lr(1,3) i(1)] by simp
    moreover have "set (sched_src M (barrier_tree mx M t s) f p) \<subseteq> ?E" if f: "f \<in> ?E" for f p
    proof -
      obtain j where "j < n" "f = ep M t j" using f by auto
      then show ?thesis using src [of j p] image_mono [OF lists(3)] by simp
    qed
    note heard_within [of ?E "sched_src M (barrier_tree mx M t s)", OF this 7]
    ultimately show ?case using heard_le [OF few, of "sched_src M (barrier_tree mx M t s)" e] by (intro equalityI) simp_all
  next
    case (9 e p)
    then obtain i where i: "i < n" "e = ep M t i" by auto
    then show ?case using dst [OF i(1)] short(2) [of n K i p] by auto
  qed simp_all
next
  case False
  then have "barrier_group M t n = {}" by (auto simp: barrier_group_def)
  then show "barrier_run (barrier_group M t n) (sched_src M (barrier_tree mx M t s)) (sched_dst M (barrier_tree mx M t s))
    (barrier_start mx M t s) (barrier_end mx M t s) CCMI_BARRIER_MAXPHASES" by unfold_locales auto
qed

section \<open>The executors of a group\<close>

text \<open>An executor as a barrier algorithm sets it up: constructed, given the schedule of its process and the
  callback of the client.\<close>

definition barrier_exec_of :: "uint_t \<Rightarrow> nat \<Rightarrow> mapping \<Rightarrow> topology \<Rightarrow> mtree \<Rightarrow> schedule_cache \<Rightarrow> endpoint \<Rightarrow> barrier_exec option" where
  "barrier_exec_of tsz mx M t s c e =
     map_option bx_setDoneCallback (bx_setCommSchedule tsz M (MultinomialTreeT mx M e t s) (BarrierExec c))"

lemma barrier_exec_ready:
  assumes g: "endpoint_group M t n" and n: "n < 2 ^ 23" and e: "e \<in> ep M t ` {..<n}"
  shows "\<exists>x. barrier_exec_of tsz mx M t s c e = Some x \<and> mb.configured M mx t s e x \<and> bx_phase x = barrier_end mx M t s e \<and>
    \<not> bx_iteration x \<and> bx_phasevec x = (\<lambda>_ _. 0)"
proof -
  obtain i where i: "i < n" "e = ep M t i" using e by auto
  obtain K lr where K: "2 ^ K \<le> n" "n < 2 ^ Suc K" and few: "K div lr + 2 \<le> CCMI_BARRIER_MAXPHASES" and lr: "lr = tree_lr mx n"
    and src: "\<And>p. sched_src M (barrier_tree mx M t s) (ep M t i) p = map (ep M t) (all_src n K lr i p)"
    and dst: "\<And>p. sched_dst M (barrier_tree mx M t s) (ep M t i) p = map (ep M t) (all_dst n K lr i p)"
    and w: "barrier_start mx M t s (ep M t i) = fst (all_window n K lr i)"
      "barrier_end mx M t s (ep M t i) = fst (all_window n K lr i) + snd (all_window n K lr i)"
    using barrier_sched [OF g n, of mx s] i(1) by metis
  let ?c = "sc_setRoot (- 1) (sc_setSchedule (MultinomialTreeT mx M e t s) (ScheduleCache_new c))"
  have "sc_schedule ?c = MultinomialTreeT mx M (ep M t i) t s" "sc_oldroot ?c \<noteq> sc_root ?c"
    by (simp_all add: sc_setRoot_def sc_setSchedule_def ScheduleCache_new_def i(2))
  then obtain c' where c': "sc_init tsz M BARRIER_OP ?c = Some (True, c')"
    "sc_start c' = of_nat (fst (all_window n K lr i))" "sc_nphases c' = of_nat (snd (all_window n K lr i))"
    "\<forall>p. sc_in_window c' p \<longleftrightarrow> fst (all_window n K lr i) \<le> p \<and> p < fst (all_window n K lr i) + snd (all_window n K lr i)"
    "\<forall>p. sc_in_window c' p \<longrightarrow> sc_srctopologies c' p = Topology_eplist (map (ep M t) (all_src n K lr i p)) \<and>
       sc_dsttopologies c' p = Topology_eplist (map (ep M t) (all_dst n K lr i p))"
    using sc_init_all [OF g K disjI1 [OF refl] i(1) lr, of ?c s tsz] by metis
  have win: "fst (all_window n K lr i) + snd (all_window n K lr i) \<le> CCMI_BARRIER_MAXPHASES" using few by (simp add: all_window_def)
  then have "fst (all_window n K lr i) < 64" "snd (all_window n K lr i) < 64" by (simp_all add: CCMI_BARRIER_MAXPHASES_def)
  then have "unat (sc_start c') = fst (all_window n K lr i)" "unat (sc_nphases c') = snd (all_window n K lr i)"
    using c'(2,3) small_phase(1) by simp_all
  then show ?thesis
    using c' win src dst w
    by (simp add: Let_def barrier_exec_of_def bx_setCommSchedule_def BarrierExec_def bx_setDoneCallback_def mb.configured_def bx_end_def i(2))
qed

lemma barrier_execs:
  assumes "endpoint_group M t n" and "n < 2 ^ 23"
  shows "\<exists>x. \<forall>e\<in>ep M t ` {..<n}. barrier_exec_of tsz mx M t s (c e) e = Some (x e)"
  using barrier_exec_ready [OF assms] by (intro bchoice) blast

lemma barrier_run_ok:
  assumes "endpoint_group M t n" and "n < 2 ^ 23" and "E = ep M t ` {..<n}"
    and "\<forall>e\<in>E. barrier_exec_of tsz mx M t s (c e) e = Some (x e)" and "barrier_reachable schar E x r"
  shows "mb.run_ok M t n mx s schar r" and "barrier_group M t n = E"
proof -
  show E: "barrier_group M t n = E" using assms(1-3) by (simp add: barrier_group_def)
  have "mb.configured M mx t s e (x e) \<and> bx_phase (x e) = barrier_end mx M t s e \<and> \<not> bx_iteration (x e) \<and> bx_phasevec (x e) = (\<lambda>_ _. 0)"
    if "e \<in> E" for e
    using barrier_exec_ready [OF assms(1,2), of e tsz mx s "c e"] assms(3,4) that by auto
  then show "mb.run_ok M t n mx s schar r" using assms(5) unfolding E [symmetric] by (rule mb.reachable_ok)
qed

text \<open>C2: in barriers over any group of at most \<open>2 ^ 23\<close> endpoints, in any of the radices, whatever the order in
  which messages and completions arrive and whether \<^verbatim>\<open>char\<close> is signed or not, no process is told that its
  barrier is complete before every process of the group has started it.\<close>

theorem barrier_safe:
  assumes "endpoint_group M t n" and "n < 2 ^ 23" and "E = ep M t ` {..<n}"
    and "\<forall>e\<in>E. barrier_exec_of tsz mx M t s (c e) e = Some (x e)" and "barrier_reachable schar E x r" and "e \<in> E" and "f \<in> E"
  shows "bs_dones r e \<le> bs_starts r f"
  using mb.run_safe [OF barrier_run_ok(1) [OF assms(1-5)]] barrier_run_ok(2) [OF assms(1-5)] assms(6,7) by simp

text \<open>C4: the executors of the group can be set up, and in no run of barriers does an assertion fail or an
  index leave the vector of phases: every start, message and completion that can happen is handled.\<close>

theorem barrier_handlers_total:
  assumes "endpoint_group M t n" and "n < 2 ^ 23" and "E = ep M t ` {..<n}"
  shows "\<exists>x. (\<forall>e\<in>E. barrier_exec_of tsz mx M t s (c e) e = Some (x e)) \<and>
    (\<forall>r. barrier_reachable schar E x r \<longrightarrow>
       (\<forall>e\<in>E. bs_dones r e = bs_starts r e \<longrightarrow> bx_start schar (bs_exec r e) \<noteq> None) \<and>
       (\<forall>e p it. (e, p, it) \<in># bs_net r \<longrightarrow> e \<in> E \<and> bx_notifyRecv schar p it (bs_exec r e) \<noteq> None) \<and>
       (\<forall>e. bs_pend r e = Some StaticNotifySendDone \<longrightarrow> e \<in> E \<and> bx_internalNotifySendDone schar (bs_exec r e) \<noteq> None))"
proof -
  obtain x where x: "\<forall>e\<in>E. barrier_exec_of tsz mx M t s (c e) e = Some (x e)" using barrier_execs [OF assms(1,2)] assms(3) by blast
  have "(\<forall>e\<in>E. bs_dones r e = bs_starts r e \<longrightarrow> bx_start schar (bs_exec r e) \<noteq> None) \<and>
      (\<forall>e p it. (e, p, it) \<in># bs_net r \<longrightarrow> e \<in> E \<and> bx_notifyRecv schar p it (bs_exec r e) \<noteq> None) \<and>
      (\<forall>e. bs_pend r e = Some StaticNotifySendDone \<longrightarrow> e \<in> E \<and> bx_internalNotifySendDone schar (bs_exec r e) \<noteq> None)"
    if "barrier_reachable schar E x r" for r
  proof -
    note ok = barrier_run_ok [OF assms x that]
    note D = mb.run_okD(2,3) [OF ok(1), unfolded ok(2)]
    show ?thesis
      using mb.start_ok [OF ok(1), unfolded ok(2)] mb.deliver_ok [OF ok(1)] mb.send_done_ok [OF ok(1)] D by fastforce
  qed
  then show ?thesis using x by blast
qed

text \<open>C3: when all processes of the group have started a barrier, it completes: as long as one process has
  not been told, a message or a completion can be handled, and without a new start only finitely many
  can.\<close>

theorem barrier_completes:
  assumes "endpoint_group M t n" and "n < 2 ^ 23" and "E = ep M t ` {..<n}"
    and "\<forall>e\<in>E. barrier_exec_of tsz mx M t s (c e) e = Some (x e)" and "barrier_reachable schar E x r"
    and "\<forall>e\<in>E. bs_starts r e = k"
  shows "((\<exists>e\<in>E. bs_dones r e \<noteq> k) \<longrightarrow> (\<exists>r'. barrier_step schar E r r' \<and> bs_starts r' = bs_starts r)) \<and>
    \<not> (\<exists>run. run 0 = r \<and> (\<forall>i. barrier_step schar E (run i) (run (Suc i)) \<and> bs_starts (run (Suc i)) = bs_starts (run i)))"
proof
  note ok = barrier_run_ok [OF assms(1-5)]
  show "(\<exists>e\<in>E. bs_dones r e \<noteq> k) \<longrightarrow> (\<exists>r'. barrier_step schar E r r' \<and> bs_starts r' = bs_starts r)"
    using mb.run_live [OF ok(1), unfolded ok(2), OF assms(6)] mb.run_moves [OF ok(1), unfolded ok(2)] by blast
  show "\<not> (\<exists>run. run 0 = r \<and> (\<forall>i. barrier_step schar E (run i) (run (Suc i)) \<and> bs_starts (run (Suc i)) = bs_starts (run i)))"
  proof (intro notI, elim exE conjE)
    fix run assume "run 0 = r" "\<forall>i. barrier_step schar E (run i) (run (Suc i)) \<and> bs_starts (run (Suc i)) = bs_starts (run i)"
    then show False using mb.run_ends [of M t n mx s schar run] ok by simp
  qed
qed

section \<open>A group of two\<close>

definition demo_pair :: "topology" where "demo_pair = Topology_eplist [7, 9]"

lemma demo_pair_group: "endpoint_group (bgq_mapping demo_booted) demo_pair 2"
  and demo_pair_eps: "ep (bgq_mapping demo_booted) demo_pair ` {..<2} = {7, 9}"
proof -
  show "endpoint_group (bgq_mapping demo_booted) demo_pair 2" using eplist_group(1) [of "[7, 9]" "bgq_mapping demo_booted"] by (simp add: demo_pair_def numeral_2_eq_2 [symmetric] del: One_nat_def Suc_1)
  have "{..<2::nat} = {0, 1}" by auto
  then show "ep (bgq_mapping demo_booted) demo_pair ` {..<2} = {7, 9}"
    using eplist_group(2) [of "[7, 9]" 0] eplist_group(2) [of "[7, 9]" 1] by (simp add: demo_pair_def)
qed

definition demo_execs :: "(endpoint \<Rightarrow> barrier_exec) \<Rightarrow> bool" where
  "demo_execs x \<longleftrightarrow> (\<forall>e\<in>{7, 9}. barrier_exec_of 2048 8 (bgq_mapping demo_booted) demo_pair demo_tree (demo_cache_of e) e = Some (x e))"

text \<open>One process starts, then both have started.\<close>

lemma demo_runs:
  obtains x r1 r2 where "demo_execs x" and "barrier_reachable schar {7, 9} x r1" and "bs_starts r1 7 = 1" and "bs_starts r1 9 = 0"
    and "barrier_reachable schar {7, 9} x r2" and "bs_starts r2 7 = 1" and "bs_starts r2 9 = 1"
proof -
  let ?M = "bgq_mapping demo_booted" and ?E = "{7, 9} :: endpoint set"
  obtain x where x: "\<forall>e\<in>?E. barrier_exec_of 2048 8 ?M demo_pair demo_tree (demo_cache_of e) e = Some (x e)"
    using barrier_execs [OF demo_pair_group, of 2048 8 demo_tree demo_cache_of] unfolding demo_pair_eps by auto
  note ok = barrier_run_ok [OF demo_pair_group _ demo_pair_eps [symmetric] x, of schar]
  have starts: "\<exists>r'. barrier_reachable schar ?E x r' \<and> bs_starts r' = (bs_starts r)(e := Suc (bs_starts r e))"
    if r: "barrier_reachable schar ?E x r" "e \<in> ?E" "bs_starts r e = 0" for r e
  proof -
    have d: "bs_dones r e \<le> bs_starts r e" using mb.run_safe [OF ok(1) [OF _ r(1)]] ok(2) [OF _ r(1)] r(2) by simp
    obtain y act where y: "bx_start schar (bs_exec r e) = Some (y, act)" using mb.start_ok [OF ok(1) [OF _ r(1)]] ok(2) [OF _ r(1)] r(2,3) d by fastforce
    have "bs_dones r e = bs_starts r e" using d r(3) by simp
    from barrier_step.Start [OF r(2) this y] rtranclp.rtrancl_into_rtrancl [OF r(1) [unfolded barrier_reachable_def]]
    show ?thesis unfolding barrier_reachable_def by (fastforce simp: perform_def)
  qed
  have r0: "barrier_reachable schar ?E x (barrier_init x)" by (simp add: barrier_reachable_def)
  have z: "bs_starts (barrier_init x) = (\<lambda>_. 0)" by (simp add: barrier_init_def)
  obtain r1 where r1: "barrier_reachable schar ?E x r1" "bs_starts r1 = (\<lambda>_. 0)(7 := Suc 0)" using starts [OF r0, of 7] z by auto
  obtain r2 where r2: "barrier_reachable schar ?E x r2" "bs_starts r2 = ((\<lambda>_. 0)(7 := Suc 0))(9 := Suc 0)" using starts [OF r1(1), of 9] r1(2) by auto
  show ?thesis using r1 r2 x by (intro that [of x r1 r2]) (simp_all add: demo_execs_def)
qed

text \<open>The process that has started alone is not told that the barrier is complete.\<close>

theorem barrier_safe_witness: "\<exists>x r. demo_execs x \<and> barrier_reachable False {7, 9} x r \<and> bs_starts r 7 = 1 \<and> bs_dones r 7 = 0"
proof -
  obtain x r where r: "demo_execs x" "barrier_reachable False {7, 9} x r" "bs_starts r 7 = 1" "bs_starts r 9 = 0" using demo_runs by metis
  have "bs_dones r 7 \<le> bs_starts r 9"
    using barrier_safe [OF demo_pair_group _ demo_pair_eps [symmetric] r(1) [unfolded demo_execs_def] r(2)] by simp
  then show ?thesis using r by auto
qed

theorem barrier_handlers_total_witness: "\<exists>x. demo_execs x \<and> (\<forall>e\<in>{7, 9}. bx_start True (x e) \<noteq> None)"
proof -
  from barrier_handlers_total [OF demo_pair_group _ demo_pair_eps [symmetric], of 2048 8 demo_tree demo_cache_of True]
  obtain x where x: "demo_execs x" "\<And>r. barrier_reachable True {7, 9} x r \<Longrightarrow> \<forall>e\<in>{7, 9}. bs_dones r e = bs_starts r e \<longrightarrow> bx_start True (bs_exec r e) \<noteq> None"
    unfolding demo_execs_def by auto
  have "barrier_reachable True {7, 9} x (barrier_init x)" by (simp add: barrier_reachable_def)
  from x(2) [OF this] show ?thesis using x(1) by (auto simp: barrier_init_def)
qed

theorem barrier_completes_witness:
  "\<exists>x r. demo_execs x \<and> barrier_reachable False {7, 9} x r \<and> bs_starts r 7 = 1 \<and> bs_starts r 9 = 1 \<and>
     (bs_dones r 7 = 0 \<longrightarrow> (\<exists>r'. barrier_step False {7, 9} r r' \<and> bs_starts r' = bs_starts r))"
proof -
  obtain x r where r: "demo_execs x" "barrier_reachable False {7, 9} x r" "bs_starts r 7 = 1" "bs_starts r 9 = 1" using demo_runs by metis
  from barrier_completes [OF demo_pair_group _ demo_pair_eps [symmetric] r(1) [unfolded demo_execs_def] r(2), of 1]
  have "(\<exists>e\<in>{7, 9}. bs_dones r e \<noteq> 1) \<longrightarrow> (\<exists>r'. barrier_step False {7, 9} r r' \<and> bs_starts r' = bs_starts r)" using r(3,4) by simp
  then show ?thesis using r by auto
qed

end
