(* ===== verification/Pami_Ring.thy ===== *)
theory Pami_Ring
  imports Pami_Schedules
begin

text \<open>
  \<^verbatim>\<open>algorithms/schedule/RingSchedule.h\<close>: the processes of a topology stand on a ring in the order of their
  indices; data moves from the root (the head) along the ring to the tail, contributions from the tail to the head.
  When the root is the last index the direction is reversed. Fields have the names and widths of the
  source; \<open>None\<close> is an abort, a division by zero or an endpoint that the topology does not have.
\<close>

section \<open>The schedule object\<close>

record ring =
  rg_op :: "16 word"
  rg_root :: uint_t
  rg_startPhase :: uint_t
  rg_nphases :: uint_t
  rg_bcastStart :: uint_t
  rg_isHead :: bool
  rg_isTail :: bool
  rg_next :: uint_t
  rg_prev :: uint_t
  rg_topology :: topology
  rg_nranks :: uint_t
  rg_my_ep :: endpoint
  rg_dir :: uint_t

definition rg_configure :: "endpoint \<Rightarrow> uint_t \<Rightarrow> ring \<Rightarrow> ring" where
  "rg_configure my_ep nranks s = s\<lparr>rg_my_ep := my_ep, rg_isHead := False, rg_isTail := False, rg_nranks := nranks,
     rg_startPhase := - 1, rg_root := - 1, rg_dir := 0\<rparr>"

definition RingSchedule_new :: "endpoint \<Rightarrow> topology \<Rightarrow> ring \<Rightarrow> ring" where
  "RingSchedule_new my_ep t s = rg_configure my_ep (ucast (topo_size_impl t)) (s\<lparr>rg_topology := t\<rparr>)"

definition rg_getMaxPhases :: "uint_t \<Rightarrow> uint_t" where
  "rg_getMaxPhases nranks = nranks - 1"

definition idxToRank :: "mapping \<Rightarrow> ring \<Rightarrow> uint_t \<Rightarrow> endpoint option" where
  "idxToRank M s idx = index2Endpoint_impl M (rg_topology s) (ucast idx)"

definition myIdx :: "mapping \<Rightarrow> ring \<Rightarrow> uint_t" where
  "myIdx M s = ucast (endpoint2Index_impl M (rg_topology s) (rg_my_ep s))"

definition headIdx :: "mapping \<Rightarrow> ring \<Rightarrow> uint_t" where
  "headIdx M s = ucast (endpoint2Index_impl M (rg_topology s) (rg_root s))"

definition prevIdx :: "mapping \<Rightarrow> ring \<Rightarrow> uint_t" where
  "prevIdx M s = (let my_idx = myIdx M s in if 0 < my_idx then my_idx - 1 else rg_nranks s - 1)"

definition nextIdx :: "mapping \<Rightarrow> ring \<Rightarrow> uint_t" where
  "nextIdx M s = (let my_idx = myIdx M s in if my_idx < rg_nranks s - 1 then my_idx + 1 else 0)"

section \<open>Initialization\<close>

text \<open>The first half of \<^verbatim>\<open>local_init\<close>: root, tail, direction and neighbours; with the index of the tail.\<close>

definition rg_place :: "mapping \<Rightarrow> uint_t \<Rightarrow> ring \<Rightarrow> (uint_t \<times> ring) option" where
  "rg_place M root s = do {
     r \<leftarrow> (if 0 \<le> sint root then Some root else idxToRank M s 0);
     let s1 = s\<lparr>rg_root := r\<rparr>;
     let my_idx = myIdx M s1;
     let head_idx = headIdx M s1;
     (tail_idx, dir) \<leftarrow> (if head_idx \<noteq> rg_nranks s1 - 1
        then (if rg_nranks s1 = 0 then None else Some ((head_idx + rg_nranks s1 - 1) mod rg_nranks s1, 0)) else Some (0, 1));
     let s2 = s1\<lparr>rg_dir := dir, rg_isHead := (rg_isHead s1 \<or> my_idx = head_idx), rg_isTail := (rg_isTail s1 \<or> my_idx = tail_idx)\<rparr>;
     prev \<leftarrow> idxToRank M s2 (prevIdx M s2);
     next \<leftarrow> idxToRank M s2 (nextIdx M s2);
     Some (tail_idx, s2\<lparr>rg_prev := prev, rg_next := next\<rparr>) }"

definition rg_reduce_start :: "mapping \<Rightarrow> uint_t \<Rightarrow> ring \<Rightarrow> uint_t" where
  "rg_reduce_start M tail_idx s =
     (if rg_isTail s then 0
      else if rg_dir s = 0 then (tail_idx - myIdx M s + rg_nranks s - 1) mod rg_nranks s
      else myIdx M s - 1)"

definition rg_bcast_start :: "mapping \<Rightarrow> ring \<Rightarrow> uint_t" where
  "rg_bcast_start M s =
     (if rg_isHead s then 0
      else if rg_dir s = 0 then (myIdx M s - headIdx M s + rg_nranks s - 1) mod rg_nranks s
      else headIdx M s - myIdx M s - 1)"

definition rg_local_init :: "mapping \<Rightarrow> uint_t \<Rightarrow> uint_t \<Rightarrow> ring \<Rightarrow> ring option" where
  "rg_local_init M root op s0 = do {
     (tail_idx, s) \<leftarrow> rg_place M root s0;
     let one_or_two = (if rg_isTail s \<or> rg_isHead s then 1 else 2);
     if op = REDUCE_OP then Some (s\<lparr>rg_startPhase := rg_reduce_start M tail_idx s, rg_nphases := one_or_two\<rparr>)
     else if op = ALLREDUCE_OP then
       (let st = rg_reduce_start M tail_idx s; n = rg_nranks s;
            (b, np) = (if rg_isHead s then (st + 1, 2)
                       else if rg_isTail s then (let b = (if 2 < n then st + 2 * (n - 2 - st) else st + 1) in (b, b + 1))
                       else (let b = st + 2 * (n - 2 - st) in (b, b + 2 - st))) in
        Some (s\<lparr>rg_startPhase := st, rg_bcastStart := b, rg_nphases := np\<rparr>))
     else if op = BROADCAST_OP then
       (let st = rg_bcast_start M s in Some (s\<lparr>rg_startPhase := st, rg_bcastStart := st, rg_nphases := one_or_two\<rparr>))
     else None }"

definition rg_init :: "mapping \<Rightarrow> uint_t \<Rightarrow> uint_t \<Rightarrow> ring \<Rightarrow> ring option" where
  "rg_init M root op s =
     (if op = BARRIER_OP then None
      else rg_local_init M root op (s\<lparr>rg_op := ucast op, rg_startPhase := - 1, rg_bcastStart := - 1, rg_root := - 1,
             rg_isHead := False, rg_isTail := False, rg_prev := - 1, rg_next := - 1, rg_dir := 0\<rparr>))"

section \<open>The partners of a phase\<close>

definition getBroadcastSources :: "ring \<Rightarrow> uint_t \<Rightarrow> endpoint list" where
  "getBroadcastSources s phase =
     (if \<not> rg_isHead s \<and> phase = rg_bcastStart s then [if rg_dir s = 0 then rg_prev s else rg_next s] else [])"

definition getBroadcastDestinations :: "ring \<Rightarrow> uint_t \<Rightarrow> endpoint list" where
  "getBroadcastDestinations s phase =
     (if \<not> rg_isTail s \<and> phase = rg_bcastStart s + (if rg_isHead s then 0 else 1)
      then [if rg_dir s = 0 then rg_next s else rg_prev s] else [])"

definition getReduceSources :: "ring \<Rightarrow> uint_t \<Rightarrow> endpoint list" where
  "getReduceSources s phase =
     (if \<not> rg_isTail s \<and> phase = rg_startPhase s then [if rg_dir s = 0 then rg_next s else rg_prev s] else [])"

definition getReduceDestinations :: "ring \<Rightarrow> uint_t \<Rightarrow> endpoint list" where
  "getReduceDestinations s phase =
     (if \<not> rg_isHead s \<and> phase = rg_startPhase s + (if rg_isTail s then 0 else 1)
      then [if rg_dir s = 0 then rg_prev s else rg_next s] else [])"

definition rg_sources :: "ring \<Rightarrow> uint_t \<Rightarrow> endpoint list option" where
  "rg_sources s phase =
     (if rg_op s = ucast REDUCE_OP then Some (getReduceSources s phase)
      else if rg_op s = ucast BROADCAST_OP then Some (getBroadcastSources s phase)
      else if rg_op s = ucast ALLREDUCE_OP then
        Some (if phase < rg_bcastStart s then getReduceSources s phase else getBroadcastSources s phase)
      else None)"

definition rg_destinations :: "ring \<Rightarrow> uint_t \<Rightarrow> endpoint list option" where
  "rg_destinations s phase =
     (if rg_op s = ucast REDUCE_OP then Some (getReduceDestinations s phase)
      else if rg_op s = ucast BROADCAST_OP then Some (getBroadcastDestinations s phase)
      else if rg_op s = ucast ALLREDUCE_OP then
        Some (if phase < rg_bcastStart s then getReduceDestinations s phase else getBroadcastDestinations s phase)
      else None)"

definition rg_getSrcTopology :: "ring \<Rightarrow> uint_t \<Rightarrow> topology option" where
  "rg_getSrcTopology s phase = map_option Topology_eplist (rg_sources s phase)"

definition rg_getDstTopology :: "ring \<Rightarrow> uint_t \<Rightarrow> topology option" where
  "rg_getDstTopology s phase = map_option Topology_eplist (rg_destinations s phase)"

definition rg_getLastReducePhase :: "ring \<Rightarrow> uint_t" where
  "rg_getLastReducePhase s = (if rg_op s = ucast ALLREDUCE_OP then rg_bcastStart s - 1 else - 1)"

definition rg_window :: "ring \<Rightarrow> nat list" where
  "rg_window s = [unat (rg_startPhase s)..<unat (rg_startPhase s + rg_nphases s)]"

text \<open>The union of the sources becomes a list of tasks, that of the destinations one of endpoints.\<close>

definition rg_getSrcUnionTopology :: "ring \<Rightarrow> topology option" where
  "rg_getSrcUnionTopology s = map_option (\<lambda>xss. Topology_list (concat xss) 0 1) (all_some (\<lambda>p. rg_sources s (of_nat p)) (rg_window s))"

definition rg_getDstUnionTopology :: "uint_t \<Rightarrow> ring \<Rightarrow> (pami_result + topology) option" where
  "rg_getDstUnionTopology num_eps s =
     (if num_eps < rg_nphases s then Some (Inl PAMI_ENOMEM)
      else map_option (\<lambda>xss. Inr (Topology_eplist (concat xss))) (all_some (\<lambda>p. rg_destinations s (of_nat p)) (rg_window s)))"

section \<open>Places on the ring\<close>

text \<open>The index at distance \<open>j\<close> from the head \<open>h\<close> among \<open>n\<close>.\<close>

definition ring_at :: "nat \<Rightarrow> nat \<Rightarrow> nat \<Rightarrow> nat" where
  "ring_at n h j = (if h = n - 1 then n - 1 - j else unrel n h j)"

lemma ring_at_bij:
  assumes "h < n"
  shows "j < n \<Longrightarrow> ring_at n h j < n" and "ring_at n h 0 = h" and "ring_at n h ` {..<n} = {..<n}" and "inj_on (ring_at n h) {..<n}"
proof -
  show l: "ring_at n h j < n" if "j < n" for j using that assms rel_unrel(1) [OF assms that] by (auto simp: ring_at_def)
  show "ring_at n h 0 = h" using assms by (auto simp: ring_at_def unrel_def)
  show inj: "inj_on (ring_at n h) {..<n}"
    using assms by (auto simp: inj_on_def ring_at_def unrel_def split: if_splits)
  show "ring_at n h ` {..<n} = {..<n}" using l inj by (intro card_subset_eq) (auto simp: card_image)
qed

lemma unat_small: "k < 2 ^ 32 \<Longrightarrow> unat (of_nat k :: uint_t) = k"
  by (intro unat_of_nat_small) simp

lemma of_nat_cmp:
  assumes "a < 2 ^ 32" and "b < 2 ^ 32"
  shows "(of_nat a :: uint_t) = of_nat b \<longleftrightarrow> a = b" and "(of_nat a :: uint_t) < of_nat b \<longleftrightarrow> a < b" and "(of_nat a :: uint_t) \<le> of_nat b \<longleftrightarrow> a \<le> b"
  using unat_small [OF assms(1)] unat_small [OF assms(2)] by (metis, simp_all add: word_less_nat_alt word_le_nat_alt)

lemma of_nat_mod: "a < 2 ^ 32 \<Longrightarrow> n < 2 ^ 32 \<Longrightarrow> (of_nat a :: uint_t) mod of_nat n = of_nat (a mod n)"
proof -
  assume "a < 2 ^ 32" "n < 2 ^ 32"
  then have "unat ((of_nat a :: uint_t) mod of_nat n) = a mod n" by (simp add: unat_mod unat_small)
  from arg_cong [OF this, of "of_nat :: nat \<Rightarrow> uint_t"] show ?thesis by simp
qed

lemma mod_once: "a < 2 * n \<Longrightarrow> a mod n = (if a < n then a else a - (n::nat))"
  by (auto simp: le_mod_geq)

lemma ring_distance: "a < n \<Longrightarrow> b < n \<Longrightarrow> (of_nat a - of_nat b + of_nat n - 1 :: uint_t) = of_nat (a + n - 1 - b)"
  by (simp add: of_nat_diff)

definition ring_of :: "mapping \<Rightarrow> topology \<Rightarrow> uint_t \<Rightarrow> uint_t \<Rightarrow> ring \<Rightarrow> endpoint \<Rightarrow> ring option" where
  "ring_of M t op root s e = rg_init M root op (RingSchedule_new e t s)"

text \<open>Who comes before and after a process, seen from the head.\<close>

definition ring_placed :: "mapping \<Rightarrow> topology \<Rightarrow> nat \<Rightarrow> nat \<Rightarrow> nat \<Rightarrow> ring \<Rightarrow> bool" where
  "ring_placed M t n h j s \<longleftrightarrow> rg_nranks s = of_nat n \<and> (rg_isHead s \<longleftrightarrow> j = 0) \<and> (rg_isTail s \<longleftrightarrow> j = n - 1) \<and>
     (rg_dir s = 0 \<longleftrightarrow> h \<noteq> n - 1) \<and> myIdx M s = of_nat (ring_at n h j) \<and> headIdx M s = of_nat h \<and>
     (Suc j < n \<longrightarrow> (if rg_dir s = 0 then rg_next s else rg_prev s) = ep M t (ring_at n h (Suc j))) \<and>
     (0 < j \<longrightarrow> (if rg_dir s = 0 then rg_prev s else rg_next s) = ep M t (ring_at n h (j - 1)))"

lemma ring_neighbours:
  assumes "h < n" and "j < n" and "i = ring_at n h j"
  shows "Suc j < n \<Longrightarrow> (if h \<noteq> n - 1 then (if i < n - 1 then i + 1 else 0) else (if 0 < i then i - 1 else n - 1)) = ring_at n h (Suc j)"
    and "0 < j \<Longrightarrow> (if h \<noteq> n - 1 then (if 0 < i then i - 1 else n - 1) else (if i < n - 1 then i + 1 else 0)) = ring_at n h (j - 1)"
    and "i = h \<longleftrightarrow> j = 0" and "i = ring_at n h (n - 1) \<longleftrightarrow> j = n - 1"
    and "h \<noteq> n - 1 \<Longrightarrow> (h + n - 1) mod n = ring_at n h (n - 1)" and "h = n - 1 \<Longrightarrow> ring_at n h (n - 1) = 0"
  using assms by (auto simp: ring_at_def unrel_def mod_once split: if_splits)

text \<open>The indices of the neighbours, for a schedule whose process has index \<open>i\<close>.\<close>

lemma ring_indices:
  assumes g: "endpoint_group M t n" and "i < n" and s: "rg_topology s = t" "rg_my_ep s = ep M t i" "rg_nranks s = of_nat n"
  shows "myIdx M s = of_nat i" and "idxToRank M s (prevIdx M s) = Some (ep M t (if 0 < i then i - 1 else n - 1))"
    and "idxToRank M s (nextIdx M s) = Some (ep M t (if i < n - 1 then i + 1 else 0))"
    and "h < n \<Longrightarrow> rg_root s = ep M t h \<Longrightarrow> headIdx M s = of_nat h" and "idxToRank M s 0 = Some (ep M t 0)"
proof -
  have n: "n < 2 ^ 31" "0 < n" using g by (auto simp: endpoint_group_def)
  have u: "(ucast (of_nat k :: size_t) :: uint_t) = of_nat k" "(ucast (of_nat k :: uint_t) :: size_t) = of_nat k" if "k < n" for k
    using that n by (simp_all add: unsigned_of_nat take_bit_nat_eq_self)
  have idx: "idxToRank M s (of_nat k) = Some (ep M t k)" if "k < n" for k
    using that by (simp add: idxToRank_def s(1) u endpoint_group_ep [OF g])
  show my: "myIdx M s = of_nat i" using endpoint_group_ep(2) [OF g assms(2)] u(1) [OF assms(2)] by (simp add: myIdx_def s(1,2))
  show "idxToRank M s 0 = Some (ep M t 0)" using idx [OF n(2)] by simp
  show "headIdx M s = of_nat h" if "h < n" "rg_root s = ep M t h"
    using endpoint_group_ep(2) [OF g that(1)] u(1) [OF that(1)] that(2) by (simp add: headIdx_def s(1))
  have n1: "rg_nranks s - 1 = of_nat (n - 1)" using n(2) s(3) by (simp add: of_nat_diff)
  have cmp: "(of_nat a :: uint_t) < of_nat b \<longleftrightarrow> a < b" if "a \<le> n" "b \<le> n" for a b using that n of_nat_cmp(2) [of a b] by simp
  have prev: "prevIdx M s = of_nat (if 0 < i then i - 1 else n - 1)"
    using assms(2) cmp [of 0 i] unfolding prevIdx_def Let_def my n1 by (simp add: of_nat_diff)
  have "(of_nat i :: uint_t) < of_nat (n - 1) \<longleftrightarrow> i < n - 1" using assms(2) by (intro cmp) simp_all
  then have nxt: "nextIdx M s = of_nat (if i < n - 1 then i + 1 else 0)"
    unfolding nextIdx_def Let_def my n1 by (cases "i < n - 1") (simp_all only: of_nat_add of_nat_1 if_True if_False, simp)
  show "idxToRank M s (prevIdx M s) = Some (ep M t (if 0 < i then i - 1 else n - 1))"
    "idxToRank M s (nextIdx M s) = Some (ep M t (if i < n - 1 then i + 1 else 0))"
    unfolding prev nxt using assms(2) n(2) by (intro idx; auto)+
qed

lemma ring_place:
  assumes g: "endpoint_group M t n" and "j < n" and "h < n" and root: "0 \<le> sint root \<and> root = ep M t h \<or> sint root < 0 \<and> h = 0"
    and s: "rg_topology s = t" "rg_my_ep s = ep M t (ring_at n h j)" "rg_nranks s = of_nat n" "\<not> rg_isHead s" "\<not> rg_isTail s"
  shows "\<exists>s'. rg_place M root s = Some (of_nat (ring_at n h (n - 1)), s') \<and> ring_placed M t n h j s' \<and> rg_op s' = rg_op s"
proof -
  define i where "i = ring_at n h j"
  define T where "T = ring_at n h (n - 1)"
  note nb = ring_neighbours [OF assms(3,2) i_def, folded T_def]
  have n: "n < 2 ^ 31" "0 < n" using g by (auto simp: endpoint_group_def)
  have i: "i < n" "T < n" using ring_at_bij(1) [OF assms(3)] assms(2) n(2) by (auto simp: i_def T_def)
  note s' = s(1,3) s(2) [folded i_def]
  let ?d = "if h \<noteq> n - 1 then 0 else (1 :: uint_t)"
  define a b where "a = (if 0 < i then i - 1 else n - 1)" and "b = (if i < n - 1 then i + 1 else 0)"
  note nb = nb [folded a_def b_def]
  define s1 where "s1 = s\<lparr>rg_root := ep M t h\<rparr>"
  define s2 where "s2 = s1\<lparr>rg_dir := ?d, rg_isHead := (rg_isHead s1 \<or> (of_nat i :: uint_t) = of_nat h), rg_isTail := (rg_isTail s1 \<or> (of_nat i :: uint_t) = of_nat T)\<rparr>"
  note ix1 = ring_indices [OF g i(1), of s1] and ix2 = ring_indices [OF g i(1), of s2, folded a_def b_def]
  have cmp: "(of_nat a :: uint_t) = of_nat b \<longleftrightarrow> a = b" if "a \<le> n" "b \<le> n" for a b using that n of_nat_cmp(1) [of a b] by simp
  have nz: "(of_nat n :: uint_t) \<noteq> 0" using cmp [of n 0] n by simp
  have n1: "(of_nat n - 1 :: uint_t) = of_nat (n - 1)" using n(2) by (simp add: of_nat_diff)
  have tail: "(if of_nat h \<noteq> (of_nat n - 1 :: uint_t) then (if (of_nat n :: uint_t) = 0 then None else Some ((of_nat h + of_nat n - 1) mod of_nat n, 0))
      else Some (0, 1)) = Some (of_nat T :: uint_t, ?d)"
  proof -
    have e1: "of_nat h = (of_nat n - 1 :: uint_t) \<longleftrightarrow> h = n - 1" unfolding n1 using assms(3) by (intro cmp) simp_all
    have e2: "(of_nat h + of_nat n - 1 :: uint_t) = of_nat (h + n - 1)" using n(2) by (simp add: of_nat_diff)
    have e3: "(of_nat (h + n - 1) :: uint_t) mod of_nat n = of_nat ((h + n - 1) mod n)" using n assms(3) by (intro of_nat_mod) simp_all
    show ?thesis using nz nb(5,6) unfolding e1 e2 e3 by (cases "h = n - 1") simp_all
  qed
  have rt: "(if 0 \<le> sint root then Some root else idxToRank M s 0) = Some (ep M t h)"
    using root ring_indices(5) [OF g i(1), of s] s' by auto
  have at1: "myIdx M s1 = of_nat i" "headIdx M s1 = of_nat h" "rg_nranks s1 = of_nat n"
    using ix1(1,4) s' assms(3) by (simp_all add: s1_def)
  have nbr: "idxToRank M s2 (prevIdx M s2) = Some (ep M t a)" "idxToRank M s2 (nextIdx M s2) = Some (ep M t b)"
    using ix2(2,3) s' by (simp_all add: s2_def s1_def)
  have "rg_place M root s = Some (of_nat T, s2\<lparr>rg_prev := ep M t a, rg_next := ep M t b\<rparr>)"
    unfolding rg_place_def Let_def rt Option.bind_lunit s1_def [symmetric] at1 tail prod.case s2_def [symmetric] nbr ..
  moreover have "myIdx M s2 = of_nat i" "headIdx M s2 = of_nat h" "rg_nranks s2 = of_nat n" "rg_op s2 = rg_op s"
    using ix2(1,4) s s' assms(3) by (simp_all add: s2_def s1_def)
  moreover have "rg_dir s2 = ?d" "rg_isHead s2 = (j = 0)" "rg_isTail s2 = (j = n - 1)"
    using nb(3,4) s(4,5) cmp [of i h] cmp [of i T] i assms(3) by (simp_all add: s2_def s1_def)
  ultimately show ?thesis
    using nb(1,2) unfolding T_def [symmetric] ring_placed_def i_def [symmetric] by (cases "h = n - 1") (auto simp: myIdx_def headIdx_def)
qed

section \<open>Phases\<close>

lemma ring_sent:
  assumes "ring_placed M t n h j s" and "n < 2 ^ 31" and "j < n" and "h < n"
  shows "rg_reduce_start M (of_nat (ring_at n h (n - 1))) s = of_nat (if j = n - 1 then 0 else n - 2 - j)"
    and "rg_bcast_start M s = of_nat (if j = 0 then 0 else j - 1)"
proof -
  let ?T = "ring_at n h (n - 1)" and ?i = "ring_at n h j"
  note i = ring_at_bij(1) [OF assms(4,3)]
  have T: "?T < n" using ring_at_bij(1) [OF assms(4), of "n - 1"] assms(3) by simp
  have p: "rg_nranks s = of_nat n" "rg_isHead s \<longleftrightarrow> j = 0" "rg_isTail s \<longleftrightarrow> j = n - 1" "rg_dir s = 0 \<longleftrightarrow> h \<noteq> n - 1"
    "myIdx M s = of_nat ?i" "headIdx M s = of_nat h" using assms(1) by (auto simp: ring_placed_def)
  have dist: "(of_nat a - of_nat b + of_nat n - 1 :: uint_t) mod of_nat n = of_nat ((a + n - 1 - b) mod n)" if "a < n" "b < n" for a b
    unfolding ring_distance [OF that] using that assms(2) by (intro of_nat_mod) simp_all
  have "(?T + n - 1 - ?i) mod n = n - 2 - j" if "h \<noteq> n - 1" "j \<noteq> n - 1"
    using that assms(3,4) by (auto simp: ring_at_def unrel_def mod_once)
  moreover have "(of_nat ?i - 1 :: uint_t) = of_nat (n - 2 - j)" if "h = n - 1" "j \<noteq> n - 1"
  proof -
    have "ring_at n h j = Suc (n - 2 - j)" using that assms(3) unfolding ring_at_def by auto
    then show ?thesis by simp
  qed
  ultimately show "rg_reduce_start M (of_nat ?T) s = of_nat (if j = n - 1 then 0 else n - 2 - j)"
    using p dist [OF T i] by (auto simp: rg_reduce_start_def)
  have "(?i + n - 1 - h) mod n = j - 1" if "h \<noteq> n - 1" "j \<noteq> 0"
    using that assms(3,4) by (auto simp: ring_at_def unrel_def mod_once)
  moreover have "(of_nat h - of_nat ?i - 1 :: uint_t) = of_nat (j - 1)" if "h = n - 1" "j \<noteq> 0"
    using that assms(3) by (simp add: ring_at_def of_nat_diff)
  ultimately show "rg_bcast_start M s = of_nat (if j = 0 then 0 else j - 1)"
    using p dist [OF i assms(4)] by (auto simp: rg_bcast_start_def)
qed

text \<open>The phases in which the process at distance \<open>j\<close> from the head receives and sends.\<close>

definition rbc_src :: "nat \<Rightarrow> nat \<Rightarrow> nat list" where
  "rbc_src j p = (if 0 < j \<and> p = j - 1 then [j - 1] else [])"

definition rbc_dst :: "nat \<Rightarrow> nat \<Rightarrow> nat \<Rightarrow> nat list" where
  "rbc_dst n j p = (if Suc j < n \<and> p = j then [Suc j] else [])"

definition rrd_src :: "nat \<Rightarrow> nat \<Rightarrow> nat \<Rightarrow> nat list" where
  "rrd_src n j p = (if Suc j < n \<and> p = n - 2 - j then [Suc j] else [])"

definition rrd_dst :: "nat \<Rightarrow> nat \<Rightarrow> nat \<Rightarrow> nat list" where
  "rrd_dst n j p = (if 0 < j \<and> p = n - 1 - j then [j - 1] else [])"

definition rar_bcast :: "nat \<Rightarrow> nat \<Rightarrow> nat" where
  "rar_bcast n j = (if j = n - 1 \<and> 2 < n then n + j - 3 else n + j - 2)"

definition rar_src :: "nat \<Rightarrow> nat \<Rightarrow> nat \<Rightarrow> nat list" where
  "rar_src n j p = rrd_src n j p @ (if 0 < j \<and> p = rar_bcast n j then [j - 1] else [])"

definition rar_dst :: "nat \<Rightarrow> nat \<Rightarrow> nat \<Rightarrow> nat list" where
  "rar_dst n j p = rrd_dst n j p @ (if Suc j < n \<and> p = n + j - 1 then [Suc j] else [])"

definition ring_window :: "uint_t \<Rightarrow> nat \<Rightarrow> nat \<Rightarrow> nat \<times> nat" where
  "ring_window op n j =
     (if op = BROADCAST_OP then (if j = 0 then 0 else j - 1, if j = n - 1 \<or> j = 0 then 1 else 2)
      else (if j = n - 1 then 0 else n - 2 - j,
        if op = REDUCE_OP then (if j = n - 1 \<or> j = 0 then 1 else 2)
        else if j = 0 then 2 else if j = n - 1 then rar_bcast n j + 1 else 2 * j + 2))"

definition ring_ready :: "mapping \<Rightarrow> topology \<Rightarrow> uint_t \<Rightarrow> nat \<Rightarrow> nat \<Rightarrow> nat \<Rightarrow> ring \<Rightarrow> bool" where
  "ring_ready M t op n h j r \<longleftrightarrow> ring_placed M t n h j r \<and> rg_op r = ucast op \<and>
     rg_startPhase r = of_nat (fst (ring_window op n j)) \<and> rg_nphases r = of_nat (snd (ring_window op n j)) \<and>
     (op = BROADCAST_OP \<longrightarrow> rg_bcastStart r = of_nat (if j = 0 then 0 else j - 1)) \<and>
     (op = ALLREDUCE_OP \<longrightarrow> rg_bcastStart r = of_nat (if j = 0 then (if n = 1 then 1 else n - 1) else rar_bcast n j))"

lemma ring_placed_phases [simp]:
  "ring_placed M t n h j (s\<lparr>rg_startPhase := a, rg_nphases := b\<rparr>) = ring_placed M t n h j s"
  "ring_placed M t n h j (s\<lparr>rg_startPhase := a, rg_bcastStart := c, rg_nphases := b\<rparr>) = ring_placed M t n h j s"
  by (simp_all add: ring_placed_def myIdx_def headIdx_def)

lemma ring_ops: "REDUCE_OP \<noteq> ALLREDUCE_OP" "REDUCE_OP \<noteq> BROADCAST_OP" "ALLREDUCE_OP \<noteq> BROADCAST_OP" "REDUCE_OP \<noteq> BARRIER_OP"
  "ALLREDUCE_OP \<noteq> BARRIER_OP" "BROADCAST_OP \<noteq> BARRIER_OP"
  by (simp_all add: op_codes)

lemma rar_phase:
  assumes "0 < j" and "j < n" and "j \<noteq> n - 1"
  shows "(of_nat (n - 2 - j) + 2 * (of_nat n - 2 - of_nat (n - 2 - j)) :: uint_t) = of_nat (n + j - 2)"
    and "(of_nat (n + j - 2) + 2 - of_nat (n - 2 - j) :: uint_t) = of_nat (2 * j + 2)"
proof -
  obtain k where k: "n = Suc (Suc (j + k))" using assms by (metis Suc_diff_Suc add_Suc_right diff_add_inverse le_add_diff_inverse less_imp_le_nat minus_nat.diff_0 not_less_eq diff_Suc_1 less_SucE less_iff_Suc_add)
  show "(of_nat (n - 2 - j) + 2 * (of_nat n - 2 - of_nat (n - 2 - j)) :: uint_t) = of_nat (n + j - 2)"
    "(of_nat (n + j - 2) + 2 - of_nat (n - 2 - j) :: uint_t) = of_nat (2 * j + 2)" by (simp_all add: k algebra_simps)
qed

lemma ring_init:
  assumes g: "endpoint_group M t n" and "j < n" and "h < n" and root: "0 \<le> sint root \<and> root = ep M t h \<or> sint root < 0 \<and> h = 0"
    and op: "op = REDUCE_OP \<or> op = ALLREDUCE_OP \<or> op = BROADCAST_OP"
  shows "\<exists>r. ring_of M t op root s (ep M t (ring_at n h j)) = Some r \<and> ring_ready M t op n h j r"
proof -
  let ?s = "(RingSchedule_new (ep M t (ring_at n h j)) t s)\<lparr>rg_op := ucast op, rg_startPhase := - 1, rg_bcastStart := - 1, rg_root := - 1,
             rg_isHead := False, rg_isTail := False, rg_prev := - 1, rg_next := - 1, rg_dir := 0\<rparr>"
  have n: "n < 2 ^ 31" "0 < n" "unat (topo_size_impl t) = n" using g by (auto simp: endpoint_group_def)
  have "topo_size_impl t = of_nat n" using n(3) by auto
  then have "rg_nranks ?s = of_nat n" using n(1) by (simp add: RingSchedule_new_def rg_configure_def unsigned_of_nat take_bit_nat_eq_self)
  then obtain s' where s': "rg_place M root ?s = Some (of_nat (ring_at n h (n - 1)), s')" "ring_placed M t n h j s'" "rg_op s' = ucast op"
    using ring_place [OF g assms(2,3) root, of ?s] by (auto simp: RingSchedule_new_def rg_configure_def)
  note st = ring_sent [OF s'(2) n(1) assms(2,3)]
  have p: "rg_nranks s' = of_nat n" "rg_isHead s' \<longleftrightarrow> j = 0" "rg_isTail s' \<longleftrightarrow> j = n - 1" using s'(2) by (auto simp: ring_placed_def)
  have init: "ring_of M t op root s (ep M t (ring_at n h j)) = rg_local_init M root op ?s" using op ring_ops by (auto simp: ring_of_def rg_init_def)
  from op show ?thesis
  proof (elim disjE)
    assume "op = REDUCE_OP"
    then show ?thesis unfolding init using s' st(1) p ring_ops by (simp add: rg_local_init_def ring_ready_def ring_window_def)
  next
    assume "op = BROADCAST_OP"
    then show ?thesis unfolding init using s' st(2) p ring_ops by (simp add: rg_local_init_def ring_ready_def ring_window_def Let_def)
  next
    assume o: "op = ALLREDUCE_OP"
    have two: "(2 < (of_nat n :: uint_t)) \<longleftrightarrow> 2 < n" using of_nat_cmp(2) [of 2 n] n(1) by simp
    have last: "(2 * (of_nat n - 2) :: uint_t) = of_nat (n + (n - 1) - 3)" if "2 < n" using that by (simp add: of_nat_diff algebra_simps)
    have pair: "(of_nat n :: uint_t) = 2" if "\<not> 2 < n" "Suc 0 < n"
    proof -
      have "n = 2" using that by simp
      then show ?thesis by simp
    qed
    show ?thesis
      unfolding init using s' st(1) p ring_ops o two last pair rar_phase [OF _ assms(2)] assms(2)
      by (auto simp: rg_local_init_def ring_ready_def ring_window_def Let_def rar_bcast_def of_nat_diff)
  qed
qed

section \<open>Partners\<close>

definition rg_in_window :: "ring \<Rightarrow> nat \<Rightarrow> bool" where
  "rg_in_window s p \<longleftrightarrow> unat (rg_startPhase s) \<le> p \<and> p < unat (rg_startPhase s) + unat (rg_nphases s)"

definition ring_src :: "(endpoint \<Rightarrow> ring) \<Rightarrow> endpoint \<Rightarrow> nat \<Rightarrow> endpoint list" where
  "ring_src T e p =
     (if rg_in_window (T e) p then (case rg_getSrcTopology (T e) (of_nat p) of Some t \<Rightarrow> eplist_of t | None \<Rightarrow> []) else [])"

definition ring_dst :: "(endpoint \<Rightarrow> ring) \<Rightarrow> endpoint \<Rightarrow> nat \<Rightarrow> endpoint list" where
  "ring_dst T e p =
     (if rg_in_window (T e) p then (case rg_getDstTopology (T e) (of_nat p) of Some t \<Rightarrow> eplist_of t | None \<Rightarrow> []) else [])"

definition ring_src_nodes :: "uint_t \<Rightarrow> nat \<Rightarrow> nat \<Rightarrow> nat \<Rightarrow> nat list" where
  "ring_src_nodes op n j p = (if op = BROADCAST_OP then rbc_src j p else if op = REDUCE_OP then rrd_src n j p else rar_src n j p)"

definition ring_dst_nodes :: "uint_t \<Rightarrow> nat \<Rightarrow> nat \<Rightarrow> nat \<Rightarrow> nat list" where
  "ring_dst_nodes op n j p = (if op = BROADCAST_OP then rbc_dst n j p else if op = REDUCE_OP then rrd_dst n j p else rar_dst n j p)"

lemmas ring_nodes = ring_src_nodes_def ring_dst_nodes_def rbc_src_def rbc_dst_def rrd_src_def rrd_dst_def rar_src_def rar_dst_def rar_bcast_def

lemma ring_nodes_window:
  assumes "j < n" and "op = REDUCE_OP \<or> op = ALLREDUCE_OP \<or> op = BROADCAST_OP"
    and "\<not> (fst (ring_window op n j) \<le> p \<and> p < fst (ring_window op n j) + snd (ring_window op n j))"
  shows "ring_src_nodes op n j p = [] \<and> ring_dst_nodes op n j p = []"
  using assms(2)
proof (elim disjE)
  assume "op = REDUCE_OP"
  then show ?thesis using assms(1,3) ring_ops(2) by (auto simp: ring_window_def ring_nodes split: if_splits)
next
  assume "op = BROADCAST_OP"
  then show ?thesis using assms(1,3) by (auto simp: ring_window_def ring_nodes split: if_splits)
next
  assume o: "op = ALLREDUCE_OP"
  then have w: "ring_window op n j = (if j = n - 1 then 0 else n - 2 - j, if j = 0 then 2 else if j = n - 1 then rar_bcast n j + 1 else 2 * j + 2)"
    and nodes: "ring_src_nodes op n j p = rar_src n j p" "ring_dst_nodes op n j p = rar_dst n j p"
    using ring_ops by (auto simp: ring_window_def ring_src_nodes_def ring_dst_nodes_def)
  note out = assms(3) [unfolded w fst_conv snd_conv]
  consider "j = 0" | "j = n - 1" "j \<noteq> 0" | "j \<noteq> 0" "j \<noteq> n - 1" by blast
  then show ?thesis
    unfolding nodes by cases (use assms(1) out in \<open>auto simp: rar_src_def rar_dst_def rrd_src_def rrd_dst_def rar_bcast_def split: if_splits\<close>)
qed

lemma ring_window_small: "n < 2 ^ 31 \<Longrightarrow> j < n \<Longrightarrow> fst (ring_window op n j) + snd (ring_window op n j) < 2 ^ 32"
  by (auto simp: ring_window_def rar_bcast_def)

lemma ring_op_codes: "(ucast REDUCE_OP :: 16 word) = 8" "(ucast ALLREDUCE_OP :: 16 word) = 4" "(ucast BROADCAST_OP :: 16 word) = 1"
  by (simp_all add: op_codes)

lemma ring_gets:
  assumes r: "ring_placed M t n h j r" and "j < n" and g: "g = (\<lambda>j. ep M t (ring_at n h j))"
  shows "getReduceSources r p = map g (if Suc j < n \<and> p = rg_startPhase r then [Suc j] else [])"
    and "getReduceDestinations r p = map g (if 0 < j \<and> p = rg_startPhase r + (if j = n - 1 then 0 else 1) then [j - 1] else [])"
    and "getBroadcastSources r p = map g (if 0 < j \<and> p = rg_bcastStart r then [j - 1] else [])"
    and "getBroadcastDestinations r p = map g (if Suc j < n \<and> p = rg_bcastStart r + (if j = 0 then 0 else 1) then [Suc j] else [])"
proof -
  have pl: "rg_isHead r \<longleftrightarrow> \<not> 0 < j" "rg_isTail r \<longleftrightarrow> \<not> Suc j < n" "j = n - 1 \<longleftrightarrow> \<not> Suc j < n"
    "Suc j < n \<Longrightarrow> (if rg_dir r = 0 then rg_next r else rg_prev r) = g (Suc j)"
    "0 < j \<Longrightarrow> (if rg_dir r = 0 then rg_prev r else rg_next r) = g (j - 1)"
    using r assms(2) by (auto simp: ring_placed_def g)
  show "getReduceSources r p = map g (if Suc j < n \<and> p = rg_startPhase r then [Suc j] else [])"
    "getReduceDestinations r p = map g (if 0 < j \<and> p = rg_startPhase r + (if j = n - 1 then 0 else 1) then [j - 1] else [])"
    using pl(4,5) unfolding getReduceSources_def getReduceDestinations_def pl(1-3) by simp_all
  show "getBroadcastSources r p = map g (if 0 < j \<and> p = rg_bcastStart r then [j - 1] else [])"
    "getBroadcastDestinations r p = map g (if Suc j < n \<and> p = rg_bcastStart r + (if j = 0 then 0 else 1) then [Suc j] else [])"
    using pl(4,5) unfolding getBroadcastSources_def getBroadcastDestinations_def pl(1,2) by simp_all
qed

text \<open>A phase compared with a number of type \<^verbatim>\<open>unsigned\<close>.\<close>

lemma phase_cmp:
  assumes "p < 2 ^ 32" and "q < 2 ^ 32 - 1" and "w = (of_nat q :: uint_t)"
  shows "of_nat p = w \<longleftrightarrow> p = q" and "of_nat p < w \<longleftrightarrow> p < q" and "of_nat p = w + (if b then 0 else 1) \<longleftrightarrow> p = q + (if b then 0 else 1)"
  using of_nat_cmp [of p q] of_nat_cmp(1) [of p "q + 1"] assms by (cases b; simp add: add.commute)+

lemma rar_split:
  assumes "j < n" and "b = (if j = 0 then (if n = 1 then 1 else n - 1) else rar_bcast n j)"
  shows "rar_src n j p = (if p < b then (if Suc j < n \<and> p = n - 2 - j then [Suc j] else []) else (if 0 < j \<and> p = b then [j - 1] else []))"
    and "rar_dst n j p = (if p < b then (if 0 < j \<and> p = n - 1 - j then [j - 1] else [])
      else (if Suc j < n \<and> p = b + (if j = 0 then 0 else 1) then [Suc j] else []))"
proof -
  consider "j = 0" | "j = n - 1" "j \<noteq> 0" | "j \<noteq> 0" "j \<noteq> n - 1" by blast
  then show "rar_src n j p = (if p < b then (if Suc j < n \<and> p = n - 2 - j then [Suc j] else []) else (if 0 < j \<and> p = b then [j - 1] else []))"
    by cases (use assms in \<open>auto simp: rar_src_def rrd_src_def rar_bcast_def\<close>)
  consider "j = 0" | "j = n - 1" "j \<noteq> 0" | "j \<noteq> 0" "j \<noteq> n - 1" by blast
  then show "rar_dst n j p = (if p < b then (if 0 < j \<and> p = n - 1 - j then [j - 1] else [])
      else (if Suc j < n \<and> p = b + (if j = 0 then 0 else 1) then [Suc j] else []))"
    by cases (use assms in \<open>auto simp: rar_dst_def rrd_dst_def rar_bcast_def\<close>)
qed

lemma ring_partners:
  assumes r: "ring_ready M t op n h j r" and j: "j < n" and n: "n < 2 ^ 31" and op: "op = REDUCE_OP \<or> op = ALLREDUCE_OP \<or> op = BROADCAST_OP"
    and p: "fst (ring_window op n j) \<le> p" "p < fst (ring_window op n j) + snd (ring_window op n j)"
  shows "rg_sources r (of_nat p) = Some (map (\<lambda>j. ep M t (ring_at n h j)) (ring_src_nodes op n j p)) \<and>
    rg_destinations r (of_nat p) = Some (map (\<lambda>j. ep M t (ring_at n h j)) (ring_dst_nodes op n j p))"
proof -
  have small: "p < 2 ^ 32" using p(2) ring_window_small [OF n j, of op] by linarith
  have pl: "ring_placed M t n h j r" "rg_op r = ucast op" "rg_startPhase r = of_nat (fst (ring_window op n j))" using r by (auto simp: ring_ready_def)
  have "fst (ring_window op n j) < 2 ^ 32 - 1" using j n by (auto simp: ring_window_def)
  note sp = phase_cmp [OF small this pl(3)] and gets = ring_gets [OF pl(1) j refl]
  from op show ?thesis
  proof (elim disjE)
    assume o: "op = REDUCE_OP"
    have w: "fst (ring_window op n j) = (if j = n - 1 then 0 else n - 2 - j)" using o ring_ops by (simp add: ring_window_def)
    have "ring_src_nodes op n j p = rrd_src n j p" "ring_dst_nodes op n j p = rrd_dst n j p" using o ring_ops by (auto simp: ring_src_nodes_def ring_dst_nodes_def)
    then show ?thesis
      using o pl(2) ring_op_codes j unfolding rg_sources_def rg_destinations_def gets sp w by (auto simp: rrd_src_def rrd_dst_def)
  next
    assume o: "op = BROADCAST_OP"
    have w: "fst (ring_window op n j) = (if j = 0 then 0 else j - 1)" "rg_bcastStart r = rg_startPhase r"
      using o r by (auto simp: ring_window_def ring_ready_def)
    have "ring_src_nodes op n j p = rbc_src j p" "ring_dst_nodes op n j p = rbc_dst n j p" using o by (auto simp: ring_src_nodes_def ring_dst_nodes_def)
    then show ?thesis
      using o pl(2) ring_op_codes j unfolding rg_sources_def rg_destinations_def gets w(2) sp w(1) by (auto simp: rbc_src_def rbc_dst_def)
  next
    assume o: "op = ALLREDUCE_OP"
    let ?b = "if j = 0 then (if n = 1 then 1 else n - 1) else rar_bcast n j"
    have w: "fst (ring_window op n j) = (if j = n - 1 then 0 else n - 2 - j)" using o ring_ops by (simp add: ring_window_def)
    have "?b < 2 ^ 32 - 1" "rg_bcastStart r = of_nat ?b" using r o n j by (auto simp: ring_ready_def rar_bcast_def)
    note bp = phase_cmp [OF small this]
    have "ring_src_nodes op n j p = rar_src n j p" "ring_dst_nodes op n j p = rar_dst n j p" using o ring_ops by (auto simp: ring_src_nodes_def ring_dst_nodes_def)
    moreover have "rg_sources r (of_nat p) = Some (if p < ?b then getReduceSources r (of_nat p) else getBroadcastSources r (of_nat p))"
      "rg_destinations r (of_nat p) = Some (if p < ?b then getReduceDestinations r (of_nat p) else getBroadcastDestinations r (of_nat p))"
      using o pl(2) ring_op_codes unfolding rg_sources_def rg_destinations_def bp by simp_all
    moreover have "(p = (if j = n - 1 then 0 else n - 2 - j) + (if j = n - 1 then 0 else 1)) \<longleftrightarrow> p = n - 1 - j"
      "Suc j < n \<and> p = (if j = n - 1 then 0 else n - 2 - j) \<longleftrightarrow> Suc j < n \<and> p = n - 2 - j" using j by auto
    ultimately show ?thesis unfolding gets sp bp w by (simp only: rar_split [OF j refl] if_distrib [of "map _"])
  qed
qed

section \<open>The rings of a group\<close>

lemma ring_group:
  assumes "endpoint_group M t n" and "h < n" and "g = (\<lambda>j. ep M t (ring_at n h j))"
  shows "ep M t ` {..<n} = g ` {..<n}" and "inj_on g {..<n}" and "g 0 = ep M t h"
proof -
  note b = ring_at_bij [OF assms(2)]
  have "g ` {..<n} = ep M t ` (ring_at n h ` {..<n})" by (simp add: assms(3) image_image)
  then show "ep M t ` {..<n} = g ` {..<n}" by (simp add: b(3))
  show "inj_on g {..<n}"
  proof (rule inj_onI)
    fix x y assume "x \<in> {..<n}" "y \<in> {..<n}" "g x = g y"
    then show "x = y" using ep_inj [OF assms(1) b(1) b(1)] inj_onD [OF b(4)] by (simp add: assms(3))
  qed
  show "g 0 = ep M t h" by (simp add: assms(3) b(2))
qed

lemma ring_sched:
  assumes g: "endpoint_group M t n" and "h < n" and root: "0 \<le> sint root \<and> root = ep M t h \<or> sint root < 0 \<and> h = 0"
    and op: "op = REDUCE_OP \<or> op = ALLREDUCE_OP \<or> op = BROADCAST_OP" and gg: "gg = (\<lambda>j. ep M t (ring_at n h j))"
    and T: "T = (\<lambda>e. the (ring_of M t op root s e))" and j: "j < n"
  shows "ring_of M t op root s (gg j) = Some (T (gg j))" and "ring_ready M t op n h j (T (gg j))"
    and "ring_src T (gg j) p = map gg (ring_src_nodes op n j p)" and "ring_dst T (gg j) p = map gg (ring_dst_nodes op n j p)"
proof -
  obtain r where r: "ring_of M t op root s (gg j) = Some r" "ring_ready M t op n h j r" using ring_init [OF g j assms(2) root op] unfolding gg by blast
  then have Tr: "T (gg j) = r" by (simp add: T)
  then show "ring_of M t op root s (gg j) = Some (T (gg j))" "ring_ready M t op n h j (T (gg j))" using r by simp_all
  let ?w = "ring_window op n j"
  have n: "n < 2 ^ 31" using g by (simp add: endpoint_group_def)
  have "fst ?w < 2 ^ 32" "snd ?w < 2 ^ 32" using ring_window_small [OF n j, of op] by linarith+
  then have win: "rg_in_window r p \<longleftrightarrow> fst ?w \<le> p \<and> p < fst ?w + snd ?w" for p
    using r(2) unat_small [of "fst ?w"] unat_small [of "snd ?w"] by (simp add: rg_in_window_def ring_ready_def)
  have "ring_src T (gg j) p = map gg (ring_src_nodes op n j p) \<and> ring_dst T (gg j) p = map gg (ring_dst_nodes op n j p)"
  proof (cases "rg_in_window r p")
    case True
    then show ?thesis
      using ring_partners [OF r(2) j n op, of p] win [of p] Tr
      by (simp add: ring_src_def ring_dst_def rg_getSrcTopology_def rg_getDstTopology_def flip: gg)
  next
    case False
    moreover from this have "ring_src_nodes op n j p = [] \<and> ring_dst_nodes op n j p = []" using ring_nodes_window [OF j op, of p] win [of p] by blast
    ultimately show ?thesis using Tr by (simp add: ring_src_def ring_dst_def)
  qed
  then show "ring_src T (gg j) p = map gg (ring_src_nodes op n j p)" "ring_dst T (gg j) p = map gg (ring_dst_nodes op n j p)" by simp_all
qed

lemma rbc_next: "(\<Union>i\<in>{..<m}. set (rbc_dst n i p)) = (if p < m \<and> Suc p < n then {Suc p} else {})"
  by (auto simp: rbc_dst_def)

lemma rbc_informed: "0 < n \<Longrightarrow> informed (rbc_dst n) 0 p = {..<min (Suc p) n}"
proof (induction p)
  case 0
  then show ?case by auto
next
  case (Suc p)
  have "informed (rbc_dst n) 0 (Suc p) = {..<min (Suc p) n} \<union> (if Suc p < n then {Suc p} else {})"
    unfolding informed.simps Suc.IH [OF Suc.prems] rbc_next by simp
  also have "\<dots> = {..<min (Suc (Suc p)) n}" by (cases "Suc p < n") auto
  finally show ?case .
qed

lemma rbc_delivers:
  assumes "0 < n"
  shows "delivers {..<n} rbc_src (rbc_dst n) 0 n"
proof -
  have "\<exists>!fp. fst fp \<in> {..<n} \<and> e \<in> set (rbc_dst n (fst fp) (snd fp))" if "e \<in> {..<n} - {0}" for e
    using that by (intro ex1I [of _ "(e - 1, e - 1)"]) (auto simp: rbc_dst_def prod_eq_iff split: if_splits)
  then show ?thesis using assms by (auto simp: delivers_def rbc_informed) (auto simp: rbc_dst_def rbc_src_def split: if_splits)
qed

text \<open>C35: in a broadcast over a ring, from any root, every process gets a schedule; every process but the root is the
  destination of exactly one send, of a sender that has the data and that the receiver expects in that phase, and at the
  end every process has the data.\<close>

theorem ring_broadcast:
  assumes "endpoint_group M t n" and "E = ep M t ` {..<n}" and "root \<in> E" and "0 \<le> sint root"
  shows "\<exists>T. (\<forall>e\<in>E. ring_of M t BROADCAST_OP root s e = Some (T e)) \<and>
    (\<forall>e\<in>E - {root}. \<exists>!fp. fst fp \<in> E \<and> e \<in> set (ring_dst T (fst fp) (snd fp))) \<and>
    (\<forall>f\<in>E. \<forall>p. distinct (ring_dst T f p) \<and> root \<notin> set (ring_dst T f p) \<and>
       (\<forall>e\<in>set (ring_dst T f p). e \<in> E \<and> f \<in> set (ring_src T e p) \<and> f \<in> informed (ring_dst T) root p)) \<and>
    informed (ring_dst T) root n = E"
proof -
  obtain h where h: "h < n" "root = ep M t h" using assms(2,3) by auto
  define g where "g = (\<lambda>j. ep M t (ring_at n h j))"
  define T where "T = (\<lambda>e. the (ring_of M t BROADCAST_OP root s e))"
  note grp = ring_group [OF assms(1) h(1) g_def] and sc = ring_sched [OF assms(1) h(1) _ _ g_def T_def]
  have ops: "0 \<le> sint root \<and> root = ep M t h \<or> sint root < 0 \<and> h = 0" "BROADCAST_OP = REDUCE_OP \<or> BROADCAST_OP = ALLREDUCE_OP \<or> BROADCAST_OP = BROADCAST_OP"
    using h(2) assms(4) by auto
  have T: "\<forall>e\<in>E. ring_of M t BROADCAST_OP root s e = Some (T e)" using sc(1) [OF ops] grp(1) assms(2) by auto
  have "delivers (g ` {..<n}) (ring_src T) (ring_dst T) (g 0) n"
  proof (rule delivers_rename [OF grp(2) _ _ _ rbc_delivers])
    show "ring_src T (g i) p = map g (rbc_src i p)" if "i \<in> {..<n}" for i p using sc(3) [OF ops, of i p] that by (simp add: ring_src_nodes_def)
    show "ring_dst T (g i) p = map g (rbc_dst n i p) \<and> set (rbc_dst n i p) \<subseteq> {..<n}" if "i \<in> {..<n}" for i p
      using sc(4) [OF ops, of i p] that by (auto simp: ring_dst_nodes_def rbc_dst_def)
  qed (use h(1) in auto)
  then show ?thesis using T unfolding grp(3) h(2) [symmetric] grp(1) [symmetric] assms(2) [symmetric] delivers_def by blast
qed

text \<open>What a process has combined: from the tail up to itself, once the tail's contribution has come that far.\<close>

lemma ring_contribs:
  assumes "\<And>j p. j < n \<Longrightarrow> p < n - 1 \<Longrightarrow> src j p = rrd_src n j p" and "\<And>j. Suc j < n \<Longrightarrow> n - 2 - j \<le> lst j"
    and "p \<le> n - 1" and "j < n"
  shows "contribs src lst p j = (if n \<le> p + Suc j then mset_set {j..<n} else {#j#})"
  using assms(3,4)
proof (induction p arbitrary: j)
  case 0
  then have "n \<le> Suc j \<Longrightarrow> {j..<n} = {j}" by auto
  then show ?case by auto
next
  case (Suc p)
  then have p: "p < n - 1" by simp
  show ?case
  proof (cases "Suc j < n \<and> p = n - 2 - j")
    case True
    then have "{j..<n} = insert j {Suc j..<n}" by auto
    moreover have "src j p = [Suc j]" "\<not> lst j < p" using True assms(1) [OF Suc.prems(2) p] assms(2) [of j] by (auto simp: rrd_src_def)
    ultimately show ?thesis using Suc.IH [of j] Suc.IH [of "Suc j"] Suc.prems True by auto
  next
    case False
    then have "src j p = []" "n \<le> Suc p + Suc j \<longleftrightarrow> n \<le> p + Suc j" using assms(1) [OF Suc.prems(2) p] Suc.prems by (auto simp: rrd_src_def)
    then show ?thesis using Suc.IH [of j] Suc.prems by simp
  qed
qed

lemma rrd_match: "i < n \<Longrightarrow> j < n \<Longrightarrow> j \<in> set (rrd_dst n i p) \<longleftrightarrow> i \<in> set (rrd_src n j p)"
  by (auto simp: rrd_src_def rrd_dst_def)

text \<open>C36: in a reduction over a ring, to any root, every process gets a schedule; what a process sends in a phase is what
  the receiver expects in that phase, it sends in the last phase of its window, and at the end the root has combined the
  contribution of every process exactly once.\<close>

theorem ring_reduce:
  assumes "endpoint_group M t n" and "E = ep M t ` {..<n}" and "root \<in> E" and "0 \<le> sint root"
  shows "\<exists>T. (\<forall>e\<in>E. ring_of M t REDUCE_OP root s e = Some (T e)) \<and>
    (\<forall>e\<in>E. \<forall>f\<in>E. \<forall>p. f \<in> set (ring_dst T e p) \<longleftrightarrow> e \<in> set (ring_src T f p)) \<and>
    (\<forall>e\<in>E. \<forall>p. ring_dst T e p \<noteq> [] \<longrightarrow> rg_in_window (T e) p \<and> (\<forall>q. ring_src T e q \<noteq> [] \<longrightarrow> q < p)) \<and>
    contribs (ring_src T) (\<lambda>e. unat (rg_getLastReducePhase (T e))) (n - 1) root = mset_set E"
proof -
  obtain h where h: "h < n" "root = ep M t h" using assms(2,3) by auto
  define g where "g = (\<lambda>j. ep M t (ring_at n h j))"
  define T where "T = (\<lambda>e. the (ring_of M t REDUCE_OP root s e))"
  note grp = ring_group [OF assms(1) h(1) g_def]
  have ops: "0 \<le> sint root \<and> root = ep M t h \<or> sint root < 0 \<and> h = 0" "REDUCE_OP = REDUCE_OP \<or> REDUCE_OP = ALLREDUCE_OP \<or> REDUCE_OP = BROADCAST_OP"
    using h(2) assms(4) by auto
  note sc = ring_sched [OF assms(1) h(1) ops g_def T_def]
  have nodes: "ring_src_nodes REDUCE_OP n = rrd_src n" "ring_dst_nodes REDUCE_OP n = rrd_dst n"
    using ring_ops by (auto simp: ring_src_nodes_def ring_dst_nodes_def fun_eq_iff)
  have src: "ring_src T (g j) p = map g (rrd_src n j p)" and dst: "ring_dst T (g j) p = map g (rrd_dst n j p)" if "j < n" for j p
    using sc(3,4) [OF that, of p] by (simp_all add: nodes)
  have in_n: "set (rrd_src n j p) \<subseteq> {..<n}" "set (rrd_dst n j p) \<subseteq> {..<n}" if "j < n" for j p using that by (auto simp: rrd_src_def rrd_dst_def)
  have "g j \<in> set (ring_dst T (g i) p) \<longleftrightarrow> g i \<in> set (ring_src T (g j) p)" if "i < n" "j < n" for i j p
    using that src dst inj_on_image_mem_iff [OF grp(2)] in_n rrd_match [OF that] by simp
  moreover have "rg_in_window (T (g j)) p \<and> (\<forall>q. ring_src T (g j) q \<noteq> [] \<longrightarrow> q < p)" if "j < n" "ring_dst T (g j) p \<noteq> []" for j p
  proof -
    have "rg_in_window (T (g j)) p" using that(2) by (auto simp: ring_dst_def split: if_splits)
    then show ?thesis using that src dst by (auto simp: rrd_src_def rrd_dst_def split: if_splits)
  qed
  moreover have "contribs (ring_src T) (\<lambda>e. unat (rg_getLastReducePhase (T e))) (n - 1) root = mset_set E"
  proof -
    have big: "n - 2 - j \<le> unat (rg_getLastReducePhase (T (g j)))" if "j < n" for j
    proof -
      have "n < 2 ^ 31" using assms(1) by (simp add: endpoint_group_def)
      moreover have "rg_op (T (g j)) \<noteq> ucast ALLREDUCE_OP" using sc(2) [OF that] ring_op_codes by (simp add: ring_ready_def)
      then have "unat (rg_getLastReducePhase (T (g j))) = 2 ^ 32 - 1"
        by (simp add: rg_getLastReducePhase_def unsigned_minus_1_eq_mask mask_eq_exp_minus_1)
      moreover have "n - 2 - j \<le> n" by simp
      ultimately show ?thesis unfolding numeral_power_eq_of_nat_cancel_iff by simp
    qed
    have "contribs (ring_src T) (\<lambda>e. unat (rg_getLastReducePhase (T e))) (n - 1) (g 0) =
        image_mset g (contribs (rrd_src n) (\<lambda>j. unat (rg_getLastReducePhase (T (g j)))) (n - 1) 0)"
      using h(1) src in_n by (intro contribs_rename [where A = "{..<n}"]) auto
    also have "contribs (rrd_src n) (\<lambda>j. unat (rg_getLastReducePhase (T (g j)))) (n - 1) 0 = mset_set {..<n}"
      using h(1) big by (subst ring_contribs [where n = n]) (auto simp: lessThan_atLeast0)
    finally show ?thesis using image_mset_mset_set [OF grp(2)] grp assms(2) h(2) by simp
  qed
  ultimately show ?thesis using sc(1) unfolding assms(2) grp(1) by (intro exI [of _ T]) auto
qed

section \<open>Allreduce\<close>

text \<open>The last phase of a window.\<close>

definition rar_last :: "nat \<Rightarrow> nat \<Rightarrow> nat" where
  "rar_last n j = fst (ring_window ALLREDUCE_OP n j) + snd (ring_window ALLREDUCE_OP n j) - 1"

lemma rar_last_eq: "rar_last n j = (if j = n - 1 \<and> j \<noteq> 0 then rar_bcast n j else if j = 0 then (if n \<le> 1 then 1 else n - 1) else (n - 2 - j) + 2 * j + 1)"
proof -
  have "ring_window ALLREDUCE_OP n j = (if j = n - 1 then 0 else n - 2 - j, if j = 0 then 2 else if j = n - 1 then rar_bcast n j + 1 else 2 * j + 2)"
    using ring_ops by (simp add: ring_window_def)
  then show ?thesis by (cases "j = 0"; cases "j = n - 1") (simp_all add: rar_last_def)
qed

lemma rar_match:
  assumes "i < n" and "j \<in> set (rar_dst n i p)"
  shows "j < n \<and> i \<in> set (rar_src n j (min p (rar_last n j)))"
proof -
  consider "0 < i" "p = n - 1 - i" "j = i - 1" | "Suc i < n" "p = n + i - 1" "j = Suc i"
    using assms(2) by (auto simp: rar_dst_def rrd_dst_def split: if_splits)
  then show ?thesis
  proof cases
    case 1
    then have "p \<le> rar_last n j" "p = n - 2 - j" "Suc j < n" using assms(1) by (auto simp: rar_last_eq rar_bcast_def)
    then show ?thesis using 1 by (simp add: rar_src_def rrd_src_def)
  next
    case 2
    then have "min p (rar_last n j) = rar_bcast n j" using assms(1) by (auto simp: rar_last_eq rar_bcast_def)
    then show ?thesis using 2 by (simp add: rar_src_def)
  qed
qed

lemma rar_matched:
  assumes "j < n" and "i \<in> set (rar_src n j p)"
  shows "i < n \<and> (\<exists>q. j \<in> set (rar_dst n i q) \<and> min q (rar_last n j) = p)"
proof -
  consider "Suc j < n" "p = n - 2 - j" "i = Suc j" | "0 < j" "p = rar_bcast n j" "i = j - 1"
    using assms(2) by (auto simp: rar_src_def rrd_src_def split: if_splits)
  then show ?thesis
  proof cases
    case 1
    then have "p \<le> rar_last n j" using assms(1) by (auto simp: rar_last_eq rar_bcast_def)
    then show ?thesis using 1 by (intro conjI exI [of _ p]) (auto simp: rar_dst_def rrd_dst_def)
  next
    case 2
    then have "min (n + i - 1) (rar_last n j) = p" using assms(1) by (auto simp: rar_last_eq rar_bcast_def)
    then show ?thesis using 2 assms(1) by (intro conjI exI [of _ "n + i - 1"]) (auto simp: rar_dst_def)
  qed
qed

lemma rar_halves:
  assumes "j < n"
  shows "p < n - 1 \<Longrightarrow> rar_src n j p = rrd_src n j p" and "rar_dst n j (n - 1 + p) = rbc_dst n j p"
    and "set (rar_src n j p) \<subseteq> {..<n}" and "set (rar_dst n j p) \<subseteq> {..<n}"
proof -
  have "n - 1 \<le> rar_bcast n j" if "0 < j" using that assms by (auto simp: rar_bcast_def)
  then show "p < n - 1 \<Longrightarrow> rar_src n j p = rrd_src n j p" by (auto simp: rar_src_def)
  have "0 < j \<and> n - 1 + p = n - 1 - j \<longleftrightarrow> False" "n - 1 + p = n + j - 1 \<longleftrightarrow> p = j" using assms by auto
  then show "rar_dst n j (n - 1 + p) = rbc_dst n j p" unfolding rar_dst_def rrd_dst_def rbc_dst_def by simp
  show "set (rar_src n j p) \<subseteq> {..<n}" using assms by (auto simp: rar_src_def rrd_src_def)
  show "set (rar_dst n j p) \<subseteq> {..<n}" using assms by (auto simp: rar_dst_def rrd_dst_def)
qed

lemma rar_last_reduce:
  assumes "ring_ready M t ALLREDUCE_OP n h j r" and "Suc j < n" and "n < 2 ^ 31"
  shows "n - 2 - j \<le> unat (rg_getLastReducePhase r)"
proof -
  define b where "b = (if j = 0 then n - 1 else n + j - 2)"
  have r: "rg_bcastStart r = of_nat b" "rg_op r = ucast ALLREDUCE_OP" using assms(1,2) by (auto simp: ring_ready_def b_def rar_bcast_def)
  have b: "1 \<le> b" "b < 2 ^ 32" "n - 2 - j \<le> b - 1" using assms(2,3) by (auto simp: b_def)
  have "rg_getLastReducePhase r = of_nat (b - 1)" using r b(1) by (simp add: rg_getLastReducePhase_def of_nat_diff)
  then show ?thesis using b unat_small [of "b - 1"] by simp
qed

text \<open>C37: in an allreduce over a ring every process gets a schedule. A message is expected in the phase in which it is sent
  or, where that is beyond the window of the receiver, in its last phase, to which the executor moves it; and every
  expected message is sent. After the phases of the reduction the head has combined the contribution of every process
  exactly once, and the later sends carry the result from the head to every process.\<close>

theorem ring_allreduce:
  assumes "endpoint_group M t n" and "E = ep M t ` {..<n}" and "0 \<le> sint root \<and> head = root \<and> root \<in> E \<or> sint root < 0 \<and> head = ep M t 0"
  shows "\<exists>T final. (\<forall>e\<in>E. ring_of M t ALLREDUCE_OP root s e = Some (T e) \<and> final e = unat (rg_startPhase (T e) + rg_nphases (T e) - 1)) \<and>
    (\<forall>e\<in>E. \<forall>p. \<forall>f\<in>set (ring_dst T e p). f \<in> E \<and> e \<in> set (ring_src T f (min p (final f)))) \<and>
    (\<forall>f\<in>E. \<forall>p. \<forall>e\<in>set (ring_src T f p). e \<in> E \<and> (\<exists>q. f \<in> set (ring_dst T e q) \<and> min q (final f) = p)) \<and>
    contribs (ring_src T) (\<lambda>e. unat (rg_getLastReducePhase (T e))) (n - 1) head = mset_set E \<and>
    informed (\<lambda>e p. ring_dst T e (n - 1 + p)) head n = E"
proof -
  have n: "0 < n" "n < 2 ^ 31" using assms(1) by (auto simp: endpoint_group_def)
  obtain h where h: "h < n" "head = ep M t h" and rt: "0 \<le> sint root \<and> root = ep M t h \<or> sint root < 0 \<and> h = 0"
    using assms(2,3) n(1) by auto
  define g where "g = (\<lambda>j. ep M t (ring_at n h j))"
  define T where "T = (\<lambda>e. the (ring_of M t ALLREDUCE_OP root s e))"
  note grp = ring_group [OF assms(1) h(1) g_def]
  have op: "ALLREDUCE_OP = REDUCE_OP \<or> ALLREDUCE_OP = ALLREDUCE_OP \<or> ALLREDUCE_OP = BROADCAST_OP" by simp
  note sc = ring_sched [OF assms(1) h(1) rt op g_def T_def]
  have nodes: "ring_src_nodes ALLREDUCE_OP n = rar_src n" "ring_dst_nodes ALLREDUCE_OP n = rar_dst n"
    using ring_ops by (auto simp: ring_src_nodes_def ring_dst_nodes_def fun_eq_iff)
  have src: "ring_src T (g j) p = map g (rar_src n j p)" and dst: "ring_dst T (g j) p = map g (rar_dst n j p)" if "j < n" for j p
    using sc(3,4) [OF that, of p] by (simp_all add: nodes)
  define final where "final e = unat (rg_startPhase (T e) + rg_nphases (T e) - 1)" for e
  have final: "final (g j) = rar_last n j" if "j < n" for j
  proof -
    let ?w = "ring_window ALLREDUCE_OP n j"
    have "1 \<le> fst ?w + snd ?w" using ring_ops by (auto simp: ring_window_def)
    then have "rg_startPhase (T (g j)) + rg_nphases (T (g j)) - 1 = of_nat (fst ?w + snd ?w - 1)" using sc(2) [OF that] by (simp add: ring_ready_def of_nat_diff)
    then show ?thesis using unat_small [of "fst ?w + snd ?w - 1"] ring_window_small [OF n(2) that, of ALLREDUCE_OP] by (simp add: final_def rar_last_def)
  qed
  have "f \<in> g ` {..<n} \<and> g i \<in> set (ring_src T f (min p (final f)))" if "i < n" "f \<in> set (ring_dst T (g i) p)" for i p f
    using that dst src final rar_match [OF that(1)] by auto
  moreover have "e \<in> g ` {..<n} \<and> (\<exists>q. g j \<in> set (ring_dst T e q) \<and> min q (final (g j)) = p)" if je: "j < n" "e \<in> set (ring_src T (g j) p)" for j p e
  proof -
    obtain i where i: "i \<in> set (rar_src n j p)" "e = g i" using je src by auto
    then show ?thesis using rar_matched [OF je(1) i(1)] dst final [OF je(1)] by auto
  qed
  moreover have "contribs (ring_src T) (\<lambda>e. unat (rg_getLastReducePhase (T e))) (n - 1) head = mset_set E"
  proof -
    have "n - 2 - j \<le> unat (rg_getLastReducePhase (T (g j)))" if "Suc j < n" for j
      using rar_last_reduce [OF sc(2) that n(2)] that by simp
    then have "contribs (rar_src n) (\<lambda>j. unat (rg_getLastReducePhase (T (g j)))) (n - 1) 0 = mset_set {..<n}"
      using n(1) rar_halves(1) by (subst ring_contribs [where n = n]) (auto simp: lessThan_atLeast0)
    moreover have "contribs (ring_src T) (\<lambda>e. unat (rg_getLastReducePhase (T e))) (n - 1) (g 0) =
        image_mset g (contribs (rar_src n) (\<lambda>j. unat (rg_getLastReducePhase (T (g j)))) (n - 1) 0)"
      using h(1) src rar_halves(3) by (intro contribs_rename [where A = "{..<n}"]) auto
    ultimately show ?thesis using image_mset_mset_set [OF grp(2)] grp assms(2) h(2) by simp
  qed
  moreover have "informed (\<lambda>e p. ring_dst T e (n - 1 + p)) head n = E"
    using informed_rename [of "{..<n}" "\<lambda>e p. ring_dst T e (n - 1 + p)" g "rbc_dst n" 0 n] dst rar_halves(2,4) rbc_informed [OF n(1), of n] n(1) grp h(2) assms(2)
    by (auto simp: rbc_dst_def)
  ultimately show ?thesis using sc(1) unfolding assms(2) grp(1) by (intro exI [of _ T] exI [of _ final]) (auto simp: final_def)
qed

section \<open>Where the source is wrong\<close>

text \<open>With three processes or more the tail expects the result one phase before its neighbour sends it.\<close>

lemma ring_tail_early:
  assumes "endpoint_group M t n" and "3 \<le> n" and "sint root < 0" and "T = (\<lambda>e. the (ring_of M t ALLREDUCE_OP root s e))"
  shows "\<exists>e f p. f \<in> set (ring_dst T e p) \<and> e \<notin> set (ring_src T f p)"
proof -
  define g where "g = (\<lambda>j. ep M t (ring_at n 0 j))"
  have h: "0 < n" "0 \<le> sint root \<and> root = ep M t 0 \<or> sint root < 0 \<and> (0::nat) = 0"
    "ALLREDUCE_OP = REDUCE_OP \<or> ALLREDUCE_OP = ALLREDUCE_OP \<or> ALLREDUCE_OP = BROADCAST_OP" using assms(2,3) by auto
  note sc = ring_sched [OF assms(1) h g_def assms(4)]
  have "ring_src_nodes ALLREDUCE_OP n (n - 1) (2 * n - 3) = []" "ring_dst_nodes ALLREDUCE_OP n (n - 2) (2 * n - 3) = [n - 1]"
    using assms(2) ring_ops by (auto simp: ring_nodes)
  then have "g (n - 1) \<in> set (ring_dst T (g (n - 2)) (2 * n - 3))" "ring_src T (g (n - 1)) (2 * n - 3) = []"
    using sc(4) [of "n - 2" "2 * n - 3"] sc(3) [of "n - 1" "2 * n - 3"] assms(2) by simp_all
  then show ?thesis by (intro exI [of _ "g (n - 2)"] exI [of _ "g (n - 1)"] exI [of _ "2 * n - 3"]) simp
qed

section \<open>A ring of three\<close>

definition demo_ring :: ring where
  "demo_ring = \<lparr>rg_op = 0, rg_root = 0, rg_startPhase = 0, rg_nphases = 0, rg_bcastStart = 0, rg_isHead = False, rg_isTail = False,
     rg_next = 0, rg_prev = 0, rg_topology = Topology_empty, rg_nranks = 0, rg_my_ep = 0, rg_dir = 0\<rparr>"

lemma demo_three_group: "endpoint_group (bgq_mapping demo_booted) (Topology_eplist [7, 9, 4]) 3"
  and demo_three_eps: "ep (bgq_mapping demo_booted) (Topology_eplist [7, 9, 4]) ` {..<3} = {7, 9, 4}"
proof -
  have "length [7 :: endpoint, 9, 4] = 3" by simp
  then show "endpoint_group (bgq_mapping demo_booted) (Topology_eplist [7, 9, 4]) 3"
    using eplist_group(1) [of "[7, 9, 4]" "bgq_mapping demo_booted"] by (simp only: distinct.simps) simp
  have "{..<3::nat} = {0, 1, 2}" by auto
  then show "ep (bgq_mapping demo_booted) (Topology_eplist [7, 9, 4]) ` {..<3} = {7, 9, 4}"
    using eplist_group(2) [of "[7, 9, 4]" 0] eplist_group(2) [of "[7, 9, 4]" 1] eplist_group(2) [of "[7, 9, 4]" 2] by simp
qed

theorem ring_broadcast_witness: "\<exists>T. informed (ring_dst T) 9 3 = {7, 9, 4}"
  using ring_broadcast [OF demo_three_group demo_three_eps [symmetric], of 9 demo_ring] by auto

theorem ring_reduce_witness: "\<exists>T. contribs (ring_src T) (\<lambda>e. unat (rg_getLastReducePhase (T e))) 2 4 = mset_set {7, 9, 4}"
proof -
  from ring_reduce [OF demo_three_group demo_three_eps [symmetric], of 4 demo_ring]
  obtain T where "contribs (ring_src T) (\<lambda>e. unat (rg_getLastReducePhase (T e))) (3 - 1) 4 = mset_set {7, 9, 4}" by auto
  then show ?thesis by (intro exI [of _ T]) simp
qed

theorem ring_allreduce_witness: "\<exists>T. informed (\<lambda>e p. ring_dst T e (2 + p)) 7 3 = {7, 9, 4}"
proof -
  have "sint (- 1 :: uint_t) < 0" "ep (bgq_mapping demo_booted) (Topology_eplist [7, 9, 4]) 0 = 7"
    using eplist_group(2) [of "[7, 9, 4]" 0 "bgq_mapping demo_booted"] by simp_all
  then obtain T where "informed (\<lambda>e p. ring_dst T e (3 - 1 + p)) 7 3 = {7, 9, 4}"
    using ring_allreduce [OF demo_three_group demo_three_eps [symmetric], of "- 1" 7 demo_ring] by auto
  then show ?thesis by (intro exI [of _ T]) simp
qed

end
