(* ===== verification/Pami_MemoryManager.thy ===== *)
theory Pami_MemoryManager
  imports Pami_Prelude
begin

text \<open>
  The memory manager (\<^verbatim>\<open>components/memory/MemoryManager.h\<close>): the allocation records
  (\<^verbatim>\<open>MemoryManagerAlloc\<close>), the header with its lock and its fill level
  (\<^verbatim>\<open>MemoryManagerHeader\<close>), the meta data with its bit vector of own allocations
  (\<^verbatim>\<open>MemoryManagerMeta\<close>) and the manager itself (\<^verbatim>\<open>GenMemoryManager\<close>).

  \<^item> Header, records and arena are in memory that several processes share (\<open>mm_shared\<close>); the bit vector, the
    group pointers, the statistics and the mapped address are private to a process (\<open>mm_proc\<close>). Every operation takes
    both and returns both.
  \<^item> \<^verbatim>\<open>_metas[x][y]\<close> is \<open>ms_slots sh (x, y)\<close>. The groups come from another memory manager, which hands out
    zeroed memory and, for the same key, the same memory to every process: that manager is the argument \<open>g\<close>, the result
    of its \<^verbatim>\<open>memalign\<close> for a key, and \<open>mp_metas pr x\<close> is the pointer of this process to group \<open>x\<close>.
  \<^item> A key is the C string it holds: it has no NUL, and the empty string marks a free record.
  \<^item> \<open>None\<close> is an operation that does not return: the lock is held, the initialisation flag is never set, or an
    assertion fails.
\<close>

unbundle bit_operations_syntax

section \<open>Padding\<close>

definition getPadding :: "size_t \<Rightarrow> size_t \<Rightarrow> size_t \<Rightarrow> size_t" where
  "getPadding base off align = ((base + off + (align - 1)) AND NOT (align - 1)) - base"

section \<open>Allocation records\<close>

definition MMKEYSIZE :: nat where
  "MMKEYSIZE = 128"

record mm_alloc =
  ma_ref_count :: size_t
  ma_init_done :: bool
  ma_key :: string
  ma_offset :: size_t
  ma_userSize :: size_t
  ma_rawSize :: size_t

definition addRef :: "mm_alloc \<Rightarrow> mm_alloc" where
  "addRef m = m\<lparr>ma_ref_count := ma_ref_count m + 1\<rparr>"

definition rmRef :: "mm_alloc \<Rightarrow> size_t \<times> mm_alloc" where
  "rmRef m = (ma_ref_count m, m\<lparr>ma_ref_count := ma_ref_count m - 1\<rparr>)"

definition initDone :: "mm_alloc \<Rightarrow> mm_alloc" where
  "initDone m = m\<lparr>ma_init_done := True\<rparr>"

definition waitDone :: "mm_alloc \<Rightarrow> unit option" where
  "waitDone m = (if ma_init_done m then Some () else None)"

text \<open>The digits that \<^verbatim>\<open>%d\<close>, \<^verbatim>\<open>%lx\<close> and \<^verbatim>\<open>%p\<close> print.\<close>

definition digit_char :: "nat \<Rightarrow> char" where
  "digit_char d = (if d < 10 then char_of (48 + d) else char_of (87 + d))"

fun print_base :: "nat \<Rightarrow> nat \<Rightarrow> string" where
  "print_base b n = (if b < 2 \<or> n < b then [digit_char n] else print_base b (n div b) @ [digit_char (n mod b)])"

declare print_base.simps [simp del]

definition anon_key :: "nat \<Rightarrow> size_t \<Rightarrow> string" where
  "anon_key pid this = ''/pami-'' @ print_base 10 pid @ ''-0x'' @ print_base 16 (unat this)"

definition memptr_key :: "nat \<Rightarrow> size_t \<Rightarrow> string" where
  "memptr_key pid memptr = ''/'' @ print_base 10 pid @ ''-'' @ print_base 16 (unat memptr)"

definition setKey :: "nat \<Rightarrow> size_t \<Rightarrow> string option \<Rightarrow> mm_alloc \<Rightarrow> mm_alloc" where
  "setKey pid this key m =
     (case key of Some k \<Rightarrow> m\<lparr>ma_key := take MMKEYSIZE k\<rparr>
      | None \<Rightarrow> m\<lparr>ma_key := take (MMKEYSIZE - 1) (anon_key pid this)\<rparr>)"

definition isMatch :: "mm_alloc \<Rightarrow> string \<Rightarrow> bool" where
  "isMatch m key = (take MMKEYSIZE (ma_key m) = take MMKEYSIZE key)"

definition freeKey :: "mm_alloc \<Rightarrow> mm_alloc" where
  "freeKey m = m\<lparr>ma_key := ''''\<rparr>"

definition isFree :: "mm_alloc \<Rightarrow> bool" where
  "isFree m = (ma_key m = '''')"

definition setMem :: "size_t \<Rightarrow> size_t \<Rightarrow> size_t \<Rightarrow> mm_alloc \<Rightarrow> mm_alloc" where
  "setMem off len pad m = m\<lparr>ma_userSize := len, ma_offset := off, ma_rawSize := len + pad\<rparr>"

text \<open>\<^verbatim>\<open>MemoryManagerAlloc::free\<close>, without the \<^verbatim>\<open>func\<close> that no caller of this manager passes.\<close>

definition alloc_free :: "mm_alloc \<Rightarrow> pami_result \<times> mm_alloc" where
  "alloc_free m = (let (old, m') = rmRef m in
     if old = 1 then (PAMI_SUCCESS, freeKey m') else (PAMI_EAGAIN, m'))"

section \<open>Header\<close>

record mm_header =
  mh_mutex :: size_t
  mh_offset :: size_t
  mh_nmetas :: nat

definition new_header :: mm_header where
  "new_header = \<lparr>mh_mutex = 0, mh_offset = 0, mh_nmetas = 0\<rparr>"

definition hdr_acquire :: "mm_header \<Rightarrow> mm_header option" where
  "hdr_acquire h = (if mh_mutex h = 0 then Some (h\<lparr>mh_mutex := 1\<rparr>) else None)"

definition hdr_release :: "mm_header \<Rightarrow> mm_header" where
  "hdr_release h = h\<lparr>mh_mutex := 0\<rparr>"

definition setMeta :: "nat \<Rightarrow> mm_header \<Rightarrow> mm_header" where
  "setMeta x h = (if x \<ge> mh_nmetas h then h\<lparr>mh_nmetas := x + 1\<rparr> else h)"

section \<open>State\<close>

definition MM_META_NUM :: "nat \<Rightarrow> nat" where
  "MM_META_NUM idx = push_bit idx (push_bit idx 8)"

definition MMMAX_N_META :: nat where
  "MMMAX_N_META = 4"

definition MAX_NUM_META :: nat where
  "MAX_NUM_META = fold (\<lambda>x y. y + MM_META_NUM x) [0..<MMMAX_N_META] 0"

record mm_shared =
  ms_hdr :: mm_header
  ms_slots :: "nat \<times> nat \<Rightarrow> mm_alloc"
  ms_mem :: "nat \<Rightarrow> 8 word"

record mm_stats =
  st_num_allocs :: size_t
  st_num_frees :: size_t
  st_loc_bytes :: size_t
  st_rep_bytes :: size_t
  st_fre_bytes :: size_t

record mm_proc =
  mp_pid :: nat
  mp_base :: size_t
  mp_size :: size_t
  mp_enabled :: bool
  mp_attrs :: uint_t
  mp_alignment :: size_t
  mp_name :: string
  mp_debug :: bool
  mp_stats :: mm_stats
  mp_pre_alloc :: bool
  mp_key_fmt :: "string option"
  mp_metas :: "nat \<Rightarrow> size_t option"
  mp_my_metas :: "nat \<Rightarrow> size_t"
  mp_last_z :: nat

type_synonym mm_state = "mm_shared \<times> mm_proc"

definition zero_alloc :: mm_alloc where
  "zero_alloc = \<lparr>ma_ref_count = 0, ma_init_done = False, ma_key = '''', ma_offset = 0, ma_userSize = 0, ma_rawSize = 0\<rparr>"

definition new_shared :: mm_shared where
  "new_shared = \<lparr>ms_hdr = new_header, ms_slots = (\<lambda>_. zero_alloc), ms_mem = (\<lambda>_. 0)\<rparr>"

definition MM_RESET_STATS :: mm_stats where
  "MM_RESET_STATS = \<lparr>st_num_allocs = 0, st_num_frees = 0, st_loc_bytes = 0, st_rep_bytes = 0, st_fre_bytes = 0\<rparr>"

definition upd_slot :: "nat \<times> nat \<Rightarrow> (mm_alloc \<Rightarrow> mm_alloc) \<Rightarrow> mm_shared \<Rightarrow> mm_shared" where
  "upd_slot q f sh = sh\<lparr>ms_slots := (ms_slots sh)(q := f (ms_slots sh q))\<rparr>"

definition upd_hdr :: "(mm_header \<Rightarrow> mm_header) \<Rightarrow> mm_shared \<Rightarrow> mm_shared" where
  "upd_hdr f sh = sh\<lparr>ms_hdr := f (ms_hdr sh)\<rparr>"

section \<open>Meta data\<close>

definition mark :: "nat \<Rightarrow> mm_proc \<Rightarrow> mm_proc" where
  "mark z pr = pr\<lparr>mp_my_metas := (mp_my_metas pr)(z div 64 := mp_my_metas pr (z div 64) OR push_bit (z mod 64) 1)\<rparr>"

definition unMark :: "nat \<Rightarrow> mm_proc \<Rightarrow> mm_proc" where
  "unMark z pr = pr\<lparr>mp_my_metas := (mp_my_metas pr)(z div 64 := mp_my_metas pr (z div 64) AND NOT (push_bit (z mod 64) 1))\<rparr>"

definition isMarked :: "nat \<Rightarrow> mm_proc \<Rightarrow> bool" where
  "isMarked z pr = (mp_my_metas pr (z div 64) AND push_bit (z mod 64) 1 \<noteq> 0)"

text \<open>
  \<^verbatim>\<open>_metaAlloc\<close> asks the manager of the meta data for memory under the key of this manager and a tag; \<open>g\<close> answers with an
  address, or with \<open>None\<close> for an error (callers only compare the code with \<^verbatim>\<open>PAMI_SUCCESS\<close>).
\<close>

type_synonym meta_source = "string option \<Rightarrow> size_t option"

definition metaAlloc :: "meta_source \<Rightarrow> mm_proc \<Rightarrow> char \<Rightarrow> size_t option" where
  "metaAlloc g pr tag = g (map_option (\<lambda>fmt. fmt @ [tag]) (mp_key_fmt pr))"

definition meta_tag :: "nat \<Rightarrow> char" where
  "meta_tag x = ''0123456789'' ! x"

definition getMeta :: "meta_source \<Rightarrow> nat \<Rightarrow> mm_state \<Rightarrow> pami_result \<times> mm_state" where
  "getMeta g x = (\<lambda>(sh, pr). case mp_metas pr x of
       Some _ \<Rightarrow> (PAMI_SUCCESS, (sh, pr))
     | None \<Rightarrow> (case metaAlloc g pr (meta_tag x) of
           None \<Rightarrow> (PAMI_ERROR, (sh, pr))
         | Some a \<Rightarrow> (PAMI_SUCCESS, (upd_hdr (setMeta x) sh, pr\<lparr>mp_metas := (mp_metas pr)(x := Some a)\<rparr>))))"

text \<open>The inner and the outer loop of \<^verbatim>\<open>__locateOne\<close>; the boolean says whether a record was found.\<close>

type_synonym mm_pos = "nat \<times> nat \<times> nat"

function locate_y :: "bool \<Rightarrow> mm_shared \<Rightarrow> mm_pos \<Rightarrow> bool \<times> mm_pos" where
  "locate_y want sh (x, y, z) =
     (if y < MM_META_NUM x then
        if want \<and> isFree (ms_slots sh (x, y)) then (True, x, y, z)
        else if \<not> want \<and> \<not> isFree (ms_slots sh (x, y)) then (True, x, y, z)
        else locate_y want sh (x, y + 1, z + 1)
      else (False, x, y, z))"
  by pat_completeness auto

termination
  by (relation "measure (\<lambda>(_, _, x, y, _). MM_META_NUM x - y)") auto

function locate_x :: "meta_source \<Rightarrow> bool \<Rightarrow> bool \<Rightarrow> nat \<Rightarrow> mm_state \<Rightarrow> mm_pos \<Rightarrow> bool \<times> mm_pos \<times> mm_state" where
  "locate_x g fill want mx s (x, y, z) =
     (if x < mx then
        (let (rc, s1) = (if fill then getMeta g x s else (PAMI_SUCCESS, s)) in
         if rc \<noteq> PAMI_SUCCESS then (False, (x, y, z), s1)
         else if \<not> fill \<and> mp_metas (snd s1) x = None then (False, (x, y, z), s1)
         else (case locate_y want (fst s1) (x, y, z) of
             (True, p) \<Rightarrow> (True, p, s1)
           | (False, _, _, z') \<Rightarrow> locate_x g fill want mx s1 (x + 1, 0, z')))
      else (False, (x, y, z), s))"
  by pat_completeness auto

termination
  by (relation "measure (\<lambda>(_, _, _, mx, _, x, _, _). mx - x)") auto

declare locate_y.simps [simp del] locate_x.simps [simp del]

definition locateOne :: "meta_source \<Rightarrow> bool \<Rightarrow> bool \<Rightarrow> mm_state \<Rightarrow> mm_pos \<Rightarrow> bool \<times> mm_pos \<times> mm_state" where
  "locateOne g fill want s p =
     locate_x g fill want (if want then MMMAX_N_META else mh_nmetas (ms_hdr (fst s))) s p"

definition locateSkip :: "mm_pos \<Rightarrow> mm_pos" where
  "locateSkip = (\<lambda>(x, y, z). (x, y + 1, z + 1))"

text \<open>Positions that the loops reach: they bound the iterations of the callers.\<close>

lemma locate_y_found:
  "locate_y want sh (x, y, z) = (True, x', y', z') \<Longrightarrow> x' = x \<and> y \<le> y' \<and> y' < MM_META_NUM x"
  by (induction want sh "(x, y, z)" arbitrary: y z rule: locate_y.induct)
     (subst (asm) (2) locate_y.simps, fastforce split: if_splits)

text \<open>One iteration of the outer loop, as a case rule for inductions on the groups that are left.\<close>

lemma locate_x_iter:
  assumes "x < mx"
  obtains (none) rc s1 where "(if fill then getMeta g x s else (PAMI_SUCCESS, s)) = (rc, s1)"
      and "rc \<noteq> PAMI_SUCCESS \<or> \<not> fill \<and> mp_metas (snd s1) x = None"
      and "locate_x g fill want mx s (x, y, z) = (False, (x, y, z), s1)"
    | (found) y' z' s1 where "(if fill then getMeta g x s else (PAMI_SUCCESS, s)) = (PAMI_SUCCESS, s1)"
      and "fill \<or> mp_metas (snd s1) x \<noteq> None"
      and "locate_y want (fst s1) (x, y, z) = (True, x, y', z')"
      and "locate_x g fill want mx s (x, y, z) = (True, (x, y', z'), s1)"
    | (on) x2 y2 z2 s1 where "(if fill then getMeta g x s else (PAMI_SUCCESS, s)) = (PAMI_SUCCESS, s1)"
      and "fill \<or> mp_metas (snd s1) x \<noteq> None"
      and "locate_y want (fst s1) (x, y, z) = (False, x2, y2, z2)"
      and "locate_x g fill want mx s (x, y, z) = locate_x g fill want mx s1 (x + 1, 0, z2)"
proof -
  obtain rc s1 where m: "(if fill then getMeta g x s else (PAMI_SUCCESS, s)) = (rc, s1)"
    by (rule prod.exhaust)
  obtain b x2 y2 z2 where l: "locate_y want (fst s1) (x, y, z) = (b, x2, y2, z2)"
    by (metis prod_cases4)
  consider "rc \<noteq> PAMI_SUCCESS \<or> \<not> fill \<and> mp_metas (snd s1) x = None"
    | "rc = PAMI_SUCCESS" "fill \<or> mp_metas (snd s1) x \<noteq> None" b
    | "rc = PAMI_SUCCESS" "fill \<or> mp_metas (snd s1) x \<noteq> None" "\<not> b" by metis
  then show thesis
  proof cases
    case 1
    with m assms show ?thesis by (intro none [of rc s1]) (auto simp: locate_x.simps)
  next
    case 2
    with m l assms locate_y_found [of want "fst s1" x y z x2 y2 z2] show ?thesis
      by (intro found [of s1 y2 z2]) (auto simp: locate_x.simps)
  next
    case 3
    with m l assms show ?thesis
      by (intro on [of s1 x2 y2 z2]) (auto simp: locate_x.simps [of _ _ _ _ s])
  qed
qed

lemma locate_x_end: "\<not> x < mx \<Longrightarrow> locate_x g fill want mx s (x, y, z) = (False, (x, y, z), s)"
  by (simp add: locate_x.simps)

lemma locate_x_found:
  "locate_x g fill want mx s (x, y, z) = (True, (x', y', z'), s') \<Longrightarrow>
     x' < mx \<and> y' < MM_META_NUM x' \<and> (x < x' \<or> x = x' \<and> y \<le> y')"
proof (induction "mx - x" arbitrary: s x y z)
  case 0
  then show ?case by (simp add: locate_x_end)
next
  case (Suc n)
  then have "x < mx" by simp
  then show ?case
  proof (cases rule: locate_x_iter [where fill = fill and g = g and s = s and want = want and y = y and z = z])
    case (found y2 z2 s1)
    with Suc.prems \<open>x < mx\<close> locate_y_found [of want "fst s1" x y z x y2 z2] show ?thesis by auto
  next
    case (on x2 y2 z2 s1)
    then have "x' < mx \<and> y' < MM_META_NUM x' \<and> (x + 1 < x' \<or> x + 1 = x' \<and> 0 \<le> y')"
      using Suc.hyps Suc.prems by (intro Suc.hyps(1)) auto
    then show ?thesis by auto
  qed (use Suc.prems in auto)
qed

lemma locateOne_found:
  "locateOne g fill want s (x, y, z) = (True, (x', y', z'), s') \<Longrightarrow>
     y' < MM_META_NUM x' \<and> (x < x' \<or> x = x' \<and> y \<le> y') \<and>
     x' < (if want then MMMAX_N_META else mh_nmetas (ms_hdr (fst s)))"
  using locate_x_found unfolding locateOne_def by blast

lemma getMeta_nmetas:
  "x < mh_nmetas (ms_hdr (fst s)) \<Longrightarrow> getMeta g x s = (rc, s1) \<Longrightarrow> mh_nmetas (ms_hdr (fst s1)) = mh_nmetas (ms_hdr (fst s))"
  by (cases s) (auto simp: getMeta_def upd_hdr_def setMeta_def split: option.splits)

lemma locate_x_nmetas:
  "mx \<le> mh_nmetas (ms_hdr (fst s)) \<Longrightarrow> locate_x g fill want mx s (x, y, z) = (b, p, s') \<Longrightarrow>
     mh_nmetas (ms_hdr (fst s')) = mh_nmetas (ms_hdr (fst s))"
proof (induction "mx - x" arbitrary: s x y z)
  case 0
  then show ?case by (simp add: locate_x_end)
next
  case (Suc n)
  then have x: "x < mx" "x < mh_nmetas (ms_hdr (fst s))" by simp_all
  from x(1) show ?case
  proof (cases rule: locate_x_iter [where fill = fill and g = g and s = s and want = want and y = y and z = z])
    case (on x2 y2 z2 s1)
    then have n: "mh_nmetas (ms_hdr (fst s1)) = mh_nmetas (ms_hdr (fst s))"
      using getMeta_nmetas [OF x(2)] by (auto split: if_splits)
    have "mh_nmetas (ms_hdr (fst s')) = mh_nmetas (ms_hdr (fst s1))"
      using Suc on n by (intro Suc.hyps(1) [of "x + 1" s1 0 z2]) auto
    with n show ?thesis by simp
  qed (use Suc.prems getMeta_nmetas [OF x(2)] in \<open>auto split: if_splits\<close>)
qed

lemma locateOne_nmetas:
  "locateOne g fill False s p = (b, p', s') \<Longrightarrow> mh_nmetas (ms_hdr (fst s')) = mh_nmetas (ms_hdr (fst s))"
  by (cases p) (auto simp: locateOne_def dest: locate_x_nmetas [OF le_refl])

text \<open>The measure of a loop of \<^verbatim>\<open>__locateOne<_, false>\<close> and \<^verbatim>\<open>__locateSkip\<close>: groups left, records left.\<close>

definition walk_rel :: "((mm_state \<times> mm_pos) \<times> (mm_state \<times> mm_pos)) set" where
  "walk_rel = measures [\<lambda>((sh, pr), x, y, z). mh_nmetas (ms_hdr sh) - x, \<lambda>((sh, pr), x, y, z). MM_META_NUM x - y]"

lemma wf_walk_rel [simp]: "wf walk_rel"
  by (simp add: walk_rel_def)

lemma walk_relI:
  assumes "locateOne g fill False s p = (True, p', s')"
    and "mh_nmetas (ms_hdr (fst s'')) = mh_nmetas (ms_hdr (fst s'))"
  shows "((s'', locateSkip p'), (s, p)) \<in> walk_rel"
  using locateOne_found [of g fill False s "fst p" "fst (snd p)" "snd (snd p)" "fst p'" "fst (snd p')" "snd (snd p')" s']
    locateOne_nmetas [OF assms(1)] assms
  by (auto simp: walk_rel_def locateSkip_def split: prod.splits)

function find_key_loop :: "meta_source \<Rightarrow> string \<Rightarrow> mm_state \<times> mm_pos \<Rightarrow> (nat \<times> nat) option \<times> mm_state" where
  "find_key_loop g key (s, p) =
     (case locateOne g True False s p of
        (False, _, s1) \<Rightarrow> (None, s1)
      | (True, (x, y, z), s1) \<Rightarrow>
          if isMatch (ms_slots (fst s1) (x, y)) key
          then (Some (x, y), (upd_slot (x, y) addRef (fst s1), mark z ((snd s1)\<lparr>mp_last_z := z\<rparr>)))
          else find_key_loop g key (s1, locateSkip (x, y, z)))"
  by pat_completeness auto

termination
  by (relation "inv_image walk_rel (\<lambda>(_, _, sp). sp)") (auto intro: walk_relI [OF sym])

definition find_key :: "meta_source \<Rightarrow> string \<Rightarrow> mm_state \<Rightarrow> (nat \<times> nat) option \<times> mm_state" where
  "find_key g key s = find_key_loop g key (s, 0, 0, 0)"

function find_off_loop :: "size_t \<Rightarrow> mm_state \<times> mm_pos \<Rightarrow> (nat \<times> nat) option \<times> mm_state" where
  "find_off_loop off (s, p) =
     (case locateOne (\<lambda>_. None) False False s p of
        (False, _, s1) \<Rightarrow> (None, s1)
      | (True, (x, y, z), s1) \<Rightarrow>
          if ma_offset (ms_slots (fst s1) (x, y)) = off
          then (Some (x, y), (fst s1, (snd s1)\<lparr>mp_last_z := z\<rparr>))
          else find_off_loop off (s1, locateSkip (x, y, z)))"
  by pat_completeness auto

termination
  by (relation "inv_image walk_rel (\<lambda>(_, sp). sp)") (auto intro: walk_relI [OF sym])

definition find_off :: "size_t \<Rightarrow> mm_state \<Rightarrow> (nat \<times> nat) option \<times> mm_state" where
  "find_off off s = find_off_loop off (s, 0, 0, 0)"

text \<open>\<^verbatim>\<open>MemoryManagerMeta::free\<close>: it unmarks the record that the last \<^verbatim>\<open>find\<close> found.\<close>

definition meta_free :: "nat \<times> nat \<Rightarrow> mm_state \<Rightarrow> pami_result \<times> mm_state" where
  "meta_free q = (\<lambda>(sh, pr).
     (fst (alloc_free (ms_slots sh q)), (upd_slot q (\<lambda>m. snd (alloc_free m)) sh, unMark (mp_last_z pr) pr)))"

text \<open>The body of the loop of \<^verbatim>\<open>_freeAll\<close> and the loop; \<open>nf\<close> counts the records that are not freed.\<close>

definition free_one :: "nat \<times> nat \<Rightarrow> nat \<Rightarrow> nat \<Rightarrow> mm_state \<Rightarrow> nat \<times> mm_state" where
  "free_one q z nf s =
     (if \<not> isMarked z (snd s) then (nf + 1, s)
      else (case meta_free q s of (rc, s') \<Rightarrow> (if rc \<noteq> PAMI_SUCCESS then nf + 1 else nf, s')))"

lemma free_one_nmetas: "free_one q z nf s = (n, s') \<Longrightarrow> mh_nmetas (ms_hdr (fst s')) = mh_nmetas (ms_hdr (fst s))"
  by (auto simp: free_one_def meta_free_def upd_slot_def split: if_splits prod.splits)

function freeAll_loop :: "nat \<Rightarrow> mm_state \<times> mm_pos \<Rightarrow> nat \<times> mm_state" where
  "freeAll_loop nf (s, p) =
     (case locateOne (\<lambda>_. None) False False s p of
        (False, _, s1) \<Rightarrow> (nf, s1)
      | (True, (x, y, z), s1) \<Rightarrow>
          (case free_one (x, y) z nf s1 of (nf', s2) \<Rightarrow> freeAll_loop nf' (s2, locateSkip (x, y, z))))"
  by pat_completeness auto

termination
  by (relation "inv_image walk_rel (\<lambda>(_, sp). sp)")
     (auto intro!: walk_relI [OF sym] dest: free_one_nmetas [OF sym])

declare find_key_loop.simps [simp del] find_off_loop.simps [simp del] freeAll_loop.simps [simp del]

definition freeAll :: "mm_state \<Rightarrow> mm_state" where
  "freeAll s = (case freeAll_loop 0 (s, 0, 0, 0) of (nf, sh, pr) \<Rightarrow>
     (if nf = 0 then upd_hdr (\<lambda>h. h\<lparr>mh_offset := 0\<rparr>) sh else sh, pr))"

definition meta_acquire :: "mm_state \<Rightarrow> mm_state option" where
  "meta_acquire = (\<lambda>(sh, pr). map_option (\<lambda>h. (sh\<lparr>ms_hdr := h\<rparr>, pr)) (hdr_acquire (ms_hdr sh)))"

definition meta_release :: "mm_state \<Rightarrow> mm_state" where
  "meta_release = (\<lambda>(sh, pr). (upd_hdr hdr_release sh, pr))"

definition spaceUsed :: "mm_state \<Rightarrow> size_t" where
  "spaceUsed s = mh_offset (ms_hdr (fst s))"

definition meta_reset :: "mm_state \<Rightarrow> (pami_result \<times> mm_state) option" where
  "meta_reset s = do {
     s1 \<leftarrow> meta_acquire s;
     let s2 = freeAll s1;
     Some (if spaceUsed s2 \<noteq> 0 then PAMI_ERROR else PAMI_SUCCESS, meta_release s2)}"

text \<open>The destructor gives the header and the groups back to their manager, when that is still there.\<close>

definition meta_dtor :: "bool \<Rightarrow> mm_state \<Rightarrow> mm_state option" where
  "meta_dtor base_there s = do {
     s1 \<leftarrow> meta_acquire s;
     let (sh, pr) = meta_release (freeAll s1);
     Some (sh, if base_there then pr\<lparr>mp_metas := (\<lambda>x. if x < MMMAX_N_META then None else mp_metas pr x)\<rparr> else pr)}"

definition getSpace :: "size_t \<Rightarrow> size_t \<Rightarrow> mm_header \<Rightarrow> size_t \<times> size_t" where
  "getSpace base alignment h = (let padded = getPadding base (mh_offset h) alignment in (padded, padded - mh_offset h))"

definition allocSpace :: "size_t \<Rightarrow> size_t \<Rightarrow> mm_header \<Rightarrow> mm_header" where
  "allocSpace offset bytes h = h\<lparr>mh_offset := offset + bytes\<rparr>"

text \<open>Sizes of the two structures on an LP64 platform: virtual table pointer, words, and the key.\<close>

definition sizeof_MemoryManagerAlloc :: size_t where
  "sizeof_MemoryManagerAlloc = 176"

definition sizeof_MemoryManagerHeader :: size_t where
  "sizeof_MemoryManagerHeader = 32"

definition slot_addr :: "mm_proc \<Rightarrow> nat \<times> nat \<Rightarrow> size_t" where
  "slot_addr pr = (\<lambda>(x, y). the (mp_metas pr x) + of_nat y * sizeof_MemoryManagerAlloc)"

definition findFree :: "meta_source \<Rightarrow> size_t \<Rightarrow> size_t \<Rightarrow> size_t \<Rightarrow> size_t \<Rightarrow> string option \<Rightarrow> mm_state \<Rightarrow>
    (nat \<times> nat) option \<times> mm_state" where
  "findFree g base mx len aln key s =
     (let (off, pad) = getSpace base aln (ms_hdr (fst s)) in
      case locateOne g True True s (0, 0, 0) of
        (False, _, s1) \<Rightarrow> (None, s1)
      | (True, (x, y, z), (sh1, pr1)) \<Rightarrow>
          (let sh2 = upd_slot (x, y) (setMem off len pad) sh1 in
           if ma_offset (ms_slots sh2 (x, y)) + len > mx then (None, (sh2, pr1))
           else (Some (x, y),
                 (upd_slot (x, y) (\<lambda>m. addRef (setKey (mp_pid pr1) (slot_addr pr1 (x, y)) key m))
                    (upd_hdr (allocSpace off len) sh2),
                  mark z pr1))))"

section \<open>Initialisation\<close>

datatype mm_id = Heap_mm | Shared_mm | Shm_mm | Other_mm nat

text \<open>The manager that a new manager takes its arena from; its \<^verbatim>\<open>memalign\<close> may rewrite an empty key.\<close>

record mm_parent =
  pm_attrs :: uint_t
  pm_name :: string
  pm_memalign :: "size_t \<Rightarrow> size_t \<Rightarrow> string \<Rightarrow> pami_result + size_t \<times> string"

definition PAMI_MM_PROCSCOPE :: uint_t where
  "PAMI_MM_PROCSCOPE = 1"

definition PAMI_MM_NODESCOPE :: uint_t where
  "PAMI_MM_NODESCOPE = 2"

definition PAMI_MM_SCOPE :: uint_t where
  "PAMI_MM_SCOPE = PAMI_MM_PROCSCOPE OR PAMI_MM_NODESCOPE"

definition meta_key_fmt :: "string \<Rightarrow> string" where
  "meta_key_fmt key = take (if length key + 3 \<ge> MMKEYSIZE then MMKEYSIZE - 3 else length key) key @ ''-''"

definition new_proc :: "nat \<Rightarrow> mm_proc" where
  "new_proc pid = \<lparr>mp_pid = pid, mp_base = 0, mp_size = 0, mp_enabled = False, mp_attrs = 0, mp_alignment = 8,
     mp_name = '''', mp_debug = False, mp_stats = MM_RESET_STATS, mp_pre_alloc = False, mp_key_fmt = None,
     mp_metas = (\<lambda>_. None), mp_my_metas = (\<lambda>_. 0), mp_last_z = 0\<rparr>"

definition pre_metas :: "size_t \<Rightarrow> nat \<Rightarrow> size_t option" where
  "pre_metas hdr x = (if x < MMMAX_N_META
     then Some (hdr + sizeof_MemoryManagerHeader + of_nat (sum_list (map MM_META_NUM [0..<x])) * sizeof_MemoryManagerAlloc)
     else None)"

text \<open>
  \<^verbatim>\<open>MemoryManagerMeta::init\<close>: \<open>g\<close> is the manager \<open>mm\<close> of the meta data, \<open>heap_ok\<close> whether the heap has memory for the bit
  vector. A failed assertion is \<open>None\<close>.
\<close>

definition meta_init :: "mm_id \<Rightarrow> meta_source \<Rightarrow> bool \<Rightarrow> string option \<Rightarrow> mm_state \<Rightarrow> mm_state option" where
  "meta_init mm g heap_ok key = (\<lambda>(sh, pr).
     let pr1 = pr\<lparr>mp_pre_alloc := (mm = Shared_mm), mp_key_fmt := map_option meta_key_fmt key, mp_my_metas := (\<lambda>_. 0)\<rparr> in
     if mp_pre_alloc pr1 then
       (case metaAlloc g pr1 (CHR ''a'') of
          None \<Rightarrow> None
        | Some a \<Rightarrow> if heap_ok then Some (upd_hdr (fold setMeta [0..<MMMAX_N_META]) sh, pr1\<lparr>mp_metas := pre_metas a\<rparr>) else None)
     else
       (case metaAlloc g pr1 (CHR ''h'') of
          None \<Rightarrow> None
        | Some a \<Rightarrow> if heap_ok then Some (sh, pr1) else None))"

definition meta_mm :: "uint_t \<Rightarrow> bool \<Rightarrow> mm_id" where
  "meta_mm attrs this_is_shm =
     (if attrs AND PAMI_MM_NODESCOPE \<noteq> 0 then (if this_is_shm then Shared_mm else Shm_mm) else Heap_mm)"

definition power_of_two_or_zero :: "size_t \<Rightarrow> bool" where
  "power_of_two_or_zero a = (a AND (a - 1) = 0)"

text \<open>The last lines that \<^verbatim>\<open>init\<close> and \<^verbatim>\<open>init2\<close> share: choose the manager of the meta data, set it up, enable.\<close>

definition mm_start :: "(mm_id \<Rightarrow> meta_source) \<Rightarrow> bool \<Rightarrow> bool \<Rightarrow> mm_parent \<Rightarrow> mm_state \<Rightarrow> (pami_result \<times> mm_state) option" where
  "mm_start gs heap_ok this_is_shm mm = (\<lambda>(sh, pr). do {
     let mmm = meta_mm (pm_attrs mm) this_is_shm;
     (sh1, pr1) \<leftarrow> meta_init mmm (gs mmm) heap_ok (Some (mp_name pr)) (sh, pr);
     Some (PAMI_SUCCESS, (sh1, pr1\<lparr>mp_enabled := True\<rparr>))})"

text \<open>The two ways to set a manager up; the address \<open>this\<close> is printed into the name of a manager without a key.\<close>

definition mm_init2 :: "(mm_id \<Rightarrow> meta_source) \<Rightarrow> bool \<Rightarrow> bool \<Rightarrow> bool \<Rightarrow> size_t \<Rightarrow> mm_parent \<Rightarrow> size_t \<Rightarrow> size_t \<Rightarrow>
    string option \<Rightarrow> size_t \<Rightarrow> uint_t \<Rightarrow> mm_state \<Rightarrow> (pami_result \<times> mm_state) option" where
  "mm_init2 gs heap_ok debug this_is_shm this mm buf bytes key new_align attrs = (\<lambda>(sh, pr).
     if \<not> power_of_two_or_zero new_align \<or> mp_enabled pr then None
     else
       let al = (if new_align < mp_alignment pr then mp_alignment pr else new_align) in
       if attrs AND PAMI_MM_SCOPE \<noteq> 0 then Some (PAMI_INVAL, (sh, pr))
       else
         let name = (case key of Some k \<Rightarrow> k | None \<Rightarrow> pm_name mm @ ''-0x'' @ print_base 16 (unat this)) in
         if length name \<ge> MMKEYSIZE then None
         else mm_start gs heap_ok this_is_shm mm
           (sh, pr\<lparr>mp_name := name, mp_debug := debug, mp_attrs := pm_attrs mm OR attrs, mp_base := buf, mp_size := bytes,
                   mp_alignment := al\<rparr>))"

definition mm_init :: "(mm_id \<Rightarrow> meta_source) \<Rightarrow> bool \<Rightarrow> bool \<Rightarrow> bool \<Rightarrow> mm_parent \<Rightarrow> size_t \<Rightarrow> size_t \<Rightarrow> size_t \<Rightarrow>
    uint_t \<Rightarrow> string option \<Rightarrow> mm_state \<Rightarrow> (pami_result \<times> mm_state) option" where
  "mm_init gs heap_ok debug this_is_shm mm bytes alignment new_align attrs key = (\<lambda>(sh, pr).
     if \<not> power_of_two_or_zero alignment \<or> \<not> power_of_two_or_zero new_align \<or> mp_enabled pr then None
     else
       let al = (if new_align < mp_alignment pr then mp_alignment pr else new_align) in
       if attrs AND PAMI_MM_SCOPE \<noteq> 0 then Some (PAMI_INVAL, (sh, pr))
       else
         let name = (case key of Some k \<Rightarrow> k | None \<Rightarrow> '''') in
         if length name \<ge> MMKEYSIZE then None
         else (case pm_memalign mm alignment bytes name of
             Inl rc \<Rightarrow> Some (rc, (sh, pr\<lparr>mp_name := name\<rparr>))
           | Inr (base, name') \<Rightarrow> mm_start gs heap_ok this_is_shm mm
               (sh, pr\<lparr>mp_name := name', mp_base := base, mp_debug := debug, mp_attrs := pm_attrs mm OR attrs, mp_size := bytes,
                       mp_alignment := al\<rparr>)))"

section \<open>Allocation\<close>

type_synonym mm_init_fn = "size_t \<Rightarrow> size_t \<Rightarrow> string option \<Rightarrow> uint_t \<Rightarrow> (nat \<Rightarrow> 8 word) \<Rightarrow> nat \<Rightarrow> 8 word"

definition memset_zero :: "nat \<Rightarrow> nat \<Rightarrow> (nat \<Rightarrow> 8 word) \<Rightarrow> nat \<Rightarrow> 8 word" where
  "memset_zero off n mem = (\<lambda>a. if off \<le> a \<and> a < off + n then 0 else mem a)"

definition memzero :: mm_init_fn where
  "memzero off bytes key attrs mem = memset_zero (unat off) (unat bytes) mem"

datatype mm_found = Existing "nat \<times> nat" | Fresh "nat \<times> nat" | Full

text \<open>
  \<^verbatim>\<open>memalign\<close> up to the release of the lock, with the key as the caller finds it afterwards; then the rest, for each of the
  three outcomes.
\<close>

definition memalign_locked :: "meta_source \<Rightarrow> size_t \<Rightarrow> size_t \<Rightarrow> size_t \<Rightarrow> string option \<Rightarrow> mm_state \<Rightarrow>
    (mm_found \<times> string option \<times> mm_state) option" where
  "memalign_locked g memptr alignment bytes key s = do {
     s1 \<leftarrow> meta_acquire s;
     let (old, s2) = (case key of Some k \<Rightarrow> (if k \<noteq> '''' then find_key g k s1 else (None, s1)) | None \<Rightarrow> (None, s1));
     (case old of
        Some q \<Rightarrow> Some (Existing q, key, meta_release s2)
      | None \<Rightarrow>
          let key' = (if key = Some '''' then Some (take (MMKEYSIZE - 1) (memptr_key (mp_pid (snd s2)) memptr)) else key) in
          (case findFree g (mp_base (snd s2)) (mp_size (snd s2)) bytes alignment key' s2 of
             (None, s3) \<Rightarrow> Some (Full, key', meta_release s3)
           | (Some q, s3) \<Rightarrow> Some (Fresh q, key', meta_release s3)))}"

definition count_repeat :: "size_t \<Rightarrow> mm_proc \<Rightarrow> mm_proc" where
  "count_repeat raw pr = (if mp_debug pr then pr\<lparr>mp_stats := (mp_stats pr)\<lparr>st_num_allocs := st_num_allocs (mp_stats pr) + 1,
     st_rep_bytes := st_rep_bytes (mp_stats pr) + raw\<rparr>\<rparr> else pr)"

definition count_local :: "size_t \<Rightarrow> mm_proc \<Rightarrow> mm_proc" where
  "count_local raw pr = (if mp_debug pr then pr\<lparr>mp_stats := (mp_stats pr)\<lparr>st_num_allocs := st_num_allocs (mp_stats pr) + 1,
     st_loc_bytes := st_loc_bytes (mp_stats pr) + raw\<rparr>\<rparr> else pr)"

definition memalign_finish :: "size_t \<Rightarrow> string option \<Rightarrow> mm_init_fn option \<Rightarrow> mm_found \<Rightarrow> mm_state \<Rightarrow>
    (pami_result \<times> size_t option \<times> mm_state) option" where
  "memalign_finish bytes key init_fn found = (\<lambda>(sh, pr). case found of
       Existing q \<Rightarrow> do {
         _ \<leftarrow> waitDone (ms_slots sh q);
         Some (PAMI_SUCCESS, Some (mp_base pr + ma_offset (ms_slots sh q)),
               (sh, count_repeat (ma_rawSize (ms_slots sh q)) pr))}
     | Full \<Rightarrow> Some (PAMI_ERROR, None, (sh, pr))
     | Fresh q \<Rightarrow>
         (let off = ma_offset (ms_slots sh q);
              sh1 = (case init_fn of None \<Rightarrow> sh | Some f \<Rightarrow> sh\<lparr>ms_mem := f off bytes key (mp_attrs pr) (ms_mem sh)\<rparr>);
              sh2 = upd_slot q initDone sh1 in
          Some (PAMI_SUCCESS, Some (mp_base pr + off), (sh2, count_local (ma_rawSize (ms_slots sh2 q)) pr))))"

definition mm_memalign :: "meta_source \<Rightarrow> size_t \<Rightarrow> size_t \<Rightarrow> size_t \<Rightarrow> string option \<Rightarrow> mm_init_fn option \<Rightarrow> mm_state \<Rightarrow>
    (pami_result \<times> size_t option \<times> mm_state) option" where
  "mm_memalign g memptr alignment bytes key init_fn s =
     (let al = (if alignment < mp_alignment (snd s) then mp_alignment (snd s) else alignment) in
      if (case key of Some k \<Rightarrow> length k \<ge> MMKEYSIZE | None \<Rightarrow> False) then Some (PAMI_INVAL, None, s)
      else do {
        (found, key', s1) \<leftarrow> memalign_locked g memptr al bytes key s;
        memalign_finish bytes key' init_fn found s1})"

definition mm_malloc :: "meta_source \<Rightarrow> size_t \<Rightarrow> size_t \<Rightarrow> mm_state \<Rightarrow> (size_t option \<times> mm_state) option" where
  "mm_malloc g memptr bytes s = do {
     (rc, p, s') \<leftarrow> mm_memalign g memptr 16 bytes None None s;
     Some (if rc \<noteq> PAMI_SUCCESS then None else p, s')}"

definition mm_free :: "size_t \<Rightarrow> mm_state \<Rightarrow> mm_state" where
  "mm_free mem s = (case find_off (mem - mp_base (snd s)) s of
       (Some q, (sh, pr)) \<Rightarrow> (sh, if mp_debug pr then pr\<lparr>mp_stats := (mp_stats pr)\<lparr>st_num_frees := st_num_frees (mp_stats pr) + 1,
          st_fre_bytes := st_fre_bytes (mp_stats pr) + ma_rawSize (ms_slots sh q)\<rparr>\<rparr> else pr)
     | (None, s') \<Rightarrow> s')"

definition mm_reset :: "bool \<Rightarrow> mm_state \<Rightarrow> (pami_result \<times> mm_state) option" where
  "mm_reset force = (\<lambda>(sh, pr).
     let pr1 = (if mp_debug pr then pr\<lparr>mp_stats := MM_RESET_STATS\<rparr> else pr) in
     if force then do {
       (rc, (sh2, pr2)) \<leftarrow> meta_reset (sh, pr1);
       Some (rc, (sh2\<lparr>ms_mem := memset_zero 0 (unat (mp_size pr2)) (ms_mem sh2)\<rparr>, pr2))}
     else Some (PAMI_SUCCESS, (sh, pr1)))"

definition mm_available :: "size_t \<Rightarrow> mm_state \<Rightarrow> size_t option" where
  "mm_available alignment s =
     (if \<not> mp_enabled (snd s) \<or> \<not> power_of_two_or_zero alignment then None
      else Some (mp_size (snd s) - spaceUsed s))"

end
