(* ===== verification/Pami_MemoryProps.thy ===== *)
theory Pami_MemoryProps
  imports Pami_MemoryManager
begin

text \<open>
  The memory manager is correct: padding aligns, the loops over the records visit them in order, allocations are disjoint
  pieces of the arena whatever processes do in whatever order, and a key always leads to the memory that its first user got.
\<close>

unbundle bit_operations_syntax

section \<open>Padding\<close>

lemma and_not_mask: "(w :: size_t) AND NOT (mask k) = w - take_bit k w"
proof -
  have "w AND NOT (mask k) = push_bit k (drop_bit k w)"
    by (rule bit_word_eqI) (auto simp: bit_simps)
  also have "\<dots> = w - take_bit k w"
    using bits_ident [of k w] by (simp add: algebra_simps)
  finally show ?thesis .
qed

lemma unat_and_not_mask: "unat ((w :: size_t) AND NOT (mask k)) = unat w - unat w mod 2 ^ k"
proof -
  have t: "unat (take_bit k w) = unat w mod 2 ^ k"
    by (subst unsigned_take_bit_eq) (simp add: take_bit_eq_mod)
  then have "take_bit k w \<le> w"
    by (simp add: word_le_nat_alt)
  then show ?thesis
    by (simp add: and_not_mask unat_sub t)
qed

text \<open>An alignment is a power of two; the padded offset is the first aligned one.\<close>

definition aligned_at :: "size_t \<Rightarrow> size_t \<Rightarrow> bool" where
  "aligned_at a align = (unat a mod unat align = 0)"

definition is_pow2 :: "size_t \<Rightarrow> bool" where
  "is_pow2 a = (a \<in> set (map (\<lambda>k. 2 ^ k) [0..<64]))"

lemma is_pow2E:
  assumes "is_pow2 a"
  obtains k where "k < 64" "a = 2 ^ k" "unat a = 2 ^ k" "a - 1 = mask k"
proof -
  obtain k where k: "k < 64" "a = 2 ^ k"
    using assms by (auto simp: is_pow2_def)
  then have "unat a = 2 ^ k"
    using unat_of_nat [of "2 ^ k", where ?'a = 64] power_strict_increasing [of k 64 "2 :: nat"] by simp
  with k that [of k] show thesis
    by (simp add: mask_eq_exp_minus_1)
qed

lemma getPadding_spec:
  assumes "is_pow2 align" and "unat base + unat off + unat align \<le> 2 ^ 64"
  shows "unat off \<le> unat (getPadding base off align)"
    and "unat (getPadding base off align) < unat off + unat align"
    and "aligned_at (base + getPadding base off align) align"
    and "unat (base + getPadding base off align) = unat base + unat (getPadding base off align)"
proof -
  obtain k where k: "k < 64" "unat align = 2 ^ k" "align - 1 = mask k" "align = 2 ^ k"
    using assms(1) by (rule is_pow2E)
  define t where "t = unat base + unat off + (2 ^ k - 1)"
  have "t < 2 ^ 64" using assms(2) k by (simp add: t_def)
  moreover have "unat (align - 1) = 2 ^ k - 1"
    using k unat_minus_one [of align] by simp
  moreover have "unat base + unat off < 2 ^ 64"
    using assms(2) k(2) zero_less_power [of "2 :: nat" k] by linarith
  ultimately have s: "unat (base + off + (align - 1)) = t"
    unfolding t_def unat_word_ariths(1) by (simp del: One_nat_def)
  define u where "u = t - t mod 2 ^ k"
  have u: "unat ((base + off + (align - 1)) AND NOT (align - 1)) = u"
    unfolding k(3) unat_and_not_mask u_def s [unfolded k(3)] by simp
  have "t mod 2 ^ k < 2 ^ k" by simp
  then have b: "unat base + unat off \<le> u" "u < unat base + unat off + 2 ^ k"
    unfolding u_def t_def by linarith+
  then have p: "unat (getPadding base off align) = u - unat base"
    unfolding getPadding_def using u by (subst unat_sub) (simp_all add: word_le_nat_alt)
  show "unat off \<le> unat (getPadding base off align)"
    "unat (getPadding base off align) < unat off + unat align"
    using b p k(2) by simp_all
  have "base + getPadding base off align = (base + off + (align - 1)) AND NOT (align - 1)"
    by (simp add: getPadding_def)
  then have e: "unat (base + getPadding base off align) = u" by (simp add: u)
  then show "aligned_at (base + getPadding base off align) align"
    by (simp add: aligned_at_def k(2) u_def minus_mod_eq_mult_div)
  show "unat (base + getPadding base off align) = unat base + unat (getPadding base off align)"
    using e p b by simp
qed

section \<open>Fields\<close>

lemma upd_slot_simps [simp]:
  "ms_hdr (upd_slot q f sh) = ms_hdr sh" "ms_mem (upd_slot q f sh) = ms_mem sh"
  "ms_slots (upd_slot q f sh) = (ms_slots sh)(q := f (ms_slots sh q))"
  by (simp_all add: upd_slot_def)

lemma upd_hdr_simps [simp]:
  "ms_hdr (upd_hdr f sh) = f (ms_hdr sh)" "ms_mem (upd_hdr f sh) = ms_mem sh" "ms_slots (upd_hdr f sh) = ms_slots sh"
  by (simp_all add: upd_hdr_def)

lemma upd_hdr_slot [simp]: "upd_hdr f (upd_slot q g sh) = upd_slot q g (upd_hdr f sh)"
  by (simp add: upd_hdr_def upd_slot_def)

lemma setMeta_simps [simp]:
  "mh_mutex (setMeta x h) = mh_mutex h" "mh_offset (setMeta x h) = mh_offset h"
  "mh_nmetas (setMeta x h) = max (mh_nmetas h) (x + 1)"
  by (auto simp: setMeta_def)

lemma alloc_simps [simp]:
  "ma_key (addRef m) = ma_key m" "ma_offset (addRef m) = ma_offset m" "ma_userSize (addRef m) = ma_userSize m"
  "ma_init_done (addRef m) = ma_init_done m" "ma_rawSize (addRef m) = ma_rawSize m"
  "ma_ref_count (addRef m) = ma_ref_count m + 1"
  "ma_key (initDone m) = ma_key m" "ma_offset (initDone m) = ma_offset m" "ma_userSize (initDone m) = ma_userSize m"
  "ma_rawSize (initDone m) = ma_rawSize m" "ma_ref_count (initDone m) = ma_ref_count m" "ma_init_done (initDone m)"
  "ma_key (setMem off len pad m) = ma_key m" "ma_offset (setMem off len pad m) = off"
  "ma_userSize (setMem off len pad m) = len" "ma_rawSize (setMem off len pad m) = len + pad"
  "ma_ref_count (setMem off len pad m) = ma_ref_count m" "ma_init_done (setMem off len pad m) = ma_init_done m"
  by (simp_all add: addRef_def initDone_def setMem_def)

lemma setKey_simps [simp]:
  "ma_offset (setKey pid a key m) = ma_offset m" "ma_userSize (setKey pid a key m) = ma_userSize m"
  "ma_rawSize (setKey pid a key m) = ma_rawSize m" "ma_ref_count (setKey pid a key m) = ma_ref_count m"
  "ma_init_done (setKey pid a key m) = ma_init_done m"
  "ma_key (setKey pid a (Some k) m) = take MMKEYSIZE k"
  "ma_key (setKey pid a None m) = take (MMKEYSIZE - 1) (anon_key pid a)"
  by (simp_all add: setKey_def split: option.splits)

lemma isFree_simps [simp]:
  "isFree (addRef m) = isFree m" "isFree (initDone m) = isFree m" "isFree (setMem off len pad m) = isFree m"
  "isFree (freeKey m)"
  by (simp_all add: isFree_def freeKey_def)

text \<open>The bit vector of the records that this process uses.\<close>

lemma and_push_bit_1: "(w AND push_bit n 1 = 0) = (\<not> bit (w :: size_t) n)" if "n < 64"
proof
  assume "w AND push_bit n 1 = 0"
  then have "\<not> bit (w AND push_bit n 1) n" by simp
  then show "\<not> bit w n" using that by (simp add: bit_simps)
qed (auto intro!: bit_word_eqI simp: bit_simps)

lemma isMarked_bit: "isMarked z pr = bit (mp_my_metas pr (z div 64)) (z mod 64)"
  using and_push_bit_1 [of "z mod 64"] by (simp add: isMarked_def del: push_bit_of_1)

lemma isMarked_mark: "isMarked z (mark z' pr) \<longleftrightarrow> z = z' \<or> isMarked z pr"
proof (cases "z div 64 = z' div 64")
  case True
  then have "z = z' \<longleftrightarrow> z mod 64 = z' mod 64" by (metis mult_div_mod_eq)
  with True show ?thesis by (auto simp: isMarked_bit mark_def bit_simps)
qed (auto simp: isMarked_bit mark_def)

lemma isMarked_unMark: "isMarked z (unMark z' pr) \<longleftrightarrow> z \<noteq> z' \<and> isMarked z pr"
proof (cases "z div 64 = z' div 64")
  case True
  then have "z = z' \<longleftrightarrow> z mod 64 = z' mod 64" by (metis mult_div_mod_eq)
  with True show ?thesis by (auto simp: isMarked_bit unMark_def bit_simps)
qed (auto simp: isMarked_bit unMark_def)

section \<open>The loops over the records\<close>

text \<open>Attaching a group of records changes nothing but the count of groups and the pointers of the process.\<close>

definition grown :: "mm_state \<Rightarrow> mm_state \<Rightarrow> bool" where
  "grown s s' \<longleftrightarrow> ms_slots (fst s') = ms_slots (fst s) \<and> ms_mem (fst s') = ms_mem (fst s) \<and>
     mh_offset (ms_hdr (fst s')) = mh_offset (ms_hdr (fst s)) \<and> mh_mutex (ms_hdr (fst s')) = mh_mutex (ms_hdr (fst s)) \<and>
     mh_nmetas (ms_hdr (fst s)) \<le> mh_nmetas (ms_hdr (fst s')) \<and>
     (\<exists>m. snd s' = (snd s)\<lparr>mp_metas := m\<rparr> \<and> (\<forall>x. mp_metas (snd s) x \<noteq> None \<longrightarrow> m x = mp_metas (snd s) x))"

lemma grown_refl [simp, intro]: "grown s s"
  unfolding grown_def by (intro conjI exI [of _ "mp_metas (snd s)"]) simp_all

lemma grown_trans [trans]:
  assumes "grown s1 s2" and "grown s2 s3"
  shows "grown s1 s3"
proof -
  obtain m1 m2 where "snd s2 = (snd s1)\<lparr>mp_metas := m1\<rparr>" "\<forall>x. mp_metas (snd s1) x \<noteq> None \<longrightarrow> m1 x = mp_metas (snd s1) x"
    "snd s3 = (snd s2)\<lparr>mp_metas := m2\<rparr>" "\<forall>x. mp_metas (snd s2) x \<noteq> None \<longrightarrow> m2 x = mp_metas (snd s2) x"
    using assms unfolding grown_def by blast
  then have "\<exists>m. snd s3 = (snd s1)\<lparr>mp_metas := m\<rparr> \<and> (\<forall>x. mp_metas (snd s1) x \<noteq> None \<longrightarrow> m x = mp_metas (snd s1) x)"
    by (intro exI [of _ m2]) simp
  with assms show ?thesis unfolding grown_def by simp
qed

lemma grown_fields:
  assumes "grown s s'"
  shows "mp_base (snd s') = mp_base (snd s)" "mp_size (snd s') = mp_size (snd s)" "mp_pid (snd s') = mp_pid (snd s)"
    "mp_my_metas (snd s') = mp_my_metas (snd s)" "mp_alignment (snd s') = mp_alignment (snd s)"
    "mp_key_fmt (snd s') = mp_key_fmt (snd s)" "mp_last_z (snd s') = mp_last_z (snd s)"
    "mp_debug (snd s') = mp_debug (snd s)" "mp_attrs (snd s') = mp_attrs (snd s)"
    "ms_slots (fst s') = ms_slots (fst s)" "ms_mem (fst s') = ms_mem (fst s)"
    "mh_offset (ms_hdr (fst s')) = mh_offset (ms_hdr (fst s))" "mh_mutex (ms_hdr (fst s')) = mh_mutex (ms_hdr (fst s))"
    "mh_nmetas (ms_hdr (fst s)) \<le> mh_nmetas (ms_hdr (fst s'))"
    "mp_metas (snd s) x \<noteq> None \<Longrightarrow> mp_metas (snd s') x = mp_metas (snd s) x"
  using assms unfolding grown_def by auto

text \<open>The manager of the meta data gives group \<open>x\<close> to this process, or the process has it already.\<close>

definition can_see :: "meta_source \<Rightarrow> mm_proc \<Rightarrow> nat \<Rightarrow> bool" where
  "can_see g pr x \<longleftrightarrow> mp_metas pr x \<noteq> None \<or> (metaAlloc g pr (meta_tag x) \<noteq> None)"

lemma can_see_grown: "grown s s' \<Longrightarrow> can_see g (snd s) x \<Longrightarrow> can_see g (snd s') x"
  using grown_fields [of s s'] unfolding can_see_def metaAlloc_def by metis

lemma getMeta_cases:
  assumes "getMeta g x s = (rc, s')"
  obtains (same) a where "mp_metas (snd s) x = Some a" "rc = PAMI_SUCCESS" "s' = s"
    | (err) "mp_metas (snd s) x = None" "metaAlloc g (snd s) (meta_tag x) = None" "rc = PAMI_ERROR" "s' = s"
    | (new) a where "mp_metas (snd s) x = None" "metaAlloc g (snd s) (meta_tag x) = Some a" "rc = PAMI_SUCCESS"
        "s' = (upd_hdr (setMeta x) (fst s), (snd s)\<lparr>mp_metas := (mp_metas (snd s))(x := Some a)\<rparr>)"
proof (cases "mp_metas (snd s) x")
  case (Some a)
  moreover from this have "getMeta g x s = (PAMI_SUCCESS, s)" by (simp add: getMeta_def split_def)
  ultimately show thesis using assms same by simp
next
  case m: None
  show thesis
  proof (cases "metaAlloc g (snd s) (meta_tag x)")
    case None
    with m have "getMeta g x s = (PAMI_ERROR, s)" by (simp add: getMeta_def split_def)
    with m None show thesis using assms err by simp
  next
    case (Some a)
    with m have "getMeta g x s = (PAMI_SUCCESS, (upd_hdr (setMeta x) (fst s), (snd s)\<lparr>mp_metas := (mp_metas (snd s))(x := Some a)\<rparr>))"
      by (simp add: getMeta_def split_def)
    with assms have "rc = PAMI_SUCCESS"
      "s' = (upd_hdr (setMeta x) (fst s), (snd s)\<lparr>mp_metas := (mp_metas (snd s))(x := Some a)\<rparr>)"
      by (metis Pair_inject)+
    with m Some show thesis by (rule new)
  qed
qed

lemma getMeta_grown: "getMeta g x s = (rc, s') \<Longrightarrow> grown s s'"
proof (erule getMeta_cases)
  fix a assume "mp_metas (snd s) x = None"
    and s': "s' = (upd_hdr (setMeta x) (fst s), (snd s)\<lparr>mp_metas := (mp_metas (snd s))(x := Some a)\<rparr>)"
  then show "grown s s'"
    unfolding grown_def s' by (intro conjI exI [of _ "(mp_metas (snd s))(x := Some a)"]) simp_all
qed simp_all

lemma getMeta_success: "getMeta g x s = (PAMI_SUCCESS, s') \<Longrightarrow> mp_metas (snd s') x \<noteq> None"
  by (erule getMeta_cases) auto

lemma getMeta_bound: "getMeta g x s = (rc, s') \<Longrightarrow> mh_nmetas (ms_hdr (fst s')) \<le> max (mh_nmetas (ms_hdr (fst s))) (x + 1)"
  by (erule getMeta_cases) auto

lemma getMeta_can_see: "can_see g (snd s) x \<Longrightarrow> getMeta g x s = (rc, s') \<Longrightarrow> rc = PAMI_SUCCESS"
  by (erule getMeta_cases) (auto simp: can_see_def)

lemma locate_y_spec:
  "locate_y want sh (x, y, z) = (b, x', y', z') \<Longrightarrow> y \<le> MM_META_NUM x \<Longrightarrow>
     x' = x \<and> y \<le> y' \<and> y' \<le> MM_META_NUM x \<and> z' = z + (y' - y) \<and> (\<forall>i. y \<le> i \<and> i < y' \<longrightarrow> isFree (ms_slots sh (x, i)) \<noteq> want) \<and>
     (if b then y' < MM_META_NUM x \<and> isFree (ms_slots sh (x, y')) = want else y' = MM_META_NUM x)"
proof (induction "MM_META_NUM x - y" arbitrary: y z)
  case 0
  then show ?case by (auto simp: locate_y.simps)
next
  case (Suc n)
  then have y: "y < MM_META_NUM x" by simp
  show ?case
  proof (cases "isFree (ms_slots sh (x, y)) = want")
    case True
    with Suc.prems y show ?thesis by (cases want) (auto simp: locate_y.simps)
  next
    case False
    with Suc.prems y have "locate_y want sh (x, y + 1, z + 1) = (b, x', y', z')"
      by (cases want) (simp_all add: locate_y.simps [of _ _ x y])
    moreover have "n = MM_META_NUM x - (y + 1)" "y + 1 \<le> MM_META_NUM x" using Suc.hyps(2) y by simp_all
    ultimately have IH: "x' = x \<and> y + 1 \<le> y' \<and> y' \<le> MM_META_NUM x \<and> z' = z + 1 + (y' - (y + 1)) \<and>
        (\<forall>i. y + 1 \<le> i \<and> i < y' \<longrightarrow> isFree (ms_slots sh (x, i)) \<noteq> want) \<and>
        (if b then y' < MM_META_NUM x \<and> isFree (ms_slots sh (x, y')) = want else y' = MM_META_NUM x)"
      using Suc.hyps(1) by blast
    then have "\<forall>i. y \<le> i \<and> i < y' \<longrightarrow> isFree (ms_slots sh (x, i)) \<noteq> want"
      using False by (metis Suc_eq_plus1 Suc_leI le_neq_implies_less)
    moreover have "z' = z + (y' - y)" "y \<le> y'" using IH by linarith+
    ultimately show ?thesis using IH by blast
  qed
qed

text \<open>The order in which the loops visit the records, and the number of a record in the bit vector.\<close>

definition before :: "nat \<times> nat \<Rightarrow> nat \<times> nat \<Rightarrow> bool" where
  "before = (\<lambda>(x, y) (x', y'). x < x' \<or> x = x' \<and> y < y')"

lemma before_first [simp]: "\<not> before q (0, 0)"
  by (cases q) (simp add: before_def)

definition is_slot :: "nat \<times> nat \<Rightarrow> bool" where
  "is_slot = (\<lambda>(x, y). y < MM_META_NUM x)"

definition zpos :: "nat \<Rightarrow> nat \<Rightarrow> nat" where
  "zpos x y = sum_list (map MM_META_NUM [0..<x]) + y"

definition sees_group :: "meta_source \<Rightarrow> bool \<Rightarrow> mm_proc \<Rightarrow> nat \<Rightarrow> bool" where
  "sees_group g fill pr x = (if fill then can_see g pr x else mp_metas pr x \<noteq> None)"

lemma sees_group_grown: "grown s s' \<Longrightarrow> sees_group g fill (snd s) x \<Longrightarrow> sees_group g fill (snd s') x"
  using grown_fields(15) [of s s' x] by (auto simp: sees_group_def dest: can_see_grown split: if_splits)

text \<open>The pointers of a process are to groups that the header counts.\<close>

definition pr_ok :: "mm_shared \<Rightarrow> mm_proc \<Rightarrow> bool" where
  "pr_ok sh pr \<longleftrightarrow> (\<forall>x. mp_metas pr x \<noteq> None \<longrightarrow> x < mh_nmetas (ms_hdr sh))"

lemma getMeta_pr_ok: "getMeta g x s = (rc, s') \<Longrightarrow> pr_ok (fst s) (snd s) \<Longrightarrow> pr_ok (fst s') (snd s')"
  by (erule getMeta_cases) (auto simp: pr_ok_def less_max_iff_disj split: if_splits)

lemma locate_x_state:
  "locate_x g fill want mx s (x, y, z) = (b, p, s') \<Longrightarrow>
     grown s s' \<and> mh_nmetas (ms_hdr (fst s')) \<le> max (mh_nmetas (ms_hdr (fst s))) mx \<and>
     (pr_ok (fst s) (snd s) \<longrightarrow> pr_ok (fst s') (snd s')) \<and> (b \<longrightarrow> mp_metas (snd s') (fst p) \<noteq> None)"
proof (induction "mx - x" arbitrary: s x y z)
  case 0
  then show ?case by (simp add: locate_x_end)
next
  case (Suc n)
  then have x: "x < mx" by simp
  have step: "grown s s1 \<and> mh_nmetas (ms_hdr (fst s1)) \<le> max (mh_nmetas (ms_hdr (fst s))) mx \<and>
      (pr_ok (fst s) (snd s) \<longrightarrow> pr_ok (fst s1) (snd s1)) \<and> (rc = PAMI_SUCCESS \<and> fill \<longrightarrow> mp_metas (snd s1) x \<noteq> None)"
    if "(if fill then getMeta g x s else (PAMI_SUCCESS, s)) = (rc, s1)" for rc s1
    using that getMeta_bound [of g x s rc s1] getMeta_grown [of g x s rc s1] getMeta_pr_ok [of g x s rc s1]
      getMeta_success [of g x s s1] x by (cases fill) auto
  from x show ?case
  proof (cases rule: locate_x_iter [where fill = fill and g = g and s = s and want = want and y = y and z = z])
    case (none rc s1)
    with step [of rc s1] Suc.prems show ?thesis by auto
  next
    case (found y2 z2 s1)
    with step [of PAMI_SUCCESS s1] Suc.prems show ?thesis by auto
  next
    case (on x2 y2 z2 s1)
    have *: "grown s1 s' \<and> mh_nmetas (ms_hdr (fst s')) \<le> max (mh_nmetas (ms_hdr (fst s1))) mx \<and>
        (pr_ok (fst s1) (snd s1) \<longrightarrow> pr_ok (fst s') (snd s')) \<and> (b \<longrightarrow> mp_metas (snd s') (fst p) \<noteq> None)"
      using Suc.hyps Suc.prems on by (intro Suc.hyps(1) [of "x + 1" s1 0 z2]) auto
    with step [OF on(1)] show ?thesis using grown_trans [of s s1 s'] by auto
  qed
qed

lemma locate_x_hit:
  "locate_x g fill want mx s (x, y, z) = (True, (x', y', z'), s') \<Longrightarrow> y \<le> MM_META_NUM x \<Longrightarrow>
     isFree (ms_slots (fst s) (x', y')) = want \<and> (z = zpos x y \<longrightarrow> z' = zpos x' y') \<and>
     (\<forall>q. is_slot q \<and> \<not> before q (x, y) \<and> before q (x', y') \<longrightarrow> isFree (ms_slots (fst s) q) \<noteq> want)"
proof (induction "mx - x" arbitrary: s x y z)
  case 0
  then show ?case by (simp add: locate_x_end)
next
  case (Suc n)
  then have x: "x < mx" by simp
  have slots: "ms_slots (fst s1) = ms_slots (fst s)" if "(if fill then getMeta g x s else (PAMI_SUCCESS, s)) = (rc, s1)" for rc s1
    using that getMeta_grown [of g x s rc s1] grown_fields(10) [of s s1] by (cases fill) auto
  from x show ?case
  proof (cases rule: locate_x_iter [where fill = fill and g = g and s = s and want = want and y = y and z = z])
    case (found y2 z2 s1)
    with slots [OF found(1)] Suc.prems locate_y_spec [OF found(3)] show ?thesis
      by (auto simp: before_def is_slot_def zpos_def)
  next
    case (on x2 y2 z2 s1)
    have *: "isFree (ms_slots (fst s1) (x', y')) = want \<and> (z2 = zpos (x + 1) 0 \<longrightarrow> z' = zpos x' y') \<and>
        (\<forall>q. is_slot q \<and> \<not> before q (x + 1, 0) \<and> before q (x', y') \<longrightarrow> isFree (ms_slots (fst s1) q) \<noteq> want)"
      using Suc.hyps Suc.prems on by (intro Suc.hyps(1)) auto
    have "isFree (ms_slots (fst s) q) \<noteq> want" if "is_slot q" "\<not> before q (x, y)" "before q (x + 1, 0)" for q
      using that locate_y_spec [OF on(3) Suc.prems(2)] slots [OF on(1)]
      by (auto simp: before_def is_slot_def less_Suc_eq split: prod.splits)
    with * slots [OF on(1)] locate_y_spec [OF on(3) Suc.prems(2)] show ?thesis
      by (auto simp: zpos_def)
  qed (use Suc.prems in auto)
qed

lemma locate_x_miss:
  "locate_x g fill want mx s (x, y, z) = (False, p, s') \<Longrightarrow> y \<le> MM_META_NUM x \<Longrightarrow>
     is_slot q \<Longrightarrow> \<not> before q (x, y) \<Longrightarrow> fst q < mx \<Longrightarrow> (\<And>i. i \<le> fst q \<Longrightarrow> sees_group g fill (snd s) i) \<Longrightarrow>
     isFree (ms_slots (fst s) q) \<noteq> want"
proof (induction "mx - x" arbitrary: s x y z)
  case 0
  then show ?case by (auto simp: before_def split: prod.splits)
next
  case (Suc n)
  then have x: "x < mx" "sees_group g fill (snd s) x" by (auto simp: before_def split: prod.splits)
  from x(1) show ?case
  proof (cases rule: locate_x_iter [where fill = fill and g = g and s = s and want = want and y = y and z = z])
    case (none rc s1)
    with x(2) getMeta_can_see [of g s x rc s1] show ?thesis
      by (auto simp: sees_group_def split: if_splits)
  next
    case (on x2 y2 z2 s1)
    have gr: "grown s s1" using on(1) getMeta_grown [of g x s PAMI_SUCCESS s1] by (cases fill) auto
    show ?thesis
    proof (cases "before q (x + 1, 0)")
      case True
      with Suc.prems locate_y_spec [OF on(3) Suc.prems(2)] grown_fields(10) [OF gr] show ?thesis
        by (auto simp: before_def is_slot_def less_Suc_eq split: prod.splits)
    next
      case False
      have "isFree (ms_slots (fst s1) q) \<noteq> want"
        using Suc.prems on gr False Suc.hyps(2)
        by (intro Suc.hyps(1) [of "x + 1" s1 0 z2]) (auto intro: sees_group_grown)
      then show ?thesis using grown_fields(10) [OF gr] by simp
    qed
  qed (use Suc.prems in auto)
qed

lemma locate_result:
  obtains b x y z s where "(t :: bool \<times> mm_pos \<times> mm_state) = (b, (x, y, z), s)"
proof -
  obtain b p s where "t = (b, p, s)" by (rule prod_cases3)
  moreover obtain x y z where "p = (x, y, z)" by (rule prod_cases3)
  ultimately show thesis using that by simp
qed

lemma locateSkip_pos: "before q (x, y + 1) \<longleftrightarrow> before q (x, y) \<or> q = (x, y)"
  by (cases q) (auto simp: before_def)

section \<open>Looking for a key\<close>

definition misses :: "mm_shared \<Rightarrow> string \<Rightarrow> nat \<times> nat \<Rightarrow> bool" where
  "misses sh key q \<longleftrightarrow> isFree (ms_slots sh q) \<or> \<not> isMatch (ms_slots sh q) key"

text \<open>
  What the loop of \<^verbatim>\<open>find\<close> promises from a position on: a success is the first record in use with that key, gains a
  reference and is marked; a failure means that no record the process can see has the key.
\<close>

definition find_res :: "meta_source \<Rightarrow> string \<Rightarrow> mm_state \<Rightarrow> nat \<times> nat \<Rightarrow> (nat \<times> nat) option \<Rightarrow> mm_state \<Rightarrow> mm_state \<Rightarrow> bool" where
  "find_res g key s p r s1 s' \<longleftrightarrow>
     grown s s1 \<and> mh_nmetas (ms_hdr (fst s1)) = mh_nmetas (ms_hdr (fst s)) \<and> (pr_ok (fst s) (snd s) \<longrightarrow> pr_ok (fst s1) (snd s1)) \<and>
     (case r of
        None \<Rightarrow> s' = s1 \<and> (\<forall>q. is_slot q \<and> \<not> before q p \<and> fst q < mh_nmetas (ms_hdr (fst s)) \<and>
                  (\<forall>i\<le>fst q. can_see g (snd s) i) \<longrightarrow> misses (fst s) key q)
      | Some q \<Rightarrow> s' = (upd_slot q addRef (fst s1), mark (zpos (fst q) (snd q)) ((snd s1)\<lparr>mp_last_z := zpos (fst q) (snd q)\<rparr>)) \<and>
          is_slot q \<and> fst q < mh_nmetas (ms_hdr (fst s)) \<and> \<not> misses (fst s) key q \<and>
          (\<forall>q'. is_slot q' \<and> \<not> before q' p \<and> before q' q \<longrightarrow> misses (fst s) key q'))"

lemma find_res_step:
  assumes "find_res g key s1 (x1, y1 + 1) r s2 s'" and "grown s s1"
    and "mh_nmetas (ms_hdr (fst s1)) = mh_nmetas (ms_hdr (fst s))" and "pr_ok (fst s) (snd s) \<longrightarrow> pr_ok (fst s1) (snd s1)"
    and "\<And>q. is_slot q \<Longrightarrow> \<not> before q p \<Longrightarrow> before q (x1, y1) \<Longrightarrow> misses (fst s) key q"
    and "misses (fst s) key (x1, y1)"
  shows "find_res g key s p r s2 s'"
proof -
  have m: "misses (fst s1) key = misses (fst s) key"
    using grown_fields(10) [OF assms(2)] by (auto simp: misses_def)
  have see: "can_see g (snd s) i \<Longrightarrow> can_see g (snd s1) i" for i
    using can_see_grown [OF assms(2)] .
  have gr: "grown s s2" and n: "mh_nmetas (ms_hdr (fst s2)) = mh_nmetas (ms_hdr (fst s))"
    and ok: "pr_ok (fst s) (snd s) \<longrightarrow> pr_ok (fst s2) (snd s2)"
    using assms grown_trans unfolding find_res_def by auto
  have ms: "misses (fst s) key q" if "is_slot q" "\<not> before q p" "before q (x1, y1 + 1)" for q
    using assms(5,6) that locateSkip_pos [of q x1 y1] by blast
  show ?thesis
  proof (cases r)
    case None
    with assms(1) have s': "s' = s2" and *: "\<And>q. is_slot q \<Longrightarrow> \<not> before q (x1, y1 + 1) \<Longrightarrow> fst q < mh_nmetas (ms_hdr (fst s)) \<Longrightarrow>
        \<forall>i\<le>fst q. can_see g (snd s1) i \<Longrightarrow> misses (fst s) key q"
      unfolding find_res_def m assms(3) by auto
    have "misses (fst s) key q"
      if "is_slot q" "\<not> before q p" "fst q < mh_nmetas (ms_hdr (fst s))" "\<forall>i\<le>fst q. can_see g (snd s) i" for q
      using * [of q] ms [of q] see that by blast
    with None s' gr n ok show ?thesis unfolding find_res_def by simp
  next
    case (Some q)
    with assms(1) gr n ok m ms assms(3) show ?thesis unfolding find_res_def by auto
  qed
qed

lemma find_key_loop_spec:
  "find_key_loop g key (s, x, y, z) = (r, s') \<Longrightarrow> y \<le> MM_META_NUM x \<Longrightarrow> z = zpos x y \<Longrightarrow>
     \<exists>s1. find_res g key s (x, y) r s1 s'"
proof (induction g key "(s, x, y, z)" arbitrary: s x y z rule: find_key_loop.induct)
  case (1 g key s x y z)
  obtain b x1 y1 z1 s1 where l: "locateOne g True False s (x, y, z) = (b, (x1, y1, z1), s1)"
    by (rule locate_result)
  note l' = l [unfolded locateOne_def if_False]
  have st: "grown s s1" "mh_nmetas (ms_hdr (fst s1)) = mh_nmetas (ms_hdr (fst s))" "pr_ok (fst s) (snd s) \<longrightarrow> pr_ok (fst s1) (snd s1)"
    "ms_slots (fst s1) = ms_slots (fst s)"
    using locate_x_state [OF l'] locateOne_nmetas [OF l] grown_fields(10) by auto
  show ?case
  proof (cases b)
    case False
    then have "r = None" "s' = s1" using "1.prems"(1) l by (simp_all add: find_key_loop.simps)
    moreover have "isFree (ms_slots (fst s) q)"
      if "is_slot q" "\<not> before q (x, y)" "fst q < mh_nmetas (ms_hdr (fst s))" "\<forall>i\<le>fst q. can_see g (snd s) i" for q
      using locate_x_miss [of g True False _ s x y z "(x1, y1, z1)" s1 q] l' "1.prems"(2) False that by (auto simp: sees_group_def)
    ultimately show ?thesis using st by (intro exI [of _ s1]) (auto simp: find_res_def misses_def)
  next
    case True
    have hit: "z1 = zpos x1 y1" "\<not> isFree (ms_slots (fst s) (x1, y1))"
      "\<And>q. is_slot q \<Longrightarrow> \<not> before q (x, y) \<Longrightarrow> before q (x1, y1) \<Longrightarrow> misses (fst s) key q"
      using locate_x_hit [of g True False _ s x y z x1 y1 z1 s1] l' True "1.prems"(2,3) by (auto simp: misses_def)
    have at: "y1 < MM_META_NUM x1" "x1 < mh_nmetas (ms_hdr (fst s))"
      using locateOne_found [of g True False s x y z x1 y1 z1 s1] l True by auto
    show ?thesis
    proof (cases "isMatch (ms_slots (fst s1) (x1, y1)) key")
      case match: True
      then have "r = Some (x1, y1)" "s' = (upd_slot (x1, y1) addRef (fst s1), mark z1 ((snd s1)\<lparr>mp_last_z := z1\<rparr>))"
        using "1.prems"(1) l True by (simp_all add: find_key_loop.simps)
      then show ?thesis using st hit at match
        by (intro exI [of _ s1]) (auto simp: is_slot_def find_res_def misses_def)
    next
      case nomatch: False
      then have "find_key_loop g key (s1, x1, y1 + 1, z1 + 1) = (r, s')"
        using "1.prems"(1) l True by (simp add: find_key_loop.simps [of g key s] locateSkip_def)
      then have "\<exists>s2. find_res g key s1 (x1, y1 + 1) r s2 s'"
        using "1.hyps" [OF l [symmetric] _ refl refl refl] nomatch True at hit(1) by (simp add: locateSkip_def zpos_def)
      then show ?thesis
        using find_res_step [of g key s1 x1 y1 r _ s' s "(x, y)"] st hit nomatch by (auto simp: misses_def)
    qed
  qed
qed

lemma find_key_spec:
  assumes "find_key g key s = (r, s')"
  obtains s1 where "find_res g key s (0, 0) r s1 s'"
  using assms find_key_loop_spec [of g key s 0 0 0 r s'] unfolding find_key_def by (auto simp: zpos_def)

section \<open>Taking a free record\<close>

text \<open>The records in use, the fill level and the arena are as before; a free record may have been scribbled on.\<close>

definition same_use :: "mm_shared \<Rightarrow> mm_shared \<Rightarrow> bool" where
  "same_use sh sh' \<longleftrightarrow> ms_mem sh' = ms_mem sh \<and> mh_offset (ms_hdr sh') = mh_offset (ms_hdr sh) \<and>
     mh_nmetas (ms_hdr sh) \<le> mh_nmetas (ms_hdr sh') \<and> mh_nmetas (ms_hdr sh') \<le> max (mh_nmetas (ms_hdr sh)) MMMAX_N_META \<and>
     (\<forall>q. ma_key (ms_slots sh' q) = ma_key (ms_slots sh q) \<and> ma_ref_count (ms_slots sh' q) = ma_ref_count (ms_slots sh q) \<and>
          (\<not> isFree (ms_slots sh q) \<longrightarrow> ms_slots sh' q = ms_slots sh q))"

lemma same_use_refl [simp]: "same_use sh sh"
  by (simp add: same_use_def)

lemma same_use_trans: "same_use sh1 sh2 \<Longrightarrow> same_use sh2 sh3 \<Longrightarrow> same_use sh1 sh3"
  unfolding same_use_def isFree_def by (elim conjE, intro conjI) (auto simp: le_max_iff_disj)

lemma same_use_hdr:
  "same_use sh (upd_hdr f sh') \<longleftrightarrow> same_use sh sh'" "same_use (upd_hdr f sh) sh' \<longleftrightarrow> same_use sh sh'"
  if "\<And>h. mh_offset (f h) = mh_offset h \<and> mh_nmetas (f h) = mh_nmetas h"
  using that by (simp_all add: same_use_def)

lemma same_use_setMem: "isFree (ms_slots sh q) \<Longrightarrow> same_use sh (upd_slot q (setMem off len pad) sh)"
  by (auto simp: same_use_def isFree_def)

lemma grown_same_use:
  "grown s s1 \<Longrightarrow> mh_nmetas (ms_hdr (fst s1)) \<le> max (mh_nmetas (ms_hdr (fst s))) MMMAX_N_META \<Longrightarrow> same_use (fst s) (fst s1)"
  using grown_fields [of s s1] by (simp add: same_use_def)

lemma same_use_misses: "same_use sh sh' \<Longrightarrow> misses sh' key q = misses sh key q"
  unfolding same_use_def misses_def isFree_def isMatch_def by (cases q) simp

lemma same_use_isFree: "same_use sh sh' \<Longrightarrow> isFree (ms_slots sh' q) = isFree (ms_slots sh q)"
  unfolding same_use_def isFree_def by (cases q) simp

text \<open>What changes in a process: its pointers grow and one bit is set.\<close>

definition same_view :: "mm_proc \<Rightarrow> mm_proc \<Rightarrow> bool" where
  "same_view pr pr' \<longleftrightarrow> mp_base pr' = mp_base pr \<and> mp_size pr' = mp_size pr \<and> mp_alignment pr' = mp_alignment pr \<and>
     mp_pid pr' = mp_pid pr \<and> mp_key_fmt pr' = mp_key_fmt pr \<and> mp_debug pr' = mp_debug pr \<and> mp_attrs pr' = mp_attrs pr"

lemma same_view_refl [simp]: "same_view pr pr"
  by (simp add: same_view_def)

lemma same_view_trans: "same_view pr1 pr2 \<Longrightarrow> same_view pr2 pr3 \<Longrightarrow> same_view pr1 pr3"
  by (simp add: same_view_def)

lemma same_view_upd [simp]:
  "same_view pr (mark z pr') = same_view pr pr'" "same_view pr (unMark z pr') = same_view pr pr'"
  "same_view pr (pr'\<lparr>mp_last_z := z\<rparr>) = same_view pr pr'" "same_view pr (pr'\<lparr>mp_stats := st\<rparr>) = same_view pr pr'"
  "same_view pr (count_repeat raw pr') = same_view pr pr'" "same_view pr (count_local raw pr') = same_view pr pr'"
  by (simp_all add: same_view_def mark_def unMark_def count_repeat_def count_local_def)

lemma grown_same_view: "grown s s1 \<Longrightarrow> same_view (snd s) (snd s1)"
  using grown_fields [of s s1] by (simp add: same_view_def)

lemma pr_ok_upd [simp]:
  "pr_ok sh (mark z pr) = pr_ok sh pr" "pr_ok sh (unMark z pr) = pr_ok sh pr" "pr_ok sh (pr\<lparr>mp_last_z := z\<rparr>) = pr_ok sh pr"
  "pr_ok sh (pr\<lparr>mp_stats := st\<rparr>) = pr_ok sh pr" "pr_ok sh (count_repeat raw pr) = pr_ok sh pr"
  "pr_ok sh (count_local raw pr) = pr_ok sh pr" "pr_ok (upd_slot q f sh) pr = pr_ok sh pr" "pr_ok (sh\<lparr>ms_mem := m\<rparr>) pr = pr_ok sh pr"
  by (simp_all add: pr_ok_def mark_def unMark_def count_repeat_def count_local_def)

text \<open>The outcome of \<^verbatim>\<open>findFree\<close>: \<open>s1\<close> is the state with the groups attached that were looked at.\<close>

definition fresh_alloc :: "size_t \<Rightarrow> size_t \<Rightarrow> size_t \<Rightarrow> nat \<Rightarrow> size_t \<Rightarrow> string option \<Rightarrow> mm_alloc \<Rightarrow> mm_alloc" where
  "fresh_alloc off len pad pid a key m = addRef (setKey pid a key (setMem off len pad m))"

lemma findFree_cases:
  assumes "findFree g base mx len aln key s = (r, s')" and "pr_ok (fst s) (snd s)"
  obtains (none) "r = None" "same_use (fst s) (fst s')" "same_view (snd s) (snd s')" "pr_ok (fst s') (snd s')"
      "mh_mutex (ms_hdr (fst s')) = mh_mutex (ms_hdr (fst s))"
    | (got) q s1 where "r = Some q" "is_slot q" "fst q < MMMAX_N_META" "fst q < mh_nmetas (ms_hdr (fst s1))" "isFree (ms_slots (fst s) q)"
      "\<And>q'. is_slot q' \<Longrightarrow> before q' q \<Longrightarrow> \<not> isFree (ms_slots (fst s) q')"
      "getPadding base (mh_offset (ms_hdr (fst s))) aln + len \<le> mx"
      "same_use (fst s) (fst s1)" "same_view (snd s) (snd s1)" "pr_ok (fst s1) (snd s1)"
      "mh_mutex (ms_hdr (fst s1)) = mh_mutex (ms_hdr (fst s))" "ms_slots (fst s1) = ms_slots (fst s)"
      "fst s' = upd_slot q (fresh_alloc (getPadding base (mh_offset (ms_hdr (fst s))) aln) len
          (getPadding base (mh_offset (ms_hdr (fst s))) aln - mh_offset (ms_hdr (fst s))) (mp_pid (snd s)) (slot_addr (snd s1) q) key)
        (upd_hdr (allocSpace (getPadding base (mh_offset (ms_hdr (fst s))) aln) len) (fst s1))"
      "snd s' = mark (zpos (fst q) (snd q)) (snd s1)"
proof -
  define off where "off = getPadding base (mh_offset (ms_hdr (fst s))) aln"
  obtain b x y z sh1 pr1 where l: "locateOne g True True s (0, 0, 0) = (b, (x, y, z), (sh1, pr1))"
    by (metis locate_result surj_pair)
  note l' = l [unfolded locateOne_def if_True]
  have st: "grown s (sh1, pr1)" "pr_ok sh1 pr1" "mh_nmetas (ms_hdr sh1) \<le> max (mh_nmetas (ms_hdr (fst s))) MMMAX_N_META"
    "b \<Longrightarrow> mp_metas pr1 x \<noteq> None"
    using locate_x_state [OF l'] assms(2) by auto
  note gf = grown_fields [OF st(1), simplified]
  have su: "same_use (fst s) sh1" "same_view (snd s) pr1"
    using grown_same_use [OF st(1)] grown_same_view [OF st(1)] st(3) by simp_all
  show thesis
  proof (cases b)
    case False
    with assms(1) l have "r = None" "s' = (sh1, pr1)" by (simp_all add: findFree_def getSpace_def Let_def)
    with su st gf show thesis by (intro none) simp_all
  next
    case True
    have hit: "isFree (ms_slots (fst s) (x, y))" "z = zpos x y"
        "\<And>q'. is_slot q' \<Longrightarrow> before q' (x, y) \<Longrightarrow> \<not> isFree (ms_slots (fst s) q')"
      using locate_x_hit [of g True True _ s 0 0 0 x y z "(sh1, pr1)"] l' True by (auto simp: zpos_def before_def)
    have at: "y < MM_META_NUM x" "x < MMMAX_N_META" "x < mh_nmetas (ms_hdr sh1)"
      using locateOne_found [of g True True s 0 0 0 x y z "(sh1, pr1)"] l True st(2,4) by (auto simp: pr_ok_def)
    show thesis
    proof (cases "off + len > mx")
      case True
      with \<open>b\<close> assms(1) l have r: "r = None" "s' = (upd_slot (x, y) (setMem off len (off - mh_offset (ms_hdr (fst s)))) sh1, pr1)"
        by (simp_all add: findFree_def getSpace_def Let_def off_def)
      have "same_use sh1 (fst s')"
        using hit(1) gf r(2) by (simp add: same_use_setMem)
      with su st gf r show thesis by (intro none) (auto intro: same_use_trans)
    next
      case False
      with \<open>b\<close> assms(1) l have r: "r = Some (x, y)"
        "s' = (upd_slot (x, y) (\<lambda>m. addRef (setKey (mp_pid pr1) (slot_addr pr1 (x, y)) key m))
                    (upd_hdr (allocSpace off len) (upd_slot (x, y) (setMem off len (off - mh_offset (ms_hdr (fst s)))) sh1)), mark z pr1)"
        by (simp_all add: findFree_def getSpace_def Let_def off_def)
      have sl: "fst s' = upd_slot (x, y) (fresh_alloc off len (off - mh_offset (ms_hdr (fst s))) (mp_pid (snd s)) (slot_addr pr1 (x, y)) key)
          (upd_hdr (allocSpace off len) sh1)"
        using gf by (simp add: r(2) upd_slot_def upd_hdr_def fresh_alloc_def)
      show thesis
        using r sl su st gf hit at False
        by (intro got [of "(x, y)" "(sh1, pr1)"]) (simp_all add: is_slot_def off_def [symmetric] not_less)
    qed
  qed
qed

section \<open>Allocation\<close>

lemma acquire_release:
  "meta_acquire s = Some s1 \<Longrightarrow> mh_mutex (ms_hdr (fst s)) = 0 \<and> s1 = (upd_hdr (\<lambda>h. h\<lparr>mh_mutex := 1\<rparr>) (fst s), snd s)"
  by (cases s) (auto simp: meta_acquire_def hdr_acquire_def upd_hdr_def split: if_splits)

lemma acquire_free: "mh_mutex (ms_hdr (fst s)) = 0 \<Longrightarrow> meta_acquire s = Some (upd_hdr (\<lambda>h. h\<lparr>mh_mutex := 1\<rparr>) (fst s), snd s)"
  by (cases s) (auto simp: meta_acquire_def hdr_acquire_def upd_hdr_def)

lemma release_simps [simp]:
  "fst (meta_release s) = upd_hdr hdr_release (fst s)" "snd (meta_release s) = snd s"
  by (simp_all add: meta_release_def split_def)

lemma hdr_release_simps [simp]:
  "mh_mutex (hdr_release h) = 0" "mh_offset (hdr_release h) = mh_offset h" "mh_nmetas (hdr_release h) = mh_nmetas h"
  by (simp_all add: hdr_release_def)

lemma allocSpace_simps [simp]:
  "mh_mutex (allocSpace off len h) = mh_mutex h" "mh_offset (allocSpace off len h) = off + len"
  "mh_nmetas (allocSpace off len h) = mh_nmetas h"
  by (simp_all add: allocSpace_def)

lemma pr_ok_hdr: "(\<And>h. mh_nmetas (f h) = mh_nmetas h) \<Longrightarrow> pr_ok (upd_hdr f sh) pr = pr_ok sh pr"
  by (simp add: pr_ok_def)

lemma pr_ok_lock [simp]:
  "pr_ok (upd_hdr hdr_release sh) pr = pr_ok sh pr" "pr_ok (upd_hdr (mh_mutex_update f) sh) pr = pr_ok sh pr"
  "pr_ok (upd_hdr (allocSpace off len) sh) pr = pr_ok sh pr"
  by (rule pr_ok_hdr; simp)+

lemma same_use_lock [simp]:
  "same_use sh (upd_hdr hdr_release sh') = same_use sh sh'" "same_use (upd_hdr (mh_mutex_update f) sh) sh' = same_use sh sh'"
  by (rule same_use_hdr; simp)+

definition eff_align :: "size_t \<Rightarrow> mm_proc \<Rightarrow> size_t" where
  "eff_align alignment pr = (if alignment < mp_alignment pr then mp_alignment pr else alignment)"

text \<open>
  The part of \<^verbatim>\<open>memalign\<close> under the lock, by outcome. \<open>sh1\<close> is the shared state with the groups attached that the call looked
  at; the offset and the padding of a new allocation are those that the header had before.
\<close>

lemma memalign_locked_cases:
  assumes "memalign_locked g memptr al bytes key s = Some (found, key', s')" and "pr_ok (fst s) (snd s)"
  obtains (full) "found = Full" "same_use (fst s) (fst s')" "same_view (snd s) (snd s')" "pr_ok (fst s') (snd s')"
      "mh_mutex (ms_hdr (fst s')) = 0"
    | (existing) q k sh1 where "found = Existing q" "key = Some k" "k \<noteq> ''''" "is_slot q" "\<not> misses (fst s) k q"
      "\<And>q'. is_slot q' \<Longrightarrow> before q' q \<Longrightarrow> misses (fst s) k q'" "same_use (fst s) sh1" "fst s' = upd_slot q addRef sh1"
      "same_view (snd s) (snd s')" "pr_ok (fst s') (snd s')" "mh_mutex (ms_hdr sh1) = 0" "isMarked (zpos (fst q) (snd q)) (snd s')"
    | (fresh) q sh1 a where "found = Fresh q" "is_slot q" "fst q < MMMAX_N_META" "fst q < mh_nmetas (ms_hdr sh1)"
      "isFree (ms_slots (fst s) q)" "\<And>q'. is_slot q' \<Longrightarrow> before q' q \<Longrightarrow> \<not> isFree (ms_slots (fst s) q')"
      "getPadding (mp_base (snd s)) (mh_offset (ms_hdr (fst s))) al + bytes \<le> mp_size (snd s)"
      "same_use (fst s) sh1" "mh_mutex (ms_hdr sh1) = 0" "same_view (snd s) (snd s')" "pr_ok (fst s') (snd s')"
      "fst s' = upd_slot q (fresh_alloc (getPadding (mp_base (snd s)) (mh_offset (ms_hdr (fst s))) al) bytes
          (getPadding (mp_base (snd s)) (mh_offset (ms_hdr (fst s))) al - mh_offset (ms_hdr (fst s))) (mp_pid (snd s)) a key')
        (upd_hdr (allocSpace (getPadding (mp_base (snd s)) (mh_offset (ms_hdr (fst s))) al) bytes) sh1)"
      "isMarked (zpos (fst q) (snd q)) (snd s')"
      "key' = (if key = Some '''' then Some (take (MMKEYSIZE - 1) (memptr_key (mp_pid (snd s)) memptr)) else key)"
      "\<And>k q'. key = Some k \<Longrightarrow> k \<noteq> '''' \<Longrightarrow> is_slot q' \<Longrightarrow> before q' q \<Longrightarrow> fst q' < mh_nmetas (ms_hdr (fst s)) \<Longrightarrow>
          (\<And>i. i \<le> fst q' \<Longrightarrow> can_see g (snd s) i) \<Longrightarrow> misses (fst s) k q'"
proof -
  define sl where "sl = (upd_hdr (\<lambda>h. h\<lparr>mh_mutex := 1\<rparr>) (fst s), snd s)"
  have acq: "meta_acquire s = Some sl"
    using assms(1) acquire_release [of s] unfolding sl_def
    by (cases "meta_acquire s") (auto simp: memalign_locked_def)
  have sl: "same_use (fst s) X = same_use (fst sl) X" "misses (fst s) = misses (fst sl)" "ms_slots (fst sl) = ms_slots (fst s)"
    "snd sl = snd s" "pr_ok (fst sl) (snd sl)" "mh_offset (ms_hdr (fst sl)) = mh_offset (ms_hdr (fst s))"
    "mh_nmetas (ms_hdr (fst sl)) = mh_nmetas (ms_hdr (fst s))" for X
    using assms(2) by (auto simp: sl_def misses_def fun_eq_iff)
  define look where "look = (case key of Some k \<Rightarrow> (if k \<noteq> '''' then find_key g k sl else (None, sl)) | None \<Rightarrow> (None, sl))"
  obtain old s2 where lk: "look = (old, s2)" by (rule prod.exhaust)
  show thesis
  proof (cases old)
    case (Some q)
    then obtain k where k: "key = Some k" "k \<noteq> ''''" "find_key g k sl = (Some q, s2)"
      using lk by (auto simp: look_def split: option.splits if_splits)
    obtain s1 where f: "find_res g k sl (0, 0) (Some q) s1 s2" using find_key_spec [OF k(3)] .
    have r: "found = Existing q" "s' = meta_release s2"
      using assms(1) acq lk Some by (simp_all add: memalign_locked_def look_def)
    have "same_use (fst sl) (fst s1)" "same_view (snd sl) (snd s1)" "pr_ok (fst s1) (snd s1)"
      using f grown_same_use [of sl s1] grown_same_view [of sl s1] sl(5) by (auto simp: find_res_def)
    with f r k sl show thesis
      by (intro existing [of q k "upd_hdr hdr_release (fst s1)"])
         (auto simp: find_res_def isMarked_mark)
  next
    case None
    define kk where "kk = (if key = Some '''' then Some (take (MMKEYSIZE - 1) (memptr_key (mp_pid (snd s2)) memptr)) else key)"
    have lk2: "same_use (fst sl) (fst s2) \<and> same_view (snd sl) (snd s2) \<and> pr_ok (fst s2) (snd s2) \<and>
        (\<forall>k q'. key = Some k \<longrightarrow> k \<noteq> '''' \<longrightarrow> is_slot q' \<longrightarrow> fst q' < mh_nmetas (ms_hdr (fst s)) \<longrightarrow>
          (\<forall>i \<le> fst q'. can_see g (snd s) i) \<longrightarrow> misses (fst s) k q')"
    proof (cases "s2 = sl \<and> (key = None \<or> key = Some '''')")
      case False
      then obtain k where k: "key = Some k" "k \<noteq> ''''" "find_key g k sl = (None, s2)"
        using lk None by (auto simp: look_def split: option.splits if_splits)
      obtain s1 where f: "find_res g k sl (0, 0) None s1 s2" using find_key_spec [OF k(3)] .
      with k sl grown_same_use [of sl s1] grown_same_view [of sl s1] show ?thesis
        by (auto simp: find_res_def before_def)
    qed (use sl in auto)
    obtain r s3 where ff: "findFree g (mp_base (snd s2)) (mp_size (snd s2)) bytes al kk s2 = (r, s3)" by (rule prod.exhaust)
    have r: "found = (case r of None \<Rightarrow> Full | Some q \<Rightarrow> Fresh q)" "key' = kk" "s' = meta_release s3"
      using assms(1) acq lk None ff
      by (cases r; simp add: memalign_locked_def look_def [symmetric] kk_def [symmetric])+
    have v: "mp_base (snd s2) = mp_base (snd s)" "mp_size (snd s2) = mp_size (snd s)" "mp_pid (snd s2) = mp_pid (snd s)"
        "mh_offset (ms_hdr (fst s2)) = mh_offset (ms_hdr (fst s))"
      using lk2 sl by (auto simp: same_view_def same_use_def)
    from ff conjunct1 [OF conjunct2 [OF conjunct2 [OF lk2]]] show thesis
    proof (cases rule: findFree_cases)
      case none
      with r lk2 sl show thesis by (intro full) (auto intro: same_use_trans same_view_trans)
    next
      case (got q s1)
      show thesis
      proof (rule fresh [of q "upd_hdr hdr_release (fst s1)" "slot_addr (snd s1) q"])
        show "key' = (if key = Some '''' then Some (take (MMKEYSIZE - 1) (memptr_key (mp_pid (snd s)) memptr)) else key)"
          using r(2) v(3) by (simp add: kk_def)
        show "isFree (ms_slots (fst s) q)" "\<And>q'. is_slot q' \<Longrightarrow> before q' q \<Longrightarrow> \<not> isFree (ms_slots (fst s) q')"
          using got(5,6) same_use_isFree [of "fst sl" "fst s2"] lk2 sl(3) by auto
        show "same_use (fst s) (upd_hdr hdr_release (fst s1))"
          using got(8) lk2 sl(1) same_use_trans by auto
        show "fst s' = upd_slot q (fresh_alloc (getPadding (mp_base (snd s)) (mh_offset (ms_hdr (fst s))) al) bytes
            (getPadding (mp_base (snd s)) (mh_offset (ms_hdr (fst s))) al - mh_offset (ms_hdr (fst s))) (mp_pid (snd s))
            (slot_addr (snd s1) q) key')
          (upd_hdr (allocSpace (getPadding (mp_base (snd s)) (mh_offset (ms_hdr (fst s))) al) bytes) (upd_hdr hdr_release (fst s1)))"
          using got(13) r v by (simp add: upd_slot_def upd_hdr_def hdr_release_def allocSpace_def)
        show "same_view (snd s) (snd s')" using got(9,14) r(3) lk2 sl(4) same_view_trans by auto
      qed (use got r v lk2 sl in \<open>auto simp: isMarked_mark\<close>)
    qed
  qed
qed

definition run_init :: "mm_init_fn option \<Rightarrow> size_t \<Rightarrow> size_t \<Rightarrow> string option \<Rightarrow> uint_t \<Rightarrow> (nat \<Rightarrow> 8 word) \<Rightarrow> nat \<Rightarrow> 8 word" where
  "run_init f off bytes key attrs mem = (case f of None \<Rightarrow> mem | Some g \<Rightarrow> g off bytes key attrs mem)"

text \<open>\<^verbatim>\<open>memalign\<close> by outcome: refused, an existing allocation with another reference, or a new one.\<close>

lemma memalign_cases:
  assumes "mm_memalign g memptr alignment bytes key f s = Some (rc, a, s')" and "pr_ok (fst s) (snd s)"
    and "mh_mutex (ms_hdr (fst s)) = 0"
  obtains (refused) "rc \<noteq> PAMI_SUCCESS" "a = None" "same_use (fst s) (fst s')" "same_view (snd s) (snd s')" "pr_ok (fst s') (snd s')"
      "mh_mutex (ms_hdr (fst s')) = 0"
    | (existing) q k sh1 where "rc = PAMI_SUCCESS" "a = Some (mp_base (snd s) + ma_offset (ms_slots (fst s) q))" "key = Some k" "k \<noteq> ''''"
      "is_slot q" "\<not> misses (fst s) k q" "\<And>q'. is_slot q' \<Longrightarrow> before q' q \<Longrightarrow> misses (fst s) k q'"
      "same_use (fst s) sh1" "fst s' = upd_slot q addRef sh1" "mh_mutex (ms_hdr sh1) = 0"
      "same_view (snd s) (snd s')" "pr_ok (fst s') (snd s')" "isMarked (zpos (fst q) (snd q)) (snd s')"
    | (fresh) q sh1 v off key' where "rc = PAMI_SUCCESS" "a = Some (mp_base (snd s) + off)"
      "off = getPadding (mp_base (snd s)) (mh_offset (ms_hdr (fst s))) (eff_align alignment (snd s))"
      "is_slot q" "fst q < MMMAX_N_META" "fst q < mh_nmetas (ms_hdr sh1)"
      "isFree (ms_slots (fst s) q)" "\<And>q'. is_slot q' \<Longrightarrow> before q' q \<Longrightarrow> \<not> isFree (ms_slots (fst s) q')"
      "off + bytes \<le> mp_size (snd s)"
      "same_use (fst s) sh1" "mh_mutex (ms_hdr sh1) = 0" "same_view (snd s) (snd s')" "pr_ok (fst s') (snd s')"
      "fst s' = (upd_slot q (\<lambda>m. initDone (fresh_alloc off bytes (off - mh_offset (ms_hdr (fst s))) (mp_pid (snd s)) v key' m))
        (upd_hdr (allocSpace off bytes) sh1))\<lparr>ms_mem := run_init f off bytes key' (mp_attrs (snd s)) (ms_mem (fst s))\<rparr>"
      "isMarked (zpos (fst q) (snd q)) (snd s')"
      "key' = (if key = Some '''' then Some (take (MMKEYSIZE - 1) (memptr_key (mp_pid (snd s)) memptr)) else key)"
      "\<And>k q'. key = Some k \<Longrightarrow> k \<noteq> '''' \<Longrightarrow> is_slot q' \<Longrightarrow> before q' q \<Longrightarrow> fst q' < mh_nmetas (ms_hdr (fst s)) \<Longrightarrow>
          (\<And>i. i \<le> fst q' \<Longrightarrow> can_see g (snd s) i) \<Longrightarrow> misses (fst s) k q'"
proof (cases "case key of Some k \<Rightarrow> length k \<ge> MMKEYSIZE | None \<Rightarrow> False")
  case True
  with assms(1) have "rc = PAMI_INVAL" "a = None" "s' = s"
    by (auto simp: mm_memalign_def split: option.splits)
  with assms show thesis by (intro refused) simp_all
next
  case False
  then obtain found key' s1 where l: "memalign_locked g memptr (eff_align alignment (snd s)) bytes key s = Some (found, key', s1)"
    and fin: "memalign_finish bytes key' f found s1 = Some (rc, a, s')"
    using assms(1) by (auto simp: mm_memalign_def eff_align_def Let_def bind_eq_Some_conv)
  from l assms(2) show thesis
  proof (cases rule: memalign_locked_cases)
    case full
    with fin have "rc = PAMI_ERROR" "a = None" "s' = s1" by (auto simp: memalign_finish_def split_def)
    with full show thesis by (intro refused) simp_all
  next
    case (existing q k sh1)
    have sl: "ms_slots sh1 q = ms_slots (fst s) q"
      using existing(5,7) by (cases q) (auto simp: same_use_def misses_def)
    have b: "mp_base (snd s1) = mp_base (snd s)" using existing(9) by (simp add: same_view_def)
    have "rc = PAMI_SUCCESS" "a = Some (mp_base (snd s) + ma_offset (ms_slots (fst s) q))" "fst s' = fst s1"
        "snd s' = count_repeat (ma_rawSize (ms_slots (fst s) q)) (snd s1)"
      using fin existing(1,8) sl b by (auto simp: memalign_finish_def split_def bind_eq_Some_conv)
    with existing show thesis by (intro that(2) [of q k sh1]) (auto simp: isMarked_def count_repeat_def split: if_splits)
  next
    case (fresh q sh1 v)
    define off where "off = getPadding (mp_base (snd s)) (mh_offset (ms_hdr (fst s))) (eff_align alignment (snd s))"
    have b: "mp_base (snd s1) = mp_base (snd s)" "mp_attrs (snd s1) = mp_attrs (snd s)"
      using fresh(10) by (simp_all add: same_view_def)
    have m: "ms_mem sh1 = ms_mem (fst s)" using fresh(8) by (simp add: same_use_def)
    have o: "ma_offset (ms_slots (fst s1) q) = off" using fresh(12) by (simp add: fresh_alloc_def off_def)
    have ra: "rc = PAMI_SUCCESS" "a = Some (mp_base (snd s) + off)"
      and s': "fst s' = upd_slot q initDone ((fst s1)\<lparr>ms_mem := run_init f off bytes key' (mp_attrs (snd s)) (ms_mem (fst s1))\<rparr>)"
      and "\<exists>raw. snd s' = count_local raw (snd s1)"
      using fin fresh(1) o b by (auto simp: memalign_finish_def split_def Let_def run_init_def split: option.splits)
    then obtain raw where raw: "snd s' = count_local raw (snd s1)" by blast
    have "fst s' = (upd_slot q (\<lambda>m. initDone (fresh_alloc off bytes (off - mh_offset (ms_hdr (fst s))) (mp_pid (snd s)) v key' m))
        (upd_hdr (allocSpace off bytes) sh1))\<lparr>ms_mem := run_init f off bytes key' (mp_attrs (snd s)) (ms_mem (fst s))\<rparr>"
      unfolding s' fresh(12) off_def using m by (simp add: upd_slot_def upd_hdr_def)
    moreover have "pr_ok (fst s') (snd s')" "isMarked (zpos (fst q) (snd q)) (snd s')" "same_view (snd s) (snd s')"
      using fresh(10,11,13) unfolding s' raw by (simp_all add: isMarked_def count_local_def)
    ultimately show thesis
      using fresh ra off_def by (intro that(3) [of off q sh1 key' v]) auto
  qed
qed

text \<open>The lock is free and every record in use is initialised: \<^verbatim>\<open>memalign\<close> returns.\<close>

lemma memalign_returns:
  assumes "mh_mutex (ms_hdr (fst s)) = 0" and "pr_ok (fst s) (snd s)"
    and "\<And>q. \<not> isFree (ms_slots (fst s) q) \<Longrightarrow> ma_init_done (ms_slots (fst s) q)"
  shows "mm_memalign g memptr alignment bytes key f s \<noteq> None"
proof -
  obtain found key' s1 where l: "memalign_locked g memptr (eff_align alignment (snd s)) bytes key s = Some (found, key', s1)"
    using acquire_free [OF assms(1)]
    by (fastforce simp: memalign_locked_def Let_def split: prod.splits option.splits)
  have "memalign_finish bytes key' f found s1 \<noteq> None"
    using l assms(2)
  proof (cases rule: memalign_locked_cases)
    case (existing q k sh1)
    then have "ms_slots sh1 q = ms_slots (fst s) q" by (cases q) (auto simp: same_use_def misses_def)
    with existing assms(3) show ?thesis by (auto simp: memalign_finish_def split_def waitDone_def misses_def)
  qed (auto simp: memalign_finish_def split_def Let_def)
  with l show ?thesis by (auto simp: mm_memalign_def eff_align_def Let_def)
qed

end
