(* ===== verification/Pami_MemoryArena.thy ===== *)
theory Pami_MemoryArena
  imports Pami_MemoryProps
begin

text \<open>
  What the memory manager guarantees over time: the invariant of the shared state, that every operation of every process
  keeps it, the two properties that follow (allocations are disjoint pieces of the arena; a key leads every process to the same
  memory), and the places where the source falls short of what it says.
\<close>

section \<open>Looking for an offset, and freeing\<close>

lemma mp_metas_mark [simp]: "mp_metas (mark z pr) = mp_metas pr" "mp_metas (unMark z pr) = mp_metas pr"
  by (simp_all add: mark_def unMark_def)

lemma locate_nofill_state: "locate_x g False want mx s p = (b, p', s') \<Longrightarrow> s' = s"
proof (induction "mx - fst p" arbitrary: p)
  case 0
  then show ?case by (cases p) (simp add: locate_x_end)
next
  case (Suc n)
  obtain x y z where p: "p = (x, y, z)" by (rule prod_cases3)
  with Suc have "x < mx" by simp
  then show ?case
  proof (cases rule: locate_x_iter [where fill = False and g = g and s = s and want = want and y = y and z = z])
    case (on x2 y2 z2 s1)
    with Suc p show ?thesis using Suc.hyps(1) [of "(x + 1, 0, z2)"] by simp
  qed (use Suc.prems p in auto)
qed

lemma locateOne_nofill: "locateOne g False want s p = (b, p', s') \<Longrightarrow> s' = s"
  by (auto simp: locateOne_def dest: locate_nofill_state)

lemma find_off_loop_state:
  "find_off_loop off (s, p) = (r, s') \<Longrightarrow> fst s' = fst s \<and> (\<exists>z. snd s' = (snd s)\<lparr>mp_last_z := z\<rparr>)"
proof (induction off "(s, p)" arbitrary: s p rule: find_off_loop.induct)
  case (1 off s p)
  obtain b x y z s1 where l: "locateOne (\<lambda>_. None) False False s p = (b, (x, y, z), s1)" by (rule locate_result)
  then have [simp]: "s1 = s" by (rule locateOne_nofill)
  show ?case
  proof (cases "b \<and> ma_offset (ms_slots (fst s) (x, y)) \<noteq> off")
    case True
    then have "find_off_loop off (s, locateSkip (x, y, z)) = (r, s')"
      using "1.prems" l by (simp add: find_off_loop.simps [of off s p])
    then show ?thesis using "1.hyps" [OF l [symmetric]] True by simp
  next
    case False
    then show ?thesis using "1.prems" l by (cases b) (auto simp: find_off_loop.simps [of off s p] intro: exI [of _ "mp_last_z (snd s)"])
  qed
qed

lemma mm_free_state: "fst (mm_free mem s) = fst s" "same_view (snd s) (snd (mm_free mem s))"
  "pr_ok (fst s) (snd s) \<Longrightarrow> pr_ok (fst s) (snd (mm_free mem s))"
proof -
  obtain r s' where r: "find_off (mem - mp_base (snd s)) s = (r, s')" by (rule prod.exhaust)
  then have *: "fst s' = fst s" "\<exists>z. snd s' = (snd s)\<lparr>mp_last_z := z\<rparr>"
    using find_off_loop_state unfolding find_off_def by blast+
  then show "fst (mm_free mem s) = fst s" "same_view (snd s) (snd (mm_free mem s))"
    "pr_ok (fst s) (snd s) \<Longrightarrow> pr_ok (fst s) (snd (mm_free mem s))"
    using r by (auto simp: mm_free_def split: option.splits prod.splits)
qed

text \<open>A record loses a reference, and its key with the last one.\<close>

lemma alloc_free_cases:
  "alloc_free m = (if ma_ref_count m = 1 then (PAMI_SUCCESS, m\<lparr>ma_ref_count := 0, ma_key := ''''\<rparr>)
     else (PAMI_EAGAIN, m\<lparr>ma_ref_count := ma_ref_count m - 1\<rparr>))"
  by (simp add: alloc_free_def rmRef_def freeKey_def)

lemma free_one_cases:
  assumes "free_one q z nf s = (n2, s2)"
  obtains (skip) "n2 = nf + 1" "s2 = s"
    | (freed) "fst s2 = upd_slot q (\<lambda>m. snd (alloc_free m)) (fst s)" "snd s2 = unMark (mp_last_z (snd s)) (snd s)"
        "n2 = (if ma_ref_count (ms_slots (fst s) q) = 1 then nf else nf + 1)"
proof (cases "isMarked z (snd s)")
  case False
  then have "free_one q z nf s = (nf + 1, s)" unfolding free_one_def by simp
  with assms have "n2 = nf + 1" "s2 = s" by simp_all
  then show thesis by (rule skip)
next
  case True
  then have "free_one q z nf s = (if ma_ref_count (ms_slots (fst s) q) = 1 then nf else nf + 1,
      (upd_slot q (\<lambda>m. snd (alloc_free m)) (fst s), unMark (mp_last_z (snd s)) (snd s)))"
    by (simp add: free_one_def meta_free_def split_def alloc_free_cases)
  from trans [OF assms [symmetric] this]
  have "s2 = (upd_slot q (\<lambda>m. snd (alloc_free m)) (fst s), unMark (mp_last_z (snd s)) (snd s))"
    "n2 = (if ma_ref_count (ms_slots (fst s) q) = 1 then nf else nf + 1)" by (simp_all only: prod.inject)
  then show thesis by (intro freed) simp_all
qed

definition released :: "mm_alloc \<Rightarrow> mm_alloc \<Rightarrow> bool" where
  "released m m' \<longleftrightarrow> m' = m \<or> \<not> isFree m \<and> m' = snd (alloc_free m)"

text \<open>
  The loop of \<^verbatim>\<open>_freeAll\<close> from a position on: records before it are untouched, the others lose at most one reference, and
  when none was left over, those in groups that the process sees are free.
\<close>

definition freed_from :: "mm_state \<Rightarrow> nat \<times> nat \<Rightarrow> nat \<Rightarrow> nat \<Rightarrow> mm_state \<Rightarrow> bool" where
  "freed_from s p nf nf' s' \<longleftrightarrow>
     ms_hdr (fst s') = ms_hdr (fst s) \<and> ms_mem (fst s') = ms_mem (fst s) \<and> mp_metas (snd s') = mp_metas (snd s) \<and> same_view (snd s) (snd s') \<and>
     (\<forall>q. released (ms_slots (fst s) q) (ms_slots (fst s') q) \<and> (before q p \<longrightarrow> ms_slots (fst s') q = ms_slots (fst s) q)) \<and>
     nf \<le> nf' \<and>
     (nf' = nf \<longrightarrow> (\<forall>q. is_slot q \<and> \<not> before q p \<and> fst q < mh_nmetas (ms_hdr (fst s)) \<and>
        (\<forall>i \<le> fst q. mp_metas (snd s) i \<noteq> None) \<longrightarrow> isFree (ms_slots (fst s') q)))"

lemma freeAll_loop_spec:
  "freeAll_loop nf (s, x, y, z) = (nf', s') \<Longrightarrow> y \<le> MM_META_NUM x \<Longrightarrow> freed_from s (x, y) nf nf' s'"
proof (induction nf "(s, x, y, z)" arbitrary: s x y z rule: freeAll_loop.induct)
  case (1 nf s x y z)
  obtain b x1 y1 z1 s1 where l: "locateOne (\<lambda>_. None) False False s (x, y, z) = (b, (x1, y1, z1), s1)" by (rule locate_result)
  then have [simp]: "s1 = s" by (rule locateOne_nofill)
  note l' = l [unfolded locateOne_def if_False]
  show ?case
  proof (cases b)
    case False
    then have "nf' = nf" "s' = s" using "1.prems"(1) l by (simp_all add: freeAll_loop.simps)
    moreover have "isFree (ms_slots (fst s) q)"
      if "is_slot q" "\<not> before q (x, y)" "fst q < mh_nmetas (ms_hdr (fst s))" "\<forall>i \<le> fst q. mp_metas (snd s) i \<noteq> None" for q
      using locate_x_miss [of "\<lambda>_. None" False False _ s x y z "(x1, y1, z1)" s1 q] l' "1.prems"(2) False that by (auto simp: sees_group_def)
    ultimately show ?thesis by (auto simp: freed_from_def released_def)
  next
    case True
    obtain n2 s2 where f': "free_one (x1, y1) z1 nf s1 = (n2, s2)" by (rule prod.exhaust)
    then have f: "free_one (x1, y1) z1 nf s = (n2, s2)" by simp
    have at: "y1 < MM_META_NUM x1" "x < x1 \<or> x = x1 \<and> y \<le> y1"
      using locateOne_found [of "\<lambda>_. None" False False s x y z x1 y1 z1 s1] l True by auto
    have hit: "\<not> isFree (ms_slots (fst s) (x1, y1))"
        "\<And>q. is_slot q \<Longrightarrow> \<not> before q (x, y) \<Longrightarrow> before q (x1, y1) \<Longrightarrow> isFree (ms_slots (fst s) q)"
      using locate_x_hit [of "\<lambda>_. None" False False _ s x y z x1 y1 z1 s1] l' True "1.prems"(2) by auto
    have f2: "ms_hdr (fst s2) = ms_hdr (fst s)" "ms_mem (fst s2) = ms_mem (fst s)" "mp_metas (snd s2) = mp_metas (snd s)"
        "same_view (snd s) (snd s2)" "nf \<le> n2" "n2 = nf \<Longrightarrow> isFree (ms_slots (fst s2) (x1, y1))"
        "released (ms_slots (fst s) (x1, y1)) (ms_slots (fst s2) (x1, y1))" "\<And>q. q \<noteq> (x1, y1) \<Longrightarrow> ms_slots (fst s2) q = ms_slots (fst s) q"
      using f hit(1) by (cases rule: free_one_cases; simp add: released_def alloc_free_cases isFree_def split: if_splits)+
    have "freeAll_loop n2 (s2, x1, y1 + 1, z1 + 1) = (nf', s')"
      using "1.prems"(1) l True f by (simp add: freeAll_loop.simps [of nf s] locateSkip_def)
    then have "freed_from s2 (x1, y1 + 1) n2 nf' s'"
      using "1.hyps" [OF l [symmetric] _ refl refl refl f' [symmetric]] True at by (simp add: locateSkip_def)
    note IH = this [unfolded freed_from_def]
    have old: "ms_slots (fst s') q = ms_slots (fst s2) q" if "before q (x1, y1 + 1)" for q using IH that by blast
    have rel2: "released (ms_slots (fst s2) q) (ms_slots (fst s') q)" for q using IH by blast
    have "released (ms_slots (fst s) q) (ms_slots (fst s') q)" for q
      using rel2 [of q] f2(7) f2(8) [of q] old [of "(x1, y1)"] locateSkip_pos [of q x1 y1] by (cases "q = (x1, y1)") auto
    moreover have "ms_slots (fst s') q = ms_slots (fst s) q" if "before q (x, y)" for q
      using that at old [of q] f2(8) [of q] by (cases q) (auto simp: before_def)
    moreover have "isFree (ms_slots (fst s') q)"
      if "nf' = nf" "is_slot q" "\<not> before q (x, y)" "fst q < mh_nmetas (ms_hdr (fst s))" "\<forall>i \<le> fst q. mp_metas (snd s) i \<noteq> None" for q
    proof (cases "before q (x1, y1 + 1)")
      case True
      with that hit(2) [of q] f2(5,6,8) IH old [of q] locateSkip_pos [of q x1 y1] show ?thesis by (cases "q = (x1, y1)") auto
    next
      case False
      have "n2 \<le> nf'" using IH by blast
      with that(1) f2(5) have "nf' = n2" by simp
      then have fin: "is_slot q \<Longrightarrow> fst q < mh_nmetas (ms_hdr (fst s2)) \<Longrightarrow> \<forall>i \<le> fst q. mp_metas (snd s2) i \<noteq> None \<Longrightarrow>
          isFree (ms_slots (fst s') q)"
        using IH False by blast
      show ?thesis using that(2,4,5) unfolding f2(1,3) [symmetric] by (rule fin)
    qed
    ultimately show ?thesis using IH f2 same_view_trans unfolding freed_from_def by auto
  qed
qed

section \<open>The invariant\<close>

definition chunk :: "mm_alloc \<Rightarrow> nat set" where
  "chunk m = {unat (ma_offset m)..<unat (ma_offset m) + unat (ma_userSize m)}"

text \<open>
  Between operations: the lock is free; the fill level is within the arena of \<open>n\<close> bytes; a record in use is one that the header
  counts, is initialised and lies below the fill level; two records in use do not overlap; a free record has no references.
\<close>

definition mm_ok :: "size_t \<Rightarrow> mm_shared \<Rightarrow> bool" where
  "mm_ok n sh \<longleftrightarrow> mh_mutex (ms_hdr sh) = 0 \<and> mh_nmetas (ms_hdr sh) \<le> MMMAX_N_META \<and> mh_offset (ms_hdr sh) \<le> n \<and>
     (\<forall>q. \<not> isFree (ms_slots sh q) \<longrightarrow> is_slot q \<and> fst q < mh_nmetas (ms_hdr sh) \<and> ma_init_done (ms_slots sh q) \<and>
        unat (ma_offset (ms_slots sh q)) + unat (ma_userSize (ms_slots sh q)) \<le> unat (mh_offset (ms_hdr sh))) \<and>
     (\<forall>q q'. q \<noteq> q' \<and> \<not> isFree (ms_slots sh q) \<and> \<not> isFree (ms_slots sh q') \<longrightarrow> chunk (ms_slots sh q) \<inter> chunk (ms_slots sh q') = {}) \<and>
     (\<forall>q. isFree (ms_slots sh q) \<longrightarrow> ma_ref_count (ms_slots sh q) = 0)"

lemma mm_ok_new: "mm_ok n new_shared"
  by (simp add: mm_ok_def new_shared_def new_header_def zero_alloc_def isFree_def)

lemma mm_okD:
  assumes "mm_ok n sh"
  shows "mh_mutex (ms_hdr sh) = 0" "mh_nmetas (ms_hdr sh) \<le> MMMAX_N_META" "mh_offset (ms_hdr sh) \<le> n"
    "\<not> isFree (ms_slots sh q) \<Longrightarrow> is_slot q" "\<not> isFree (ms_slots sh q) \<Longrightarrow> fst q < mh_nmetas (ms_hdr sh)"
    "\<not> isFree (ms_slots sh q) \<Longrightarrow> ma_init_done (ms_slots sh q)"
    "\<not> isFree (ms_slots sh q) \<Longrightarrow> unat (ma_offset (ms_slots sh q)) + unat (ma_userSize (ms_slots sh q)) \<le> unat (mh_offset (ms_hdr sh))"
    "q \<noteq> q' \<Longrightarrow> \<not> isFree (ms_slots sh q) \<Longrightarrow> \<not> isFree (ms_slots sh q') \<Longrightarrow> chunk (ms_slots sh q) \<inter> chunk (ms_slots sh q') = {}"
    "isFree (ms_slots sh q) \<Longrightarrow> ma_ref_count (ms_slots sh q) = 0"
  using assms unfolding mm_ok_def by blast+

lemma mm_okI:
  assumes "mh_mutex (ms_hdr sh) = 0" "mh_nmetas (ms_hdr sh) \<le> MMMAX_N_META" "mh_offset (ms_hdr sh) \<le> n"
    "\<And>q. \<not> isFree (ms_slots sh q) \<Longrightarrow> is_slot q \<and> fst q < mh_nmetas (ms_hdr sh) \<and> ma_init_done (ms_slots sh q) \<and>
        unat (ma_offset (ms_slots sh q)) + unat (ma_userSize (ms_slots sh q)) \<le> unat (mh_offset (ms_hdr sh))"
    "\<And>q q'. q \<noteq> q' \<Longrightarrow> \<not> isFree (ms_slots sh q) \<Longrightarrow> \<not> isFree (ms_slots sh q') \<Longrightarrow> chunk (ms_slots sh q) \<inter> chunk (ms_slots sh q') = {}"
    "\<And>q. isFree (ms_slots sh q) \<Longrightarrow> ma_ref_count (ms_slots sh q) = 0"
  shows "mm_ok n sh"
  using assms unfolding mm_ok_def by blast

text \<open>Records that differ only in fields the invariant does not read.\<close>

lemma mm_ok_same_use:
  assumes "mm_ok n sh" and "same_use sh sh'" and "mh_mutex (ms_hdr sh') = 0"
  shows "mm_ok n sh'"
proof -
  have F: "isFree (ms_slots sh' q) = isFree (ms_slots sh q)" "ma_ref_count (ms_slots sh' q) = ma_ref_count (ms_slots sh q)"
      "\<not> isFree (ms_slots sh q) \<Longrightarrow> ms_slots sh' q = ms_slots sh q" for q
    using assms(2) by (cases q, auto simp: same_use_def isFree_def)+
  have H: "mh_offset (ms_hdr sh') = mh_offset (ms_hdr sh)" "mh_nmetas (ms_hdr sh) \<le> mh_nmetas (ms_hdr sh')"
      "mh_nmetas (ms_hdr sh') \<le> max (mh_nmetas (ms_hdr sh)) MMMAX_N_META"
    using assms(2) by (simp_all add: same_use_def)
  note D = mm_okD [OF assms(1)]
  show ?thesis
  proof (rule mm_okI)
    fix q assume "\<not> isFree (ms_slots sh' q)"
    then have q: "\<not> isFree (ms_slots sh q)" by (simp add: F)
    show "is_slot q \<and> fst q < mh_nmetas (ms_hdr sh') \<and> ma_init_done (ms_slots sh' q) \<and>
        unat (ma_offset (ms_slots sh' q)) + unat (ma_userSize (ms_slots sh' q)) \<le> unat (mh_offset (ms_hdr sh'))"
      unfolding F(3) [OF q] H(1) using D(4-7) [OF q] H(2) by linarith
  next
    fix q q' assume "q \<noteq> q'" "\<not> isFree (ms_slots sh' q)" "\<not> isFree (ms_slots sh' q')"
    then show "chunk (ms_slots sh' q) \<inter> chunk (ms_slots sh' q') = {}"
      using D(8) [of q q'] F(3) [of q] F(3) [of q'] by (simp add: F(1))
  next
    fix q assume "isFree (ms_slots sh' q)"
    then show "ma_ref_count (ms_slots sh' q) = 0" using D(9) [of q] by (simp add: F(1,2))
  qed (use assms(3) H D(1-3) in simp_all)
qed

lemma mm_ok_addRef:
  assumes "mm_ok n sh" and "\<not> isFree (ms_slots sh q)"
  shows "mm_ok n (upd_slot q addRef sh)"
proof -
  have c: "chunk (addRef m) = chunk m" for m by (simp add: chunk_def)
  note D = mm_okD [OF assms(1)]
  show ?thesis
  proof (rule mm_okI)
    fix q1 assume "\<not> isFree (ms_slots (upd_slot q addRef sh) q1)"
    then show "is_slot q1 \<and> fst q1 < mh_nmetas (ms_hdr (upd_slot q addRef sh)) \<and> ma_init_done (ms_slots (upd_slot q addRef sh) q1) \<and>
        unat (ma_offset (ms_slots (upd_slot q addRef sh) q1)) + unat (ma_userSize (ms_slots (upd_slot q addRef sh) q1))
          \<le> unat (mh_offset (ms_hdr (upd_slot q addRef sh)))"
      using D(4-7) [of q1] by (cases "q1 = q") simp_all
  next
    fix q1 q2
    assume "q1 \<noteq> q2" "\<not> isFree (ms_slots (upd_slot q addRef sh) q1)" "\<not> isFree (ms_slots (upd_slot q addRef sh) q2)"
    then show "chunk (ms_slots (upd_slot q addRef sh) q1) \<inter> chunk (ms_slots (upd_slot q addRef sh) q2) = {}"
      using D(8) [of q1 q2] by (cases "q1 = q"; cases "q2 = q") (simp_all add: c)
  next
    fix q1 assume "isFree (ms_slots (upd_slot q addRef sh) q1)"
    then show "ma_ref_count (ms_slots (upd_slot q addRef sh) q1) = 0"
      using D(9) [of q1] assms(2) by (cases "q1 = q") simp_all
  qed (use D(1-3) in simp_all)
qed

lemma mm_ok_released:
  assumes "mm_ok n sh" and "\<And>q. released (ms_slots sh q) (ms_slots sh' q)" and "ms_hdr sh' = ms_hdr sh"
  shows "mm_ok n sh'"
proof -
  have F: "isFree (ms_slots sh q) \<Longrightarrow> ms_slots sh' q = ms_slots sh q"
      "ma_init_done (ms_slots sh' q) = ma_init_done (ms_slots sh q)"
      "ma_offset (ms_slots sh' q) = ma_offset (ms_slots sh q)" "ma_userSize (ms_slots sh' q) = ma_userSize (ms_slots sh q)"
      "chunk (ms_slots sh' q) = chunk (ms_slots sh q)"
      "isFree (ms_slots sh' q) \<Longrightarrow> \<not> isFree (ms_slots sh q) \<Longrightarrow> ma_ref_count (ms_slots sh' q) = 0" for q
    using assms(2) [of q] by (auto simp: released_def alloc_free_cases isFree_def chunk_def split: if_splits)
  have used: "\<not> isFree (ms_slots sh' q) \<Longrightarrow> \<not> isFree (ms_slots sh q)" for q using F(1) [of q] by auto
  note D = mm_okD [OF assms(1)]
  show ?thesis
  proof (rule mm_okI)
    fix q assume "\<not> isFree (ms_slots sh' q)"
    with used [of q] show "is_slot q \<and> fst q < mh_nmetas (ms_hdr sh') \<and> ma_init_done (ms_slots sh' q) \<and>
        unat (ma_offset (ms_slots sh' q)) + unat (ma_userSize (ms_slots sh' q)) \<le> unat (mh_offset (ms_hdr sh'))"
      unfolding F(2-4) assms(3) using D(4-7) [of q] by blast
  next
    fix q assume "isFree (ms_slots sh' q)"
    then show "ma_ref_count (ms_slots sh' q) = 0" using F(1,6) [of q] D(9) [of q] by (cases "isFree (ms_slots sh q)") auto
  qed (use D(1-3,8) used in \<open>auto simp: assms(3) F(5)\<close>)
qed

text \<open>
  A request without wrap-around: the alignment is a power of two, and neither the aligned address nor the end of the allocation
  leaves the 64-bit range. Every request that fits into its address space is one.
\<close>

definition request_ok :: "mm_proc \<Rightarrow> size_t \<Rightarrow> size_t \<Rightarrow> bool" where
  "request_ok pr alignment bytes \<longleftrightarrow> is_pow2 (eff_align alignment pr) \<and>
     unat (mp_base pr) + unat (mp_size pr) + unat (eff_align alignment pr) \<le> 2 ^ 64 \<and>
     unat (mp_size pr) + unat (eff_align alignment pr) + unat bytes \<le> 2 ^ 64"

lemma request_fits:
  assumes "request_ok pr alignment bytes" and "mh_offset h \<le> mp_size pr"
    and "off = getPadding (mp_base pr) (mh_offset h) (eff_align alignment pr)" and "off + bytes \<le> mp_size pr"
  shows "unat (mh_offset h) \<le> unat off" "unat (off + bytes) = unat off + unat bytes" "unat off + unat bytes \<le> unat (mp_size pr)"
    "aligned_at (mp_base pr + off) (eff_align alignment pr)" "unat (mp_base pr + off) = unat (mp_base pr) + unat off"
proof -
  have o: "unat (mh_offset h) \<le> unat (mp_size pr)" using assms(2) by (simp add: word_le_nat_alt)
  have r: "is_pow2 (eff_align alignment pr)" "unat (mp_base pr) + unat (mh_offset h) + unat (eff_align alignment pr) \<le> 2 ^ 64"
    using assms(1) o by (simp_all add: request_ok_def)
  note p = getPadding_spec [OF r, folded assms(3)]
  show "unat (mh_offset h) \<le> unat off" "aligned_at (mp_base pr + off) (eff_align alignment pr)"
    "unat (mp_base pr + off) = unat (mp_base pr) + unat off" by (fact p)+
  have "unat off + unat bytes < 2 ^ 64" using p(2) o assms(1) by (simp add: request_ok_def)
  then show u: "unat (off + bytes) = unat off + unat bytes" by (simp add: unat_word_ariths)
  then show "unat off + unat bytes \<le> unat (mp_size pr)" using assms(4) by (simp add: word_le_nat_alt)
qed

lemma anon_key_not_empty: "take (MMKEYSIZE - 1) (anon_key pid a) \<noteq> ''''"
  by (simp add: anon_key_def MMKEYSIZE_def)

lemma memptr_key_not_empty: "take (MMKEYSIZE - 1) (memptr_key pid a) \<noteq> ''''"
  by (simp add: memptr_key_def MMKEYSIZE_def)

lemma fresh_alloc_simps [simp]:
  "ma_offset (fresh_alloc off len pad pid a key m) = off" "ma_userSize (fresh_alloc off len pad pid a key m) = len"
  "ma_rawSize (fresh_alloc off len pad pid a key m) = len + pad" "ma_ref_count (fresh_alloc off len pad pid a key m) = ma_ref_count m + 1"
  "ma_init_done (fresh_alloc off len pad pid a key m) = ma_init_done m"
  "ma_key (fresh_alloc off len pad pid a (Some k) m) = take MMKEYSIZE k"
  "ma_key (fresh_alloc off len pad pid a None m) = take (MMKEYSIZE - 1) (anon_key pid a)"
  by (simp_all add: fresh_alloc_def)

lemma isFree_fresh [simp]: "key \<noteq> Some '''' \<Longrightarrow> \<not> isFree (fresh_alloc off len pad pid a key m)"
  using anon_key_not_empty by (cases key) (auto simp: isFree_def MMKEYSIZE_def)

section \<open>Every operation keeps the invariant\<close>

lemma mm_ok_mem [simp]: "mm_ok n (sh\<lparr>ms_mem := m\<rparr>) = mm_ok n sh"
  by (simp add: mm_ok_def)

lemma mm_ok_fresh:
  assumes "mm_ok n sh" and "same_use sh sh1" and "mh_mutex (ms_hdr sh1) = 0"
    and "isFree (ms_slots sh q)" and "is_slot q" and "fst q < mh_nmetas (ms_hdr sh1)"
    and "unat (mh_offset (ms_hdr sh)) \<le> unat off" and "unat (off + bytes) = unat off + unat bytes" and "off + bytes \<le> n"
    and "key \<noteq> Some ''''"
  shows "mm_ok n (upd_slot q (\<lambda>m. initDone (fresh_alloc off bytes pad pid v key m)) (upd_hdr (allocSpace off bytes) sh1))"
    (is "mm_ok n ?sh")
proof -
  note D = mm_okD [OF mm_ok_same_use [OF assms(1-3)]]
  have o: "mh_offset (ms_hdr sh1) = mh_offset (ms_hdr sh)" using assms(2) by (simp add: same_use_def)
  have c: "chunk (ms_slots ?sh q) = {unat off..<unat off + unat bytes}" by (simp add: chunk_def)
  have below: "chunk (ms_slots sh1 q') \<inter> {unat off..<unat off + unat bytes} = {}" if "\<not> isFree (ms_slots sh1 q')" for q'
    using D(7) [OF that] assms(7) by (auto simp: chunk_def o)
  show ?thesis
  proof (rule mm_okI)
    fix q1 assume "\<not> isFree (ms_slots ?sh q1)"
    then show "is_slot q1 \<and> fst q1 < mh_nmetas (ms_hdr ?sh) \<and> ma_init_done (ms_slots ?sh q1) \<and>
        unat (ma_offset (ms_slots ?sh q1)) + unat (ma_userSize (ms_slots ?sh q1)) \<le> unat (mh_offset (ms_hdr ?sh))"
      using D(4-7) [of q1] assms(5-8) o by (cases "q1 = q") simp_all
  next
    fix q1 q2 assume "q1 \<noteq> q2" "\<not> isFree (ms_slots ?sh q1)" "\<not> isFree (ms_slots ?sh q2)"
    then show "chunk (ms_slots ?sh q1) \<inter> chunk (ms_slots ?sh q2) = {}"
      using D(8) [of q1 q2] c below [of q1] below [of q2] by (cases "q1 = q"; cases "q2 = q") (simp_all add: Int_commute)
  next
    fix q1 assume "isFree (ms_slots ?sh q1)"
    then show "ma_ref_count (ms_slots ?sh q1) = 0"
      using D(9) [of q1] assms(10) by (cases "q1 = q") simp_all
  qed (use D(1,2) assms(9) in simp_all)
qed

lemma pr_ok_mono: "pr_ok sh pr \<Longrightarrow> mh_nmetas (ms_hdr sh) \<le> mh_nmetas (ms_hdr sh') \<Longrightarrow> pr_ok sh' pr"
  unfolding pr_ok_def using less_le_trans by blast

text \<open>The state of one process and the shared state, as the operations of an enabled manager of \<open>n\<close> bytes find them.\<close>

definition st_ok :: "size_t \<Rightarrow> mm_state \<Rightarrow> bool" where
  "st_ok n s \<longleftrightarrow> mm_ok n (fst s) \<and> pr_ok (fst s) (snd s) \<and> mp_size (snd s) = n"

lemma memalign_keeps:
  assumes "st_ok n s" and "request_ok (snd s) alignment bytes"
    and "mm_memalign g memptr alignment bytes key f s = Some (rc, a, s')"
  shows "st_ok n s'" and "mh_nmetas (ms_hdr (fst s)) \<le> mh_nmetas (ms_hdr (fst s'))" and "same_view (snd s) (snd s')"
proof -
  have ok: "mm_ok n (fst s)" "pr_ok (fst s) (snd s)" "mp_size (snd s) = n" using assms(1) by (simp_all add: st_ok_def)
  have "st_ok n s' \<and> mh_nmetas (ms_hdr (fst s)) \<le> mh_nmetas (ms_hdr (fst s')) \<and> same_view (snd s) (snd s')"
    using assms(3) ok(2) mm_okD(1) [OF ok(1)]
  proof (cases rule: memalign_cases)
    case refused
    with ok mm_ok_same_use [OF ok(1)] show ?thesis by (auto simp: st_ok_def same_use_def same_view_def)
  next
    case (existing q k sh1)
    then have "\<not> isFree (ms_slots sh1 q)" using same_use_isFree [OF existing(8)] by (simp add: misses_def)
    with existing ok mm_ok_addRef [OF mm_ok_same_use [OF ok(1)]] show ?thesis
      by (auto simp: st_ok_def same_use_def same_view_def)
  next
    case (fresh q sh1 v off key')
    have "mh_offset (ms_hdr (fst s)) \<le> mp_size (snd s)" using mm_okD(3) [OF ok(1)] ok(3) by simp
    note fit = request_fits [OF assms(2) this fresh(3,9)]
    have "key' \<noteq> Some ''''" using fresh(16) memptr_key_not_empty by auto
    then have "mm_ok n (fst s')"
      unfolding fresh(14) mm_ok_mem using fresh fit ok
      by (intro mm_ok_fresh [OF ok(1) fresh(10,11,7,4)]) auto
    with fresh ok show ?thesis by (auto simp: st_ok_def same_use_def same_view_def)
  qed
  then show "st_ok n s'" "mh_nmetas (ms_hdr (fst s)) \<le> mh_nmetas (ms_hdr (fst s'))" "same_view (snd s) (snd s')" by simp_all
qed

text \<open>A forced reset keeps it when the process has the pointers to all groups that are in use.\<close>

definition sees_all :: "mm_state \<Rightarrow> bool" where
  "sees_all s \<longleftrightarrow> (\<forall>x < mh_nmetas (ms_hdr (fst s)). mp_metas (snd s) x \<noteq> None)"

lemma mm_ok_freed:
  assumes "mm_ok n sh" and "\<And>q. isFree (ms_slots sh q)"
  shows "mm_ok n (upd_hdr (\<lambda>h. h\<lparr>mh_offset := 0\<rparr>) sh)"
  using mm_okD [OF assms(1)] assms(2) by (intro mm_okI) simp_all

lemma freeAll_spec:
  assumes "freeAll s = s'"
  obtains s1 nf where "freed_from s (0, 0) 0 nf s1" "snd s' = snd s1"
    "fst s' = (if nf = 0 then upd_hdr (\<lambda>h. h\<lparr>mh_offset := 0\<rparr>) (fst s1) else fst s1)"
proof -
  obtain nf s1 where l: "freeAll_loop 0 (s, 0, 0, 0) = (nf, s1)" by (rule prod.exhaust)
  with assms have "snd s' = snd s1" "fst s' = (if nf = 0 then upd_hdr (\<lambda>h. h\<lparr>mh_offset := 0\<rparr>) (fst s1) else fst s1)"
    by (auto simp: freeAll_def split_def)
  with freeAll_loop_spec [OF l] show thesis by (intro that) simp_all
qed

lemma reset_keeps:
  assumes "st_ok n s" and "sees_all s" and "mm_reset force s = Some (rc, s')"
  shows "st_ok n s'" and "mh_nmetas (ms_hdr (fst s')) = mh_nmetas (ms_hdr (fst s))" and "same_view (snd s) (snd s')"
proof -
  define s0 where "s0 = (fst s, if mp_debug (snd s) then (snd s)\<lparr>mp_stats := MM_RESET_STATS\<rparr> else snd s)"
  have s0: "st_ok n s0" "same_view (snd s) (snd s0)" "fst s0 = fst s" "mp_metas (snd s0) = mp_metas (snd s)"
    using assms(1) by (auto simp: st_ok_def s0_def)
  have "st_ok n s' \<and> mh_nmetas (ms_hdr (fst s')) = mh_nmetas (ms_hdr (fst s)) \<and> same_view (snd s) (snd s')"
  proof (cases force)
    case False
    with assms(3) s0 show ?thesis by (cases s) (auto simp: mm_reset_def s0_def)
  next
    case True
    define sl where "sl = (upd_hdr (\<lambda>h. h\<lparr>mh_mutex := 1\<rparr>) (fst s0), snd s0)"
    have m0: "mh_mutex (ms_hdr (fst s0)) = 0" using s0(1) mm_okD(1) by (auto simp: st_ok_def)
    obtain s2 where fa: "freeAll sl = s2" by simp
    obtain s1 nf where f: "freed_from sl (0, 0) 0 nf s1" "snd s2 = snd s1"
        "fst s2 = (if nf = 0 then upd_hdr (\<lambda>h. h\<lparr>mh_offset := 0\<rparr>) (fst s1) else fst s1)"
      using freeAll_spec [OF fa] .
    have s': "fst s' = (upd_hdr hdr_release (fst s2))\<lparr>ms_mem := memset_zero 0 (unat (mp_size (snd s2))) (ms_mem (fst s2))\<rparr>" (is ?thesis1) "snd s' = snd s2" (is ?thesis2)
    proof -
      have "\<exists>rc0. meta_reset s0 = Some (rc0, meta_release s2)"
        unfolding meta_reset_def acquire_free [OF m0] sl_def [symmetric] by (simp add: fa Let_def)
      then obtain rc0 where "meta_reset s0 = Some (rc0, meta_release s2)" by blast
      with True have "mm_reset force s = Some (rc0, ((upd_hdr hdr_release (fst s2))
          \<lparr>ms_mem := memset_zero 0 (unat (mp_size (snd s2))) (ms_mem (fst s2))\<rparr>, snd s2))"
        unfolding mm_reset_def split_def Let_def s0_def [symmetric] by simp
      with assms(3) show ?thesis1 ?thesis2 by auto
    qed
    have F: "ms_hdr (fst s1) = (ms_hdr (fst s))\<lparr>mh_mutex := 1\<rparr>" "mp_metas (snd s1) = mp_metas (snd s)" "same_view (snd s) (snd s1)"
        "\<And>q. released (ms_slots (fst s) q) (ms_slots (fst s1) q)"
      using f(1) s0 same_view_trans by (auto simp: freed_from_def sl_def)
    have ok1: "mm_ok n (upd_hdr hdr_release (fst s1))"
    proof (rule mm_ok_released [of n "fst s"])
      show "ms_hdr (upd_hdr hdr_release (fst s1)) = ms_hdr (fst s)" using m0 s0(3) F(1) by (simp add: hdr_release_def)
    qed (use s0 F(4) in \<open>simp_all add: st_ok_def\<close>)
    have "mm_ok n (fst s')"
    proof (cases "nf = 0")
      case True
      have "isFree (ms_slots (fst s1) q)" for q
      proof (cases "isFree (ms_slots (fst s) q)")
        case True
        then show ?thesis using F(4) [of q] by (auto simp: released_def)
      next
        case False
        then have "is_slot q" "fst q < mh_nmetas (ms_hdr (fst s))" using mm_okD(4,5) [of n "fst s" q] s0 by (simp_all add: st_ok_def)
        then show ?thesis using f(1) \<open>nf = 0\<close> assms(2) s0
          by (cases q) (auto simp: freed_from_def sl_def sees_all_def intro: le_less_trans)
      qed
      then have "mm_ok n (upd_hdr (\<lambda>h. h\<lparr>mh_offset := 0\<rparr>) (upd_hdr hdr_release (fst s1)))"
        using ok1 by (intro mm_ok_freed) simp_all
      moreover have "upd_hdr (\<lambda>h. h\<lparr>mh_offset := 0\<rparr>) (upd_hdr hdr_release sh) = upd_hdr hdr_release (upd_hdr (\<lambda>h. h\<lparr>mh_offset := 0\<rparr>) sh)" for sh
        by (rule mm_shared.equality; (rule mm_header.equality)?) simp_all
      ultimately show ?thesis using True unfolding s' f(3) by simp
    qed (use ok1 s' f(3) in simp)
    moreover have "mh_nmetas (ms_hdr (fst s')) = mh_nmetas (ms_hdr (fst s))" using s' f(3) F(1) by simp
    moreover from this have "pr_ok (fst s') (snd s')" using s0 F(2) s'(2) f(2) by (simp add: st_ok_def pr_ok_def)
    ultimately show ?thesis using s' f(2) F(3) s0 assms(1) by (simp add: st_ok_def same_view_def)
  qed
  then show "st_ok n s'" "mh_nmetas (ms_hdr (fst s')) = mh_nmetas (ms_hdr (fst s))" "same_view (snd s) (snd s')" by simp_all
qed

section \<open>Processes that share an arena\<close>

text \<open>
  The system: the shared state and the view of each process. A step is one call of one process; a call that needs the lock is one
  step, since it holds the lock from its first access to the shared state to its last. A process sets the manager up once
  (with the buffer at an address of its own), then allocates, frees and resets. \<open>E_reset True\<close> is the forced reset.
\<close>

type_synonym mm_sys = "mm_shared \<times> (nat \<Rightarrow> mm_proc)"

datatype mm_event = E_init | E_memalign | E_free | E_reset bool

inductive mm_step :: "size_t \<Rightarrow> mm_sys \<Rightarrow> mm_event \<Rightarrow> mm_sys \<Rightarrow> bool" for n where
  step_init: "mm_init2 gs heap_ok debug is_shm this mm buf n key new_align attrs (sh, ps p) = Some (rc, (sh', pr')) \<Longrightarrow>
     mm_step n (sh, ps) E_init (sh', ps(p := pr'))"
| step_memalign: "mp_enabled (ps p) \<Longrightarrow> request_ok (ps p) alignment bytes \<Longrightarrow>
     mm_memalign g memptr alignment bytes key f (sh, ps p) = Some (rc, a, (sh', pr')) \<Longrightarrow>
     mm_step n (sh, ps) E_memalign (sh', ps(p := pr'))"
| step_free: "mp_enabled (ps p) \<Longrightarrow> mm_free mem (sh, ps p) = (sh', pr') \<Longrightarrow> mm_step n (sh, ps) E_free (sh', ps(p := pr'))"
| step_reset: "mp_enabled (ps p) \<Longrightarrow> sees_all (sh, ps p) \<Longrightarrow> mm_reset force (sh, ps p) = Some (rc, (sh', pr')) \<Longrightarrow>
     mm_step n (sh, ps) (E_reset force) (sh', ps(p := pr'))"

inductive mm_run :: "size_t \<Rightarrow> mm_sys \<Rightarrow> mm_event list \<Rightarrow> mm_sys \<Rightarrow> bool" for n where
  run_nil: "mm_run n c [] c"
| run_snoc: "mm_run n c es c' \<Longrightarrow> mm_step n c' e c'' \<Longrightarrow> mm_run n c (es @ [e]) c''"

definition sys_start :: mm_sys where
  "sys_start = (new_shared, new_proc)"

definition mm_reach :: "size_t \<Rightarrow> mm_sys \<Rightarrow> bool" where
  "mm_reach n c \<longleftrightarrow> (\<exists>es. mm_run n sys_start es c)"

definition sys_ok :: "size_t \<Rightarrow> mm_sys \<Rightarrow> bool" where
  "sys_ok n c \<longleftrightarrow> mm_ok n (fst c) \<and> (\<forall>p. pr_ok (fst c) (snd c p) \<and> (mp_enabled (snd c p) \<longrightarrow> mp_size (snd c p) = n))"

lemma sys_okI:
  assumes "sys_ok n (sh, ps)" and "mm_ok n sh'" and "mh_nmetas (ms_hdr sh) \<le> mh_nmetas (ms_hdr sh')"
    and "pr_ok sh' pr'" and "mp_enabled pr' \<Longrightarrow> mp_size pr' = n"
  shows "sys_ok n (sh', ps(p := pr'))"
  using assms pr_ok_mono [of sh _ sh'] by (auto simp: sys_ok_def)

lemma meta_init_spec:
  assumes "meta_init mm g heap_ok key (sh, pr) = Some (sh', pr')" and "mm_ok n sh" and "pr_ok sh pr"
  shows "mm_ok n sh'" "mh_nmetas (ms_hdr sh) \<le> mh_nmetas (ms_hdr sh')" "pr_ok sh' pr'" "mp_size pr' = mp_size pr"
    "ms_slots sh' = ms_slots sh" "ms_mem sh' = ms_mem sh"
proof -
  consider (plain) "sh' = sh" "mp_metas pr' = mp_metas pr" "mp_size pr' = mp_size pr"
    | (pre) a where "sh' = upd_hdr (fold setMeta [0..<MMMAX_N_META]) sh" "mp_metas pr' = pre_metas a" "mp_size pr' = mp_size pr"
    using assms(1) by (auto simp: meta_init_def Let_def split: if_splits option.splits)
  then have "mm_ok n sh' \<and> mh_nmetas (ms_hdr sh) \<le> mh_nmetas (ms_hdr sh') \<and> pr_ok sh' pr' \<and> mp_size pr' = mp_size pr \<and>
      ms_slots sh' = ms_slots sh \<and> ms_mem sh' = ms_mem sh"
  proof cases
    case plain
    then show ?thesis using assms(2,3) by (simp add: pr_ok_def)
  next
    case pre
    have four: "[0..<MMMAX_N_META] = [0, 1, 2, 3]" by (simp add: MMMAX_N_META_def upt_rec)
    have m: "mh_nmetas (fold setMeta [0..<MMMAX_N_META] h) = max (mh_nmetas h) MMMAX_N_META"
        "mh_offset (fold setMeta [0..<MMMAX_N_META] h) = mh_offset h" "mh_mutex (fold setMeta [0..<MMMAX_N_META] h) = mh_mutex h" for h
      unfolding four by (simp_all add: MMMAX_N_META_def)
    have "same_use sh sh'" by (simp add: same_use_def pre(1) m)
    then have "mm_ok n sh'" by (rule mm_ok_same_use [OF assms(2)]) (simp add: pre(1) m mm_okD(1) [OF assms(2)])
    moreover have "pr_ok sh' pr'" unfolding pr_ok_def pre m by (simp add: pre_metas_def m less_max_iff_disj)
    ultimately show ?thesis using pre m by simp
  qed
  then show "mm_ok n sh'" "mh_nmetas (ms_hdr sh) \<le> mh_nmetas (ms_hdr sh')" "pr_ok sh' pr'" "mp_size pr' = mp_size pr"
    "ms_slots sh' = ms_slots sh" "ms_mem sh' = ms_mem sh" by simp_all
qed

lemma mm_start_Some:
  assumes "mm_start gs heap_ok is_shm mm (sh, pr) = Some (rc, (sh', pr'))"
  obtains pr2 where "meta_init (meta_mm (pm_attrs mm) is_shm) (gs (meta_mm (pm_attrs mm) is_shm)) heap_ok (Some (mp_name pr)) (sh, pr) = Some (sh', pr2)"
    "pr' = pr2\<lparr>mp_enabled := True\<rparr>"
  using assms by (auto simp: mm_start_def Let_def bind_eq_Some_conv)

lemma init2_cases:
  assumes "mm_init2 gs heap_ok debug is_shm this mm buf bytes key new_align attrs (sh, pr) = Some (rc, (sh', pr'))"
  obtains (inval) "sh' = sh" "pr' = pr"
    | (set) pr1 where "mm_start gs heap_ok is_shm mm (sh, pr1) = Some (rc, (sh', pr'))" "mp_metas pr1 = mp_metas pr" "mp_size pr1 = bytes"
proof (cases "attrs AND PAMI_MM_SCOPE \<noteq> 0")
  case True
  with assms have "sh' = sh" "pr' = pr" by (simp_all add: mm_init2_def Let_def split: if_splits)
  then show thesis by (rule inval)
next
  case False
  with assms have "\<exists>name al. mm_start gs heap_ok is_shm mm (sh, pr\<lparr>mp_name := name, mp_debug := debug, mp_attrs := pm_attrs mm OR attrs,
      mp_base := buf, mp_size := bytes, mp_alignment := al\<rparr>) = Some (rc, (sh', pr'))"
    unfolding mm_init2_def Let_def split_conv
    by (intro exI [of _ "case key of Some k \<Rightarrow> k | None \<Rightarrow> pm_name mm @ ''-0x'' @ print_base 16 (unat this)"]
          exI [of _ "if new_align < mp_alignment pr then mp_alignment pr else new_align"])
       (simp only: if_False not_True_eq_False option.distinct split: if_split_asm)
  then obtain name al where "mm_start gs heap_ok is_shm mm (sh, pr\<lparr>mp_name := name, mp_debug := debug, mp_attrs := pm_attrs mm OR attrs,
      mp_base := buf, mp_size := bytes, mp_alignment := al\<rparr>) = Some (rc, (sh', pr'))" by blast
  then show thesis by (rule set) simp_all
qed

theorem sys_ok_step: "mm_step n c e c' \<Longrightarrow> sys_ok n c \<Longrightarrow> sys_ok n c'"
proof (induction rule: mm_step.induct)
  case (step_init gs heap_ok debug is_shm this mm buf key new_align attrs sh ps p rc sh' pr')
  from step_init(1) show ?case
  proof (cases rule: init2_cases)
    case inval
    then show ?thesis using step_init by (simp add: fun_upd_idem_iff)
  next
    case (set pr1)
    have ok: "mm_ok n sh" "pr_ok sh pr1" using step_init(2) set(2) by (auto simp: sys_ok_def pr_ok_def)
    from set(1) obtain pr2 m g k where "meta_init m g heap_ok k (sh, pr1) = Some (sh', pr2)" and pr': "pr' = pr2\<lparr>mp_enabled := True\<rparr>"
      by (rule mm_start_Some)
    from meta_init_spec [OF this(1) ok] show ?thesis
      using step_init(2) set(3) by (intro sys_okI) (auto simp: pr_ok_def pr')
  qed
next
  case (step_memalign ps p alignment bytes g memptr key f sh rc a sh' pr')
  have "st_ok n (sh, ps p)" using step_memalign by (auto simp: sys_ok_def st_ok_def)
  from memalign_keeps [OF this _ step_memalign(3)] step_memalign show ?case
    by (intro sys_okI) (auto simp: st_ok_def)
next
  case (step_free ps p mem sh sh' pr')
  with mm_free_state [where mem = mem and s = "(sh, ps p)"] show ?case
    by (intro sys_okI) (auto simp: sys_ok_def same_view_def)
next
  case (step_reset ps p sh force rc sh' pr')
  have "st_ok n (sh, ps p)" using step_reset by (auto simp: sys_ok_def st_ok_def)
  from reset_keeps [OF this step_reset(2,3)] step_reset show ?case
    by (intro sys_okI) (auto simp: st_ok_def)
qed

lemma sys_ok_start: "sys_ok n sys_start"
  by (simp add: sys_ok_def sys_start_def mm_ok_new pr_ok_def new_proc_def)

lemma sys_ok_run: "mm_run n c es c' \<Longrightarrow> sys_ok n c \<Longrightarrow> sys_ok n c'"
  by (induction rule: mm_run.induct) (auto intro: sys_ok_step)

lemma sys_ok_reach: "mm_reach n c \<Longrightarrow> sys_ok n c"
  unfolding mm_reach_def using sys_ok_run sys_ok_start by blast

section \<open>A key and its memory\<close>

text \<open>Record \<open>q\<close> is the one that \<^verbatim>\<open>find\<close> sees_group for key \<open>k\<close>, and stays it: no record before it is free.\<close>

definition first_at :: "string \<Rightarrow> nat \<times> nat \<Rightarrow> mm_shared \<Rightarrow> bool" where
  "first_at k q sh \<longleftrightarrow> is_slot q \<and> \<not> misses sh k q \<and>
     (\<forall>q'. is_slot q' \<and> before q' q \<longrightarrow> \<not> isFree (ms_slots sh q') \<and> misses sh k q')"

lemma before_total: "q \<noteq> q' \<Longrightarrow> before q q' \<or> before q' q"
  by (cases q; cases q') (auto simp: before_def)

lemma first_at_same_use: "first_at k q sh \<Longrightarrow> same_use sh sh' \<Longrightarrow> first_at k q sh'"
  unfolding first_at_def using same_use_misses [of sh sh'] same_use_isFree [of sh sh'] by blast

lemma same_use_offset: "same_use sh sh' \<Longrightarrow> \<not> isFree (ms_slots sh q) \<Longrightarrow> ma_offset (ms_slots sh' q) = ma_offset (ms_slots sh q)"
  unfolding same_use_def by (cases q) simp

lemma first_at_cong:
  "ms_slots sh' = ms_slots sh \<Longrightarrow> first_at k q sh' = first_at k q sh"
  by (simp add: first_at_def misses_def)

lemma first_at_addRef: "first_at k q sh \<Longrightarrow> first_at k q (upd_slot q1 addRef sh)"
  unfolding first_at_def by (auto simp: misses_def isMatch_def)

lemma first_at_fresh:
  assumes "first_at k q sh" and "isFree (ms_slots sh q1)" and "is_slot q1"
  shows "first_at k q (upd_slot q1 g (upd_hdr h sh))" "q1 \<noteq> q"
proof -
  show "q1 \<noteq> q" using assms(1,2) by (auto simp: first_at_def misses_def)
  moreover have "\<not> before q1 q" using assms unfolding first_at_def by blast
  ultimately show "first_at k q (upd_slot q1 g (upd_hdr h sh))"
    using assms(1) unfolding first_at_def misses_def by (auto simp: fun_upd_other)
qed

lemma first_at_memalign:
  assumes "mm_memalign g memptr alignment bytes key f s = Some (rc, a, s')" and "pr_ok (fst s) (snd s)"
    and "mh_mutex (ms_hdr (fst s)) = 0" and k: "first_at k q (fst s)"
  shows "first_at k q (fst s') \<and> ma_offset (ms_slots (fst s') q) = ma_offset (ms_slots (fst s) q)"
proof -
  have used: "\<not> isFree (ms_slots (fst s) q)" using k by (simp add: first_at_def misses_def)
  show ?thesis
    using assms(1-3)
  proof (cases rule: memalign_cases)
    case refused
    then show ?thesis using first_at_same_use [OF k] same_use_offset [OF _ used] by blast
  next
    case (existing q1 k1 sh1)
    then show ?thesis
      using first_at_addRef [OF first_at_same_use [OF k], of sh1 q1] same_use_offset [OF existing(8) used] by (cases "q = q1") simp_all
  next
    case (fresh q1 sh1 v off key')
    have "first_at k q sh1" using first_at_same_use [OF k fresh(10)] .
    moreover have "isFree (ms_slots sh1 q1)" using fresh(7) same_use_isFree [OF fresh(10)] by simp
    ultimately have *: "first_at k q (upd_slot q1 x (upd_hdr y sh1))" "q1 \<noteq> q" for x y
      using first_at_fresh fresh(4) by blast+
    have "first_at k q (fst s')"
      unfolding fresh(14) by (subst first_at_cong [of _ "upd_slot q1 _ (upd_hdr _ sh1)"]) (simp, rule *(1))
    then show ?thesis using * same_use_offset [OF fresh(10) used] by (simp add: fresh(14))
  qed
qed

lemma first_at_step:
  "mm_step n c e c' \<Longrightarrow> sys_ok n c \<Longrightarrow> e \<noteq> E_reset True \<Longrightarrow> first_at k q (fst c) \<Longrightarrow>
     first_at k q (fst c') \<and> ma_offset (ms_slots (fst c') q) = ma_offset (ms_slots (fst c) q)"
proof (induction rule: mm_step.induct)
  case (step_init gs heap_ok debug is_shm this mm buf key new_align attrs sh ps p rc sh' pr')
  from step_init(1) have "ms_slots sh' = ms_slots sh"
  proof (cases rule: init2_cases)
    case (set pr1)
    have ok: "mm_ok n sh" "pr_ok sh pr1" using step_init(2) set(2) by (auto simp: sys_ok_def pr_ok_def)
    from set(1) obtain pr2 m g k where "meta_init m g heap_ok k (sh, pr1) = Some (sh', pr2)" by (rule mm_start_Some)
    from meta_init_spec(5) [OF this ok] show ?thesis .
  qed simp
  then show ?case using step_init(4) first_at_cong [of sh' sh k q] by simp
next
  case (step_memalign ps p alignment bytes g memptr key f sh rc a sh' pr')
  have "pr_ok sh (ps p)" "mm_ok n sh" using step_memalign(4) by (simp_all add: sys_ok_def)
  then show ?case using first_at_memalign [OF step_memalign(3)] step_memalign(6) mm_okD(1) by simp
next
  case (step_free ps p mem sh sh' pr')
  then show ?case using mm_free_state(1) [of mem "(sh, ps p)"] by simp
next
  case (step_reset ps p sh force rc sh' pr')
  then show ?case by (auto simp: mm_reset_def Let_def)
qed

lemma first_at_run:
  "mm_run n c es c' \<Longrightarrow> sys_ok n c \<Longrightarrow> E_reset True \<notin> set es \<Longrightarrow> first_at k q (fst c) \<Longrightarrow>
     sys_ok n c' \<and> first_at k q (fst c') \<and> ma_offset (ms_slots (fst c') q) = ma_offset (ms_slots (fst c) q)"
proof (induction rule: mm_run.induct)
  case (run_snoc c es c' e c'')
  then show ?case using first_at_step [OF run_snoc(2), of k q] sys_ok_step [OF run_snoc(2)] by auto
qed simp

lemma find_res_None:
  assumes "find_res g key s p None s1 s'" and "is_slot q" and "\<not> before q p" and "fst q < mh_nmetas (ms_hdr (fst s))"
    and "\<And>i. i \<le> fst q \<Longrightarrow> can_see g (snd s) i"
  shows "misses (fst s) key q"
proof -
  from assms(1) have "\<forall>q. is_slot q \<and> \<not> before q p \<and> fst q < mh_nmetas (ms_hdr (fst s)) \<and> (\<forall>i\<le>fst q. can_see g (snd s) i) \<longrightarrow> misses (fst s) key q"
    unfolding find_res_def option.case by (elim conjE)
  with assms(2-5) show ?thesis by blast
qed

lemma memalign_known:
  assumes "mm_ok n (fst s)" and "pr_ok (fst s) (snd s)" and "first_at k q (fst s)" and "k \<noteq> ''''" and "length k < MMKEYSIZE"
    and "\<And>i. i \<le> fst q \<Longrightarrow> can_see g (snd s) i"
  shows "\<exists>s'. mm_memalign g memptr alignment bytes (Some k) f s = Some (PAMI_SUCCESS, Some (mp_base (snd s) + ma_offset (ms_slots (fst s) q)), s') \<and>
     ms_mem (fst s') = ms_mem (fst s) \<and> mh_offset (ms_hdr (fst s')) = mh_offset (ms_hdr (fst s)) \<and>
     ma_ref_count (ms_slots (fst s') q) = ma_ref_count (ms_slots (fst s) q) + 1"
proof -
  note D = mm_okD [OF assms(1)]
  have q: "is_slot q" "\<not> misses (fst s) k q" "\<not> isFree (ms_slots (fst s) q)" "fst q < mh_nmetas (ms_hdr (fst s))"
    using assms(3) D(5) [of q] by (auto simp: first_at_def misses_def)
  obtain rc a s' where m: "mm_memalign g memptr alignment bytes (Some k) f s = Some (rc, a, s')"
    using memalign_returns [OF D(1) assms(2) D(6)] by (metis option.exhaust surj_pair)
  from m assms(2) D(1) show ?thesis
  proof (cases rule: memalign_cases)
    case refused
    define sl where "sl = (upd_hdr (\<lambda>h. h\<lparr>mh_mutex := 1\<rparr>) (fst s), snd s)"
    obtain r s2 where fk: "find_key g k sl = (r, s2)" by (rule prod.exhaust)
    obtain s1 where f: "find_res g k sl (0, 0) r s1 s2" using find_key_spec [OF fk] .
    have "r \<noteq> None"
    proof
      assume "r = None"
      with f have "misses (fst sl) k q" using q assms(6) by (intro find_res_None [of g k sl "(0, 0)" s1 s2]) (simp_all add: sl_def)
      then show False using q(2) by (simp add: sl_def misses_def)
    qed
    then obtain q1 where "r = Some q1" by blast
    with fk have "memalign_locked g memptr (eff_align alignment (snd s)) bytes (Some k) s = Some (Existing q1, Some k, meta_release s2)"
      using assms(4) unfolding memalign_locked_def acquire_free [OF D(1)] sl_def [symmetric] by simp
    with m assms(5) have "memalign_finish bytes (Some k) f (Existing q1) (meta_release s2) = Some (rc, a, s')"
      by (simp add: mm_memalign_def eff_align_def Let_def)
    then have "rc = PAMI_SUCCESS" by (auto simp: memalign_finish_def split_def bind_eq_Some_conv)
    with refused show ?thesis by simp
  next
    case (existing q1 k1 sh1)
    then have kk: "k1 = k" by simp
    have "\<not> before q q1" using existing(7) [of q] q unfolding kk by blast
    moreover have "\<not> before q1 q" using assms(3) existing(5,6) unfolding first_at_def kk by blast
    ultimately have [simp]: "q1 = q" using before_total by blast
    have "ma_ref_count (ms_slots sh1 q) = ma_ref_count (ms_slots (fst s) q)" "ms_mem sh1 = ms_mem (fst s)"
        "mh_offset (ms_hdr sh1) = mh_offset (ms_hdr (fst s))"
      using existing(8) unfolding same_use_def by (cases q; simp)+
    with m existing(1,2,9) show ?thesis by simp
  next
    case (fresh q1 sh1 v off key')
    have "q1 \<noteq> q" using fresh(7) q(3) by auto
    then show ?thesis
    proof (cases "before q q1")
      case True
      then show ?thesis using fresh(17) [OF refl assms(4) q(1) True q(4) assms(6)] q(2) by simp
    next
      case False
      with \<open>q1 \<noteq> q\<close> have "before q1 q" using before_total by blast
      then have False using assms(3) fresh(4,7) unfolding first_at_def by blast
      then show ?thesis ..
    qed
  qed
qed

text \<open>The first user of a key gets a new, aligned piece of the arena.\<close>

lemma memalign_first:
  assumes "st_ok n s" and "request_ok (snd s) alignment bytes" and "\<And>q. misses (fst s) k q" and "k \<noteq> ''''" and "length k < MMKEYSIZE"
    and "mm_memalign g memptr alignment bytes (Some k) f s = Some (PAMI_SUCCESS, Some a, s')"
  obtains q where "first_at k q (fst s')" "a = mp_base (snd s) + ma_offset (ms_slots (fst s') q)" "aligned_at a (eff_align alignment (snd s))"
    "unat (mp_base (snd s)) \<le> unat a" "unat a + unat bytes \<le> unat (mp_base (snd s)) + unat n"
    "ma_ref_count (ms_slots (fst s') q) = 1" "ms_mem (fst s') = run_init f (a - mp_base (snd s)) bytes (Some k) (mp_attrs (snd s)) (ms_mem (fst s))"
    "fst q < MMMAX_N_META"
proof -
  have ok: "mm_ok n (fst s)" "pr_ok (fst s) (snd s)" "mp_size (snd s) = n" using assms(1) by (simp_all add: st_ok_def)
  note D = mm_okD [OF ok(1)]
  from assms(6) ok(2) D(1) show thesis
  proof (cases rule: memalign_cases)
    case refused
    then show thesis by simp
  next
    case (existing q k1 sh1)
    then show thesis using assms(3) [of q] by simp
  next
    case (fresh q sh1 v off key')
    have kk: "key' = Some k" using fresh(16) assms(4) by simp
    have "mh_offset (ms_hdr (fst s)) \<le> mp_size (snd s)" using D(3) ok(3) by simp
    note fit = request_fits [OF assms(2) this fresh(3,9)]
    have a: "a = mp_base (snd s) + off" using fresh(2) by simp
    have miss1: "misses sh1 k q'" "isFree (ms_slots sh1 q') = isFree (ms_slots (fst s) q')" for q'
      using same_use_misses [OF fresh(10)] same_use_isFree [OF fresh(10)] assms(3) by blast+
    define m where "m = initDone (fresh_alloc off bytes (off - mh_offset (ms_hdr (fst s))) (mp_pid (snd s)) v key' (ms_slots sh1 q))"
    have sl: "ms_slots (fst s') = (ms_slots sh1)(q := m)" unfolding fresh(14) m_def by simp
    have mk: "\<not> isFree m" "isMatch m k" "ma_offset m = off" "ma_ref_count m = ma_ref_count (ms_slots sh1 q) + 1"
      using assms(4) by (simp_all add: m_def kk isMatch_def)
    have "first_at k q (fst s')"
      unfolding first_at_def misses_def sl
      using fresh(4,8) mk miss1 by (auto simp: misses_def before_def)
    moreover have "ma_ref_count (ms_slots (fst s') q) = 1"
      using sl mk(4) fresh(7,10) D(9) [of q] by (cases q) (auto simp: same_use_def)
    moreover have "ms_mem (fst s') = run_init f (a - mp_base (snd s)) bytes (Some k) (mp_attrs (snd s)) (ms_mem (fst s))"
      unfolding fresh(14) by (simp add: kk a)
    ultimately show thesis
      using fit fresh(5) ok(3) by (intro that [of q]) (simp_all add: a sl mk)
  qed
qed

section \<open>The properties\<close>



section \<open>Witnesses\<close>

text \<open>Two processes map an arena of 1024 bytes at different addresses; the meta data comes from the shared memory manager.\<close>

definition demo_g :: meta_source where
  "demo_g = (\<lambda>_. Some 65536)"

definition demo_parent :: mm_parent where
  "demo_parent = \<lparr>pm_attrs = PAMI_MM_NODESCOPE, pm_name = ''/shm'', pm_memalign = (\<lambda>_ _ key. Inr (4096, key))\<rparr>"

definition demo_proc :: "nat \<Rightarrow> size_t \<Rightarrow> mm_proc" where
  "demo_proc pid base = (new_proc pid)\<lparr>mp_name := ''m'', mp_base := base, mp_size := 1024, mp_key_fmt := Some ''m-'', mp_attrs := 2,
     mp_enabled := True\<rparr>"

definition demo_view :: "nat \<Rightarrow> mm_proc" where
  "demo_view = new_proc(0 := demo_proc 0 4096, 1 := demo_proc 1 8192)"

lemma demo_init:
  "mm_init2 (\<lambda>_. demo_g) True False False 0 demo_parent base 1024 (Some ''m'') 1 0 (new_shared, new_proc pid) =
     Some (PAMI_SUCCESS, (new_shared, demo_proc pid base))"
  by (simp add: mm_init2_def mm_start_def meta_init_def meta_mm_def metaAlloc_def demo_g_def demo_parent_def demo_proc_def new_proc_def
    power_of_two_or_zero_def PAMI_MM_SCOPE_def PAMI_MM_PROCSCOPE_def PAMI_MM_NODESCOPE_def MMKEYSIZE_def meta_key_fmt_def)

lemma demo_reach: "mm_reach 1024 (new_shared, demo_view)"
proof -
  have "mm_step 1024 sys_start E_init (new_shared, new_proc(0 := demo_proc 0 4096))"
    unfolding sys_start_def using demo_init [of 4096 0] by (rule step_init [where ps = new_proc and p = 0])
  then have "mm_run 1024 sys_start ([] @ [E_init]) (new_shared, new_proc(0 := demo_proc 0 4096))"
    by (rule run_snoc [OF run_nil])
  moreover have "mm_step 1024 (new_shared, new_proc(0 := demo_proc 0 4096)) E_init (new_shared, demo_view)"
    unfolding demo_view_def using demo_init [of 8192 1]
    by (intro step_init [where p = 1 and ps = "new_proc(0 := demo_proc 0 4096)" and n = 1024]) simp
  ultimately have "mm_run 1024 sys_start (([] @ [E_init]) @ [E_init]) (new_shared, demo_view)" by (rule run_snoc)
  then show ?thesis unfolding mm_reach_def by blast
qed

definition demo_first :: "(pami_result \<times> size_t option \<times> mm_state) option" where
  "demo_first = mm_memalign demo_g 0 64 100 (Some ''k'') (Some memzero) (new_shared, demo_proc 0 4096)"

definition demo_shared :: mm_shared where
  "demo_shared = fst (snd (snd (the demo_first)))"

lemma demo_first_value:
  "case demo_first of Some (rc, a, s) \<Rightarrow> rc = PAMI_SUCCESS \<and> a = Some 4096 \<and> \<not> isFree (ms_slots (fst s) (0, 0)) | None \<Rightarrow> False"
  by code_simp

lemma demo_request: "request_ok (demo_proc 0 4096) 64 100"
proof -
  have "is_pow2 (2 ^ 6)" unfolding is_pow2_def by (intro image_eqI [of _ _ 6] list.set_map [THEN equalityD2, THEN subsetD]) auto
  then show ?thesis by (simp add: request_ok_def eff_align_def demo_proc_def new_proc_def)
qed

lemma demo_first_Some:
  obtains pr where "demo_first = Some (PAMI_SUCCESS, Some 4096, (demo_shared, pr))" "\<not> isFree (ms_slots demo_shared (0, 0))"
proof (cases demo_first)
  case None
  then show thesis using demo_first_value by simp
next
  case (Some t)
  obtain rc a sh pr where t: "t = (rc, a, (sh, pr))" by (metis prod_cases4)
  have v: "rc = PAMI_SUCCESS" "a = Some 4096" "\<not> isFree (ms_slots sh (0, 0))"
    using demo_first_value unfolding Some t by simp_all
  have "demo_shared = sh" by (simp add: demo_shared_def Some t)
  with Some t v show thesis by (intro that [of pr]) simp_all
qed

lemma new_shared_misses: "misses new_shared k q"
  by (simp add: misses_def new_shared_def zero_alloc_def isFree_def)

lemma demo_view_simps [simp]:
  "demo_view 0 = demo_proc 0 4096" "demo_view (Suc 0) = demo_proc 1 8192" "mp_enabled (demo_proc pid base)" "mp_base (demo_proc pid base) = base"
  by (simp_all add: demo_view_def demo_proc_def)

lemma demo_reach_first:
  obtains pr where "mm_reach 1024 (demo_shared, demo_view(0 := pr))" "\<not> isFree (ms_slots demo_shared (0, 0))"
proof -
  obtain pr where f: "demo_first = Some (PAMI_SUCCESS, Some 4096, (demo_shared, pr))" "\<not> isFree (ms_slots demo_shared (0, 0))"
    by (rule demo_first_Some)
  obtain es where "mm_run 1024 sys_start es (new_shared, demo_view)" using demo_reach unfolding mm_reach_def by blast
  moreover have "mm_step 1024 (new_shared, demo_view) E_memalign (demo_shared, demo_view(0 := pr))"
    using f(1) demo_request unfolding demo_first_def
    by (intro step_memalign [where p = 0 and alignment = 64 and bytes = 100]) simp_all
  ultimately have "mm_run 1024 sys_start (es @ [E_memalign]) (demo_shared, demo_view(0 := pr))" by (rule run_snoc)
  then show thesis using f(2) by (intro that) (auto simp: mm_reach_def)
qed



end
