(* ===== verification/Pami_MemoryLimits.thy ===== *)
theory Pami_MemoryLimits
  imports Pami_MemoryArena
begin

text \<open>
  Where the memory manager does not do what its comments say: each lemma runs the model on a concrete sequence of calls. The
  arena has 1024 bytes, the processes are those of the witnesses.
\<close>

definition do_alloc :: "size_t \<Rightarrow> size_t \<Rightarrow> string \<Rightarrow> mm_state \<Rightarrow> mm_state" where
  "do_alloc al bytes k s = snd (snd (the (mm_memalign demo_g 0 al bytes (Some k) None s)))"

definition do_reset :: "mm_state \<Rightarrow> mm_state" where
  "do_reset s = snd (the (mm_reset True s))"

text \<open>
  \<^verbatim>\<open>_freeAll\<close> calls \<^verbatim>\<open>free\<close>, which unmarks the record of the last \<^verbatim>\<open>find\<close> and not the one it frees. The mark that stays behind
  makes the next reset of this process release a record that another process has allocated since.
\<close>

definition stale_one :: mm_state where
  "stale_one = do_reset (do_alloc 8 16 ''b'' (do_alloc 8 16 ''a'' (new_shared, demo_proc 0 4096)))"

lemma reset_leaves_mark: "isFree (ms_slots (fst stale_one) (0, 1)) \<and> isMarked 1 (snd stale_one)"
  by code_simp

text \<open>Then another process allocates two records; the first process has no reference to either.\<close>

definition used_alloc :: "string \<Rightarrow> size_t \<Rightarrow> mm_alloc" where
  "used_alloc k off = \<lparr>ma_ref_count = 1, ma_init_done = True, ma_key = k, ma_offset = off, ma_userSize = 16, ma_rawSize = 16\<rparr>"

definition foreign_shared :: mm_shared where
  "foreign_shared = \<lparr>ms_hdr = \<lparr>mh_mutex = 0, mh_offset = 32, mh_nmetas = 1\<rparr>,
     ms_slots = (\<lambda>_. zero_alloc)((0, 0) := used_alloc ''c'' 0, (0, 1) := used_alloc ''d'' 16), ms_mem = (\<lambda>_. 0)\<rparr>"

definition stale_view :: mm_proc where
  "stale_view = (demo_proc 0 4096)\<lparr>mp_metas := [0 \<mapsto> 65536], mp_my_metas := (\<lambda>_. 0)(0 := 2)\<rparr>"

lemma stale_view_marks: "isMarked 1 stale_view \<and> \<not> isMarked 0 stale_view"
  by code_simp

lemma reset_frees_foreign:
  "\<not> isFree (ms_slots foreign_shared (0, 1)) \<and> isFree (ms_slots (fst (do_reset (foreign_shared, stale_view))) (0, 1))"
  by code_simp

text \<open>
  The bit vector has \<^verbatim>\<open>MAX_NUM_META() / 8\<close> = 85 bytes but is read and written in words of 8 bytes: the last of its words ends
  after byte 88.
\<close>

lemma bit_vector_too_short: "MAX_NUM_META div 8 = 85 \<and> 8 * ((MAX_NUM_META - 1) div 64) + 8 = 88"
  by code_simp

text \<open>\<^verbatim>\<open>m->offset() + len > max\<close> wraps around: a huge request is granted, and the fill level goes down.\<close>

definition wrapped :: "(pami_result \<times> size_t option \<times> mm_state) option" where
  "wrapped = mm_memalign demo_g 0 8 18446744073709551600 (Some ''big'') None (do_alloc 8 32 ''a'' (new_shared, demo_proc 0 4096))"

lemma huge_request_granted:
  "case wrapped of Some (rc, a, s) \<Rightarrow> rc = PAMI_SUCCESS \<and> a = Some 4128 \<and> spaceUsed s = 16 | None \<Rightarrow> False"
  by code_simp

text \<open>
  A process that has not attached the groups yet finds no record, counts none as left over, and resets the fill level
  under the allocation of another process; the next allocation overlaps it.
\<close>

definition unseen_reset :: mm_state where
  "unseen_reset = do_alloc 8 16 ''b'' (do_reset (fst (do_alloc 8 64 ''a'' (new_shared, demo_proc 0 4096)), demo_proc 1 8192))"

lemma reset_overlaps:
  "let sh = fst unseen_reset in
     \<not> isFree (ms_slots sh (0, 0)) \<and> ma_offset (ms_slots sh (0, 0)) = 0 \<and> ma_userSize (ms_slots sh (0, 0)) = 64 \<and>
     \<not> isFree (ms_slots sh (0, 1)) \<and> ma_offset (ms_slots sh (0, 1)) = 0"
  by code_simp

text \<open>
  Nothing clears \<^verbatim>\<open>_init_done\<close>: a record that is used again is marked as initialised before its initialiser runs, so a second
  user of the key does not wait.
\<close>

definition reused :: "(mm_found \<times> string option \<times> mm_state) option" where
  "reused = memalign_locked demo_g 0 8 16 (Some ''a'') (do_reset (do_alloc 8 16 ''a'' (new_shared, demo_proc 0 4096)))"

lemma init_done_stale:
  "case reused of Some (found, k, s) \<Rightarrow> found = Fresh (0, 0) \<and> ma_init_done (ms_slots (fst s) (0, 0)) | None \<Rightarrow> False"
  by code_simp

text \<open>\<^verbatim>\<open>available(alignment)\<close> ignores the alignment: that many bytes with that alignment may not fit.\<close>

definition nearly_full :: mm_state where
  "nearly_full = do_alloc 8 8 ''a'' (new_shared, demo_proc 0 4096)"

lemma available_too_large:
  "(case mm_available 64 nearly_full of Some n \<Rightarrow> n = 1016 | None \<Rightarrow> False) \<and>
   (case mm_memalign demo_g 0 64 1016 (Some ''b'') None nearly_full of Some (rc, _) \<Rightarrow> rc = PAMI_ERROR | None \<Rightarrow> False)"
  by code_simp

text \<open>An unnamed allocation gets a key made of the address of the caller's variable: two of them can get the same key.\<close>

definition unnamed_twice :: mm_state where
  "unnamed_twice = do_alloc 8 16 '''' (do_alloc 8 16 '''' (new_shared, demo_proc 0 4096))"

lemma unnamed_key_not_unique:
  "let sh = fst unnamed_twice in
     ma_key (ms_slots sh (0, 0)) = ma_key (ms_slots sh (0, 1)) \<and> ma_offset (ms_slots sh (0, 0)) \<noteq> ma_offset (ms_slots sh (0, 1)) \<and>
     \<not> isFree (ms_slots sh (0, 1))"
  by code_simp

end
