(* ===== verification/Spec2Isabelle.thy ===== *)
theory Spec2Isabelle
  imports Pami_CircularQueue Pami_PipeVarieties Pami_BgqPeers Pami_Barriers Pami_Ring Pami_MemoryLimits
begin

text \<open>
  Verification of the PAMI messaging library (\<^verbatim>\<open>src/\<close>): the layers that carry its own
  algorithms, below the network devices and above them. Each theory names the source file it models and keeps the
  names of its functions; this header says how the parts fit together and what is shown of each.

  \<^bold>\<open>The program.\<close> PAMI moves messages between the tasks of a parallel machine. A \<^emph>\<open>mapping\<close> translates task
  numbers into torus coordinates and node addresses; a \<^emph>\<open>topology\<close> is a set of tasks or endpoints in one of several
  representations, built on the mapping; a \<^emph>\<open>type\<close> is a small program that describes the layout of a buffer and is run
  by a machine that copies, packs and reduces data; a \<^emph>\<open>pipe work queue\<close> hands bytes from one producer to one consumer; the
  intrusive \<^emph>\<open>queues\<close> hold pending work; a collective operation follows a \<^emph>\<open>schedule\<close>, which an \<^emph>\<open>executor\<close> carries out phase
  by phase with multicasts.

  \<^bold>\<open>Conventions\<close> (\<^verbatim>\<open>Pami_Prelude\<close>). \<^verbatim>\<open>size_t\<close> is \<^typ>\<open>64 word\<close>, \<^verbatim>\<open>unsigned\<close> and task
  numbers are \<^typ>\<open>32 word\<close>, with the wrap-around of the machine; stateful code passes its state as a record; a result code is
  a value of a sum type; an abort, a failed assertion, a wild pointer or a loop without end is \<open>None\<close>.

  \<^bold>\<open>Queues.\<close> \<^verbatim>\<open>Pami_QueueInterface\<close> states the contract of \<^verbatim>\<open>util/queue/QueueInterface.h\<close> as locales over the
  operations; \<^verbatim>\<open>Pami_Queue\<close> (\<^verbatim>\<open>Queue.h\<close>: links, head, tail, iterator) and \<^verbatim>\<open>Pami_CircularQueue\<close>
  (\<^verbatim>\<open>CircularQueue.h\<close>) interpret it. Shown: every program of calls behaves as on a list (refinement), removal while
  iterating, removal of many, merging.

  \<^bold>\<open>Types.\<close> \<^verbatim>\<open>Pami_TypeCode\<close>, \<^verbatim>\<open>Pami_TypeBuild\<close>, \<^verbatim>\<open>Pami_TypeComplete\<close> (\<^verbatim>\<open>common/type/TypeCode.h\<close>: the
  code buffer and its construction), \<^verbatim>\<open>Pami_TypeLayout\<close> (the layout a type stands for, the abstract specification),
  \<^verbatim>\<open>Pami_TypeFunc\<close> (\<^verbatim>\<open>TypeFunc.h\<close>, \<^verbatim>\<open>MathInterface.h\<close>: copy and reduction functions),
  \<^verbatim>\<open>Pami_TypeMachine\<close>, \<^verbatim>\<open>Pami_TypeRun\<close>, \<^verbatim>\<open>Pami_TypeMemory\<close> (\<^verbatim>\<open>TypeMachine.h\<close>: the interpreter,
  its cursor and its effect on memory), \<^verbatim>\<open>Pami_TypeApi\<close>, \<^verbatim>\<open>Pami_TypeTransform\<close> (\<^verbatim>\<open>api/c/pami_type.cc\<close>).
  Shown: a built type means the layout it was built from; the machine moves exactly the bytes of that layout, in any pieces;
  \<^verbatim>\<open>PAMI_Type_transform_data\<close> equals the copy of the layout; serialisation round-trips; completion checks the atom size.
  The machine runs with fuel, and the theorems give the amount that is enough for the bytes asked for.

  \<^bold>\<open>Pipe work queues.\<close> \<^verbatim>\<open>Pami_PipeWorkQueue\<close> (\<^verbatim>\<open>common/default/PipeWorkQueue.h\<close>), \<^verbatim>\<open>Pami_PipeStream\<close> (producer
  and consumer as an interleaved step relation over a locale) and \<^verbatim>\<open>Pami_PipeVarieties\<close> (the circular and the flat queue
  interpret it). Shown: what comes out is a prefix of what went in, whatever the interleaving, and a queue with bytes or room
  lets a side go on.

  \<^bold>\<open>Mapping.\<close> \<^verbatim>\<open>Pami_BgqMapping\<close> (\<^verbatim>\<open>common/bgq/Mapping.h\<close>, \<^verbatim>\<open>BgqMapCache.h\<close>, the loops of
  \<^verbatim>\<open>Global.h\<close> that fill the cache), \<^verbatim>\<open>Pami_BgqCache\<close> and \<^verbatim>\<open>Pami_BgqPeers\<close> (what the filled tables say),
  \<^verbatim>\<open>Pami_Radix\<close> (mixed radix numbers). Shown: tasks, coordinates and nodes translate without loss, flags never disturb
  coordinates, local peers are numbered exactly. The coordinates that the kernel reports are a parameter with the hypothesis
  \<^verbatim>\<open>kernel_ok\<close>: in range and without repetition.

  \<^bold>\<open>Topologies.\<close> \<^verbatim>\<open>Pami_Topology\<close>, \<^verbatim>\<open>Pami_TopologyOps\<close> (\<^verbatim>\<open>common/default/Topology.h\<close>),
  \<^verbatim>\<open>Pami_Rectangle\<close>, \<^verbatim>\<open>Pami_TopologySets\<close> (the locale \<^verbatim>\<open>torus_mapping\<close>, interpreted by the
  Blue Gene/Q mapping), \<^verbatim>\<open>Pami_TopologyAlgebra\<close>, \<^verbatim>\<open>Pami_TopologyProps\<close>. Shown: indices and tasks correspond,
  conversions keep the tasks, intersection and difference are those of sets where the source handles the pair of
  representations, walks end, subtopologies by locality, endpoints of all contexts; and, as lemmas, where the source is wrong.

  \<^bold>\<open>Collective schedules.\<close> \<^verbatim>\<open>Pami_MultinomialMap\<close> (\<^verbatim>\<open>algorithms/schedule/MultinomialMap.h\<close>) and
  \<^verbatim>\<open>Pami_MultinomialTree\<close> (\<^verbatim>\<open>MultinomialTree.h\<close>) model how a process computes its partners of each phase;
  \<^verbatim>\<open>Pami_Digits\<close>, \<^verbatim>\<open>Pami_MultinomialPlace\<close> and \<^verbatim>\<open>Pami_MultinomialPhases\<close> compute them in closed form, on natural
  numbers. \<^verbatim>\<open>Pami_ScheduleSpec\<close> says what a schedule is for (who has contributed, heard, been informed after a number of
  phases), and \<^verbatim>\<open>Pami_Schedules\<close> shows it of the trees that all processes of a group of endpoints build: allreduce and
  broadcast in any radix and reduction in radix two are complete, with sends and receives that match; a reduction in radix four is
  not. \<^verbatim>\<open>Pami_ScheduleCache\<close> (\<^verbatim>\<open>algorithms/executor/ScheduleCache.h\<close>): the buffer is tiled by its parts and the cache
  answers what the schedule answers. \<^verbatim>\<open>Pami_Ring\<close> (\<^verbatim>\<open>RingSchedule.h\<close>) models the ring: broadcast and reduction are
  complete, and so is allreduce, where however the tail expects the result a phase too early, which the executor tolerates.

  \<^bold>\<open>Barrier.\<close> \<^verbatim>\<open>Pami_BarrierExec\<close> (\<^verbatim>\<open>algorithms/executor/Barrier.h\<close>) models the executor, one function per
  handler. \<^verbatim>\<open>Pami_BarrierRun\<close> runs one executor per process as a step relation: a start, the delivery of a message, the
  completion of a send, in any order; a multicast delivers each message once. The client starts the next barrier after, not inside,
  the callback of the last. The locale \<^verbatim>\<open>barrier_schedule\<close> of \<^verbatim>\<open>Pami_BarrierSpec\<close> states what a barrier needs of
  a schedule and proves the counting argument (messages carry one bit of the iteration and counters have eight bits); the locale
  \<^verbatim>\<open>barrier_run\<close> adds the executor; \<^verbatim>\<open>Pami_Barriers\<close> interprets both by the multinomial schedules of a group. Shown:
  no process is told of completion before all have started, no assertion fails, and a barrier that all have started completes. The
  bound of \<open>2 ^ 23\<close> processes is that of the 24 phases of the executor.

  \<^bold>\<open>Not modelled.\<close> The devices (\<^verbatim>\<open>components/devices\<close>) write hardware registers and shared memory through
  platform libraries that are not in the repository, and the point-to-point protocols (\<^verbatim>\<open>p2p\<close>) are templates over them; the
  atomics (\<^verbatim>\<open>components/atomic\<close>) wrap machine instructions; \<^verbatim>\<open>Client\<close>, \<^verbatim>\<open>Context\<close> and
  \<^verbatim>\<open>Global\<close> of each platform make system calls and assemble devices; \<^verbatim>\<open>api\<close> casts handles and forwards;
  the kernels of \<^verbatim>\<open>math\<close> are assembly or SIMD; registration and factories (\<^verbatim>\<open>algorithms/geometry\<close>,
  \<^verbatim>\<open>algorithms/protocols\<close>) are template plumbing. Tracing and printing have no effect on the state and are left out of
  the operations that do them. The memory managers, the packet fifos, the executors that move data, the rectangle schedules and
  \<^verbatim>\<open>EnumerateBlocks\<close> of the type machine are not modelled yet.
\<close>

end
